(* ===== verification/Kaname_Prelude.thy ===== *)
theory Kaname_Prelude
  imports
    Main
    "HOL-Library.Char_ord"
    "HOL-Library.List_Lexorder"
    "HOL-Library.Sublist"
    "HOL-Library.Multiset"
begin

text \<open>
  Shared vocabulary of the development: the parts of the Go standard library that the
  modelled packages call on strings and slices, the result type of fallible operations,
  the representation of time, and the generic list lemmas that the component theories
  rely on.

  A Go string is a sequence of bytes and is modelled by \<^typ>\<open>string\<close>, a list of the
  256 characters. \<open>strings.ToLower\<close> and \<open>strings.TrimSpace\<close> are modelled on ASCII bytes
  (their behaviour on strings whose bytes are all below 128); every place where the code
  relies on them deals with tokens that a grammar of the code confines to ASCII.
\<close>

named_theorems go_string "definitions of the string helpers of the Go standard library"
named_theorems verdict "definitions of the accept / refuse predicates of the components"

subsection \<open>Results\<close>

text \<open>
  A Go function that returns \<open>(value, error)\<close> yields a sum: \<open>Inl\<close> carries the error,
  \<open>Inr\<close> the value. A validator that only accumulates errors (\<open>multierr.Append\<close>) yields
  the list of errors, empty for \<open>nil\<close>.
\<close>

type_synonym ('e, 'a) result = "'e + 'a"

fun is_ok :: "('e, 'a) result \<Rightarrow> bool" where
  "is_ok (Inl _) = False"
| "is_ok (Inr _) = True"

lemma is_ok_projr: "is_ok x \<Longrightarrow> x = Inr (projr x)"
  by (cases x) simp_all

subsection \<open>Time\<close>

text \<open>
  An instant is its distance from the Unix epoch in nanoseconds. The zero value of
  \<open>time.Time\<close> is the first of January of year 1, UTC. A duration is a number of
  nanoseconds.
\<close>

type_synonym instant = int
type_synonym duration = int

definition zero_time :: instant where
  "zero_time = - 62135596800000000000"

definition is_zero_time :: "instant \<Rightarrow> bool" where
  "is_zero_time t \<longleftrightarrow> t = zero_time"

subsection \<open>Bytes and character classes\<close>

definition byte :: "char \<Rightarrow> nat" where
  [go_string]: "byte c = of_char c"

definition is_lower :: "char \<Rightarrow> bool" where
  [go_string]: "is_lower c \<longleftrightarrow> 97 \<le> byte c \<and> byte c \<le> 122"

definition is_upper :: "char \<Rightarrow> bool" where
  [go_string]: "is_upper c \<longleftrightarrow> 65 \<le> byte c \<and> byte c \<le> 90"

definition is_digit :: "char \<Rightarrow> bool" where
  [go_string]: "is_digit c \<longleftrightarrow> 48 \<le> byte c \<and> byte c \<le> 57"

definition is_space :: "char \<Rightarrow> bool" where
  [go_string]: "is_space c \<longleftrightarrow> byte c \<in> {9, 10, 11, 12, 13, 32}"

text \<open>The classes of the regular expressions used by several components.\<close>

definition is_ident_char :: "char \<Rightarrow> bool" where
  \<comment> \<open>\<open>[a-zA-Z0-9_-]\<close>\<close>
  [go_string]: "is_ident_char c \<longleftrightarrow>
     is_lower c \<or> is_upper c \<or> is_digit c \<or> c = CHR ''_'' \<or> c = CHR ''-''"

subsection \<open>Strings\<close>

definition to_lower_char :: "char \<Rightarrow> char" where
  [go_string]: "to_lower_char c = (if is_upper c then char_of (byte c + 32) else c)"

definition to_lower :: "string \<Rightarrow> string" where
  [go_string]: "to_lower s = map to_lower_char s"

definition trim_space :: "string \<Rightarrow> string" where
  [go_string]: "trim_space s = rev (dropWhile is_space (rev (dropWhile is_space s)))"

text \<open>\<open>strings.HasPrefix\<close>, \<open>strings.ContainsAny\<close> and \<open>strings.Cut\<close> with a one-byte separator.\<close>

definition has_prefix :: "string \<Rightarrow> string \<Rightarrow> bool" where
  [go_string]: "has_prefix s p \<longleftrightarrow> take (length p) s = p"

definition contains_any :: "string \<Rightarrow> string \<Rightarrow> bool" where
  [go_string]: "contains_any s cs \<longleftrightarrow> list_ex (\<lambda>c. c \<in> set cs) s"

definition cut_byte :: "char \<Rightarrow> string \<Rightarrow> string \<times> string \<times> bool" where
  [go_string]: "cut_byte c s = (takeWhile (\<lambda>x. x \<noteq> c) s, drop 1 (dropWhile (\<lambda>x. x \<noteq> c) s), c \<in> set s)"

fun split_byte :: "char \<Rightarrow> string \<Rightarrow> string list" where
  "split_byte c [] = [[]]"
| "split_byte c (x # xs) =
     (if x = c then [] # split_byte c xs
      else (case split_byte c xs of [] \<Rightarrow> [[x]] | p # ps \<Rightarrow> (x # p) # ps))"

fun join_with :: "string \<Rightarrow> string list \<Rightarrow> string" where
  "join_with sep [] = []"
| "join_with sep [p] = p"
| "join_with sep (p # q # ps) = p @ sep @ join_with sep (q # ps)"

lemma byte_char_of: "n < 256 \<Longrightarrow> byte (char_of n) = n"
  by (simp add: byte_def)

lemma to_lower_char_idem [simp]: "to_lower_char (to_lower_char c) = to_lower_char c"
  by (simp add: to_lower_char_def is_upper_def byte_char_of)

lemma to_lower_idem [simp]: "to_lower (to_lower s) = to_lower s"
  by (simp add: to_lower_def)

lemma is_space_to_lower_char [simp]: "is_space (to_lower_char c) = is_space c"
  by (auto simp: to_lower_char_def is_upper_def is_space_def byte_char_of)

lemma hd_dropWhile_space: "dropWhile is_space s \<noteq> [] \<Longrightarrow> \<not> is_space (hd (dropWhile is_space s))"
  by (rule hd_dropWhile)

lemma trim_space_id:
  assumes "s = [] \<or> \<not> is_space (hd s) \<and> \<not> is_space (last s)"
  shows "trim_space s = s"
proof (cases s rule: rev_cases)
  case Nil
  then show ?thesis by (simp add: trim_space_def)
next
  case (snoc ys y)
  with assms have "\<not> is_space (hd (ys @ [y]))" "\<not> is_space y" by auto
  then show ?thesis using snoc
    by (cases ys) (auto simp: trim_space_def)
qed

lemma trim_space_ends: "trim_space s = [] \<or> \<not> is_space (hd (trim_space s)) \<and> \<not> is_space (last (trim_space s))"
proof -
  let ?u = "dropWhile is_space s" and ?v = "dropWhile is_space (rev (dropWhile is_space s))"
  have v: "trim_space s = rev ?v" by (simp add: trim_space_def)
  show ?thesis
  proof (cases "?v = []")
    case True
    then show ?thesis by (simp add: v)
  next
    case False
    then have last_ok: "\<not> is_space (last (trim_space s))"
      by (simp add: v last_rev hd_dropWhile)
    from False have u_ne: "?u \<noteq> []" by (metis dropWhile.simps(1) rev.simps(1))
    obtain w where w: "rev ?u = w @ ?v" by (metis takeWhile_dropWhile_id)
    then have "?u = rev ?v @ rev w" by (metis rev_append rev_rev_ident)
    with False have "hd ?u = hd (rev ?v)" by (metis hd_append2 rev_is_Nil_conv)
    with hd_dropWhile_space [OF u_ne] have "\<not> is_space (hd (trim_space s))" by (simp add: v)
    with last_ok show ?thesis by simp
  qed
qed

lemma trim_space_idem [simp]: "trim_space (trim_space s) = trim_space s"
  by (rule trim_space_id) (rule trim_space_ends)

lemma split_byte_not_Nil [simp]: "split_byte c s \<noteq> []"
  by (induction s) (auto split: list.splits)

lemma split_byte_no_sep: "c \<notin> set p \<Longrightarrow> split_byte c p = [p]"
  by (induction p) auto

lemma split_byte_append: "c \<notin> set p \<Longrightarrow> split_byte c (p @ c # s) = p # split_byte c s"
  by (induction p) auto

lemma split_byte_join:
  "\<forall>z \<in> set zs. c \<notin> set z \<Longrightarrow> zs \<noteq> [] \<Longrightarrow> split_byte c (join_with [c] zs) = zs"
proof (induction "[c]" zs rule: join_with.induct)
  case (3 p q ps)
  then show ?case by (simp add: split_byte_append)
qed (simp_all add: split_byte_no_sep)

lemma join_with_inj:
  assumes "\<forall>x \<in> set xs. c \<notin> set x" "\<forall>y \<in> set ys. c \<notin> set y" "xs \<noteq> []" "ys \<noteq> []"
    and "join_with [c] xs = join_with [c] ys"
  shows "xs = ys"
  using split_byte_join [OF assms(1,3)] split_byte_join [OF assms(2,4)] unfolding assms(5) by (rule trans [OF sym])

lemma set_join_with: "set (join_with sep zs) \<subseteq> set sep \<union> (\<Union>z \<in> set zs. set z)"
  by (induction sep zs rule: join_with.induct) auto

lemma has_prefix_append [simp]: "has_prefix (p @ s) p"
  by (simp add: has_prefix_def)

lemma cut_byte_found: "c \<notin> set p \<Longrightarrow> cut_byte c (p @ c # s) = (p, s, True)"
  by (auto simp: cut_byte_def takeWhile_append dropWhile_append)

lemma cut_byte_rejoin: "cut_byte c s = (a, b, True) \<Longrightarrow> s = a @ c # b"
  using takeWhile_dropWhile_id [of "\<lambda>x. x \<noteq> c" s]
  by (cases "dropWhile (\<lambda>x. x \<noteq> c) s")
     (auto simp: cut_byte_def dropWhile_eq_Cons_conv)

subsection \<open>Searching and splitting by a string\<close>

text \<open>
  \<open>strings.HasSuffix\<close>, \<open>strings.TrimPrefix\<close>, \<open>strings.TrimSuffix\<close>, \<open>strings.TrimRight\<close> with a
  cutset, \<open>strings.Cut\<close> (which \<open>strings.SplitN(s, sep, 2)\<close> and \<open>strings.Index\<close> amount to),
  \<open>strings.Contains\<close> and \<open>strings.Split\<close> with a non-empty separator.
\<close>

definition has_suffix :: "string \<Rightarrow> string \<Rightarrow> bool" where
  [go_string]: "has_suffix s p \<longleftrightarrow> length p \<le> length s \<and> drop (length s - length p) s = p"

definition trim_prefix :: "string \<Rightarrow> string \<Rightarrow> string" where
  [go_string]: "trim_prefix s p = (if has_prefix s p then drop (length p) s else s)"

definition trim_suffix :: "string \<Rightarrow> string \<Rightarrow> string" where
  [go_string]: "trim_suffix s p = (if has_suffix s p then take (length s - length p) s else s)"

definition trim_right :: "string \<Rightarrow> string \<Rightarrow> string" where
  [go_string]: "trim_right s cutset = rev (dropWhile (\<lambda>c. c \<in> set cutset) (rev s))"

fun cut_str :: "string \<Rightarrow> string \<Rightarrow> string \<times> string \<times> bool" where
  "cut_str sep [] = ([], [], sep = [])"
| "cut_str sep (x # xs) =
     (if has_prefix (x # xs) sep then ([], drop (length sep) (x # xs), True)
      else let (a, b, f) = cut_str sep xs in (x # a, b, f))"

definition contains_str :: "string \<Rightarrow> string \<Rightarrow> bool" where
  [go_string]: "contains_str s sep = snd (snd (cut_str sep s))"

lemma cut_str_length: "cut_str sep s = (a, b, True) \<Longrightarrow> length a + length sep + length b = length s"
proof (induction sep s arbitrary: a b rule: cut_str.induct)
  case (1 sep)
  then show ?case by simp
next
  case (2 sep x xs)
  show ?case
  proof (cases "has_prefix (x # xs) sep")
    case True
    then have "length sep \<le> length (x # xs)" by (metis has_prefix_def linear take_all length_take min_def)
    with True 2 show ?thesis by auto
  next
    case False
    with 2 show ?thesis by (auto split: prod.splits)
  qed
qed

lemma cut_str_shorter: "cut_str sep s = (a, b, True) \<Longrightarrow> sep \<noteq> [] \<Longrightarrow> length b < length s"
  by (cases sep) (auto dest!: cut_str_length)

function split_str :: "string \<Rightarrow> string \<Rightarrow> string list" where
  "split_str sep s = (case cut_str sep s of (a, b, f) \<Rightarrow>
     if f \<and> sep \<noteq> [] then a # split_str sep b else [s])"
  by pat_completeness auto
termination
  by (relation "measure (\<lambda>(sep, s). length s)") (auto dest!: sym [of "(_, _, True)"] intro: cut_str_shorter)

declare split_str.simps [simp del]

lemma cut_str_rejoin: "cut_str sep s = (a, b, True) \<Longrightarrow> s = a @ sep @ b"
  by (induction sep s arbitrary: a b rule: cut_str.induct)
     (auto simp: has_prefix_def split: if_splits prod.splits, metis append_take_drop_id)

subsection \<open>First occurrences\<close>

text \<open>
  The idiom \<open>seen := map[K]struct{}{}\<close> with \<open>if seen[x] { continue }\<close> and \<open>out = append(out, x)\<close>
  keeps the first occurrence of every element, in order.
\<close>

fun first_seen_from :: "'a list \<Rightarrow> 'a list \<Rightarrow> 'a list" where
  "first_seen_from seen [] = []"
| "first_seen_from seen (x # xs) =
     (if x \<in> set seen then first_seen_from seen xs
      else x # first_seen_from (x # seen) xs)"

definition first_seen :: "'a list \<Rightarrow> 'a list" where
  "first_seen xs = first_seen_from [] xs"

lemma set_first_seen_from: "set (first_seen_from seen xs) = set xs - set seen"
  by (induction seen xs rule: first_seen_from.induct) auto

lemma distinct_first_seen_from: "distinct (first_seen_from seen xs)"
  by (induction seen xs rule: first_seen_from.induct) (auto simp: set_first_seen_from)

lemma subseq_first_seen_from: "subseq (first_seen_from seen xs) xs"
  by (induction seen xs rule: first_seen_from.induct) auto

lemma set_first_seen [simp]: "set (first_seen xs) = set xs"
  by (simp add: first_seen_def set_first_seen_from)

lemma distinct_first_seen [simp]: "distinct (first_seen xs)"
  by (simp add: first_seen_def distinct_first_seen_from)

lemma subseq_first_seen: "subseq (first_seen xs) xs"
  by (simp add: first_seen_def subseq_first_seen_from)

lemma first_seen_from_distinct:
  "distinct xs \<Longrightarrow> set xs \<inter> set seen = {} \<Longrightarrow> first_seen_from seen xs = xs"
  by (induction xs arbitrary: seen) auto

lemma first_seen_id: "distinct xs \<Longrightarrow> first_seen xs = xs"
  by (simp add: first_seen_def first_seen_from_distinct)

subsection \<open>Shared list facts\<close>

declare concat_eq_Nil_conv [simp del]

lemma concat_map_Nil [simp]: "concat (map f xs) = [] \<longleftrightarrow> (\<forall>x \<in> set xs. f x = [])"
  by (induction xs) auto

text \<open>
  An error list built by \<open>if cond { errs = append(errs, e) }\<close> is empty when the condition
  fails and what follows reports nothing.
\<close>

lemma if_error_Nil: "(if b then x # xs else ys) = [] \<longleftrightarrow> \<not> b \<and> ys = []"
  by simp

lemma if_errors_Nil: "(if b then xs else ys) = [] \<longleftrightarrow> (if b then xs = [] else ys = [])"
  by simp

lemmas no_errors = concat_map_Nil append_is_Nil_conv if_error_Nil if_errors_Nil

end
