(* ===== verification/Rule_Grammar.thy ===== *)
theory Rule_Grammar
  imports Kaname_Prelude
begin

text \<open>
  The rule of a role: its data, the wildcard policy of the three authoring tiers, and the
  validation of a rule and of a role's rule list.

  Sources: \<open>internal/domain/rule.go\<close> (the type, \<open>Arm\<close>, \<open>Validate\<close> and its helpers),
  \<open>rule_policy.go\<close>, \<open>nested_rule.go\<close> (\<open>OwnerType\<close>, \<open>EffectiveChildren\<close>, \<open>validateChildren\<close>),
  \<open>module_set.go\<close>, \<open>retired_types.go\<close>, \<open>feed_registry.go\<close> and the label newtypes of
  \<open>types.go\<close>.

  A Go map is iterated in an arbitrary order; \<open>MatchLabels\<close> is an association list with
  distinct keys whose order stands for that arbitrary order. \<open>nil\<close> and the empty map (the
  empty slice) are told apart by the code, hence the \<open>option\<close> on labels and on children.
\<close>

subsection \<open>Data\<close>

datatype rule = Rule
  (Module: string)
  (Resources: "string list")
  (Verbs: "string list")
  (ResourceNames: "string list")
  (MatchLabels: "(string \<times> string) list option")
  (Children: "rule list option")
  (CreatedBySubject: bool)

type_synonym rules = "rule list"

datatype arm = ArmAnchor | ArmNames | ArmLabels

abbreviation wildcard :: string where
  "wildcard \<equiv> ''*''"

definition maxRuleElems :: nat where "maxRuleElems = 16"
definition maxResNames :: nat where "maxResNames = 256"
definition maxMatchLabels :: nat where "maxMatchLabels = 16"
definition MaxRules :: nat where "MaxRules = 64"
definition maxChildren :: nat where "maxChildren = maxRuleElems"

text \<open>The length and the entries of a map or slice that may be \<open>nil\<close>.\<close>

definition labels_of :: "rule \<Rightarrow> (string \<times> string) list" where
  "labels_of r = (case MatchLabels r of None \<Rightarrow> [] | Some ls \<Rightarrow> ls)"

definition children_of :: "rule \<Rightarrow> rule list" where
  "children_of r = (case Children r of None \<Rightarrow> [] | Some cs \<Rightarrow> cs)"

datatype rule_error =
    NamesAndLabelsExclusive
  | CreatorWithSelector
  | CreatorWithWildcard
  | ModuleEmpty
  | ModuleWildcardSystemOnly
  | ModuleWildcardNotForOwner string
  | ModuleInvalidToken string
  | ModuleSetNotSupplied
  | ModuleUnknown string
  | ListEmpty string
  | ListTooLong string
  | WildcardNotSole string
  | ResourceWildcardSystemOnly string
  | ResourceWildcardConfined string string string
  | InvalidToken string string
  | ResourceNamesTooMany
  | ResourceNameWildcard
  | ResourceNameMalformed
  | MatchLabelsEmpty
  | MatchLabelsTooMany
  | LabelKeyInvalid
  | LabelValueTooLong
  | WildcardWithSelector
  | TypeRetired string
  | TypeNotSelectable string
  | ChildrenEmpty
  | ChildrenTooMany
  | ChildrenOwnerNotSingle
  | ChildNamesModule
  | ChildHasChildren
  | ChildNamesWildcard
  | ChildIsOwnDescendant
  | RulesEmpty
  | RulesTooMany
  | CompiledPermissionsTooMany

subsection \<open>Tokens\<close>

definition ruleModuleRe :: "string \<Rightarrow> bool" where
  \<comment> \<open>\<open>^[a-z][a-z0-9-]*$\<close>\<close>
  "ruleModuleRe s = (case s of [] \<Rightarrow> False
     | c # cs \<Rightarrow> is_lower c \<and> list_all (\<lambda>d. is_lower d \<or> is_digit d \<or> d = CHR ''-'') cs)"

definition ruleResRe :: "string \<Rightarrow> bool" where
  \<comment> \<open>\<open>^[a-z][a-zA-Z0-9_-]*$\<close>\<close>
  "ruleResRe s = (case s of [] \<Rightarrow> False | c # cs \<Rightarrow> is_lower c \<and> list_all is_ident_char cs)"

definition ruleVerbRe :: "string \<Rightarrow> bool" where
  \<comment> \<open>\<open>^[a-z][a-zA-Z0-9_-]*$\<close>\<close>
  "ruleVerbRe s = (case s of [] \<Rightarrow> False | c # cs \<Rightarrow> is_lower c \<and> list_all is_ident_char cs)"

definition ruleNameRe :: "string \<Rightarrow> bool" where
  \<comment> \<open>\<open>^[a-zA-Z0-9_-]+$\<close>\<close>
  "ruleNameRe s \<longleftrightarrow> s \<noteq> [] \<and> list_all is_ident_char s"

definition labelKeyRe :: "string \<Rightarrow> bool" where
  \<comment> \<open>\<open>^[a-z][-_./@a-z0-9]{0,62}$\<close>\<close>
  "labelKeyRe s = (case s of [] \<Rightarrow> False
     | c # cs \<Rightarrow> is_lower c \<and> length cs \<le> 62
         \<and> list_all (\<lambda>d. d \<in> set ''-_./@'' \<or> is_lower d \<or> is_digit d) cs)"

definition LabelKey_Validate :: "string \<Rightarrow> rule_error list" where
  "LabelKey_Validate k = (if \<not> labelKeyRe k then [LabelKeyInvalid] else [])"

definition LabelVal_Validate :: "string \<Rightarrow> rule_error list" where
  "LabelVal_Validate v = (if length v > 63 then [LabelValueTooLong] else [])"

subsection \<open>The platform's module set, retired and label-selectable types\<close>

text \<open>
  \<open>ModuleSet\<close> is an interface with one question; \<open>nil\<close> is \<^const>\<open>None\<close>. \<open>ModuleSetOf\<close> is
  the implementation the package itself provides.
\<close>

type_synonym module_set = "string \<Rightarrow> bool"

definition ModuleSetOf :: "string list \<Rightarrow> module_set" where
  "ModuleSetOf names = (\<lambda>m. m \<in> set (filter (\<lambda>n. n \<noteq> []) names))"

definition IsWellFormedModuleName :: "string \<Rightarrow> bool" where
  "IsWellFormedModuleName m = ruleModuleRe m"

definition retiredTypes :: "string list" where
  "retiredTypes = [''compute.disk'', ''compute.image'', ''compute.snapshot'']"

definition IsRetiredType :: "string \<Rightarrow> bool" where
  "IsRetiredType t \<longleftrightarrow> t \<in> set retiredTypes"

definition labelSelectableTypes :: "string list" where
  "labelSelectableTypes =
    [''compute.instance'', ''compute.guestAccessKey'', ''compute.placementGroup'',
     ''vpc.network'', ''vpc.subnet'', ''vpc.securityGroup'', ''vpc.routeTable'',
     ''vpc.address'', ''vpc.gateway'', ''vpc.networkInterface'', ''vpc.cidrGroup'',
     ''loadbalancer.networkLoadBalancers'', ''loadbalancer.targetGroups'',
     ''loadbalancer.listeners'', ''registry.registries'',
     ''storage.volumes'', ''storage.snapshots'', ''storage.images'',
     ''iam.project'', ''iam.account'', ''iam.user'', ''iam.serviceAccount'',
     ''iam.group'', ''iam.role'', ''iam.accessBinding'']"

definition IsLabelSelectableType :: "string \<Rightarrow> bool" where
  "IsLabelSelectableType t \<longleftrightarrow> t \<in> set labelSelectableTypes"

subsection \<open>The wildcard policy of the authoring tiers\<close>

datatype policyTier = tierUnset | tierTenant | tierModule | tierPlatform

record RulePolicy =
  tier :: policyTier
  owner :: string

definition PolicyOfRole :: "bool \<Rightarrow> string \<Rightarrow> RulePolicy" where
  "PolicyOfRole isSystem ownerModule =
     (if \<not> isSystem then \<lparr>tier = tierTenant, owner = []\<rparr>
      else if ownerModule \<noteq> [] then \<lparr>tier = tierModule, owner = ownerModule\<rparr>
      else \<lparr>tier = tierPlatform, owner = []\<rparr>)"

definition TenantPolicy :: RulePolicy where
  "TenantPolicy = \<lparr>tier = tierTenant, owner = []\<rparr>"

definition UpdateImpliesDelete :: "RulePolicy \<Rightarrow> bool" where
  "UpdateImpliesDelete p \<longleftrightarrow> tier p = tierTenant \<or> tier p = tierPlatform"

definition allowsModuleWildcard :: "RulePolicy \<Rightarrow> bool" where
  "allowsModuleWildcard p \<longleftrightarrow> tier p = tierPlatform"

definition allowsResourceWildcardIn :: "RulePolicy \<Rightarrow> string \<Rightarrow> bool" where
  "allowsResourceWildcardIn p module = (case tier p of
       tierPlatform \<Rightarrow> True
     | tierModule \<Rightarrow> module = owner p
     | _ \<Rightarrow> False)"

definition moduleWildcardRefusal :: "RulePolicy \<Rightarrow> rule_error" where
  "moduleWildcardRefusal p =
     (if tier p = tierModule then ModuleWildcardNotForOwner (owner p) else ModuleWildcardSystemOnly)"

definition resourceWildcardRefusal :: "RulePolicy \<Rightarrow> string \<Rightarrow> string \<Rightarrow> rule_error" where
  "resourceWildcardRefusal p field module =
     (if tier p = tierModule then ResourceWildcardConfined field (owner p) module
      else ResourceWildcardSystemOnly field)"

subsection \<open>The operations of a rule\<close>

definition Rule_Arm :: "rule \<Rightarrow> arm" where
  "Rule_Arm r =
     (if length (ResourceNames r) > 0 then ArmNames
      else if length (labels_of r) > 0 then ArmLabels
      else ArmAnchor)"

definition containsWildcard :: "string list \<Rightarrow> bool" where
  "containsWildcard list \<longleftrightarrow> list_ex (\<lambda>e. e = wildcard) list"

definition hasAnyWildcard :: "rule \<Rightarrow> bool" where
  "hasAnyWildcard r \<longleftrightarrow>
     Module r = wildcard \<or> list_ex (list_ex (\<lambda>e. e = wildcard)) [Resources r, Verbs r]"

definition OwnerType :: "rule \<Rightarrow> string" where
  "OwnerType r =
     (if Module r = [] \<or> Module r = wildcard \<or> length (Resources r) \<noteq> 1
         \<or> hd (Resources r) = wildcard then []
      else Module r @ ''.'' @ hd (Resources r))"

text \<open>The copy \<open>eff := c; eff.Module = r.Module; eff.Children = nil\<close>.\<close>

definition effective_child :: "rule \<Rightarrow> rule \<Rightarrow> rule" where
  "effective_child r c = Rule (Module r) (Resources c) (Verbs c) (ResourceNames c)
     (MatchLabels c) None (CreatedBySubject c)"

definition EffectiveChildren :: "rule \<Rightarrow> rule list" where
  "EffectiveChildren r = map (effective_child r) (children_of r)"

definition HasChildren :: "rules \<Rightarrow> bool" where
  "HasChildren rs \<longleftrightarrow> list_ex (\<lambda>r. length (children_of r) > 0) rs"

subsection \<open>Validation\<close>

definition validateModule :: "string \<Rightarrow> RulePolicy \<Rightarrow> module_set option \<Rightarrow> rule_error list" where
  "validateModule module p modules =
     (if module = [] then [ModuleEmpty]
      else if module = wildcard then
        (if \<not> allowsModuleWildcard p then [moduleWildcardRefusal p] else [])
      else if \<not> IsWellFormedModuleName module then [ModuleInvalidToken module]
      else case modules of
          None \<Rightarrow> [ModuleSetNotSupplied]
        | Some known \<Rightarrow> if \<not> known module then [ModuleUnknown module] else [])"

definition validateRuleList ::
  "string \<Rightarrow> string list \<Rightarrow> (string \<Rightarrow> bool) \<Rightarrow> string \<Rightarrow> RulePolicy \<Rightarrow> rule_error list" where
  "validateRuleList field list tokenRe ruleModule p =
     (if list = [] then [ListEmpty field]
      else (if length list > maxRuleElems then [ListTooLong field] else [])
        @ concat (map (\<lambda>e.
            if e = wildcard then
              (if length list \<noteq> 1 then [WildcardNotSole field] else [])
              @ (if \<not> allowsResourceWildcardIn p ruleModule
                 then [resourceWildcardRefusal p field ruleModule] else [])
            else if \<not> tokenRe e then [InvalidToken field e] else []) list))"

definition validateVerbs :: "string list \<Rightarrow> rule_error list" where
  "validateVerbs verbs =
     (if verbs = [] then [ListEmpty ''verbs'']
      else (if length verbs > maxRuleElems then [ListTooLong ''verbs''] else [])
        @ concat (map (\<lambda>v.
            if v = wildcard then (if length verbs \<noteq> 1 then [WildcardNotSole ''verbs''] else [])
            else if \<not> ruleVerbRe v then [InvalidToken ''verbs'' v] else []) verbs))"

definition validateRetirementGate :: "rule \<Rightarrow> rule_error list" where
  "validateRetirementGate r = concat (map (\<lambda>res.
     if Module r = wildcard \<or> res = wildcard then []
     else let typ = Module r @ ''.'' @ res in if IsRetiredType typ then [TypeRetired typ] else [])
     (Resources r))"

definition validateFeedGate :: "rule \<Rightarrow> rule_error list" where
  "validateFeedGate r = concat (map (\<lambda>res.
     if Module r = wildcard \<or> res = wildcard then []
     else let typ = Module r @ ''.'' @ res
          in if \<not> IsLabelSelectableType typ then [TypeNotSelectable typ] else [])
     (Resources r))"

text \<open>The loops of \<open>Validate\<close> over the resource names and over the labels.\<close>

definition validateResourceNames :: "string list \<Rightarrow> rule_error list" where
  "validateResourceNames names =
     (if length names > maxResNames then [ResourceNamesTooMany] else [])
     @ concat (map (\<lambda>n.
         if n = wildcard then [ResourceNameWildcard]
         else if length n < 1 \<or> length n > 64 \<or> \<not> ruleNameRe n then [ResourceNameMalformed]
         else []) names)"

definition validateMatchLabels :: "(string \<times> string) list option \<Rightarrow> rule_error list" where
  "validateMatchLabels ml = (case ml of None \<Rightarrow> []
     | Some ls \<Rightarrow>
         (if length ls = 0 then [MatchLabelsEmpty] else [])
         @ (if length ls > maxMatchLabels then [MatchLabelsTooMany] else [])
         @ concat (map (\<lambda>(k, v). LabelKey_Validate k @ LabelVal_Validate v) ls))"

text \<open>Everything \<open>Rule.Validate\<close> checks before it descends into the children.\<close>

definition validate_own :: "RulePolicy \<Rightarrow> module_set option \<Rightarrow> rule \<Rightarrow> rule_error list" where
  "validate_own p modules r =
     (if length (ResourceNames r) > 0 \<and> length (labels_of r) > 0 then [NamesAndLabelsExclusive] else [])
     @ (if CreatedBySubject r \<and> (length (ResourceNames r) > 0 \<or> length (labels_of r) > 0)
        then [CreatorWithSelector] else [])
     @ (if CreatedBySubject r \<and> (Module r = wildcard \<or> containsWildcard (Resources r))
        then [CreatorWithWildcard] else [])
     @ validateModule (Module r) p modules
     @ validateRuleList ''resources'' (Resources r) ruleResRe (Module r) p
     @ validateVerbs (Verbs r)
     @ validateResourceNames (ResourceNames r)
     @ validateMatchLabels (MatchLabels r)
     @ (if hasAnyWildcard r \<and> (length (ResourceNames r) > 0 \<or> length (labels_of r) > 0)
        then [WildcardWithSelector] else [])
     @ validateRetirementGate r
     @ (if length (labels_of r) > 0 then validateFeedGate r else [])"

text \<open>What \<open>validateChildren\<close> checks of one child before it validates the effective child.\<close>

definition validate_child_own :: "rule \<Rightarrow> rule \<Rightarrow> rule_error list" where
  "validate_child_own r c =
     (if Module c \<noteq> [] then [ChildNamesModule] else [])
     @ (if Children c \<noteq> None then [ChildHasChildren] else [])
     @ concat (map (\<lambda>res.
         (if res = wildcard then [ChildNamesWildcard] else [])
         @ (if length (Resources r) = 1 \<and> res = hd (Resources r) then [ChildIsOwnDescendant] else []))
         (Resources c))"

text \<open>
  \<open>Validate\<close> and \<open>validateChildren\<close> call each other; the recursion ends because the
  effective child has no children.
\<close>

definition child_depth :: "rule \<Rightarrow> nat" where
  "child_depth r = (if Children r = None then 0 else 1)"

function Rule_Validate :: "RulePolicy \<Rightarrow> module_set option \<Rightarrow> rule \<Rightarrow> rule_error list"
  and validateChildren :: "RulePolicy \<Rightarrow> module_set option \<Rightarrow> rule \<Rightarrow> rule_error list" where
  "Rule_Validate p modules r = validate_own p modules r @ validateChildren p modules r"
| "validateChildren p modules r = (case Children r of
       None \<Rightarrow> []
     | Some cs \<Rightarrow>
         (if cs = [] then [ChildrenEmpty]
          else (if length cs > maxChildren then [ChildrenTooMany] else [])
            @ (if OwnerType r = [] then [ChildrenOwnerNotSingle] else [])
            @ concat (map (\<lambda>c. validate_child_own r c
                             @ Rule_Validate p modules (effective_child r c)) cs)))"
  by pat_completeness auto
termination
  by (relation "measure (\<lambda>x. case x of
        Inl (p, m, r) \<Rightarrow> 2 * child_depth r + 1
      | Inr (p, m, r) \<Rightarrow> 2 * child_depth r)")
     (auto simp: child_depth_def effective_child_def)

declare Rule_Validate.simps [simp del] validateChildren.simps [simp del]

definition Rules_Validate :: "RulePolicy \<Rightarrow> module_set option \<Rightarrow> rules \<Rightarrow> rule_error list" where
  "Rules_Validate p modules rs =
     (if length rs = 0 then [RulesEmpty]
      else if length rs > MaxRules then [RulesTooMany]
      else concat (map (Rule_Validate p modules) rs))"

subsection \<open>What acceptance means, check by check\<close>

text \<open>
  Each validator accepts exactly when its conditions hold. The lemmas turn the accumulated
  error lists into the conjunctions the later proofs use; they are collected in
  \<open>verdict\<close>.
\<close>

lemma validateModule_ok [verdict]:
  "validateModule m p ms = [] \<longleftrightarrow> m \<noteq> [] \<and>
     (if m = wildcard then tier p = tierPlatform
      else ruleModuleRe m \<and> (\<exists>known. ms = Some known \<and> known m))"
  by (auto simp: validateModule_def allowsModuleWildcard_def IsWellFormedModuleName_def
      split: option.splits)

lemma validateRuleList_ok [verdict]:
  "validateRuleList f xs re m p = [] \<longleftrightarrow> xs \<noteq> [] \<and> length xs \<le> maxRuleElems \<and>
     (\<forall>e \<in> set xs. if e = wildcard then length xs = 1 \<and> allowsResourceWildcardIn p m else re e)"
  by (auto simp: validateRuleList_def no_errors split: if_splits)

lemma validateVerbs_ok [verdict]:
  "validateVerbs vs = [] \<longleftrightarrow> vs \<noteq> [] \<and> length vs \<le> maxRuleElems \<and>
     (\<forall>v \<in> set vs. if v = wildcard then length vs = 1 else ruleVerbRe v)"
  by (auto simp: validateVerbs_def no_errors split: if_splits)

lemma validateResourceNames_ok [verdict]:
  "validateResourceNames ns = [] \<longleftrightarrow> length ns \<le> maxResNames \<and>
     (\<forall>n \<in> set ns. n \<noteq> wildcard \<and> length n \<le> 64 \<and> ruleNameRe n)"
  unfolding validateResourceNames_def
  by (simp only: no_errors) (auto simp: ruleNameRe_def Suc_le_eq not_less)

lemma validateMatchLabels_ok [verdict]:
  "validateMatchLabels ml = [] \<longleftrightarrow> (case ml of None \<Rightarrow> True
     | Some ls \<Rightarrow> ls \<noteq> [] \<and> length ls \<le> maxMatchLabels
         \<and> (\<forall>(k, v) \<in> set ls. labelKeyRe k \<and> length v \<le> 63))"
  by (auto simp: validateMatchLabels_def no_errors LabelKey_Validate_def LabelVal_Validate_def
      split: option.splits if_splits)

lemma validateRetirementGate_ok [verdict]:
  "validateRetirementGate r = [] \<longleftrightarrow>
     (Module r \<noteq> wildcard \<longrightarrow>
       (\<forall>res \<in> set (Resources r). res \<noteq> wildcard \<longrightarrow> \<not> IsRetiredType (Module r @ ''.'' @ res)))"
  by (auto simp: validateRetirementGate_def no_errors Let_def)

lemma validateFeedGate_ok [verdict]:
  "validateFeedGate r = [] \<longleftrightarrow>
     (Module r \<noteq> wildcard \<longrightarrow>
       (\<forall>res \<in> set (Resources r). res \<noteq> wildcard \<longrightarrow> IsLabelSelectableType (Module r @ ''.'' @ res)))"
  by (auto simp: validateFeedGate_def no_errors Let_def)

lemma containsWildcard_iff [simp]: "containsWildcard xs \<longleftrightarrow> wildcard \<in> set xs"
  by (auto simp: containsWildcard_def list_ex_iff)

lemma hasAnyWildcard_iff:
  "hasAnyWildcard r \<longleftrightarrow> Module r = wildcard \<or> wildcard \<in> set (Resources r) \<or> wildcard \<in> set (Verbs r)"
  by (auto simp: hasAnyWildcard_def list_ex_iff)

lemma Rule_Arm_simps:
  "Rule_Arm r = ArmNames \<longleftrightarrow> ResourceNames r \<noteq> []"
  "Rule_Arm r = ArmLabels \<longleftrightarrow> ResourceNames r = [] \<and> labels_of r \<noteq> []"
  "Rule_Arm r = ArmAnchor \<longleftrightarrow> ResourceNames r = [] \<and> labels_of r = []"
  by (auto simp: Rule_Arm_def)

lemma effective_child_sel [simp]:
  "Module (effective_child r c) = Module r"
  "Resources (effective_child r c) = Resources c"
  "Verbs (effective_child r c) = Verbs c"
  "ResourceNames (effective_child r c) = ResourceNames c"
  "MatchLabels (effective_child r c) = MatchLabels c"
  "Children (effective_child r c) = None"
  "CreatedBySubject (effective_child r c) = CreatedBySubject c"
  "labels_of (effective_child r c) = labels_of c"
  "children_of (effective_child r c) = []"
  by (simp_all add: effective_child_def labels_of_def children_of_def)

lemma validateChildren_None [simp]: "Children r = None \<Longrightarrow> validateChildren p ms r = []"
  by (simp add: validateChildren.simps)

lemma Rule_Validate_no_children: "Children r = None \<Longrightarrow> Rule_Validate p ms r = validate_own p ms r"
  by (simp add: Rule_Validate.simps)

lemma Rule_Validate_own: "Rule_Validate p ms r = [] \<Longrightarrow> validate_own p ms r = []"
  by (simp add: Rule_Validate.simps)

lemma validate_child_own_ok [verdict]:
  "validate_child_own r c = [] \<longleftrightarrow> Module c = [] \<and> Children c = None \<and>
     (\<forall>res \<in> set (Resources c). res \<noteq> wildcard \<and> \<not> (length (Resources r) = 1 \<and> res = hd (Resources r)))"
  unfolding validate_child_own_def by (simp only: no_errors) auto

text \<open>An accepted rule's children are accepted as rules of the owner's module.\<close>

lemma Rule_Validate_children:
  assumes "Rule_Validate p ms r = []" and "c \<in> set (children_of r)"
  shows "validate_child_own r c = []" and "validate_own p ms (effective_child r c) = []"
    and "OwnerType r \<noteq> []"
  using assms
  by (auto simp: Rule_Validate.simps [of p ms r] validateChildren.simps [of p ms r] children_of_def
      no_errors Rule_Validate_no_children split: option.splits if_splits)

lemma validate_own_facts:
  assumes "validate_own p ms r = []"
  shows "validateModule (Module r) p ms = []"
    and "validateRuleList ''resources'' (Resources r) ruleResRe (Module r) p = []"
    and "validateVerbs (Verbs r) = []"
    and "validateResourceNames (ResourceNames r) = []"
    and "validateMatchLabels (MatchLabels r) = []"
    and "validateRetirementGate r = []"
    and "labels_of r \<noteq> [] \<Longrightarrow> validateFeedGate r = []"
    and "ResourceNames r = [] \<or> labels_of r = []"
    and "hasAnyWildcard r \<Longrightarrow> Rule_Arm r = ArmAnchor"
    and "CreatedBySubject r \<Longrightarrow> Rule_Arm r = ArmAnchor \<and> Module r \<noteq> wildcard \<and> wildcard \<notin> set (Resources r)"
  using assms by (auto simp: validate_own_def no_errors Rule_Arm_simps split: if_splits)

lemma Rules_Validate_member: "Rules_Validate p ms rs = [] \<Longrightarrow> r \<in> set rs \<Longrightarrow> Rule_Validate p ms r = []"
  by (auto simp: Rules_Validate_def no_errors split: if_splits)

lemma Rules_Validate_size: "Rules_Validate p ms rs = [] \<Longrightarrow> 0 < length rs \<and> length rs \<le> MaxRules"
  by (auto simp: Rules_Validate_def split: if_splits)

lemma allowsResourceWildcardIn_iff:
  "allowsResourceWildcardIn p m \<longleftrightarrow> tier p = tierPlatform \<or> tier p = tierModule \<and> m = owner p"
  by (auto simp: allowsResourceWildcardIn_def split: policyTier.splits)

text \<open>The tiers of \<open>PolicyOfRole\<close>.\<close>

lemma PolicyOfRole_tier:
  "tier (PolicyOfRole isSystem m) = tierTenant \<longleftrightarrow> \<not> isSystem"
  "tier (PolicyOfRole isSystem m) = tierModule \<longleftrightarrow> isSystem \<and> m \<noteq> []"
  "tier (PolicyOfRole isSystem m) = tierPlatform \<longleftrightarrow> isSystem \<and> m = []"
  "tier (PolicyOfRole isSystem m) = tierModule \<Longrightarrow> owner (PolicyOfRole isSystem m) = m"
  by (auto simp: PolicyOfRole_def split: if_splits)

lemma validate_own_wildcards:
  assumes "validate_own p ms r = []"
  shows "Module r = wildcard \<longrightarrow> tier p = tierPlatform"
    and "wildcard \<in> set (Resources r) \<longrightarrow>
          Resources r = [wildcard] \<and> (tier p = tierPlatform \<or> tier p = tierModule \<and> Module r = owner p)"
    and "wildcard \<in> set (Verbs r) \<longrightarrow> Verbs r = [wildcard]"
proof -
  note facts = validate_own_facts(1-3) [OF assms]
  from facts(1) show "Module r = wildcard \<longrightarrow> tier p = tierPlatform"
    by (simp add: verdict split: if_splits)
  have single: "xs = [wildcard]" if "wildcard \<in> set xs" "length xs = 1" for xs :: "string list"
    using that by (cases xs) auto
  from facts(2) show "wildcard \<in> set (Resources r) \<longrightarrow>
      Resources r = [wildcard] \<and> (tier p = tierPlatform \<or> tier p = tierModule \<and> Module r = owner p)"
    by (auto simp: verdict allowsResourceWildcardIn_iff intro: single split: if_splits)
  from facts(3) show "wildcard \<in> set (Verbs r) \<longrightarrow> Verbs r = [wildcard]"
    by (auto simp: verdict intro: single split: if_splits)
qed

subsection \<open>Properties\<close>

text \<open>
  C1: wildcard confinement. When the rules of a role are accepted under the policy of
  that role, every rule and every nested rule respects the tier: a custom role names no
  wildcard module and no wildcard resource, a role owned by a module may use the resource
  wildcard only inside that module, only a platform role may use the module wildcard; and
  a nested rule never names a wildcard type.
\<close>

theorem accepted_rules_confine_wildcards:
  assumes "Rules_Validate (PolicyOfRole isSystem ownerModule) ms rs = []"
    and "r \<in> set rs" and "d = r \<or> d \<in> set (EffectiveChildren r)"
  shows "(Module d = wildcard \<longrightarrow> isSystem \<and> ownerModule = []) \<and>
         (wildcard \<in> set (Resources d) \<longrightarrow>
            Resources d = [wildcard] \<and> isSystem \<and> (ownerModule = [] \<or> Module d = ownerModule)) \<and>
         (d \<noteq> r \<longrightarrow> wildcard \<notin> set (Resources d))"
proof -
  let ?p = "PolicyOfRole isSystem ownerModule"
  have ok: "Rule_Validate ?p ms r = []"
    using assms(1,2) by (rule Rules_Validate_member)
  have own: "validate_own ?p ms d = []"
    using assms(3) ok Rule_Validate_own Rule_Validate_children(2)
    by (auto simp: EffectiveChildren_def)
  have child: "wildcard \<notin> set (Resources d)" if "d \<noteq> r"
    using that assms(3) Rule_Validate_children(1) [OF ok]
    by (fastforce simp: EffectiveChildren_def validate_child_own_ok)
  show ?thesis
    using validate_own_wildcards [OF own] child
    by (auto simp: PolicyOfRole_tier(2-3) PolicyOfRole_tier(4))
qed

theorem accepted_rules_confine_wildcards_witness:
  "let r = Rule ''compute'' [wildcard] [''get''] [] None None False
   in Rules_Validate (PolicyOfRole True ''compute'') (Some (ModuleSetOf [''compute''])) [r] = []
      \<and> Module r \<noteq> wildcard \<and> Resources r = [wildcard]"
proof -
  let ?r = "Rule ''compute'' [wildcard] [''get''] [] None None False"
  have ok: "Rules_Validate (PolicyOfRole True ''compute'') (Some (ModuleSetOf [''compute''])) [?r] = []"
    by code_simp
  show ?thesis
    using ok accepted_rules_confine_wildcards [OF ok, of ?r ?r] by simp
qed

text \<open>
  one selector per rule. An accepted rule (and every accepted nested rule) is in exactly
  one arm and what selects its objects is unambiguous: names and labels never combine, a
  rule with a wildcard in any position or with the creator selector has neither, and the
  types a label rule selects all have a resource feed and are not retired.
\<close>

theorem accepted_rule_has_one_selector:
  assumes "Rule_Validate p ms r = []" and "d = r \<or> d \<in> set (EffectiveChildren r)"
  shows "(ResourceNames d = [] \<or> labels_of d = []) \<and>
         (hasAnyWildcard d \<or> CreatedBySubject d \<longrightarrow> Rule_Arm d = ArmAnchor) \<and>
         (\<forall>res \<in> set (Resources d). Module d \<noteq> wildcard \<longrightarrow> res \<noteq> wildcard \<longrightarrow>
            \<not> IsRetiredType (Module d @ ''.'' @ res)
            \<and> (Rule_Arm d = ArmLabels \<longrightarrow> IsLabelSelectableType (Module d @ ''.'' @ res)))"
proof -
  have own: "validate_own p ms d = []"
    using assms Rule_Validate_own Rule_Validate_children(2)
    by (auto simp: EffectiveChildren_def)
  show ?thesis
    using validate_own_facts(6-10) [OF own]
    by (auto simp: verdict Rule_Arm_simps)
qed

theorem accepted_rule_has_one_selector_witness:
  "let r = Rule ''vpc'' [''network''] [''get''] [] (Some [(''env'', ''prod'')]) None False
   in Rule_Validate TenantPolicy (Some (ModuleSetOf [''vpc''])) r = []
      \<and> IsLabelSelectableType (Module r @ ''.'' @ ''network'')"
proof -
  let ?r = "Rule ''vpc'' [''network''] [''get''] [] (Some [(''env'', ''prod'')]) None False"
  have own: "validate_own TenantPolicy (Some (ModuleSetOf [''vpc''])) ?r = []"
    by code_simp
  then have ok: "Rule_Validate TenantPolicy (Some (ModuleSetOf [''vpc''])) ?r = []"
    by (simp add: Rule_Validate_no_children)
  have arm: "Rule_Arm ?r = ArmLabels" by code_simp
  show ?thesis
    using ok arm accepted_rule_has_one_selector [OF ok, of ?r] by simp
qed

end
