(* ===== verification/Rule_Compile.thy ===== *)
theory Rule_Compile
  imports Rule_Grammar
begin

text \<open>
  From the rules of a role to what they grant: the compiled permission projection, the
  verb vocabulary with its tiers, the references a rule list makes to the catalogue, and
  the removal of a resource name that left the registry.

  Sources: \<open>internal/domain/rule.go\<close> (\<open>CompileRules\<close>), \<open>types.go\<close> (\<open>Permission\<close>,
  \<open>Permissions\<close>), \<open>rule_verbs.go\<close>, \<open>role.go\<close> (\<open>NamedKeys\<close>) and
  \<open>rule_unregistered_name.go\<close>.
\<close>

subsection \<open>The permission grammar\<close>

datatype permission_error = PermissionInvalidFormat | PermissionsEmpty | PermissionsTooMany

definition MaxCompiledPermissions :: nat where "MaxCompiledPermissions = 1024"

definition permissionElementRe :: "string \<Rightarrow> bool" where
  \<comment> \<open>four dot-separated segments: \<open>(*|[a-z][a-z0-9-]*)\<close>, \<open>(*|[a-z][a-zA-Z0-9_-]*)\<close>,
     \<open>(*|[a-zA-Z0-9_-]+)\<close>, \<open>(*|[a-z][a-zA-Z0-9_-]*)\<close>; no class contains the dot\<close>
  "permissionElementRe p = (case split_byte (CHR ''.'') p of
       [m, r, n, v] \<Rightarrow>
         (m = wildcard \<or> ruleModuleRe m) \<and> (r = wildcard \<or> ruleResRe r)
         \<and> (n = wildcard \<or> ruleNameRe n) \<and> (v = wildcard \<or> ruleVerbRe v)
     | _ \<Rightarrow> False)"

definition Permission_Validate :: "string \<Rightarrow> permission_error option" where
  "Permission_Validate p = (if \<not> permissionElementRe p then Some PermissionInvalidFormat else None)"

definition validateGrammarAndCap :: "string list \<Rightarrow> permission_error option" where
  "validateGrammarAndCap ps =
     (if length ps > MaxCompiledPermissions then Some PermissionsTooMany
      else case List.find (\<lambda>p. Permission_Validate p \<noteq> None) ps of
          Some p \<Rightarrow> Permission_Validate p
        | None \<Rightarrow> None)"

definition Permissions_Validate :: "string list \<Rightarrow> permission_error option" where
  "Permissions_Validate ps = (if length ps = 0 then Some PermissionsEmpty else validateGrammarAndCap ps)"

definition ValidateCompiled :: "string list \<Rightarrow> permission_error option" where
  "ValidateCompiled ps = validateGrammarAndCap ps"

subsection \<open>Compilation\<close>

text \<open>
  The permissions one rule contributes, in the order of the nested loops: a creator rule
  and a label rule contribute nothing.
\<close>

definition rule_permissions :: "rule \<Rightarrow> string list" where
  "rule_permissions r =
     (if CreatedBySubject r then []
      else case Rule_Arm r of
          ArmLabels \<Rightarrow> []
        | ArmNames \<Rightarrow> concat (map (\<lambda>res. concat (map (\<lambda>i. map (\<lambda>v.
              Module r @ ''.'' @ res @ ''.'' @ i @ ''.'' @ v) (Verbs r)) (ResourceNames r))) (Resources r))
        | ArmAnchor \<Rightarrow> concat (map (\<lambda>res. map (\<lambda>v.
              Module r @ ''.'' @ res @ ''.'' @ wildcard @ ''.'' @ v) (Verbs r)) (Resources r)))"

text \<open>The closure \<open>add\<close>: skip what was seen, refuse once the set outgrows the cap.\<close>

definition add_permission :: "string list \<Rightarrow> string \<Rightarrow> (rule_error, string list) result" where
  "add_permission out p =
     (if p \<in> set out then Inr out
      else if length out + 1 > MaxCompiledPermissions then Inl CompiledPermissionsTooMany
      else Inr (out @ [p]))"

fun add_permissions :: "string list \<Rightarrow> string list \<Rightarrow> (rule_error, string list) result" where
  "add_permissions out [] = Inr out"
| "add_permissions out (p # ps) =
     (case add_permission out p of Inl e \<Rightarrow> Inl e | Inr out' \<Rightarrow> add_permissions out' ps)"

fun compile_from :: "string list \<Rightarrow> rules \<Rightarrow> (rule_error, string list) result" where
  "compile_from out [] = Inr out"
| "compile_from out (r # rs) =
     (case add_permissions out (rule_permissions r) of
        Inl e \<Rightarrow> Inl e | Inr out' \<Rightarrow> compile_from out' rs)"

definition CompileRules :: "rules \<Rightarrow> (rule_error, string list) result" where
  "CompileRules rs = compile_from [] rs"

subsection \<open>Verbs and tiers\<close>

definition NormalizeVerb :: "string \<Rightarrow> string" where
  "NormalizeVerb v = to_lower (trim_space v)"

definition IsVerbOfType :: "string \<Rightarrow> string list \<Rightarrow> bool" where
  "IsVerbOfType verb typeVerbs =
     (let want = NormalizeVerb verb
      in if want = [] then False else list_ex (\<lambda>v. NormalizeVerb v = want) typeVerbs)"

definition verbDelete :: string where "verbDelete = ''delete''"

definition verbTier :: "string \<Rightarrow> string" where
  "verbTier verb =
     (let v = NormalizeVerb verb
      in if v \<in> set [''get'', ''list'', ''view'', ''watch'', ''describe'', ''read'',
                     ''gettargetstates'', ''listoperations''] then ''viewer''
         else if v = verbDelete then []
         else ''editor'')"

text \<open>The loop of \<open>wildcardTier\<close> returns at the first delete and remembers an editor verb.\<close>

fun wildcardTier_loop :: "bool \<Rightarrow> string list \<Rightarrow> string" where
  "wildcardTier_loop hasEditor [] = (if hasEditor then ''editor'' else ''viewer'')"
| "wildcardTier_loop hasEditor (v # vs) =
     (if NormalizeVerb v = verbDelete then ''admin''
      else wildcardTier_loop (hasEditor \<or> verbTier v = ''editor'') vs)"

definition wildcardTier :: "string list \<Rightarrow> string" where
  "wildcardTier expanded = wildcardTier_loop False expanded"

definition ResolveVerbsAndTier :: "string list \<Rightarrow> string list \<Rightarrow> string list \<times> string" where
  "ResolveVerbsAndTier authored typeVerbs =
     (if list_ex (\<lambda>v. v = wildcard) authored then (typeVerbs, wildcardTier typeVerbs)
      else
        let hasEditor = list_ex (\<lambda>v. verbTier v = ''editor'') authored;
            hasViewer = list_ex (\<lambda>v. verbTier v = ''viewer'') authored
        in (authored, if hasEditor then ''editor'' else if hasViewer then ''viewer'' else []))"

text \<open>
  \<open>ScopeSelfVerbs\<close>: which rules apply to the anchor itself, and what they grant there.
  \<open>nil\<close> (no rule matched) is \<^const>\<open>None\<close>.
\<close>

definition scope_self_applies :: "string \<Rightarrow> rule \<Rightarrow> bool" where
  "scope_self_applies scopeResource r =
     (if Module r = wildcard then list_ex (\<lambda>res. res = wildcard) (Resources r)
      else if Module r = ''iam'' \<and> scopeResource \<noteq> [] then list_ex (\<lambda>res. res = scopeResource) (Resources r)
      else False)"

definition ScopeSelfVerbs :: "rules \<Rightarrow> string \<Rightarrow> string list \<Rightarrow> string list option" where
  "ScopeSelfVerbs rs scopeResource typeVerbs =
     (let matched = filter (scope_self_applies scopeResource) rs;
          collected = concat (map Verbs matched);
          verbs = fst (ResolveVerbsAndTier collected typeVerbs)
      in if matched = [] then None
         else if list_ex (\<lambda>v. v = wildcard) collected then Some (verbs @ [wildcard])
         else Some verbs)"

subsection \<open>References of a rule list to the catalogue\<close>

record RoleRuleRef =
  ref_Module :: string
  ref_Resource :: string
  ref_Verb :: string

definition IsAnchor :: "RoleRuleRef \<Rightarrow> bool" where
  "IsAnchor r \<longleftrightarrow> ref_Verb r = []"

definition Dotted :: "RoleRuleRef \<Rightarrow> string" where
  "Dotted r = ref_Module r @ ''.'' @ ref_Resource r"

definition refsOfRule :: "rule \<Rightarrow> string \<Rightarrow> RoleRuleRef list" where
  "refsOfRule r res =
     (if list_ex (\<lambda>v. v = wildcard) (Verbs r)
      then [\<lparr>ref_Module = Module r, ref_Resource = res, ref_Verb = []\<rparr>]
      else map (\<lambda>v. \<lparr>ref_Module = Module r, ref_Resource = res, ref_Verb = NormalizeVerb v\<rparr>) (Verbs r))"

definition withEffectiveChildren :: "rules \<Rightarrow> rules" where
  "withEffectiveChildren rs =
     (if \<not> HasChildren rs then rs else concat (map (\<lambda>r. r # EffectiveChildren r) rs))"

text \<open>The references one rule makes, in loop order, before repetitions are dropped.\<close>

definition rule_refs :: "rule \<Rightarrow> RoleRuleRef list" where
  "rule_refs r =
     (if Module r = wildcard then []
      else concat (map (refsOfRule r) (filter (\<lambda>res. res \<noteq> wildcard) (Resources r))))"

definition RuleRefsOf :: "rules \<Rightarrow> RoleRuleRef list" where
  "RuleRefsOf rs = first_seen (concat (map rule_refs (withEffectiveChildren rs)))"

definition RuleRefsByRule :: "rules \<Rightarrow> RoleRuleRef list list" where
  "RuleRefsByRule rs = map (\<lambda>r. first_seen (rule_refs r)) rs"

subsection \<open>Named objects of a rule list and their removal\<close>

record ResourceRef =
  obj_Type :: string
  obj_ID :: string

record RuleNameHold =
  hold_Rule :: nat
  hold_Ref :: ResourceRef

definition named_pairs :: "string \<Rightarrow> string list \<Rightarrow> string list \<Rightarrow> ResourceRef list" where
  "named_pairs module resources names =
     concat (map (\<lambda>res. if res = wildcard then []
        else map (\<lambda>n. \<lparr>obj_Type = module @ ''.'' @ res, obj_ID = n\<rparr>) names) resources)"

definition rule_named :: "rule \<Rightarrow> ResourceRef list" where
  "rule_named r = named_pairs (Module r) (Resources r) (ResourceNames r)
     @ concat (map (\<lambda>c. named_pairs (Module r) (Resources c) (ResourceNames c)) (children_of r))"

definition NamedKeys :: "rules \<Rightarrow> RuleNameHold list" where
  "NamedKeys rs = concat (map (\<lambda>(i, r). map (\<lambda>k. \<lparr>hold_Rule = i, hold_Ref = k\<rparr>) (rule_named r))
     (enumerate 0 rs))"

definition with_names :: "string list \<Rightarrow> rule \<Rightarrow> rule" where
  "with_names ns r = Rule (Module r) (Resources r) (Verbs r) ns (MatchLabels r) (Children r) (CreatedBySubject r)"

definition with_resources :: "string list \<Rightarrow> rule \<Rightarrow> rule" where
  "with_resources rs r = Rule (Module r) rs (Verbs r) (ResourceNames r) (MatchLabels r) (Children r) (CreatedBySubject r)"

definition with_children :: "rule list option \<Rightarrow> rule \<Rightarrow> rule" where
  "with_children cs r = Rule (Module r) (Resources r) (Verbs r) (ResourceNames r) (MatchLabels r) cs (CreatedBySubject r)"

definition namesID :: "string list \<Rightarrow> string \<Rightarrow> bool" where
  "namesID list i \<longleftrightarrow> list_ex (\<lambda>n. n = i) list"

text \<open>\<^const>\<open>None\<close> is the answer \<open>nil, false\<close>: the rule does not name the object.\<close>

definition withoutNameSplit :: "rule \<Rightarrow> string \<Rightarrow> string \<Rightarrow> string \<Rightarrow> bool \<Rightarrow> rule list option" where
  "withoutNameSplit r module dottedType i split =
     (if length (ResourceNames r) = 0 \<or> \<not> namesID (ResourceNames r) i then None
      else
        let hits = (\<lambda>res. res \<noteq> wildcard \<and> module @ ''.'' @ res = dottedType);
            named = filter hits (Resources r);
            rest = filter (\<lambda>res. \<not> hits res) (Resources r);
            remaining = filter (\<lambda>n. n \<noteq> i) (ResourceNames r)
        in if named = [] then None
           else if rest = [] \<or> \<not> split then
             (if remaining = [] then Some [] else Some [with_names remaining r])
           else
             Some (with_resources rest r
                   # (if remaining \<noteq> [] then
                        [with_children None (with_names remaining (with_resources (take 1 named) r))]
                      else [])))"

fun childrenWithout :: "rule list \<Rightarrow> string \<Rightarrow> string \<Rightarrow> string \<Rightarrow> bool \<Rightarrow> rule list \<times> bool" where
  "childrenWithout [] module dottedType i split = ([], False)"
| "childrenWithout (c # cs) module dottedType i split =
     (let (out, hit) = childrenWithout cs module dottedType i split
      in case withoutNameSplit c module dottedType i split of
           None \<Rightarrow> (c # out, hit)
         | Some parts \<Rightarrow> (parts @ out, True))"

definition withoutNameInChildren ::
  "rule list option \<Rightarrow> string \<Rightarrow> string \<Rightarrow> string \<Rightarrow> bool \<Rightarrow> rule list option \<times> bool" where
  "withoutNameInChildren children module dottedType i split =
     (case children of None \<Rightarrow> (None, False)
      | Some [] \<Rightarrow> (Some [], False)
      | Some (c # cs) \<Rightarrow>
          let (out, hit) = childrenWithout (c # cs) module dottedType i split;
              out' = (if hit \<and> split \<and> length out > maxChildren
                      then fst (childrenWithout (c # cs) module dottedType i False) else out)
          in if \<not> hit then (Some (c # cs), False)
             else if out' = [] then (None, True)
             else (Some out', True))"

fun withoutResourceName :: "rules \<Rightarrow> string \<Rightarrow> string \<Rightarrow> bool \<Rightarrow> rules \<times> nat \<times> bool" where
  "withoutResourceName [] dottedType i split = ([], 0, False)"
| "withoutResourceName (r # rs) dottedType i split =
     (let (out, removed, changed) = withoutResourceName rs dottedType i split;
          (children, childHit) = withoutNameInChildren (Children r) (Module r) dottedType i split;
          r' = (if childHit then with_children children r else r)
      in case withoutNameSplit r' (Module r') dottedType i split of
           None \<Rightarrow> (r' # out, removed, changed \<or> childHit)
         | Some [] \<Rightarrow> (out, Suc removed, True)
         | Some (p # ps) \<Rightarrow> ((p # ps) @ out, removed, True))"

definition WithoutResourceName :: "rules \<Rightarrow> string \<Rightarrow> string \<Rightarrow> rules \<times> nat \<times> bool" where
  "WithoutResourceName rs dottedType i =
     (let res = withoutResourceName rs dottedType i True
      in if length (fst res) > MaxRules then withoutResourceName rs dottedType i False else res)"

subsection \<open>Compilation, against a reference\<close>

lemma first_seen_from_cong: "set s = set t \<Longrightarrow> first_seen_from s xs = first_seen_from t xs"
proof (induction xs arbitrary: s t)
  case Nil
  then show ?case by simp
next
  case (Cons x xs)
  have "first_seen_from (x # s) xs = first_seen_from (x # t) xs"
    by (rule Cons.IH) (simp add: Cons.prems)
  moreover have "first_seen_from s xs = first_seen_from t xs"
    by (rule Cons.IH) (rule Cons.prems)
  ultimately show ?case using Cons.prems by simp
qed

lemma add_permissions_spec:
  assumes "length out \<le> MaxCompiledPermissions"
  shows "add_permissions out ps =
     (let all = out @ first_seen_from out ps
      in if length all > MaxCompiledPermissions then Inl CompiledPermissionsTooMany else Inr all)"
  using assms
proof (induction ps arbitrary: out)
  case Nil
  then show ?case by simp
next
  case (Cons p ps)
  show ?case
  proof (cases "p \<in> set out")
    case True
    with Cons show ?thesis by (simp add: add_permission_def)
  next
    case False
    have snoc: "first_seen_from (out @ [p]) ps = first_seen_from (p # out) ps"
      by (rule first_seen_from_cong) simp
    show ?thesis
    proof (cases "length out + 1 > MaxCompiledPermissions")
      case True
      with False show ?thesis by (simp add: add_permission_def)
    next
      case False
      with \<open>p \<notin> set out\<close> show ?thesis
        by (simp add: add_permission_def Cons.IH snoc)
    qed
  qed
qed

lemma first_seen_from_append:
  "first_seen_from s (xs @ ys) = first_seen_from s xs @ first_seen_from (xs @ s) ys"
proof (induction s xs rule: first_seen_from.induct)
  case (1 seen)
  then show ?case by simp
next
  case (2 seen x xs)
  have a: "first_seen_from (xs @ x # seen) ys = first_seen_from (x # xs @ seen) ys"
    by (rule first_seen_from_cong) simp
  have b: "first_seen_from (xs @ seen) ys = first_seen_from (x # xs @ seen) ys" if "x \<in> set seen"
    by (rule first_seen_from_cong) (use that in auto)
  show ?case using 2 a b by auto
qed

lemma compile_from_spec:
  assumes "length out \<le> MaxCompiledPermissions"
  shows "compile_from out rs =
     (let all = out @ first_seen_from out (concat (map rule_permissions rs))
      in if length all > MaxCompiledPermissions then Inl CompiledPermissionsTooMany else Inr all)"
  using assms
proof (induction rs arbitrary: out)
  case Nil
  then show ?case by simp
next
  case (Cons r rs)
  let ?new = "first_seen_from out (rule_permissions r)"
  have app: "first_seen_from (rule_permissions r @ out) xs = first_seen_from (out @ ?new) xs" for xs
    by (rule first_seen_from_cong) (auto simp: set_first_seen_from)
  show ?case
    by (auto simp: add_permissions_spec [OF Cons.prems] first_seen_from_append app Let_def Cons.IH)
qed

text \<open>
  C32: compilation is exact. \<open>CompileRules\<close> returns the distinct permissions of its rules in
  the order in which the rules name them, and refuses exactly when there are more than
  \<open>MaxCompiledPermissions\<close> of them.
\<close>

theorem CompileRules_exact:
  "CompileRules rs =
     (let all = first_seen (concat (map rule_permissions rs))
      in if length all > MaxCompiledPermissions then Inl CompiledPermissionsTooMany else Inr all)"
  by (simp add: CompileRules_def compile_from_spec first_seen_def)

lemma CompileRules_Inr:
  assumes "CompileRules rs = Inr ps"
  shows "set ps = (\<Union>r \<in> set rs. set (rule_permissions r))" and "distinct ps"
    and "length ps \<le> MaxCompiledPermissions"
proof -
  have "ps = first_seen (concat (map rule_permissions rs)) \<and> length ps \<le> MaxCompiledPermissions"
    using assms by (auto simp: CompileRules_def compile_from_spec first_seen_def Let_def split: if_splits)
  then show "set ps = (\<Union>r \<in> set rs. set (rule_permissions r))" and "distinct ps"
    and "length ps \<le> MaxCompiledPermissions" by auto
qed

subsection \<open>Accepted rules compile to well-formed permissions\<close>

lemma dot_not_ident [simp]: "\<not> is_ident_char (CHR ''.'')" "\<not> is_lower (CHR ''.'')" "\<not> is_digit (CHR ''.'')"
  by (simp_all add: go_string)

lemma dot_free_tokens:
  "ruleModuleRe s \<Longrightarrow> CHR ''.'' \<notin> set s"
  "ruleResRe s \<Longrightarrow> CHR ''.'' \<notin> set s"
  "ruleVerbRe s \<Longrightarrow> CHR ''.'' \<notin> set s"
  "ruleNameRe s \<Longrightarrow> CHR ''.'' \<notin> set s"
  by (auto simp: ruleModuleRe_def ruleResRe_def ruleVerbRe_def ruleNameRe_def list_all_iff split: list.splits)

lemma permissionElementRe_join:
  assumes "m = wildcard \<or> ruleModuleRe m" "r = wildcard \<or> ruleResRe r"
    "n = wildcard \<or> ruleNameRe n" "v = wildcard \<or> ruleVerbRe v"
  shows "permissionElementRe (m @ ''.'' @ r @ ''.'' @ n @ ''.'' @ v)"
proof -
  have free: "CHR ''.'' \<notin> set m" "CHR ''.'' \<notin> set r" "CHR ''.'' \<notin> set n" "CHR ''.'' \<notin> set v"
    using assms dot_free_tokens by auto
  then have "split_byte (CHR ''.'') (m @ ''.'' @ r @ ''.'' @ n @ ''.'' @ v) = [m, r, n, v]"
    by (simp add: split_byte_append split_byte_no_sep)
  then show ?thesis using assms by (simp add: permissionElementRe_def)
qed

lemma validate_own_tokens:
  assumes "validate_own p ms r = []"
  shows "Module r = wildcard \<or> ruleModuleRe (Module r)"
    and "\<forall>res \<in> set (Resources r). res = wildcard \<or> ruleResRe res"
    and "\<forall>v \<in> set (Verbs r). v = wildcard \<or> ruleVerbRe v"
    and "\<forall>n \<in> set (ResourceNames r). ruleNameRe n"
  using validate_own_facts(1-4) [OF assms] by (auto simp: verdict split: if_splits)

lemma rule_permissions_well_formed:
  assumes "validate_own p ms r = []" and "q \<in> set (rule_permissions r)"
  shows "permissionElementRe q"
proof -
  note tokens = validate_own_tokens [OF assms(1)]
  consider (names) res n v where "q = Module r @ ''.'' @ res @ ''.'' @ n @ ''.'' @ v"
      "res \<in> set (Resources r)" "n \<in> set (ResourceNames r)" "v \<in> set (Verbs r)"
    | (anchor) res v where "q = Module r @ ''.'' @ res @ ''.'' @ wildcard @ ''.'' @ v"
      "res \<in> set (Resources r)" "v \<in> set (Verbs r)"
    using assms(2) by (auto simp: rule_permissions_def split: if_splits arm.splits)
  then show ?thesis
  proof cases
    case names
    with tokens show ?thesis unfolding names(1) by (intro permissionElementRe_join) auto
  next
    case anchor
    with tokens show ?thesis unfolding anchor(1) by (intro permissionElementRe_join) auto
  qed
qed

lemma validateGrammarAndCap_ok:
  "validateGrammarAndCap ps = None \<longleftrightarrow>
     length ps \<le> MaxCompiledPermissions \<and> (\<forall>p \<in> set ps. permissionElementRe p)"
  by (auto simp: validateGrammarAndCap_def Permission_Validate_def find_None_iff find_Some_iff
      split: option.splits if_splits)

text \<open>
  C34: validation implies a well-formed projection. Whatever the tier, when the rules of a
  role are accepted and compile, the compiled permissions pass \<open>ValidateCompiled\<close> (the
  four-segment grammar and the cap); so \<open>Role.Validate\<close> never refuses a role for the
  projection its own rules were compiled into.
\<close>

theorem accepted_rules_compile_well_formed:
  assumes "Rules_Validate p ms rs = []" and "CompileRules rs = Inr ps"
  shows "ValidateCompiled ps = None"
proof -
  have "permissionElementRe q" if q: "q \<in> set ps" for q
  proof -
    from q CompileRules_Inr(1) [OF assms(2)]
    obtain r where "r \<in> set rs" "q \<in> set (rule_permissions r)" by auto
    with Rule_Validate_own [OF Rules_Validate_member [OF assms(1)]] show ?thesis
      by (blast intro: rule_permissions_well_formed)
  qed
  with CompileRules_Inr(3) [OF assms(2)] show ?thesis
    by (simp add: ValidateCompiled_def validateGrammarAndCap_ok)
qed

theorem accepted_rules_compile_well_formed_witness:
  "ValidateCompiled [''vpc.network.n1.get'', ''vpc.network.n1.list''] = None"
proof -
  let ?r = "Rule ''vpc'' [''network''] [''get'', ''list''] [''n1''] None None False"
  have own: "validate_own TenantPolicy (Some (ModuleSetOf [''vpc''])) ?r = []"
    by code_simp
  then have ok: "Rules_Validate TenantPolicy (Some (ModuleSetOf [''vpc''])) [?r] = []"
    by (simp add: Rules_Validate_def Rule_Validate_no_children MaxRules_def)
  have compiled: "CompileRules [?r] = Inr [''vpc.network.n1.get'', ''vpc.network.n1.list'']"
    by code_simp
  from accepted_rules_compile_well_formed [OF ok compiled] show ?thesis .
qed

subsection \<open>Verb tiers\<close>

lemma NormalizeVerb_idem: "NormalizeVerb (to_lower (trim_space v)) = NormalizeVerb v"
proof -
  let ?t = "trim_space v"
  have ends: "to_lower ?t = [] \<or> \<not> is_space (hd (to_lower ?t)) \<and> \<not> is_space (last (to_lower ?t))"
    using trim_space_ends [of v] by (cases "?t = []") (auto simp: to_lower_def hd_map last_map)
  then show ?thesis by (simp add: NormalizeVerb_def trim_space_id)
qed

lemma verbTier_cases:
  "verbTier v = ''viewer'' \<or> verbTier v = ''editor'' \<or> verbTier v = []"
  "verbTier v = [] \<longleftrightarrow> NormalizeVerb v = ''delete''"
  by (auto simp: verbTier_def verbDelete_def Let_def)

lemma verbTier_none: "NormalizeVerb v = ''delete'' \<longleftrightarrow> verbTier v \<noteq> ''editor'' \<and> verbTier v \<noteq> ''viewer''"
  using verbTier_cases [of v] by auto

lemma wildcardTier_loop_eq:
  "wildcardTier_loop e vs =
     (if \<exists>v \<in> set vs. NormalizeVerb v = verbDelete then ''admin''
      else if e \<or> (\<exists>v \<in> set vs. verbTier v = ''editor'') then ''editor'' else ''viewer'')"
  by (induction vs arbitrary: e) auto

text \<open>
  The tier of a resolved verb list. A wildcard expands to the verbs of the type and
  earns \<open>admin\<close> exactly when the type has a delete verb; an explicit list is kept as
  authored, never earns \<open>admin\<close>, earns \<open>editor\<close> exactly when some verb is neither a read
  verb nor delete, and earns no tier exactly when it consists of delete verbs only.
\<close>

theorem ResolveVerbsAndTier_spec:
  "(wildcard \<in> set authored \<longrightarrow>
      fst (ResolveVerbsAndTier authored tv) = tv \<and>
      (snd (ResolveVerbsAndTier authored tv) = ''admin'' \<longleftrightarrow> (\<exists>v \<in> set tv. NormalizeVerb v = ''delete''))) \<and>
   (wildcard \<notin> set authored \<longrightarrow>
      fst (ResolveVerbsAndTier authored tv) = authored \<and>
      snd (ResolveVerbsAndTier authored tv) \<noteq> ''admin'' \<and>
      (snd (ResolveVerbsAndTier authored tv) = ''editor'' \<longleftrightarrow> (\<exists>v \<in> set authored. verbTier v = ''editor'')) \<and>
      (snd (ResolveVerbsAndTier authored tv) = [] \<longleftrightarrow> (\<forall>v \<in> set authored. NormalizeVerb v = ''delete'')))"
proof -
  have none: "(\<forall>v \<in> set authored. NormalizeVerb v = ''delete'') \<longleftrightarrow>
      \<not> (\<exists>v \<in> set authored. verbTier v = ''editor'') \<and> \<not> (\<exists>v \<in> set authored. verbTier v = ''viewer'')"
    by (auto simp: verbTier_none)
  show ?thesis
    unfolding none
    by (simp add: ResolveVerbsAndTier_def wildcardTier_def wildcardTier_loop_eq list_ex_iff verbDelete_def Let_def)
qed

theorem ResolveVerbsAndTier_spec_witness:
  "snd (ResolveVerbsAndTier [wildcard] [''get'', ''Delete'']) = ''admin'' \<and>
   snd (ResolveVerbsAndTier [''get'', ''update''] [''get'']) = ''editor''"
  using ResolveVerbsAndTier_spec [of "[wildcard]" "[''get'', ''Delete'']"]
    ResolveVerbsAndTier_spec [of "[''get'', ''update'']" "[''get'']"]
  by (simp; code_simp)

subsection \<open>Removal of an unregistered name\<close>

lemma rule_update_sel [simp]:
  "Module (with_names ns r) = Module r" "Resources (with_names ns r) = Resources r"
  "ResourceNames (with_names ns r) = ns" "Children (with_names ns r) = Children r"
  "Module (with_resources rs r) = Module r" "Resources (with_resources rs r) = rs"
  "ResourceNames (with_resources rs r) = ResourceNames r" "Children (with_resources rs r) = Children r"
  "Module (with_children cs r) = Module r" "Resources (with_children cs r) = Resources r"
  "ResourceNames (with_children cs r) = ResourceNames r" "Children (with_children cs r) = cs"
  by (simp_all add: with_names_def with_resources_def with_children_def)

abbreviation own_named :: "string \<Rightarrow> rule \<Rightarrow> ResourceRef set" where
  "own_named m r \<equiv> set (named_pairs m (Resources r) (ResourceNames r))"

definition named_keys :: "rules \<Rightarrow> ResourceRef set" where
  "named_keys rs = (\<Union>r \<in> set rs. set (rule_named r))"

lemma set_named_pairs:
  "set (named_pairs m ress ns) =
     {\<lparr>obj_Type = m @ ''.'' @ res, obj_ID = n\<rparr> | res n. res \<in> set ress \<and> res \<noteq> wildcard \<and> n \<in> set ns}"
  by (auto simp: named_pairs_def)

lemma named_pairs_mem:
  "\<lparr>obj_Type = t, obj_ID = i\<rparr> \<in> set (named_pairs m ress ns) \<longleftrightarrow>
     i \<in> set ns \<and> (\<exists>res \<in> set ress. res \<noteq> wildcard \<and> m @ ''.'' @ res = t)"
  by (auto simp: set_named_pairs)

lemma set_rule_named:
  "set (rule_named r) = own_named (Module r) r \<union> (\<Union>c \<in> set (children_of r). own_named (Module r) c)"
  by (auto simp: rule_named_def)

text \<open>One rule: the object is gone from it, nothing is added, the parts keep the children.\<close>

lemma withoutNameSplit_None:
  "withoutNameSplit r m t i sp = None \<Longrightarrow> \<lparr>obj_Type = t, obj_ID = i\<rparr> \<notin> own_named m r"
  by (auto simp: withoutNameSplit_def namesID_def list_ex_iff named_pairs_mem Let_def filter_empty_conv
      split: if_splits)

lemma withoutNameSplit_parts:
  assumes "withoutNameSplit r m t i sp = Some parts" and "q \<in> set parts"
  shows "q = with_names (filter (\<lambda>n. n \<noteq> i) (ResourceNames r)) r
    \<or> q = with_resources (filter (\<lambda>res. \<not> (res \<noteq> wildcard \<and> m @ ''.'' @ res = t)) (Resources r)) r
    \<or> q = with_children None (with_names (filter (\<lambda>n. n \<noteq> i) (ResourceNames r))
           (with_resources (take 1 (filter (\<lambda>res. res \<noteq> wildcard \<and> m @ ''.'' @ res = t) (Resources r))) r))"
  using assms unfolding withoutNameSplit_def Let_def
  by (simp only: option.inject option.distinct list.set insert_iff empty_iff split: if_split_asm) auto

lemma withoutNameSplit_Some:
  assumes "withoutNameSplit r m t i sp = Some parts" and "q \<in> set parts"
  shows "\<lparr>obj_Type = t, obj_ID = i\<rparr> \<notin> own_named m q" and "own_named m q \<subseteq> own_named m r"
    and "Module q = Module r" and "Children q = Children r \<or> Children q = None"
  using withoutNameSplit_parts [OF assms]
  by (elim disjE; auto simp: named_pairs_mem set_named_pairs dest!: in_set_takeD)+

lemma childrenWithout_named:
  assumes "childrenWithout cs m t i sp = (out, hit)" and "c \<in> set out"
  shows "\<lparr>obj_Type = t, obj_ID = i\<rparr> \<notin> own_named m c \<and> (\<exists>d \<in> set cs. own_named m c \<subseteq> own_named m d)"
  using assms
proof (induction cs arbitrary: out hit)
  case Nil
  then show ?case by simp
next
  case (Cons d ds)
  obtain out' hit' where rec: "childrenWithout ds m t i sp = (out', hit')" by force
  show ?case
  proof (cases "withoutNameSplit d m t i sp")
    case None
    with Cons.prems rec have "c = d \<or> c \<in> set out'" by auto
    with Cons.IH [OF rec] withoutNameSplit_None [OF None] show ?thesis by auto
  next
    case (Some parts)
    with Cons.prems rec have "c \<in> set parts \<or> c \<in> set out'" by auto
    with Cons.IH [OF rec] withoutNameSplit_Some(1,2) [OF Some] show ?thesis by auto
  qed
qed

lemma childrenWithout_no_hit: "childrenWithout cs m t i sp = (out, False) \<Longrightarrow> out = cs"
  by (induction cs arbitrary: out) (auto simp: Let_def split: prod.splits option.splits)

lemma withoutNameInChildren_named:
  assumes "withoutNameInChildren ch m t i sp = (ch', hit)"
    and "c \<in> set (case (if hit then ch' else ch) of None \<Rightarrow> [] | Some cs \<Rightarrow> cs)"
  shows "\<lparr>obj_Type = t, obj_ID = i\<rparr> \<notin> own_named m c
     \<and> (\<exists>d \<in> set (case ch of None \<Rightarrow> [] | Some cs \<Rightarrow> cs). own_named m c \<subseteq> own_named m d)"
proof -
  obtain d ds where ch: "ch = Some (d # ds)"
    using assms by (auto simp: withoutNameInChildren_def split: option.splits list.splits if_splits)
  obtain out h where run: "childrenWithout (d # ds) m t i sp = (out, h)" by force
  obtain out2 h2 where run2: "childrenWithout (d # ds) m t i False = (out2, h2)" by force
  have "c \<in> set out \<or> c \<in> set out2 \<or> \<not> h \<and> c \<in> set (d # ds)"
    using assms run run2 unfolding ch withoutNameInChildren_def
    by (auto simp: Let_def simp del: childrenWithout.simps split: if_splits)
  moreover have "out = d # ds" if "\<not> h"
    using run that childrenWithout_no_hit [of "d # ds" m t i sp out] by simp
  ultimately have "c \<in> set out \<or> c \<in> set out2" by blast
  then show ?thesis
    using childrenWithout_named [OF run, of c] childrenWithout_named [OF run2, of c] unfolding ch by auto
qed

lemma withoutResourceName_named:
  assumes "q \<in> set (fst (withoutResourceName rs t i sp))"
  shows "\<lparr>obj_Type = t, obj_ID = i\<rparr> \<notin> set (rule_named q) \<and> set (rule_named q) \<subseteq> named_keys rs"
  using assms
proof (induction rs)
  case Nil
  then show ?case by simp
next
  case (Cons r rs)
  obtain out rem chg where rec: "withoutResourceName rs t i sp = (out, rem, chg)" by (metis prod_cases3)
  obtain ch hit where ch: "withoutNameInChildren (Children r) (Module r) t i sp = (ch, hit)" by force
  define r' where "r' = (if hit then with_children ch r else r)"
  have r': "Module r' = Module r" "Resources r' = Resources r" "ResourceNames r' = ResourceNames r"
    by (simp_all add: r'_def)
  have child: "\<lparr>obj_Type = t, obj_ID = i\<rparr> \<notin> own_named (Module r) c \<and> own_named (Module r) c \<subseteq> set (rule_named r)"
    if "c \<in> set (children_of r')" for c
  proof -
    have "c \<in> set (case (if hit then ch else Children r) of None \<Rightarrow> [] | Some cs \<Rightarrow> cs)"
      using that by (auto simp: children_of_def r'_def split: if_splits)
    from withoutNameInChildren_named [OF ch this] show ?thesis
      by (auto simp: set_rule_named children_of_def)
  qed
  have head: "\<lparr>obj_Type = t, obj_ID = i\<rparr> \<notin> set (rule_named q) \<and> set (rule_named q) \<subseteq> set (rule_named r)"
    if "Module q = Module r" "\<lparr>obj_Type = t, obj_ID = i\<rparr> \<notin> own_named (Module r) q"
      "own_named (Module r) q \<subseteq> own_named (Module r) r" "set (children_of q) \<subseteq> set (children_of r')"
    using that child by (fastforce simp: set_rule_named)
  have "q \<in> set out \<or> (\<lparr>obj_Type = t, obj_ID = i\<rparr> \<notin> set (rule_named q) \<and> set (rule_named q) \<subseteq> set (rule_named r))"
  proof (cases "withoutNameSplit r' (Module r') t i sp")
    case None
    with Cons.prems rec ch have "q \<in> set out \<or> q = r'" by (auto simp: Let_def r'_def)
    then show ?thesis
      using head withoutNameSplit_None [OF None] by (auto simp: r')
  next
    case (Some parts)
    with Cons.prems rec ch have "q \<in> set out \<or> q \<in> set parts"
      by (auto simp: Let_def r'_def split: list.splits)
    then show ?thesis
      using head withoutNameSplit_Some [OF Some, of q] by (auto simp: r' children_of_def) blast+
  qed
  then show ?case
    using Cons.IH rec by (auto simp: named_keys_def)
qed

text \<open>
  C28: a removed name is removed everywhere. After \<open>WithoutResourceName\<close> no rule and no nested
  rule names the unregistered object, and no object is named that was not named before, in
  the splitting mode and in the fallback that keeps the rule count within \<open>MaxRules\<close> alike.
\<close>

theorem WithoutResourceName_removes:
  "\<lparr>obj_Type = t, obj_ID = i\<rparr> \<notin> named_keys (fst (WithoutResourceName rs t i)) \<and>
   named_keys (fst (WithoutResourceName rs t i)) \<subseteq> named_keys rs"
proof -
  obtain sp where "WithoutResourceName rs t i = withoutResourceName rs t i sp"
    by (cases "length (fst (withoutResourceName rs t i True)) > MaxRules")
       (auto simp: WithoutResourceName_def Let_def intro: that)
  then show ?thesis
    using withoutResourceName_named [of _ rs t i sp]
    by (simp add: named_keys_def [of "fst (withoutResourceName rs t i sp)"] UN_subset_iff)
qed

text \<open>Splitting a rule loses nothing but the object itself.\<close>

lemma named_pairs_split:
  assumes "\<exists>res \<in> set ress. res \<noteq> wildcard \<and> m @ ''.'' @ res = t"
  shows "set (named_pairs m ress ns) =
      set (named_pairs m (filter (\<lambda>res. \<not> (res \<noteq> wildcard \<and> m @ ''.'' @ res = t)) ress) ns)
      \<union> (\<lambda>n. \<lparr>obj_Type = t, obj_ID = n\<rparr>) ` set ns"
    and "set (named_pairs m (take 1 (filter (\<lambda>res. res \<noteq> wildcard \<and> m @ ''.'' @ res = t) ress)) ns)
      = (\<lambda>n. \<lparr>obj_Type = t, obj_ID = n\<rparr>) ` set ns"
proof -
  show "set (named_pairs m ress ns) =
      set (named_pairs m (filter (\<lambda>res. \<not> (res \<noteq> wildcard \<and> m @ ''.'' @ res = t)) ress) ns)
      \<union> (\<lambda>n. \<lparr>obj_Type = t, obj_ID = n\<rparr>) ` set ns"
    using assms by (auto simp: set_named_pairs)
  obtain y ys where f: "filter (\<lambda>res. res \<noteq> wildcard \<and> m @ ''.'' @ res = t) ress = y # ys"
    using assms by (cases "filter (\<lambda>res. res \<noteq> wildcard \<and> m @ ''.'' @ res = t) ress")
      (auto simp: filter_empty_conv)
  then have "y \<noteq> wildcard \<and> m @ ''.'' @ y = t"
    using Cons_eq_filterD [OF f [symmetric]] by auto
  then show "set (named_pairs m (take 1 (filter (\<lambda>res. res \<noteq> wildcard \<and> m @ ''.'' @ res = t) ress)) ns)
      = (\<lambda>n. \<lparr>obj_Type = t, obj_ID = n\<rparr>) ` set ns"
    unfolding f by (auto simp: set_named_pairs)
qed

lemma withoutNameSplit_exact:
  assumes "withoutNameSplit r m t i True = Some parts"
  shows "(\<Union>q \<in> set parts. own_named m q) = own_named m r - {\<lparr>obj_Type = t, obj_ID = i\<rparr>}"
proof -
  define rest where "rest = filter (\<lambda>res. \<not> (res \<noteq> wildcard \<and> m @ ''.'' @ res = t)) (Resources r)"
  define named where "named = filter (\<lambda>res. res \<noteq> wildcard \<and> m @ ''.'' @ res = t) (Resources r)"
  define rem where "rem = filter (\<lambda>n. n \<noteq> i) (ResourceNames r)"
  have parts: "parts =
      (if rest = [] then (if rem = [] then [] else [with_names rem r])
       else with_resources rest r
         # (if rem \<noteq> [] then [with_children None (with_names rem (with_resources (take 1 named) r))] else []))"
    and "named \<noteq> []"
    using assms by (auto simp: withoutNameSplit_def Let_def rest_def named_def rem_def split: if_splits)
  then have ex: "\<exists>res \<in> set (Resources r). res \<noteq> wildcard \<and> m @ ''.'' @ res = t"
    by (auto simp: named_def filter_empty_conv)
  note pairs = named_pairs_split [OF ex, folded rest_def named_def, unfolded One_nat_def]
  have "set rem = set (ResourceNames r) - {i}" by (auto simp: rem_def)
  moreover have "\<lparr>obj_Type = t, obj_ID = n\<rparr> \<notin> set (named_pairs m rest ns)" for n ns
    by (auto simp: named_pairs_mem rest_def)
  moreover have "rem = [] \<longleftrightarrow> set rem = {}" by simp
  moreover have "named_pairs m [] ns = []" for ns by (simp add: named_pairs_def)
  ultimately show ?thesis
    unfolding parts by (auto simp: pairs)
qed

lemma no_children_untouched: "children_of r = [] \<Longrightarrow> withoutNameInChildren (Children r) m t i sp = (Children r, False)"
  by (auto simp: withoutNameInChildren_def children_of_def split: option.splits list.splits)

lemma withoutResourceName_exact:
  assumes "\<forall>r \<in> set rs. children_of r = []"
  shows "named_keys (fst (withoutResourceName rs t i True)) = named_keys rs - {\<lparr>obj_Type = t, obj_ID = i\<rparr>}"
  using assms
proof (induction rs)
  case Nil
  then show ?case by (simp add: named_keys_def)
next
  case (Cons r rs)
  obtain out rem chg where rec: "withoutResourceName rs t i True = (out, rem, chg)" by (metis prod_cases3)
  from Cons.prems have ch: "children_of r = []" by simp
  have IH: "named_keys out = named_keys rs - {\<lparr>obj_Type = t, obj_ID = i\<rparr>}"
    using Cons rec by simp
  have own: "set (rule_named r) = own_named (Module r) r" by (simp add: set_rule_named ch)
  show ?case
  proof (cases "withoutNameSplit r (Module r) t i True")
    case None
    then have "fst (withoutResourceName (r # rs) t i True) = r # out"
      using rec ch by (simp add: no_children_untouched)
    moreover have "set (rule_named r) - {\<lparr>obj_Type = t, obj_ID = i\<rparr>} = set (rule_named r)"
      using withoutNameSplit_None [OF None] own by auto
    ultimately show ?thesis using IH by (auto simp: named_keys_def)
  next
    case (Some parts)
    then have "fst (withoutResourceName (r # rs) t i True) = parts @ out"
      using rec ch by (auto simp: no_children_untouched split: list.splits)
    moreover have "set (rule_named q) = own_named (Module r) q" if "q \<in> set parts" for q
      using withoutNameSplit_Some(3,4) [OF Some that] ch
      by (auto simp: set_rule_named children_of_def split: option.splits)
    ultimately show ?thesis
      using IH withoutNameSplit_exact [OF Some] own by (auto simp: named_keys_def)
  qed
qed

text \<open>
  nothing else is lost. For rules without nested rules, as long as splitting stays
  within \<open>MaxRules\<close>, \<open>WithoutResourceName\<close> removes exactly the unregistered object: every
  other named object is still named by some rule.
\<close>

theorem WithoutResourceName_keeps_others:
  assumes "\<forall>r \<in> set rs. children_of r = []"
    and "length (fst (withoutResourceName rs t i True)) \<le> MaxRules"
  shows "named_keys (fst (WithoutResourceName rs t i)) = named_keys rs - {\<lparr>obj_Type = t, obj_ID = i\<rparr>}"
  using withoutResourceName_exact [OF assms(1)] assms(2)
  by (simp add: WithoutResourceName_def Let_def)

theorem WithoutResourceName_keeps_others_witness:
  "named_keys (fst (WithoutResourceName
      [Rule ''vpc'' [''network'', ''subnet''] [''get''] [''a'', ''b''] None None False] ''vpc.network'' ''a''))
   = named_keys [Rule ''vpc'' [''network'', ''subnet''] [''get''] [''a'', ''b''] None None False]
     - {\<lparr>obj_Type = ''vpc.network'', obj_ID = ''a''\<rparr>}"
  by (rule WithoutResourceName_keeps_others) code_simp+

end
