(* ===== verification/Rule_Selectors.thy ===== *)
theory Rule_Selectors
  imports Rule_Compile
begin

text \<open>
  What the reconciler reads of a role: the content fingerprint that keys a rule, the
  selectors a rule list materialises into, and the test whether a mirrored object lies
  within the anchor and carries the labels of a selector.

  Sources: \<open>internal/domain/rule_fingerprint.go\<close>, \<open>nested_rule.go\<close> (\<open>nestedFingerprint\<close>,
  \<open>writeChildren\<close>, \<open>containerOf\<close>, \<open>nestedSelectors\<close>), \<open>feed_registry.go\<close>
  (\<open>AllMaterializableTypes\<close>), \<open>target_membership.go\<close> and \<open>access_binding_scope.go\<close> (\<open>Scope\<close>).

  The digest (hexadecimal SHA-256) is the parameter \<open>H\<close> of the definitions: what is
  modelled byte for byte is the stream the code writes into it.
\<close>

subsection \<open>The byte stream of a fingerprint\<close>

definition nul :: char where "nul = CHR 0x00"
definition soh :: char where "soh = CHR 0x01"

definition writeSortedList :: "string \<Rightarrow> string list \<Rightarrow> string" where
  "writeSortedList section list =
     section @ [nul] @ concat (map (\<lambda>e. e @ [nul]) (sort list)) @ [soh]"

definition writeSortedLabels :: "(string \<times> string) list \<Rightarrow> string" where
  "writeSortedLabels labels =
     ''l'' @ [nul] @ concat (map (\<lambda>(k, v). k @ [nul] @ v @ [nul]) (sort_key fst labels)) @ [soh]"

definition writeChildren :: "string list \<Rightarrow> string" where
  \<comment> \<open>the argument is the list of the children's fingerprints\<close>
  "writeChildren fps = (if fps = [] then [] else writeSortedList ''c'' fps)"

fun fingerprint_bytes :: "(string \<Rightarrow> string) \<Rightarrow> rule \<Rightarrow> string" where
  "fingerprint_bytes H (Rule m ress vs ns ml ch cb) =
     writeSortedList ''m'' [m]
     @ writeSortedList ''r'' ress
     @ writeSortedList ''v'' vs
     @ writeSortedList ''n'' ns
     @ writeSortedLabels (case ml of None \<Rightarrow> [] | Some ls \<Rightarrow> ls)
     @ writeChildren (case ch of None \<Rightarrow> [] | Some cs \<Rightarrow> map (\<lambda>c. H (fingerprint_bytes H c)) cs)
     @ (if cb then ''c'' @ [nul] @ [soh] else [])"

definition Fingerprint :: "(string \<Rightarrow> string) \<Rightarrow> rule \<Rightarrow> string" where
  "Fingerprint H r = H (fingerprint_bytes H r)"

definition nestedFingerprint :: "(string \<Rightarrow> string) \<Rightarrow> rule \<Rightarrow> rule \<Rightarrow> string" where
  "nestedFingerprint H own child =
     H (''nested'' @ [nul] @ Fingerprint H own @ [nul] @ Fingerprint H child)"

subsection \<open>Selectors\<close>

datatype Scope = ScopeUnspecified | ScopeCluster | ScopeAccount | ScopeProject

record ContainerSelector =
  cont_Type :: string
  cont_OwnerFP :: string
  cont_Arm :: arm
  cont_ResourceNames :: "string list"
  cont_MatchLabels :: "(string \<times> string) list"

record RuleSelector =
  sel_RuleFP :: string
  sel_Arm :: arm
  sel_ObjectTypes :: "string list"
  sel_ResourceNames :: "string list"
  sel_MatchLabels :: "(string \<times> string) list"
  sel_Verbs :: "string list"
  sel_Container :: "ContainerSelector option"
  sel_CreatedBySubject :: bool

record RuleLabelSelector =
  lab_RuleFP :: string
  lab_ObjectTypes :: "string list"
  lab_MatchLabels :: "(string \<times> string) list"
  lab_Verbs :: "string list"

definition materializableTypes :: "string list" where
  "materializableTypes = remdups (labelSelectableTypes @ [''registry.repositories''])"

definition AllMaterializableTypes :: "string list" where
  "AllMaterializableTypes = sort materializableTypes"

definition materializableTypesForModule :: "string \<Rightarrow> string list" where
  "materializableTypesForModule module =
     (let prefix = module @ ''.''
      in filter (\<lambda>ty. length ty > length prefix \<and> take (length prefix) ty = prefix) AllMaterializableTypes)"

text \<open>The loop of \<open>dottedTypes\<close>: a wildcard resource returns at once when it is expanded.\<close>

fun dotted_loop :: "string \<Rightarrow> bool \<Rightarrow> string list \<Rightarrow> string list \<Rightarrow> string list" where
  "dotted_loop module expandWildcard types [] = types"
| "dotted_loop module expandWildcard types (res # ress) =
     (if res = wildcard then
        (if expandWildcard then materializableTypesForModule module
         else dotted_loop module expandWildcard types ress)
      else dotted_loop module expandWildcard (types @ [module @ ''.'' @ res]) ress)"

definition dottedTypes :: "rule \<Rightarrow> bool \<Rightarrow> string list" where
  "dottedTypes r expandWildcard =
     (if Module r = wildcard then (if expandWildcard then AllMaterializableTypes else [])
      else dotted_loop (Module r) expandWildcard [] (Resources r))"

definition LabelSelectors :: "(string \<Rightarrow> string) \<Rightarrow> rules \<Rightarrow> RuleLabelSelector list" where
  "LabelSelectors H rs = map (\<lambda>r. \<lparr>lab_RuleFP = Fingerprint H r, lab_ObjectTypes = dottedTypes r False,
       lab_MatchLabels = labels_of r, lab_Verbs = Verbs r\<rparr>)
     (filter (\<lambda>r. Rule_Arm r = ArmLabels) rs)"

definition containerOf :: "(string \<Rightarrow> string) \<Rightarrow> rule \<Rightarrow> ContainerSelector" where
  "containerOf H own =
     \<lparr>cont_Type = OwnerType own, cont_OwnerFP = Fingerprint H own, cont_Arm = Rule_Arm own,
      cont_ResourceNames = (if Rule_Arm own = ArmNames then ResourceNames own else []),
      cont_MatchLabels = (if Rule_Arm own = ArmLabels then labels_of own else [])\<rparr>"

definition nestedSelectors :: "(string \<Rightarrow> string) \<Rightarrow> rule \<Rightarrow> RuleSelector list" where
  "nestedSelectors H own =
     (if length (children_of own) = 0 \<or> OwnerType own = [] then []
      else map (\<lambda>(raw, child).
        \<lparr>sel_RuleFP = nestedFingerprint H own raw, sel_Arm = Rule_Arm child,
         sel_ObjectTypes = dottedTypes child False,
         sel_ResourceNames = (if Rule_Arm child = ArmNames then ResourceNames child else []),
         sel_MatchLabels = (if Rule_Arm child = ArmLabels then labels_of child else []),
         sel_Verbs = Verbs child, sel_Container = Some (containerOf H own),
         sel_CreatedBySubject = False\<rparr>)
        (zip (children_of own) (EffectiveChildren own)))"

definition rule_selector :: "(string \<Rightarrow> string) \<Rightarrow> bool \<Rightarrow> rule \<Rightarrow> RuleSelector" where
  "rule_selector H expandWildcard r =
     \<lparr>sel_RuleFP = Fingerprint H r, sel_Arm = Rule_Arm r, sel_ObjectTypes = dottedTypes r expandWildcard,
      sel_ResourceNames = (if Rule_Arm r = ArmNames then ResourceNames r else []),
      sel_MatchLabels = (if Rule_Arm r = ArmLabels then labels_of r else []),
      sel_Verbs = Verbs r, sel_Container = None, sel_CreatedBySubject = CreatedBySubject r\<rparr>"

definition materializingSelectors :: "(string \<Rightarrow> string) \<Rightarrow> rules \<Rightarrow> bool \<Rightarrow> RuleSelector list" where
  "materializingSelectors H rs expandWildcard =
     concat (map (\<lambda>r. rule_selector H expandWildcard r # nestedSelectors H r) rs)"

definition scopeIsBounded :: "Scope \<Rightarrow> bool" where
  "scopeIsBounded scope \<longleftrightarrow> scope = ScopeAccount \<or> scope = ScopeProject"

definition MaterializingSelectors :: "(string \<Rightarrow> string) \<Rightarrow> rules \<Rightarrow> RuleSelector list" where
  "MaterializingSelectors H rs = materializingSelectors H rs True"

definition MaterializingSelectorsInScope :: "(string \<Rightarrow> string) \<Rightarrow> rules \<Rightarrow> Scope \<Rightarrow> RuleSelector list" where
  "MaterializingSelectorsInScope H rs scope = materializingSelectors H rs (scopeIsBounded scope)"

subsection \<open>Mirrored objects\<close>

record ScopeAnchor =
  anchor_Type :: string
  anchor_ID :: string

record MirrorObject =
  mir_ObjectType :: string
  mir_ObjectID :: string
  mir_ParentProjectID :: string
  mir_ParentAccountIDs :: "string list"
  mir_Labels :: "(string \<times> string) list"
  mir_CreatedBy :: string

definition IsContainedIn :: "MirrorObject \<Rightarrow> ScopeAnchor \<Rightarrow> bool" where
  "IsContainedIn m scope =
     (if anchor_Type scope = ''project'' then
        mir_ParentProjectID m \<noteq> [] \<and> mir_ParentProjectID m = anchor_ID scope
      else if anchor_Type scope = ''account'' then
        (if anchor_ID scope = [] then False
         else list_ex (\<lambda>acc. acc = anchor_ID scope) (mir_ParentAccountIDs m))
      else if anchor_Type scope = ''cluster'' then True
      else False)"

definition MatchesLabels :: "MirrorObject \<Rightarrow> (string \<times> string) list \<Rightarrow> bool" where
  "MatchesLabels m matchLabels \<longleftrightarrow>
     list_all (\<lambda>(k, v). map_of (mir_Labels m) k = Some v) matchLabels"

subsection \<open>Reading a fingerprint stream back\<close>

definition clean :: "string \<Rightarrow> bool" where
  "clean s \<longleftrightarrow> nul \<notin> set s \<and> soh \<notin> set s"

lemma nul_soh [simp]: "nul \<noteq> soh" "soh \<noteq> nul"
  by (simp_all add: nul_def soh_def)

abbreviation encode_list :: "string list \<Rightarrow> string" where
  "encode_list xs \<equiv> concat (map (\<lambda>e. e @ [nul]) xs)"

lemma nul_split:
  assumes "nul \<notin> set a" "nul \<notin> set b" "a @ nul # s = b @ nul # t"
  shows "a = b \<and> s = t"
proof -
  have "takeWhile (\<lambda>c. c \<noteq> nul) (a @ nul # s) = a" "takeWhile (\<lambda>c. c \<noteq> nul) (b @ nul # t) = b"
    using assms(1,2) by (auto simp: takeWhile_append)
  with assms(3) show ?thesis by auto
qed

lemma encode_list_not_soh: "clean x \<Longrightarrow> hd (x @ nul # s) \<noteq> soh"
  by (cases x) (auto simp: clean_def)

text \<open>The terminated encoding of a list of clean strings can be read back.\<close>

lemma encode_list_inj:
  assumes "list_all clean xs" "list_all clean ys"
    and "encode_list xs @ soh # s = encode_list ys @ soh # t"
  shows "xs = ys \<and> s = t"
  using assms
proof (induction xs arbitrary: ys)
  case Nil
  then show ?case
    using encode_list_not_soh by (cases ys) (auto, metis append_Cons append_assoc append_Nil list.sel(1))
next
  case (Cons x xs)
  show ?case
  proof (cases ys)
    case Nil
    with Cons.prems show ?thesis
      using encode_list_not_soh [of x] by (auto, metis append_Cons append_assoc append_Nil list.sel(1))
  next
    case (Cons y ys')
    with Cons.prems have "x @ nul # (encode_list xs @ soh # s) = y @ nul # (encode_list ys' @ soh # t)"
      by simp
    then have "x = y \<and> encode_list xs @ soh # s = encode_list ys' @ soh # t"
      using Cons.prems \<open>ys = y # ys'\<close> by (intro nul_split) (auto simp: clean_def)
    with Cons.IH Cons.prems \<open>ys = y # ys'\<close> show ?thesis by auto
  qed
qed

lemma writeSortedList_inj:
  assumes "list_all clean xs" "list_all clean ys"
    and "writeSortedList sec xs @ s = writeSortedList sec ys @ t"
  shows "mset xs = mset ys \<and> s = t"
proof -
  have "encode_list (sort xs) @ soh # s = encode_list (sort ys) @ soh # t"
    using assms(3) by (simp add: writeSortedList_def)
  then have "sort xs = sort ys \<and> s = t"
    by (intro encode_list_inj) (use assms in \<open>auto simp: list_all_iff\<close>)
  then show ?thesis by (metis mset_sort)
qed

lemma flatten_pairs_inj:
  "concat (map (\<lambda>(k, v). [k, v]) xs) = concat (map (\<lambda>(k, v). [k, v]) ys) \<Longrightarrow> xs = ys"
proof (induction xs arbitrary: ys)
  case Nil
  then show ?case by (cases ys) auto
next
  case (Cons x xs)
  then show ?case by (cases ys) (auto split: prod.splits)
qed

lemma encode_pairs:
  "concat (map (\<lambda>(k, v). k @ nul # v @ [nul]) ps) = encode_list (concat (map (\<lambda>(k, v). [k, v]) ps))"
  by (induction ps) auto

lemma writeSortedLabels_inj:
  assumes "\<forall>(k, v) \<in> set xs. clean k \<and> clean v" "\<forall>(k, v) \<in> set ys. clean k \<and> clean v"
    and "writeSortedLabels xs @ s = writeSortedLabels ys @ t"
  shows "set xs = set ys \<and> s = t"
proof -
  have flat: "list_all clean (concat (map (\<lambda>(k, v). [k, v]) (sort_key fst zs)))"
    if "\<forall>(k, v) \<in> set zs. clean k \<and> clean v" for zs :: "(string \<times> string) list"
    using that by (auto simp: list_all_iff)
  have "encode_list (concat (map (\<lambda>(k, v). [k, v]) (sort_key fst xs))) @ soh # s
      = encode_list (concat (map (\<lambda>(k, v). [k, v]) (sort_key fst ys))) @ soh # t"
    using assms(3) by (simp add: writeSortedLabels_def encode_pairs)
  from encode_list_inj [OF flat [OF assms(1)] flat [OF assms(2)] this]
  have "sort_key fst xs = sort_key fst ys" "s = t" by (auto dest: flatten_pairs_inj)
  then show ?thesis by (metis set_sort)
qed

abbreviation creator_mark :: "bool \<Rightarrow> string" where
  "creator_mark c \<equiv> (if c then ''c'' @ [nul] @ [soh] else [])"

lemma creator_mark_is_empty_section: "creator_mark True = writeSortedList ''c'' []"
  by (simp add: writeSortedList_def)

lemma children_not_creator_mark:
  assumes "list_all clean xs" "writeSortedList ''c'' xs @ u = creator_mark c"
  shows "xs = []"
proof -
  have c using assms(2) by (auto simp: writeSortedList_def split: if_splits)
  with assms(2) have "writeSortedList ''c'' xs @ u = writeSortedList ''c'' [] @ []"
    using creator_mark_is_empty_section by simp
  with assms(1) have "mset xs = mset []"
    using writeSortedList_inj [of xs "[]" "''c''" u "[]"] by simp
  then show ?thesis by simp
qed

lemma writeChildren_Nil [simp]: "writeChildren [] = []"
  by (simp add: writeChildren_def)

lemma writeChildren_one_sided:
  assumes "list_all clean zs" "writeChildren zs @ u = creator_mark d"
  shows "zs = []"
proof (rule ccontr)
  assume "zs \<noteq> []"
  with assms(2) have "writeSortedList ''c'' zs @ u = creator_mark d" by (simp add: writeChildren_def)
  with assms(1) \<open>zs \<noteq> []\<close> show False by (blast dest: children_not_creator_mark)
qed

lemma creator_mark_inj: "creator_mark a = creator_mark b \<Longrightarrow> a = b"
  by (cases a; cases b) simp_all

lemma writeChildren_tail:
  assumes "list_all clean xs" "list_all clean ys"
    and eq: "writeChildren xs @ creator_mark a = writeChildren ys @ creator_mark b"
  shows "mset xs = mset ys \<and> a = b"
proof (cases "xs = []")
  case True
  then have "writeChildren ys @ creator_mark b = creator_mark a" using eq by simp
  then have ys: "ys = []" by (rule writeChildren_one_sided [OF assms(2)])
  have "creator_mark a = creator_mark b" using eq unfolding True ys writeChildren_Nil append_Nil .
  then have "a = b" by (rule creator_mark_inj)
  with True ys show ?thesis by blast
next
  case False
  have "ys \<noteq> []"
  proof
    assume "ys = []"
    then have "writeChildren xs @ creator_mark a = creator_mark b" using eq by simp
    then have "xs = []" by (rule writeChildren_one_sided [OF assms(1)])
    with False show False ..
  qed
  with False have "writeSortedList ''c'' xs @ creator_mark a = writeSortedList ''c'' ys @ creator_mark b"
    using eq unfolding writeChildren_def by (simp only: if_False)
  from writeSortedList_inj [OF assms(1,2) this] show ?thesis by (blast dest: creator_mark_inj)
qed

subsection \<open>Properties of the fingerprint\<close>

definition clean_rule :: "rule \<Rightarrow> bool" where
  "clean_rule r \<longleftrightarrow> clean (Module r) \<and> list_all clean (Resources r) \<and> list_all clean (Verbs r)
     \<and> list_all clean (ResourceNames r) \<and> (\<forall>(k, v) \<in> set (labels_of r). clean k \<and> clean v)"

abbreviation child_prints :: "(string \<Rightarrow> string) \<Rightarrow> rule \<Rightarrow> string list" where
  "child_prints H r \<equiv> map (Fingerprint H) (children_of r)"

text \<open>
  C39: the fingerprint covers every field. If no token and no label value contains the bytes
  0 or 1 and the digest prints neither, then two rules with the same byte stream have the
  same module, the same resources, verbs and names up to order, the same labels, the same
  fingerprints of their nested rules up to order and the same creator selector. Hence a
  change of any of these changes what is hashed.
\<close>

theorem fingerprint_stream_injective:
  assumes "\<forall>x. clean (H x)" and "clean_rule r" and "clean_rule q"
    and "fingerprint_bytes H r = fingerprint_bytes H q"
  shows "Module r = Module q \<and> mset (Resources r) = mset (Resources q) \<and> mset (Verbs r) = mset (Verbs q)
    \<and> mset (ResourceNames r) = mset (ResourceNames q) \<and> set (labels_of r) = set (labels_of q)
    \<and> mset (child_prints H r) = mset (child_prints H q) \<and> CreatedBySubject r = CreatedBySubject q"
proof -
  have stream: "fingerprint_bytes H x =
      writeSortedList ''m'' [Module x] @ writeSortedList ''r'' (Resources x) @ writeSortedList ''v'' (Verbs x)
      @ writeSortedList ''n'' (ResourceNames x) @ writeSortedLabels (labels_of x)
      @ writeChildren (child_prints H x) @ creator_mark (CreatedBySubject x)" for x
    by (cases x) (simp add: labels_of_def children_of_def Fingerprint_def [abs_def] split: option.split)
  note eq = assms(4) [unfolded stream]
  have r: "list_all clean [Module r]" "list_all clean (Resources r)" "list_all clean (Verbs r)"
      "list_all clean (ResourceNames r)" "\<forall>(k, v) \<in> set (labels_of r). clean k \<and> clean v"
    and q: "list_all clean [Module q]" "list_all clean (Resources q)" "list_all clean (Verbs q)"
      "list_all clean (ResourceNames q)" "\<forall>(k, v) \<in> set (labels_of q). clean k \<and> clean v"
    using assms(2,3) by (auto simp: clean_rule_def)
  have prints: "list_all clean (child_prints H x)" for x
    using assms(1) by (auto simp: list_all_iff Fingerprint_def)
  note m = writeSortedList_inj [OF r(1) q(1) eq]
  note rs = writeSortedList_inj [OF r(2) q(2) conjunct2 [OF m]]
  note vs = writeSortedList_inj [OF r(3) q(3) conjunct2 [OF rs]]
  note ns = writeSortedList_inj [OF r(4) q(4) conjunct2 [OF vs]]
  note ls = writeSortedLabels_inj [OF r(5) q(5) conjunct2 [OF ns]]
  note ch = writeChildren_tail [OF prints prints conjunct2 [OF ls]]
  from m rs vs ns ls ch show ?thesis by simp
qed

theorem fingerprint_stream_injective_witness:
  "let r = Rule ''vpc'' [''network'', ''subnet''] [''get''] [] (Some [(''a'', ''1''), (''b'', ''2'')]) None False;
       q = Rule ''vpc'' [''subnet'', ''network''] [''get''] [] (Some [(''b'', ''2''), (''a'', ''1'')]) None False
   in fingerprint_bytes (\<lambda>_. ''00'') r = fingerprint_bytes (\<lambda>_. ''00'') q
      \<and> mset (Resources r) = mset (Resources q) \<and> set (labels_of r) = set (labels_of q)"
proof -
  let ?r = "Rule ''vpc'' [''network'', ''subnet''] [''get''] [] (Some [(''a'', ''1''), (''b'', ''2'')]) None False"
  let ?q = "Rule ''vpc'' [''subnet'', ''network''] [''get''] [] (Some [(''b'', ''2''), (''a'', ''1'')]) None False"
  have same: "fingerprint_bytes (\<lambda>_. ''00'') ?r = fingerprint_bytes (\<lambda>_. ''00'') ?q" by code_simp
  have digest: "\<forall>x :: string. clean ((\<lambda>_. ''00'') x)" by (simp add: clean_def nul_def soh_def)
  have clean: "clean_rule ?r" "clean_rule ?q" by code_simp+
  show ?thesis using same fingerprint_stream_injective [OF digest clean same] by simp
qed

lemma sort_cong_mset: "mset (xs :: string list) = mset ys \<Longrightarrow> sort xs = sort ys"
  by (metis properties_for_sort mset_sort sorted_sort)

lemma sort_labels_cong:
  assumes "mset xs = mset (ys :: (string \<times> string) list)" and "distinct (map fst xs)"
  shows "sort_key fst xs = sort_key fst ys"
proof -
  have "distinct (map fst ys)"
    using assms by (metis mset_map mset_eq_imp_distinct_iff)
  then have "inj_on fst (set ys)" by (simp add: distinct_map)
  moreover have "set xs = set ys" using assms(1) by (metis set_mset_mset)
  ultimately show ?thesis
    using assms(1) by (intro sort_key_inj_key_eq) auto
qed

text \<open>
  the fingerprint is order-stable. Reordering the resources, the verbs, the names, the
  labels or the nested rules of a rule leaves its fingerprint unchanged, whatever the digest.
\<close>

theorem fingerprint_order_stable:
  assumes "mset ress = mset ress'" and "mset vs = mset vs'" and "mset ns = mset ns'"
    and "mset ls = mset ls'" and "distinct (map fst ls)" and "mset cs = mset cs'"
  shows "Fingerprint H (Rule m ress vs ns (Some ls) (Some cs) b)
       = Fingerprint H (Rule m ress' vs' ns' (Some ls') (Some cs') b)"
proof -
  let ?f = "\<lambda>c. H (fingerprint_bytes H c)"
  have "mset (map ?f cs) = mset (map ?f cs')"
    using assms(6) by simp
  then have "sort (map ?f cs) = sort (map ?f cs')" by (rule sort_cong_mset)
  moreover have "cs = [] \<longleftrightarrow> cs' = []" using assms(6) by auto
  ultimately have "writeChildren (map ?f cs) = writeChildren (map ?f cs')"
    by (simp add: writeChildren_def writeSortedList_def)
  then show ?thesis
    using assms(1-3) [THEN sort_cong_mset] sort_labels_cong [OF assms(4,5)]
    by (simp add: Fingerprint_def writeSortedList_def writeSortedLabels_def)
qed

theorem fingerprint_order_stable_witness:
  "Fingerprint id (Rule ''vpc'' [''a'', ''b''] [''get''] [] (Some [(''x'', ''1''), (''y'', ''2'')]) (Some []) False)
   = Fingerprint id (Rule ''vpc'' [''b'', ''a''] [''get''] [] (Some [(''y'', ''2''), (''x'', ''1'')]) (Some []) False)"
  by (rule fingerprint_order_stable) simp_all

text \<open>
  C40: the limit of the fingerprint. The stream carries no lengths and no counts, and a label
  value is checked for its length only. Hence there are two accepted rules, selecting by
  different labels, with the same fingerprint under every digest: the hypothesis on the byte
  0 of the injectivity theorem cannot be dropped.
\<close>

theorem fingerprint_alias_by_nul:
  "\<exists>r q. Rule_Validate TenantPolicy (Some (ModuleSetOf [''vpc''])) r = []
     \<and> Rule_Validate TenantPolicy (Some (ModuleSetOf [''vpc''])) q = []
     \<and> set (labels_of r) \<noteq> set (labels_of q) \<and> (\<forall>H. Fingerprint H r = Fingerprint H q)"
proof -
  let ?r = "Rule ''vpc'' [''network''] [''get''] [] (Some [(''a'', ''x''), (''b'', ''y'')]) None False"
  let ?q = "Rule ''vpc'' [''network''] [''get''] [] (Some [(''a'', ''x'' @ [nul] @ ''b'' @ [nul] @ ''y'')]) None False"
  have "validate_own TenantPolicy (Some (ModuleSetOf [''vpc''])) ?r = []"
    "validate_own TenantPolicy (Some (ModuleSetOf [''vpc''])) ?q = []" by code_simp+
  then have "Rule_Validate TenantPolicy (Some (ModuleSetOf [''vpc''])) ?r = []"
    "Rule_Validate TenantPolicy (Some (ModuleSetOf [''vpc''])) ?q = []"
    by (simp_all add: Rule_Validate_no_children)
  moreover have "set (labels_of ?r) \<noteq> set (labels_of ?q)" by (auto simp: labels_of_def)
  moreover have "writeSortedLabels (labels_of ?r) = writeSortedLabels (labels_of ?q)" by code_simp
  then have "\<forall>H. Fingerprint H ?r = Fingerprint H ?q" by (simp add: Fingerprint_def labels_of_def)
  ultimately show ?thesis by blast
qed

subsection \<open>Properties of the selectors\<close>

definition named_types :: "rule \<Rightarrow> string set" where
  "named_types r = (if Module r = wildcard then {}
     else {Module r @ ''.'' @ res | res. res \<in> set (Resources r) \<and> res \<noteq> wildcard})"

definition expanded_types :: "rule \<Rightarrow> string set" where
  "expanded_types r = (if Module r = wildcard then set AllMaterializableTypes
     else if wildcard \<in> set (Resources r) then set (materializableTypesForModule (Module r)) else {})"

lemma dotted_loop_no_expand:
  "set (dotted_loop m False acc ress) = set acc \<union> {m @ ''.'' @ res | res. res \<in> set ress \<and> res \<noteq> wildcard}"
  by (induction ress arbitrary: acc) auto

lemma dotted_loop_expand:
  "dotted_loop m True acc ress = (if wildcard \<in> set ress then materializableTypesForModule m
     else acc @ map (\<lambda>res. m @ ''.'' @ res) ress)"
  by (induction ress arbitrary: acc) auto

lemma dottedTypes_set:
  "set (dottedTypes r expand) =
     (if expand \<and> (Module r = wildcard \<or> wildcard \<in> set (Resources r)) then expanded_types r else named_types r)"
  by (cases expand)
     (auto simp: dottedTypes_def expanded_types_def named_types_def dotted_loop_no_expand dotted_loop_expand)

lemma nestedSelectors_member:
  assumes "sel \<in> set (nestedSelectors H own)"
  obtains raw where "raw \<in> set (children_of own)" and "OwnerType own \<noteq> []"
    and "sel_ObjectTypes sel = dottedTypes (effective_child own raw) False"
    and "sel_Verbs sel = Verbs raw" and "sel_Container sel = Some (containerOf H own)"
    and "sel_RuleFP sel = nestedFingerprint H own raw" and "sel_Arm sel = Rule_Arm (effective_child own raw)"
proof -
  have "map2 g xs (map f xs) = map (\<lambda>x. g x (f x)) xs" for g :: "rule \<Rightarrow> rule \<Rightarrow> RuleSelector" and f xs
    by (induction xs) auto
  with assms show thesis
    by (auto simp: nestedSelectors_def EffectiveChildren_def split: if_splits intro: that)
qed

lemma nestedSelectors_reach:
  "(\<exists>sel \<in> set (nestedSelectors H r). sel_Container sel = k \<and> sel_Verbs sel = vs \<and> set (sel_ObjectTypes sel) = T)
   \<longleftrightarrow> (\<exists>c \<in> set (children_of r). OwnerType r \<noteq> [] \<and> k = Some (containerOf H r) \<and> vs = Verbs c \<and> T = named_types (effective_child r c))"
proof -
  have "map2 g xs (map f xs) = map (\<lambda>x. g x (f x)) xs" for g :: "rule \<Rightarrow> rule \<Rightarrow> RuleSelector" and f xs
    by (induction xs) auto
  then show ?thesis by (auto simp: nestedSelectors_def EffectiveChildren_def dottedTypes_set)
qed

definition rule_reach :: "Scope \<Rightarrow> rule \<Rightarrow> string set" where
  \<comment> \<open>the types of a rule at a scope\<close>
  "rule_reach scope r =
     (if scope \<in> {ScopeAccount, ScopeProject} \<and> (Module r = wildcard \<or> wildcard \<in> set (Resources r))
      then {ty \<in> set AllMaterializableTypes. Module r = wildcard \<or> (\<exists>res. res \<noteq> [] \<and> ty = Module r @ ''.'' @ res)}
      else named_types r)"

lemma expanded_types_named:
  "Module r = wildcard \<or> wildcard \<in> set (Resources r) \<Longrightarrow>
    expanded_types r = {ty \<in> set AllMaterializableTypes. Module r = wildcard \<or> (\<exists>res. res \<noteq> [] \<and> ty = Module r @ ''.'' @ res)}"
proof -
  have "length ty > length (m @ ''.'') \<and> take (length (m @ ''.'')) ty = m @ ''.'' \<longleftrightarrow> (\<exists>res. res \<noteq> [] \<and> ty = m @ ''.'' @ res)" for ty m :: string
  proof
    assume t: "length ty > length (m @ ''.'') \<and> take (length (m @ ''.'')) ty = m @ ''.''"
    then have "ty = (m @ ''.'') @ drop (length (m @ ''.'')) ty" by (metis append_take_drop_id)
    then show "\<exists>res. res \<noteq> [] \<and> ty = m @ ''.'' @ res" using t by (intro exI [of _ "drop (length (m @ ''.'')) ty"]) simp
  qed auto
  then show "Module r = wildcard \<or> wildcard \<in> set (Resources r) \<Longrightarrow> ?thesis"
    by (auto simp: expanded_types_def materializableTypesForModule_def Let_def)
qed



end
