(* ===== verification/Role_Model.thy ===== *)
theory Role_Model
  imports Rule_Selectors
begin

text \<open>
  The role: its validation, where it may be assigned, the verbs a reader is shown, the
  state of its rules against the catalogue, and the read-only tests that guard public
  (system class) subjects.

  Sources: \<open>internal/domain/role.go\<close>, \<open>role_integrity.go\<close>, \<open>role_rule_state.go\<close>,
  \<open>role_effective_verbs.go\<close>, \<open>role_scope.go\<close>, \<open>role_cluster_admin.go\<close>,
  \<open>role_definition_tier.go\<close>, \<open>public_read.go\<close>, \<open>system_class.go\<close>, \<open>nested_rule.go\<close>
  (\<open>readsExactly\<close>, \<open>ClassNestedRuleRefusal\<close>) and the newtypes of \<open>types.go\<close>.

  The record carries the fields that these operations read; the fields a reader fills in
  for output only (integrity, lifecycle, withdrawn grants, held names, timestamps) are
  arguments of the functions that compute them.
\<close>

subsection \<open>Newtypes of a role\<close>

datatype role_error =
    RoleNameForm
  | DescriptionTooLong
  | LabelsTooMany
  | LabelInvalid rule_error
  | RulesInvalid rule_error
  | PermissionsInvalid permission_error
  | SystemRoleTier
  | CustomRoleClusterSet
  | CustomRoleTier

definition roleNameCustomRe :: "string \<Rightarrow> bool" where
  \<comment> \<open>\<open>^[a-z][a-z0-9_]{0,40}$\<close>\<close>
  "roleNameCustomRe s = (case s of [] \<Rightarrow> False
     | c # cs \<Rightarrow> is_lower c \<and> length cs \<le> 40
         \<and> list_all (\<lambda>d. is_lower d \<or> is_digit d \<or> d = CHR ''_'') cs)"

definition roleNameSystemRe :: "string \<Rightarrow> bool" where
  \<comment> \<open>\<open>^[a-z][-a-z0-9]*(\.[a-z][a-z0-9_]*){0,2}$\<close>; no class contains the dot\<close>
  "roleNameSystemRe s = (case split_byte (CHR ''.'') s of [] \<Rightarrow> False
     | p # ps \<Rightarrow> ruleModuleRe p \<and> length ps \<le> 2
         \<and> list_all (\<lambda>q. case q of [] \<Rightarrow> False
             | c # cs \<Rightarrow> is_lower c \<and> list_all (\<lambda>d. is_lower d \<or> is_digit d \<or> d = CHR ''_'') cs) ps)"

definition RoleName_Validate :: "string \<Rightarrow> role_error list" where
  "RoleName_Validate n = (if roleNameCustomRe n \<or> roleNameSystemRe n then [] else [RoleNameForm])"

definition ValidateAtTier :: "string \<Rightarrow> bool \<Rightarrow> role_error list" where
  "ValidateAtTier n isSystem =
     (if isSystem then (if roleNameSystemRe n then [] else [RoleNameForm])
      else if roleNameCustomRe n then [] else [RoleNameForm])"

text \<open>
  \<open>utf8.RuneCountInString\<close>: a well-formed sequence of one to four bytes is one rune, every
  byte that does not start one counts as a rune of its own.
\<close>

definition cont_byte :: "nat \<Rightarrow> bool" where
  "cont_byte b \<longleftrightarrow> 128 \<le> b \<and> b \<le> 191"

fun rune_count :: "nat list \<Rightarrow> nat" where
  "rune_count [] = 0"
| "rune_count [b0] = 1"
| "rune_count [b0, b1] =
     (if 194 \<le> b0 \<and> b0 \<le> 223 \<and> cont_byte b1 then 1 else 1 + rune_count [b1])"
| "rune_count [b0, b1, b2] =
     (if 194 \<le> b0 \<and> b0 \<le> 223 \<and> cont_byte b1 then 1 + rune_count [b2]
      else if 224 \<le> b0 \<and> b0 \<le> 239 \<and> cont_byte b1 \<and> cont_byte b2
         \<and> (b0 = 224 \<longrightarrow> 160 \<le> b1) \<and> (b0 = 237 \<longrightarrow> b1 \<le> 159) then 1
      else 1 + rune_count [b1, b2])"
| "rune_count (b0 # b1 # b2 # b3 # bs) =
     (if 194 \<le> b0 \<and> b0 \<le> 223 \<and> cont_byte b1 then 1 + rune_count (b2 # b3 # bs)
      else if 224 \<le> b0 \<and> b0 \<le> 239 \<and> cont_byte b1 \<and> cont_byte b2
         \<and> (b0 = 224 \<longrightarrow> 160 \<le> b1) \<and> (b0 = 237 \<longrightarrow> b1 \<le> 159) then 1 + rune_count (b3 # bs)
      else if 240 \<le> b0 \<and> b0 \<le> 244 \<and> cont_byte b1 \<and> cont_byte b2 \<and> cont_byte b3
         \<and> (b0 = 240 \<longrightarrow> 144 \<le> b1) \<and> (b0 = 244 \<longrightarrow> b1 \<le> 143) then 1 + rune_count bs
      else 1 + rune_count (b1 # b2 # b3 # bs))"

definition DescriptionMax :: nat where "DescriptionMax = 256"

definition Description_Validate :: "string \<Rightarrow> role_error list" where
  "Description_Validate d = (if rune_count (map byte d) > DescriptionMax then [DescriptionTooLong] else [])"

text \<open>\<open>Labels.Validate\<close> returns the first error it meets.\<close>

definition Labels_Validate :: "(string \<times> string) list \<Rightarrow> role_error list" where
  "Labels_Validate l =
     (if length l > 64 then [LabelsTooMany]
      else map LabelInvalid (take 1 (concat (map (\<lambda>(k, v). LabelKey_Validate k @ LabelVal_Validate v) l))))"

subsection \<open>The role and its validation\<close>

record Role =
  role_ID :: string
  ClusterID :: string
  AccountID :: string
  ProjectID :: string
  role_Name :: string
  role_Description :: string
  role_Rules :: rules
  role_Permissions :: "string list"
  IsSystem :: bool
  OwnerModule :: string
  role_Labels :: "(string \<times> string) list"

definition ScopeTypeClusterDotted :: string where "ScopeTypeClusterDotted = ''iam.cluster''"
definition ScopeTypeAccountDotted :: string where "ScopeTypeAccountDotted = ''iam.account''"
definition ScopeTypeProjectDotted :: string where "ScopeTypeProjectDotted = ''iam.project''"

definition DefinitionTierType :: "Role \<Rightarrow> string" where
  "DefinitionTierType r =
     (if ClusterID r \<noteq> [] then ScopeTypeClusterDotted
      else if AccountID r \<noteq> [] then ScopeTypeAccountDotted
      else if ProjectID r \<noteq> [] then ScopeTypeProjectDotted
      else [])"

definition DefinitionTierID :: "Role \<Rightarrow> string" where
  "DefinitionTierID r =
     (if ClusterID r \<noteq> [] then ClusterID r
      else if AccountID r \<noteq> [] then AccountID r
      else if ProjectID r \<noteq> [] then ProjectID r
      else [])"

definition IsSystemDerived :: "Role \<Rightarrow> bool" where
  "IsSystemDerived r \<longleftrightarrow> ClusterID r \<noteq> []"

definition CustomDefinitionTierToScope :: "string \<Rightarrow> string \<Rightarrow> (string \<times> string) option" where
  "CustomDefinitionTierToScope tierType tierID =
     (if tierType = ScopeTypeAccountDotted then Some (tierID, [])
      else if tierType = ScopeTypeProjectDotted then Some ([], tierID)
      else None)"

definition validate_role_content :: "Role \<Rightarrow> module_set option \<Rightarrow> role_error list" where
  "validate_role_content r modules =
     (if length (role_Rules r) > 0 then
        map RulesInvalid (Rules_Validate (PolicyOfRole (IsSystem r) (OwnerModule r)) modules (role_Rules r))
        @ (case ValidateCompiled (role_Permissions r) of None \<Rightarrow> [] | Some e \<Rightarrow> [PermissionsInvalid e])
      else if length (role_Permissions r) = 0 then []
      else (case Permissions_Validate (role_Permissions r) of None \<Rightarrow> [] | Some e \<Rightarrow> [PermissionsInvalid e]))"

definition validate_role_tier :: "Role \<Rightarrow> role_error list" where
  "validate_role_tier r =
     (let clusterSet = (ClusterID r \<noteq> []); accountSet = (AccountID r \<noteq> []); projectSet = (ProjectID r \<noteq> [])
      in if IsSystem r then
           (if \<not> clusterSet \<or> accountSet \<or> projectSet then [SystemRoleTier] else [])
         else
           (if clusterSet then [CustomRoleClusterSet] else [])
           @ (if (if accountSet then 1 else 0) + (if projectSet then 1 else 0 :: nat) \<noteq> 1
              then [CustomRoleTier] else []))"

definition Role_Validate :: "Role \<Rightarrow> module_set option \<Rightarrow> role_error list" where
  "Role_Validate r modules =
     ValidateAtTier (role_Name r) (IsSystemDerived r)
     @ Description_Validate (role_Description r)
     @ Labels_Validate (role_Labels r)
     @ validate_role_content r modules
     @ validate_role_tier r"

subsection \<open>Where a role may be assigned\<close>

datatype RoleScopeGroup =
  RoleScopeGroupUnspecified | RoleScopeGroupSystem | RoleScopeGroupAccount | RoleScopeGroupProject

definition ScopeGroupOf :: "Role \<Rightarrow> RoleScopeGroup" where
  "ScopeGroupOf r =
     (if IsSystem r then RoleScopeGroupSystem
      else if AccountID r \<noteq> [] then RoleScopeGroupAccount
      else if ProjectID r \<noteq> [] then RoleScopeGroupProject
      else RoleScopeGroupUnspecified)"

definition IsRoleAssignable :: "Role \<Rightarrow> string \<Rightarrow> string \<Rightarrow> bool" where
  "IsRoleAssignable r resourceType resourceID =
     (if IsSystem r then True
      else if resourceType = ''account'' then AccountID r \<noteq> [] \<and> AccountID r = resourceID
      else if resourceType = ''project'' then ProjectID r \<noteq> [] \<and> ProjectID r = resourceID
      else False)"

definition IsRoleAssignableInAccount :: "Role \<Rightarrow> string \<Rightarrow> string \<Rightarrow> string \<Rightarrow> bool" where
  "IsRoleAssignableInAccount r resourceType resourceID scopeOwningAccountID =
     (if IsRoleAssignable r resourceType resourceID then True
      else if resourceType = ''project'' \<and> \<not> IsSystem r \<and> AccountID r \<noteq> [] \<and> ProjectID r = [] then
        scopeOwningAccountID \<noteq> [] \<and> AccountID r = scopeOwningAccountID
      else False)"

definition HasAnchorRule :: "rules \<Rightarrow> bool" where
  "HasAnchorRule rs \<longleftrightarrow> list_ex (\<lambda>r. Rule_Arm r = ArmAnchor) rs"

definition ClusterAdminRoleID :: string where "ClusterAdminRoleID = ''rol21232f297a57a5a74''"
definition SystemAdminRoleID :: string where "SystemAdminRoleID = ''rol000000000sysadmin''"

definition IsClusterAdminRole :: "Role \<Rightarrow> bool" where
  "IsClusterAdminRole r =
     (if \<not> IsSystem r then False
      else if role_ID r \<noteq> ClusterAdminRoleID \<and> role_ID r \<noteq> SystemAdminRoleID then False
      else list_ex (\<lambda>u. Module u = wildcard \<and> containsWildcard (Resources u) \<and> containsWildcard (Verbs u))
             (role_Rules r))"

subsection \<open>The verbs shown to a reader\<close>

type_synonym type_verb_lookup = "string \<Rightarrow> string \<Rightarrow> string list option"

definition verbDisplayPrecedence :: "string list" where
  "verbDisplayPrecedence = [''get'', ''list'', ''create'', ''update'', ''delete'']"

definition EditorDeleteVerb :: string where "EditorDeleteVerb = ''delete*''"

definition EditorDeleteNote :: string where
  "EditorDeleteNote = ''co-materialized on in-scope leaf objects, NOT on the account/project anchor itself''"

definition WithCommonFallback :: "type_verb_lookup option \<Rightarrow> string list \<Rightarrow> type_verb_lookup" where
  "WithCommonFallback lookup common = (\<lambda>module resource.
     case (case lookup of None \<Rightarrow> None | Some f \<Rightarrow> f module resource) of
       Some verbs \<Rightarrow> Some verbs
     | None \<Rightarrow> if module = wildcard \<or> resource = wildcard then Some common else None)"

definition ruleVerbSet :: "rule \<Rightarrow> type_verb_lookup option \<Rightarrow> string list" where
  "ruleVerbSet r lookup = (case lookup of None \<Rightarrow> []
     | Some f \<Rightarrow> first_seen (concat (map (\<lambda>res. case f (Module r) res of None \<Rightarrow> [] | Some vs \<Rightarrow> vs) (Resources r))))"

text \<open>
  \<open>expandedVerbSet\<close> fills a map; the model lists its keys in the order of insertion, one of
  the orders in which the map may be iterated.
\<close>

definition expandedVerbSet :: "Role \<Rightarrow> type_verb_lookup option \<Rightarrow> string list \<times> bool" where
  "expandedVerbSet r lookup =
     (first_seen (concat (map (\<lambda>u. concat (map (\<lambda>v.
        if v = wildcard then map NormalizeVerb (ruleVerbSet u lookup) else [NormalizeVerb v]) (Verbs u)))
        (role_Rules r))),
      list_ex (\<lambda>u. list_ex (\<lambda>v. v = wildcard) (Verbs u)) (role_Rules r))"

text \<open>\<open>sortStrings\<close>: the insertion sort, by swaps, of a slice.\<close>

fun sift :: "nat \<Rightarrow> string list \<Rightarrow> string list" where
  "sift 0 s = s"
| "sift (Suc j) s = (if s ! j > s ! Suc j then sift j (s[j := s ! Suc j, Suc j := s ! j]) else s)"

definition sortStrings :: "string list \<Rightarrow> string list" where
  "sortStrings s = foldl (\<lambda>s i. sift i s) s [1..<length s]"

definition orderVerbs :: "string list \<Rightarrow> string list" where
  "orderVerbs keys =
     (let out = filter (\<lambda>c. c \<in> set keys) verbDisplayPrecedence;
          extra = filter (\<lambda>v. v \<notin> set out) keys
      in out @ sortStrings extra)"

definition OrderVerbsForDisplay :: "string list \<Rightarrow> string list" where
  "OrderVerbsForDisplay verbs = orderVerbs (first_seen (map NormalizeVerb verbs))"

definition AuthoredVerbs :: "Role \<Rightarrow> type_verb_lookup option \<Rightarrow> string list" where
  "AuthoredVerbs r lookup = orderVerbs (fst (expandedVerbSet r lookup))"

definition isEditorTier :: "Role \<Rightarrow> type_verb_lookup option \<Rightarrow> bool" where
  "isEditorTier r lookup =
     (if \<not> UpdateImpliesDelete (PolicyOfRole (IsSystem r) (OwnerModule r)) then False
      else let (keys, wild) = expandedVerbSet r lookup
           in \<not> wild \<and> ''update'' \<in> set keys \<and> ''delete'' \<notin> set keys)"

definition EffectiveVerbs :: "Role \<Rightarrow> type_verb_lookup option \<Rightarrow> string list" where
  "EffectiveVerbs r lookup =
     (if isEditorTier r lookup then AuthoredVerbs r lookup @ [EditorDeleteVerb] else AuthoredVerbs r lookup)"

definition VerbNotes :: "Role \<Rightarrow> type_verb_lookup option \<Rightarrow> (string \<times> string) list" where
  "VerbNotes r lookup = (if isEditorTier r lookup then [(EditorDeleteVerb, EditorDeleteNote)] else [])"

subsection \<open>The state of the rules against the catalogue\<close>

datatype RoleHealth = RoleHealthUnknown | RoleHealthHealthy | RoleHealthDegraded | RoleHealthEmpty

record RoleIntegrity =
  Health :: RoleHealth
  Declared :: int
  Unresolved :: int

definition HealthOf :: "int \<Rightarrow> int \<Rightarrow> RoleIntegrity" where
  "HealthOf declared unresolved =
     \<lparr>Health = (if declared = 0 \<or> unresolved = 0 then RoleHealthHealthy
                else if unresolved \<ge> declared then RoleHealthEmpty
                else RoleHealthDegraded),
      Declared = declared, Unresolved = unresolved\<rparr>"

record RoleSegment =
  seg_RoleID :: string
  seg_ObjectType :: string
  seg_Verb :: string

definition SegmentsOf :: "string \<Rightarrow> rules \<Rightarrow> RoleSegment list" where
  "SegmentsOf i rules = map (\<lambda>ref. \<lparr>seg_RoleID = i, seg_ObjectType = Dotted ref, seg_Verb = ref_Verb ref\<rparr>)
     (RuleRefsOf rules)"

datatype WithdrawnGrantSource = WithdrawnGrantSourceUnknown | WithdrawnGrantSourceGrant | WithdrawnGrantSourceRuleRef
datatype WithdrawnGrantCause = WithdrawnGrantCauseUnknown | WithdrawnGrantCauseCatalogRetired | WithdrawnGrantCauseRoleRetired

record WithdrawnGrant =
  wd_ObjectType :: string
  wd_Verb :: string
  wd_Source :: WithdrawnGrantSource
  wd_Reason :: string
  wd_WithdrawnAt :: instant
  wd_AppliedBy :: string
  wd_Cause :: WithdrawnGrantCause

datatype RuleLifecycle = RuleLifecycleUnknown | RuleLifecycleActive | RuleLifecycleWithdrawn | RuleLifecycleUnresolved

datatype RuleState = RuleState
  (RuleIndex: nat)
  (State: RuleLifecycle)
  (Segments: nat)
  (Lost: nat)
  (Explained: nat)
  (ChildStates: "RuleState list")

definition refOfDotted :: "string \<Rightarrow> string \<Rightarrow> RoleRuleRef" where
  "refOfDotted dotted verb =
     (case cut_byte (CHR ''.'') dotted of (before, after, found) \<Rightarrow>
        if found then \<lparr>ref_Module = before, ref_Resource = after, ref_Verb = verb\<rparr>
        else \<lparr>ref_Module = [], ref_Resource = dotted, ref_Verb = verb\<rparr>)"

definition refOfSegment :: "RoleSegment \<Rightarrow> RoleRuleRef" where
  "refOfSegment s = refOfDotted (seg_ObjectType s) (seg_Verb s)"

fun count_lost :: "RoleRuleRef list \<Rightarrow> RoleRuleRef list \<Rightarrow> RoleRuleRef list \<Rightarrow> nat \<times> nat" where
  \<comment> \<open>the counters \<open>Lost\<close> and \<open>Explained\<close> of the loop\<close>
  "count_lost [] lostSet explained = (0, 0)"
| "count_lost (ref # refs) lostSet explained =
     (let (l, e) = count_lost refs lostSet explained
      in if ref \<notin> set lostSet then (l, e)
         else (Suc l, if ref \<in> set explained then Suc e else e))"

definition ruleStateOf :: "nat \<Rightarrow> RoleRuleRef list \<Rightarrow> RoleRuleRef list \<Rightarrow> RoleRuleRef list \<Rightarrow> RuleState list \<Rightarrow> RuleState" where
  "ruleStateOf index refs lostSet explained children =
     (let (l, e) = count_lost refs lostSet explained
      in RuleState index
           (if l = 0 then RuleLifecycleActive else if e = l then RuleLifecycleWithdrawn else RuleLifecycleUnresolved)
           (length refs) l e children)"

definition rule_states_at :: "rules \<Rightarrow> RoleRuleRef list \<Rightarrow> RoleRuleRef list \<Rightarrow> (rule \<Rightarrow> RuleState list) \<Rightarrow> RuleState list" where
  "rule_states_at rules lostSet explained children =
     map (\<lambda>(i, r, refs). ruleStateOf i refs lostSet explained (children r))
       (enumerate 0 (zip rules (RuleRefsByRule rules)))"

definition RuleStatesOf :: "rules \<Rightarrow> RoleSegment list \<Rightarrow> WithdrawnGrant list \<Rightarrow> RuleState list" where
  "RuleStatesOf rules unresolved withdrawn =
     (let lostSet = map refOfSegment unresolved;
          explained = map (\<lambda>w. refOfDotted (wd_ObjectType w) (wd_Verb w)) withdrawn
      in rule_states_at rules lostSet explained
           (\<lambda>r. rule_states_at (EffectiveChildren r) lostSet explained (\<lambda>_. [])))"

subsection \<open>Whole-type reads\<close>

definition splitDottedType :: "string \<Rightarrow> (string \<times> string) option" where
  "splitDottedType dotted =
     (let i = length (takeWhile (\<lambda>c. c \<noteq> CHR ''.'') dotted)
      in if CHR ''.'' \<notin> set dotted \<or> i = 0 \<or> i + 1 \<ge> length dotted then None
         else Some (take i dotted, drop (i + 1) dotted))"

definition CoversType :: "rules \<Rightarrow> string \<Rightarrow> bool" where
  "CoversType rs dottedType = (case splitDottedType dottedType of None \<Rightarrow> False
     | Some (module, resource) \<Rightarrow>
         list_ex (\<lambda>r. Module r = module \<and> list_ex (\<lambda>res. res = wildcard \<or> res = resource) (Resources r)) rs)"

definition publicReadVerbsOfChild :: "string list" where
  "publicReadVerbsOfChild = [''get'', ''list'']"

definition IsPublicReadVerb :: "string \<Rightarrow> bool" where
  "IsPublicReadVerb verb \<longleftrightarrow> NormalizeVerb verb \<in> set publicReadVerbsOfChild"

definition readsWhole :: "arm \<Rightarrow> string list \<Rightarrow> bool" where
  "readsWhole arm verbs =
     (if arm \<noteq> ArmAnchor then False
      else list_all (\<lambda>want. list_ex (\<lambda>v. NormalizeVerb v = want) verbs) publicReadVerbsOfChild)"

definition Rule_ReadsWholeType :: "rule \<Rightarrow> string \<Rightarrow> bool" where
  "Rule_ReadsWholeType r dotted = (if \<not> CoversType [r] dotted then False else readsWhole (Rule_Arm r) (Verbs r))"

definition Selector_ReadsWholeType :: "RuleSelector \<Rightarrow> string \<Rightarrow> bool" where
  "Selector_ReadsWholeType s dotted \<longleftrightarrow>
     list_ex (\<lambda>t. t = dotted) (sel_ObjectTypes s) \<and> readsWhole (sel_Arm s) (sel_Verbs s)"

record PublicReadContainer =
  pub_Type :: string
  pub_Declared :: bool
  pub_ChildTypes :: "string list"

definition CoveredChild :: "PublicReadContainer \<Rightarrow> rules \<Rightarrow> string option" where
  "CoveredChild c rules =
     List.find (\<lambda>child. list_ex (\<lambda>r. Rule_ReadsWholeType r child
         \<or> \<not> (pub_Type c = [] \<or> OwnerType r \<noteq> pub_Type c)
           \<and> list_ex (\<lambda>nested. Rule_ReadsWholeType nested child) (EffectiveChildren r)) rules)
       (pub_ChildTypes c)"

subsection \<open>System classes\<close>

definition IsClassReadVerb :: "string \<Rightarrow> bool" where
  "IsClassReadVerb verb \<longleftrightarrow> NormalizeVerb verb \<in> set [''get'', ''list'']"

definition readsExactly :: "arm \<Rightarrow> string list \<Rightarrow> bool" where
  "readsExactly arm verbs = (if \<not> readsWhole arm verbs then False else list_all IsClassReadVerb verbs)"

definition PublicReadsChildOf :: "RuleSelector \<Rightarrow> string \<Rightarrow> string list \<Rightarrow> bool" where
  "PublicReadsChildOf s containerType children = (case sel_Container s of None \<Rightarrow> False
     | Some c \<Rightarrow>
         (if cont_Type c \<noteq> containerType \<or> \<not> readsExactly (sel_Arm s) (sel_Verbs s) then False
          else list_ex (\<lambda>t. list_ex (\<lambda>d. t = d) children) (sel_ObjectTypes s)))"

datatype class_refusal =
    UndeclaredContainer string string
  | NestedRuleBeyondDirectChild string string
  | NestedRuleNotWhole string

text \<open>The answer to a missing key is the zero value of the container.\<close>

definition container_at :: "(string \<rightharpoonup> PublicReadContainer) \<Rightarrow> string \<Rightarrow> PublicReadContainer" where
  "container_at containers ty = (case containers ty of Some c \<Rightarrow> c
     | None \<Rightarrow> \<lparr>pub_Type = [], pub_Declared = False, pub_ChildTypes = []\<rparr>)"

definition nested_refusals :: "PublicReadContainer \<Rightarrow> string \<Rightarrow> rule \<Rightarrow> class_refusal list" where
  "nested_refusals c ownerType child = concat (map (\<lambda>res.
     let nested = Module child @ ''.'' @ res
     in if \<not> pub_Declared c then [UndeclaredContainer ownerType nested]
        else if nested \<notin> set (pub_ChildTypes c) then [NestedRuleBeyondDirectChild ownerType nested]
        else if \<not> readsExactly (Rule_Arm child) (Verbs child) then [NestedRuleNotWhole nested]
        else []) (Resources child))"

definition ClassNestedRuleRefusal :: "rules \<Rightarrow> (string \<rightharpoonup> PublicReadContainer) \<Rightarrow> class_refusal option" where
  \<comment> \<open>the first refusal in loop order\<close>
  "ClassNestedRuleRefusal rules containers =
     (case concat (map (\<lambda>own. concat (map (nested_refusals (container_at containers (OwnerType own)) (OwnerType own))
              (EffectiveChildren own))) rules) of
        [] \<Rightarrow> None | e # _ \<Rightarrow> Some e)"

definition GrantsReadsOnly :: "Role \<Rightarrow> bool" where
  "GrantsReadsOnly r =
     (if length (role_Rules r) > 0 then
        list_all (\<lambda>u. list_all IsClassReadVerb (Verbs u)) (withEffectiveChildren (role_Rules r))
      else list_all (\<lambda>p. CHR ''.'' \<in> set p
             \<and> IsClassReadVerb (rev (takeWhile (\<lambda>c. c \<noteq> CHR ''.'') (rev p)))) (role_Permissions r))"

subsection \<open>The insertion sort\<close>

lemma insort_snoc_less: "sorted (zs @ [z]) \<Longrightarrow> y < z \<Longrightarrow> insort y (zs @ [z]) = insort y zs @ [z]"
  for y :: "'a :: linorder"
  by (induction zs) auto

lemma insort_last: "sorted xs \<Longrightarrow> (\<And>x. x \<in> set xs \<Longrightarrow> x \<le> y) \<Longrightarrow> insort y xs = xs @ [y]"
  for y :: "'a :: linorder"
  using properties_for_sort [of "xs @ [y]" "y # xs"] by (simp add: sorted_append sorted_sort_id)

lemma sift_insort: "sorted xs \<Longrightarrow> sift (length xs) (xs @ y # rest) = insort y xs @ rest"
proof (induction xs arbitrary: rest rule: rev_induct)
  case Nil
  then show ?case by simp
next
  case (snoc z zs)
  have swap: "(zs @ z # y # rest)[length zs := y, Suc (length zs) := z] = zs @ y # z # rest"
    by (simp add: list_update_append)
  show ?case
  proof (cases "y < z")
    case True
    have "sift (length (zs @ [z])) ((zs @ [z]) @ y # rest) = sift (length zs) (zs @ y # z # rest)"
      using True swap by (simp add: nth_append)
    also have "\<dots> = insort y zs @ z # rest" using snoc by (simp add: sorted_append)
    finally show ?thesis using insort_snoc_less [OF snoc.prems True] by simp
  next
    case False
    have "insort y (zs @ [z]) = (zs @ [z]) @ [y]"
      using snoc.prems False by (intro insort_last) (auto simp: sorted_append)
    with False show ?thesis by (simp add: nth_append)
  qed
qed

lemma sort_take_Suc: "k < length s \<Longrightarrow> insort (s ! k) (sort (take k s)) = sort (take (Suc k) s)"
  for s :: "string list"
  by (intro properties_for_sort [symmetric]) (simp_all add: take_Suc_conv_app_nth sorted_insort)

lemma sift_prefixes: "k < length s \<Longrightarrow> foldl (\<lambda>s i. sift i s) s [1..<Suc k] = sort (take (Suc k) s) @ drop (Suc k) s"
proof (induction k)
  case 0
  then show ?case by (cases s) auto
next
  case (Suc k)
  let ?p = "sort (take (Suc k) s)"
  have "foldl (\<lambda>s i. sift i s) s [1..<Suc (Suc k)] = sift (Suc k) (?p @ drop (Suc k) s)"
    using Suc by simp
  also have "drop (Suc k) s = s ! Suc k # drop (Suc (Suc k)) s"
    using Suc.prems by (simp add: Cons_nth_drop_Suc)
  also have "sift (Suc k) (?p @ \<dots>) = insort (s ! Suc k) ?p @ drop (Suc (Suc k)) s"
    using sift_insort [of ?p] Suc.prems by simp
  finally show ?case using sort_take_Suc [of "Suc k" s] Suc.prems by simp
qed

lemma sortStrings_sort: "sortStrings s = sort s"
proof (cases s)
  case Nil
  then show ?thesis by (simp add: sortStrings_def)
next
  case (Cons x xs)
  then show ?thesis using sift_prefixes [of "length xs" s] by (simp add: sortStrings_def)
qed

subsection \<open>The order of the verbs shown\<close>

lemma orderVerbs_set: "set (orderVerbs keys) = set keys"
  by (auto simp: orderVerbs_def sortStrings_sort Let_def)

lemma orderVerbs_distinct: "distinct keys \<Longrightarrow> distinct (orderVerbs keys)"
  by (auto simp: orderVerbs_def sortStrings_sort Let_def verbDisplayPrecedence_def)

text \<open>
  The verbs of a role are shown in one order only. The list is without repetitions, holds
  exactly the normalised verbs, starts with those of get, list, create, update, delete that
  are present, in this order, and continues in ascending order; it does not depend on the
  order in which the verbs are given nor on repetitions and spelling.
\<close>

theorem OrderVerbsForDisplay_canonical:
  "distinct (OrderVerbsForDisplay vs) \<and> set (OrderVerbsForDisplay vs) = NormalizeVerb ` set vs
   \<and> (\<exists>rest. OrderVerbsForDisplay vs
         = filter (\<lambda>c. c \<in> NormalizeVerb ` set vs) [''get'', ''list'', ''create'', ''update'', ''delete''] @ rest
       \<and> sorted rest)
   \<and> (NormalizeVerb ` set vs = NormalizeVerb ` set ws \<longrightarrow> OrderVerbsForDisplay vs = OrderVerbsForDisplay ws)"
proof -
  let ?K = "\<lambda>vs. first_seen (map NormalizeVerb vs)"
  have same: "sort (filter P (?K vs)) = sort (filter P (?K ws))"
    if "NormalizeVerb ` set vs = NormalizeVerb ` set ws" for P
  proof (rule sort_cong_mset)
    have "distinct (filter P (?K vs))" "distinct (filter P (?K ws))" by simp_all
    moreover have "set (filter P (?K vs)) = set (filter P (?K ws))" using that by simp
    ultimately show "mset (filter P (?K vs)) = mset (filter P (?K ws))"
      using set_eq_iff_mset_eq_distinct by blast
  qed
  have "OrderVerbsForDisplay vs = OrderVerbsForDisplay ws"
    if "NormalizeVerb ` set vs = NormalizeVerb ` set ws"
    using same [OF that] that by (simp add: OrderVerbsForDisplay_def orderVerbs_def sortStrings_sort Let_def)
  moreover have "\<exists>rest. OrderVerbsForDisplay vs
      = filter (\<lambda>c. c \<in> NormalizeVerb ` set vs) [''get'', ''list'', ''create'', ''update'', ''delete''] @ rest \<and> sorted rest"
    unfolding OrderVerbsForDisplay_def orderVerbs_def sortStrings_sort Let_def verbDisplayPrecedence_def
      set_first_seen set_map by (blast intro: sorted_sort)
  ultimately show ?thesis
    by (simp add: OrderVerbsForDisplay_def orderVerbs_set orderVerbs_distinct)
qed

theorem OrderVerbsForDisplay_canonical_witness:
  "NormalizeVerb ` set [''List'', ''zap'', ''get''] = NormalizeVerb ` set [''get'', ''zap'', ''list'', ''get'']
   \<and> OrderVerbsForDisplay [''List'', ''zap'', ''get''] = OrderVerbsForDisplay [''get'', ''zap'', ''list'', ''get'']"
proof -
  have "NormalizeVerb ''List'' = ''list''" "NormalizeVerb ''list'' = ''list''" by code_simp+
  then have eq: "NormalizeVerb ` set [''List'', ''zap'', ''get''] = NormalizeVerb ` set [''get'', ''zap'', ''list'', ''get'']"
    by auto
  then show ?thesis using OrderVerbsForDisplay_canonical by blast
qed

subsection \<open>Rule states and the health of a role\<close>

lemma count_lost_eq:
  "count_lost refs lost expl =
     (length (filter (\<lambda>r. r \<in> set lost) refs), length (filter (\<lambda>r. r \<in> set lost \<and> r \<in> set expl) refs))"
  by (induction refs) auto

lemma filter_length_sub: "length (filter (\<lambda>r. P r \<and> Q r) xs) = length (filter P xs) \<longleftrightarrow> (\<forall>x \<in> set xs. P x \<longrightarrow> Q x)"
proof (induction xs)
  case Nil
  then show ?case by simp
next
  case (Cons a xs)
  have "length (filter (\<lambda>r. P r \<and> Q r) xs) \<le> length (filter P xs)"
    by (metis filter_filter length_filter_le)
  with Cons show ?case by auto
qed

lemma ruleStateOf_sel [simp]:
  "RuleIndex (ruleStateOf i refs lost expl cs) = i"
  "Segments (ruleStateOf i refs lost expl cs) = length refs"
  "Lost (ruleStateOf i refs lost expl cs) = length (filter (\<lambda>r. r \<in> set lost) refs)"
  "Explained (ruleStateOf i refs lost expl cs) = length (filter (\<lambda>r. r \<in> set lost \<and> r \<in> set expl) refs)"
  "ChildStates (ruleStateOf i refs lost expl cs) = cs"
  by (simp_all add: ruleStateOf_def count_lost_eq)

lemma ruleStateOf_State:
  "State (ruleStateOf i refs lost expl cs) = RuleLifecycleActive \<longleftrightarrow> set refs \<inter> set lost = {}"
  "State (ruleStateOf i refs lost expl cs) = RuleLifecycleWithdrawn \<longleftrightarrow>
     set refs \<inter> set lost \<noteq> {} \<and> set refs \<inter> set lost \<subseteq> set expl"
  "State (ruleStateOf i refs lost expl cs) = RuleLifecycleUnresolved \<longleftrightarrow> \<not> set refs \<inter> set lost \<subseteq> set expl"
  by (auto simp: ruleStateOf_def count_lost_eq filter_length_sub filter_empty_conv)

lemma ruleStateOf_State_eq:
  "State (ruleStateOf i refs lost expl cs) =
     (if set refs \<inter> set lost = {} then RuleLifecycleActive
      else if set refs \<inter> set lost \<subseteq> set expl then RuleLifecycleWithdrawn else RuleLifecycleUnresolved)"
  using ruleStateOf_State [of i refs lost expl cs] by (metis (no_types))

lemma rule_states_at_eq:
  "rule_states_at rs lost expl ch = map (\<lambda>i. ruleStateOf i (first_seen (rule_refs (rs ! i))) lost expl (ch (rs ! i))) [0..<length rs]"
  by (intro nth_equalityI)
     (simp_all add: rule_states_at_def RuleRefsByRule_def nth_enumerate_eq split: prod.splits)

lemma RuleStatesOf_nth:
  assumes "i < length rules"
  shows "RuleStatesOf rules unresolved withdrawn ! i =
    ruleStateOf i (first_seen (rule_refs (rules ! i))) (map refOfSegment unresolved)
      (map (\<lambda>w. refOfDotted (wd_ObjectType w) (wd_Verb w)) withdrawn)
      (rule_states_at (EffectiveChildren (rules ! i)) (map refOfSegment unresolved)
        (map (\<lambda>w. refOfDotted (wd_ObjectType w) (wd_Verb w)) withdrawn) (\<lambda>_. []))"
  using assms by (simp add: RuleStatesOf_def rule_states_at_eq Let_def)

lemma refOfDotted_Dotted: "CHR ''.'' \<notin> set (ref_Module ref) \<Longrightarrow> refOfDotted (Dotted ref) (ref_Verb ref) = ref"
  using cut_byte_found [of "CHR ''.''" "ref_Module ref" "ref_Resource ref"]
  by (simp add: refOfDotted_def Dotted_def)

lemma set_withEffectiveChildren:
  "set (withEffectiveChildren rs) = set rs \<union> (\<Union>r \<in> set rs. set (EffectiveChildren r))"
  by (auto simp: withEffectiveChildren_def HasChildren_def list_ex_iff EffectiveChildren_def)

lemma set_RuleRefsOf:
  "set (RuleRefsOf rs) = (\<Union>r \<in> set rs. set (rule_refs r) \<union> (\<Union>c \<in> set (EffectiveChildren r). set (rule_refs c)))"
  by (auto simp: RuleRefsOf_def set_withEffectiveChildren)

lemma rule_refs_module: "ref \<in> set (rule_refs r) \<Longrightarrow> ref_Module ref = Module r"
  by (auto simp: rule_refs_def refsOfRule_def split: if_splits)

lemma RuleRefsOf_module: "ref \<in> set (RuleRefsOf rs) \<Longrightarrow> \<exists>r \<in> set rs. ref_Module ref = Module r"
  by (fastforce simp: set_RuleRefsOf EffectiveChildren_def dest: rule_refs_module)

lemma card_filter_first_seen: "length (filter P (first_seen xs)) = card {x \<in> set xs. P x}"
  using distinct_card [of "filter P (first_seen xs)"] by simp

lemma ruleStateOf_counts:
  "Segments (ruleStateOf i (first_seen xs) lost expl cs) = card (set xs)"
  "Lost (ruleStateOf i (first_seen xs) lost expl cs) = card (set xs \<inter> set lost)"
  "Explained (ruleStateOf i (first_seen xs) lost expl cs) = card (set xs \<inter> set lost \<inter> set expl)"
  using card_filter_first_seen [of "\<lambda>_. True" xs]
  by (simp_all add: card_filter_first_seen Int_def conj_assoc)

text \<open>
  What the state of a rule says. For a rule at position \<open>i\<close>: its state carries the
  position, it is ACTIVE exactly when none of the segments it names is unresolved, WITHDRAWN
  when some are and all of these have a recorded withdrawal, UNRESOLVED when one is without
  a record; and the counters satisfy explained \<open>\<le>\<close> lost \<open>\<le>\<close> segments.
\<close>

theorem RuleStatesOf_spec:
  assumes "i < length rules"
  shows "let st = RuleStatesOf rules unresolved withdrawn ! i;
             lost = set (rule_refs (rules ! i)) \<inter> set (map refOfSegment unresolved);
             recorded = set (map (\<lambda>w. refOfDotted (wd_ObjectType w) (wd_Verb w)) withdrawn)
         in length (RuleStatesOf rules unresolved withdrawn) = length rules \<and> RuleIndex st = i
          \<and> length (ChildStates st) = length (EffectiveChildren (rules ! i))
          \<and> Segments st = card (set (rule_refs (rules ! i))) \<and> Lost st = card lost \<and> Explained st = card (lost \<inter> recorded)
          \<and> Explained st \<le> Lost st \<and> Lost st \<le> Segments st
          \<and> State st = (if lost = {} then RuleLifecycleActive
               else if lost \<subseteq> recorded then RuleLifecycleWithdrawn else RuleLifecycleUnresolved)"
proof -
  have "length (RuleStatesOf rules unresolved withdrawn) = length rules"
    by (simp add: RuleStatesOf_def rule_states_at_eq Let_def)
  moreover have "card (A \<inter> B) \<le> card A" if "finite A" for A B :: "RoleRuleRef set"
    using that by (simp add: card_mono)
  ultimately show ?thesis
    unfolding Let_def RuleStatesOf_nth [OF assms] ruleStateOf_counts ruleStateOf_State_eq set_first_seen
    by (simp add: rule_states_at_eq)
qed

theorem RuleStatesOf_spec_witness:
  "let rules = [Rule ''vpc'' [''network''] [''get'', ''list''] [] None None False];
       gone = \<lparr>seg_RoleID = ''rol1'', seg_ObjectType = ''vpc.network'', seg_Verb = ''list''\<rparr>
   in State (RuleStatesOf rules [gone] [] ! 0) = RuleLifecycleUnresolved"
proof -
  let ?rules = "[Rule ''vpc'' [''network''] [''get'', ''list''] [] None None False]"
  let ?gone = "\<lparr>seg_RoleID = ''rol1'', seg_ObjectType = ''vpc.network'', seg_Verb = ''list''\<rparr>"
  have "\<lparr>ref_Module = ''vpc'', ref_Resource = ''network'', ref_Verb = ''list''\<rparr>
      \<in> set (rule_refs (?rules ! 0)) \<inter> set (map refOfSegment [?gone])" by code_simp
  then have "set (rule_refs (?rules ! 0)) \<inter> set (map refOfSegment [?gone]) \<noteq> {}" by blast
  then show ?thesis using RuleStatesOf_spec [of 0 ?rules "[?gone]" "[]"] by (simp add: Let_def)
qed

text \<open>
  the health of a role and the states of its rules agree. When the unresolved segments
  are those among the segments the role declares that the catalogue does not know, the
  computed health is HEALTHY exactly when every rule and every nested rule is ACTIVE.
\<close>

theorem health_agrees_with_rule_states:
  assumes "\<forall>r \<in> set rules. CHR ''.'' \<notin> set (Module r)"
    and "unresolved = filter (\<lambda>s. \<not> known (seg_ObjectType s) (seg_Verb s)) (SegmentsOf i rules)"
  shows "Health (HealthOf (int (length (SegmentsOf i rules))) (int (length unresolved))) = RoleHealthHealthy \<longleftrightarrow>
    (\<forall>st \<in> set (RuleStatesOf rules unresolved withdrawn).
       State st = RuleLifecycleActive \<and> (\<forall>c \<in> set (ChildStates st). State c = RuleLifecycleActive))"
proof -
  let ?lost = "map refOfSegment unresolved"
  let ?rec = "map (\<lambda>w. refOfDotted (wd_ObjectType w) (wd_Verb w)) withdrawn"
  have lost: "set ?lost = {ref \<in> set (RuleRefsOf rules). \<not> known (Dotted ref) (ref_Verb ref)}"
    using assms(1) RuleRefsOf_module
    by (fastforce simp: assms(2) SegmentsOf_def refOfSegment_def refOfDotted_Dotted image_iff)
  have "Health (HealthOf (int (length (SegmentsOf i rules))) (int (length unresolved))) = RoleHealthHealthy
      \<longleftrightarrow> unresolved = []"
    using assms(2) by (auto simp: HealthOf_def)
  also have "\<dots> \<longleftrightarrow> set ?lost = {}" by simp
  also have "\<dots> \<longleftrightarrow> set (RuleRefsOf rules) \<inter> set ?lost = {}" unfolding lost by blast
  also have "\<dots> \<longleftrightarrow> (\<forall>r \<in> set rules. set (rule_refs r) \<inter> set ?lost = {}
      \<and> (\<forall>c \<in> set (EffectiveChildren r). set (rule_refs c) \<inter> set ?lost = {}))"
    unfolding set_RuleRefsOf by blast
  also have "\<dots> \<longleftrightarrow> (\<forall>j < length rules. State (RuleStatesOf rules unresolved withdrawn ! j) = RuleLifecycleActive
      \<and> (\<forall>c \<in> set (ChildStates (RuleStatesOf rules unresolved withdrawn ! j)). State c = RuleLifecycleActive))"
    unfolding all_set_conv_all_nth
    by (simp add: RuleStatesOf_nth ruleStateOf_State rule_states_at_eq del: set_map)
  finally show ?thesis
    unfolding all_set_conv_all_nth
    by (simp add: RuleStatesOf_def rule_states_at_eq Let_def)
qed

theorem health_agrees_with_rule_states_witness:
  "let rules = [Rule ''vpc'' [''network''] [''get'', ''list''] [] None None False]
   in Health (HealthOf (int (length (SegmentsOf ''rol1'' rules)))
        (int (length (filter (\<lambda>s. \<not> True) (SegmentsOf ''rol1'' rules))))) = RoleHealthHealthy \<longleftrightarrow>
      list_all (\<lambda>st. State st = RuleLifecycleActive
         \<and> list_all (\<lambda>c. State c = RuleLifecycleActive) (ChildStates st)) (RuleStatesOf rules [] [])"
  unfolding list_all_iff using health_agrees_with_rule_states [of "[Rule ''vpc'' [''network''] [''get'', ''list''] [] None None False]"
      "[]" "\<lambda>_ _. True" "''rol1''" "[]"] by simp

subsection \<open>Tiers and assignment\<close>

text \<open>
  C35: an accepted role belongs to exactly one tier and can be assigned only within it. One of
  the three identifiers is set, the computed system flag agrees with the stored one, the pair
  (tier type, tier id) is read back into the account and project of a custom role and into
  nothing for a system role; and a custom role is assignable on its own account or project
  only, or, for an account role, on a project that the account owns, never on the cluster.
\<close>

theorem accepted_role_confined_to_its_tier:
  assumes "Role_Validate r ms = []"
  shows "(IsSystemDerived r \<longleftrightarrow> IsSystem r)
    \<and> (length (filter (\<lambda>x. x \<noteq> []) [ClusterID r, AccountID r, ProjectID r]) = 1)
    \<and> DefinitionTierID r \<noteq> [] \<and> ScopeGroupOf r \<noteq> RoleScopeGroupUnspecified
    \<and> CustomDefinitionTierToScope (DefinitionTierType r) (DefinitionTierID r)
        = (if IsSystem r then None else Some (AccountID r, ProjectID r))
    \<and> (IsRoleAssignableInAccount r rtype rid owning \<longleftrightarrow> IsSystem r
        \<or> AccountID r \<noteq> [] \<and> (rtype = ''account'' \<and> rid = AccountID r \<or> rtype = ''project'' \<and> owning = AccountID r)
        \<or> ProjectID r \<noteq> [] \<and> rtype = ''project'' \<and> rid = ProjectID r)"
proof -
  have "validate_role_tier r = []" using assms by (simp add: Role_Validate_def)
  then consider (system) "IsSystem r" "ClusterID r \<noteq> []" "AccountID r = []" "ProjectID r = []"
    | (account) "\<not> IsSystem r" "ClusterID r = []" "AccountID r \<noteq> []" "ProjectID r = []"
    | (project) "\<not> IsSystem r" "ClusterID r = []" "AccountID r = []" "ProjectID r \<noteq> []"
    by (auto simp: validate_role_tier_def Let_def split: if_splits)
  then show ?thesis
    by cases (auto simp: IsSystemDerived_def DefinitionTierID_def DefinitionTierType_def ScopeGroupOf_def
        CustomDefinitionTierToScope_def ScopeTypeClusterDotted_def ScopeTypeAccountDotted_def
        ScopeTypeProjectDotted_def IsRoleAssignableInAccount_def IsRoleAssignable_def)
qed

definition sample_role :: Role where
  "sample_role = \<lparr>role_ID = ''rol1'', ClusterID = [], AccountID = ''acc1'', ProjectID = [], role_Name = ''reader'',
     role_Description = [], role_Rules = [Rule ''vpc'' [''network''] [''get'', ''list''] [] None None False],
     role_Permissions = [], IsSystem = False, OwnerModule = [], role_Labels = []\<rparr>"

lemma sample_role_accepted: "Role_Validate sample_role (Some (ModuleSetOf [''vpc''])) = []"
proof -
  let ?r = "Rule ''vpc'' [''network''] [''get'', ''list''] [] None None False"
  have "validate_own (PolicyOfRole False []) (Some (ModuleSetOf [''vpc''])) ?r = []" by code_simp
  then have "Rules_Validate (PolicyOfRole False []) (Some (ModuleSetOf [''vpc''])) [?r] = []"
    by (simp add: Rules_Validate_def Rule_Validate_no_children MaxRules_def)
  moreover have "ValidateAtTier ''reader'' False = []" "Description_Validate [] = []" "Labels_Validate [] = []"
    "ValidateCompiled [] = None" by code_simp+
  ultimately show ?thesis
    by (simp add: Role_Validate_def sample_role_def validate_role_content_def validate_role_tier_def IsSystemDerived_def)
qed

theorem accepted_role_confined_to_its_tier_witness:
  "Role_Validate sample_role (Some (ModuleSetOf [''vpc''])) = []
   \<and> IsRoleAssignableInAccount sample_role ''project'' ''prj1'' ''acc1''
   \<and> \<not> IsRoleAssignableInAccount sample_role ''project'' ''prj1'' ''acc2''"
  using sample_role_accepted
    accepted_role_confined_to_its_tier [OF sample_role_accepted, of "''project''" "''prj1''" "''acc1''"]
    accepted_role_confined_to_its_tier [OF sample_role_accepted, of "''project''" "''prj1''" "''acc2''"]
  by (simp add: sample_role_def)

subsection \<open>Read-only roles and public reads\<close>

lemma wildcard_not_read: "\<not> IsClassReadVerb wildcard"
  by code_simp

lemma class_read_is_viewer: "IsClassReadVerb v \<Longrightarrow> verbTier v = ''viewer''"
  by (auto simp: IsClassReadVerb_def verbTier_def)

lemma read_verbs_resolve:
  assumes "list_all IsClassReadVerb vs" and "vs \<noteq> []"
  shows "ResolveVerbsAndTier vs tv = (vs, ''viewer'')"
proof -
  have "wildcard \<notin> set vs" using assms wildcard_not_read by (auto simp: list_all_iff)
  moreover have "\<forall>v \<in> set vs. verbTier v = ''viewer''" using assms class_read_is_viewer by (auto simp: list_all_iff)
  ultimately show ?thesis using assms(2) by (cases vs) (auto simp: ResolveVerbsAndTier_def list_ex_iff)
qed

lemma reads_only_verbs:
  assumes "GrantsReadsOnly r" and "u \<in> set (role_Rules r) \<or> (\<exists>own \<in> set (role_Rules r). u \<in> set (EffectiveChildren own))"
  shows "list_all IsClassReadVerb (Verbs u)"
proof -
  have "role_Rules r \<noteq> []" using assms(2) by auto
  with assms(1) have "\<forall>w \<in> set (withEffectiveChildren (role_Rules r)). list_all IsClassReadVerb (Verbs w)"
    by (simp add: GrantsReadsOnly_def list_all_iff)
  with assms(2) show ?thesis by (auto simp: set_withEffectiveChildren)
qed

lemma rule_permissions_end:
  assumes "p \<in> set (rule_permissions u)"
  shows "\<exists>pre. \<exists>v \<in> set (Verbs u). p = pre @ ''.'' @ v"
proof -
  from assms obtain res n v where "v \<in> set (Verbs u)" "p = Module u @ ''.'' @ res @ ''.'' @ n @ ''.'' @ v"
    by (auto simp: rule_permissions_def split: if_splits arm.splits)
  then have "v \<in> set (Verbs u) \<and> p = (Module u @ ''.'' @ res @ ''.'' @ n) @ ''.'' @ v" by simp
  then show ?thesis by blast
qed

text \<open>
  C2: a role that grants reads only grants reads only. If the test for a system class subject
  accepts the rules of a role, then every selector materialised for a binding of that role, in
  any scope, resolves to its authored verbs with the tier viewer, all of them get or list,
  and every compiled permission ends in such a verb.
\<close>

theorem reads_only_role_grants_reads:
  assumes "GrantsReadsOnly r" and "\<forall>u \<in> set (role_Rules r). Verbs u \<noteq> [] \<and> (\<forall>c \<in> set (children_of u). Verbs c \<noteq> [])"
    and "role_Rules r \<noteq> []"
  shows "(\<forall>sel \<in> set (MaterializingSelectorsInScope H (role_Rules r) scope).
            ResolveVerbsAndTier (sel_Verbs sel) typeVerbs = (sel_Verbs sel, ''viewer'')
            \<and> list_all IsClassReadVerb (sel_Verbs sel))
    \<and> (\<forall>ps. CompileRules (role_Rules r) = Inr ps \<longrightarrow>
            (\<forall>p \<in> set ps. \<exists>pre v. p = pre @ ''.'' @ v \<and> IsClassReadVerb v))"
proof -
  have sel: "list_all IsClassReadVerb (sel_Verbs sel) \<and> sel_Verbs sel \<noteq> []"
    if "sel \<in> set (MaterializingSelectorsInScope H (role_Rules r) scope)" for sel
  proof -
    from that obtain u where u: "u \<in> set (role_Rules r)"
      and "sel = rule_selector H (scopeIsBounded scope) u \<or> sel \<in> set (nestedSelectors H u)"
      by (auto simp: MaterializingSelectorsInScope_def materializingSelectors_def)
    then consider "sel_Verbs sel = Verbs u" | c where "c \<in> set (children_of u)" "sel_Verbs sel = Verbs c"
      by (auto simp: rule_selector_def elim: nestedSelectors_member)
    then show ?thesis
    proof cases
      case 1
      with u assms(2) reads_only_verbs [OF assms(1), of u] show ?thesis by auto
    next
      case 2
      then have "effective_child u c \<in> set (EffectiveChildren u)" by (simp add: EffectiveChildren_def)
      with u 2 assms(2) reads_only_verbs [OF assms(1), of "effective_child u c"] show ?thesis by auto
    qed
  qed
  have perm: "\<exists>pre v. p = pre @ ''.'' @ v \<and> IsClassReadVerb v" if "u \<in> set (role_Rules r)" "p \<in> set (rule_permissions u)" for u p
    using rule_permissions_end [OF that(2)] reads_only_verbs [OF assms(1), of u] that(1)
    by (auto simp only: list_all_iff)
  have "\<forall>p \<in> set ps. \<exists>pre v. p = pre @ ''.'' @ v \<and> IsClassReadVerb v" if "CompileRules (role_Rules r) = Inr ps" for ps
    unfolding CompileRules_Inr(1) [OF that] using perm by blast
  moreover have "\<forall>sel \<in> set (MaterializingSelectorsInScope H (role_Rules r) scope).
      ResolveVerbsAndTier (sel_Verbs sel) typeVerbs = (sel_Verbs sel, ''viewer'') \<and> list_all IsClassReadVerb (sel_Verbs sel)"
    using sel read_verbs_resolve by blast
  ultimately show ?thesis by blast
qed

theorem reads_only_role_grants_reads_witness:
  "GrantsReadsOnly sample_role \<and>
   list_all (\<lambda>sel. ResolveVerbsAndTier (sel_Verbs sel) [''get'', ''delete''] = (sel_Verbs sel, ''viewer''))
     (MaterializingSelectorsInScope id (role_Rules sample_role) ScopeProject)"
proof -
  have ok: "GrantsReadsOnly sample_role" by code_simp
  have verbs: "\<forall>u \<in> set (role_Rules sample_role). Verbs u \<noteq> [] \<and> (\<forall>c \<in> set (children_of u). Verbs c \<noteq> [])"
    "role_Rules sample_role \<noteq> []"
    by (simp_all add: sample_role_def children_of_def)
  show ?thesis unfolding list_all_iff using ok reads_only_role_grants_reads [OF ok verbs] by blast
qed

lemma splitDottedType_join:
  "m \<noteq> [] \<Longrightarrow> res \<noteq> [] \<Longrightarrow> CHR ''.'' \<notin> set m \<Longrightarrow> splitDottedType (m @ ''.'' @ res) = Some (m, res)"
  by (simp add: splitDottedType_def Let_def takeWhile_append)

lemma splitDottedType_Some: "splitDottedType t = Some (m, res) \<Longrightarrow> t = m @ ''.'' @ res"
proof -
  assume a: "splitDottedType t = Some (m, res)"
  let ?i = "length (takeWhile (\<lambda>c. c \<noteq> CHR ''.'') t)"
  from a have i: "?i < length t" "m = take ?i t" "res = drop (?i + 1) t"
    by (auto simp: splitDottedType_def Let_def split: if_splits)
  then have "t ! ?i = CHR ''.''" using nth_length_takeWhile by blast
  with i show ?thesis by (metis Cons_nth_drop_Suc Suc_eq_plus1 append_Cons append_Nil append_take_drop_id)
qed

lemma CoversType_named:
  assumes "Module r \<noteq> []" "CHR ''.'' \<notin> set (Module r)" "[] \<notin> set (Resources r)" "wildcard \<notin> set (Resources r)"
  shows "CoversType [r] t \<longleftrightarrow> (\<exists>res \<in> set (Resources r). t = Module r @ ''.'' @ res)"
proof
  assume "CoversType [r] t"
  then show "\<exists>res \<in> set (Resources r). t = Module r @ ''.'' @ res"
    using assms(4) by (auto simp: CoversType_def list_ex_iff dest!: splitDottedType_Some split: option.splits)
next
  assume "\<exists>res \<in> set (Resources r). t = Module r @ ''.'' @ res"
  then obtain res where "res \<in> set (Resources r)" "t = Module r @ ''.'' @ res" by blast
  moreover have "res \<noteq> []" using assms(3) calculation(1) by auto
  ultimately have "splitDottedType t = Some (Module r, res)" using splitDottedType_join assms(1,2) by blast
  with \<open>res \<in> set (Resources r)\<close> show "CoversType [r] t" by (auto simp: CoversType_def list_ex_iff)
qed

text \<open>
  The two readings of a whole-type read agree. For a rule that names concrete types, the
  rule reads a type as a whole exactly when the selector stored for it does, whatever digest
  keys the selector and whether or not wildcards are expanded.
\<close>

theorem ReadsWholeType_rule_selector:
  assumes "Rule_Validate p ms r = []" and "\<not> (Module r = wildcard \<or> wildcard \<in> set (Resources r))"
  shows "Selector_ReadsWholeType (rule_selector H expand r) t \<longleftrightarrow> Rule_ReadsWholeType r t"
proof -
  note tokens = validate_own_tokens [OF Rule_Validate_own [OF assms(1)]]
  have m: "Module r \<noteq> []" "CHR ''.'' \<notin> set (Module r)"
    using tokens(1) assms(2) dot_free_tokens by (auto simp: ruleModuleRe_def)
  have "[] \<notin> set (Resources r)" using tokens(2) by (auto simp: ruleResRe_def)
  then have "CoversType [r] t \<longleftrightarrow> t \<in> set (dottedTypes r expand)"
    using CoversType_named m assms(2) by (auto simp: dottedTypes_set named_types_def)
  then show ?thesis
    by (auto simp: Selector_ReadsWholeType_def Rule_ReadsWholeType_def rule_selector_def list_ex_iff)
qed

theorem ReadsWholeType_rule_selector_witness:
  "let r = Rule ''vpc'' [''network''] [''get'', ''list''] [] None None False
   in Selector_ReadsWholeType (rule_selector id False r) ''vpc.network'' \<longleftrightarrow> Rule_ReadsWholeType r ''vpc.network''"
proof -
  let ?r = "Rule ''vpc'' [''network''] [''get'', ''list''] [] None None False"
  have "validate_own TenantPolicy (Some (ModuleSetOf [''vpc''])) ?r = []" by code_simp
  then have ok: "Rule_Validate TenantPolicy (Some (ModuleSetOf [''vpc''])) ?r = []"
    by (simp add: Rule_Validate_no_children)
  show ?thesis using ReadsWholeType_rule_selector [OF ok, of id False "''vpc.network''"] by simp
qed

text \<open>
  the gate for nested rules of a role bound to a system class. When it raises no refusal
  on accepted rules, every nested selector of the role reads, with exactly get and list and
  as a whole, only direct children of a container type that is declared to pass public read.
\<close>

theorem class_gate_admits_public_children:
  assumes "Rules_Validate p ms rules = []" and "ClassNestedRuleRefusal rules containers = None"
    and "own \<in> set rules" and "sel \<in> set (nestedSelectors H own)"
  shows "let c = container_at containers (OwnerType own)
         in pub_Declared c \<and> set (sel_ObjectTypes sel) \<subseteq> set (pub_ChildTypes c)
          \<and> PublicReadsChildOf sel (OwnerType own) (pub_ChildTypes c)"
proof -
  let ?c = "container_at containers (OwnerType own)"
  have ok: "Rule_Validate p ms own = []" using assms(1,3) by (rule Rules_Validate_member)
  from assms(4) obtain raw where raw: "raw \<in> set (children_of own)"
    and types: "sel_ObjectTypes sel = dottedTypes (effective_child own raw) False"
    and verbs: "sel_Verbs sel = Verbs raw" "sel_Container sel = Some (containerOf H own)"
      "sel_Arm sel = Rule_Arm (effective_child own raw)"
    by (rule nestedSelectors_member)
  let ?d = "effective_child own raw"
  have d: "?d \<in> set (EffectiveChildren own)" using raw by (simp add: EffectiveChildren_def)
  have "nested_refusals ?c (OwnerType own) ?d = []"
    using assms(2,3) d unfolding ClassNestedRuleRefusal_def by (auto simp: no_errors split: list.splits)
  then have ok_res: "pub_Declared ?c \<and> Module own @ ''.'' @ res \<in> set (pub_ChildTypes ?c) \<and> readsExactly (Rule_Arm ?d) (Verbs raw)"
    if "res \<in> set (Resources raw)" for res
    using that unfolding nested_refusals_def Let_def by (simp only: no_errors) (auto split: if_splits)
  have "Resources raw \<noteq> []" "wildcard \<notin> set (Resources raw)"
    using validate_own_facts(2) [OF Rule_Validate_children(2) [OF ok raw]] Rule_Validate_children(1) [OF ok raw]
    by (auto simp: verdict)
  then obtain res where res: "res \<in> set (Resources raw)" "res \<noteq> wildcard" by (cases "Resources raw") auto
  have "Module own \<noteq> wildcard" using Rule_Validate_children(3) [OF ok raw] by (auto simp: OwnerType_def)
  then have ty: "set (sel_ObjectTypes sel) = {Module own @ ''.'' @ q | q. q \<in> set (Resources raw)}"
    using types \<open>wildcard \<notin> set (Resources raw)\<close> by (auto simp: dottedTypes_set named_types_def)
  then have "Module own @ ''.'' @ res \<in> set (sel_ObjectTypes sel) \<inter> set (pub_ChildTypes ?c)"
    using res ok_res by blast
  then have "PublicReadsChildOf sel (OwnerType own) (pub_ChildTypes ?c)"
    using verbs ok_res [OF res(1)] by (auto simp: PublicReadsChildOf_def containerOf_def list_ex_iff)
  with ty ok_res res show ?thesis by (auto simp: Let_def)
qed

definition sample_nested_rule :: rule where
  "sample_nested_rule = Rule ''registry'' [''registries''] [''get''] [] None
     (Some [Rule [] [''repositories''] [''get'', ''list''] [] None None False]) False"

lemma sample_nested_rule_accepted:
  "Rules_Validate TenantPolicy (Some (ModuleSetOf [''registry''])) [sample_nested_rule] = []"
proof -
  let ?ms = "Some (ModuleSetOf [''registry''])"
  let ?raw = "Rule [] [''repositories''] [''get'', ''list''] [] None None False"
  have "validate_own TenantPolicy ?ms sample_nested_rule = []"
    "validate_own TenantPolicy ?ms (effective_child sample_nested_rule ?raw) = []"
    "validate_child_own sample_nested_rule ?raw = []" "OwnerType sample_nested_rule \<noteq> []"
    "Children sample_nested_rule = Some [?raw]" by code_simp+
  then show ?thesis
    by (simp add: Rules_Validate_def MaxRules_def maxChildren_def maxRuleElems_def
        Rule_Validate.simps [of _ _ sample_nested_rule] validateChildren.simps [of _ _ sample_nested_rule]
        Rule_Validate_no_children)
qed

theorem class_gate_admits_public_children_witness:
  "let containers = [''registry.registries'' \<mapsto>
         \<lparr>pub_Type = ''registry.registries'', pub_Declared = True, pub_ChildTypes = [''registry.repositories'']\<rparr>]
   in ClassNestedRuleRefusal [sample_nested_rule] containers = None
      \<and> list_all (\<lambda>sel. PublicReadsChildOf sel (OwnerType sample_nested_rule) [''registry.repositories''])
           (nestedSelectors id sample_nested_rule)"
proof -
  let ?containers = "[''registry.registries'' \<mapsto>
         \<lparr>pub_Type = ''registry.registries'', pub_Declared = True, pub_ChildTypes = [''registry.repositories'']\<rparr>]"
  have gate: "ClassNestedRuleRefusal [sample_nested_rule] ?containers = None" by code_simp
  have "pub_ChildTypes (container_at ?containers (OwnerType sample_nested_rule)) = [''registry.repositories'']"
    by code_simp
  then show ?thesis
    using gate class_gate_admits_public_children [OF sample_nested_rule_accepted gate, of sample_nested_rule _ id]
    by (simp add: Let_def list_all_iff)
qed

end
