(* ===== verification/Binding_Model.thy ===== *)
theory Binding_Model
  imports Role_Model
begin

text \<open>
  The access binding: its subjects and the words they are asked by, the vocabulary of scope
  anchors, the target of a grant, the validation of a binding, and the hierarchy a resource
  claims for its parents.

  Sources: \<open>internal/domain/subject.go\<close>, \<open>system_class.go\<close>, \<open>access_binding_scope.go\<close>,
  \<open>access_binding_target.go\<close>, \<open>access_binding.go\<close>, \<open>parent_scope.go\<close> and \<open>types.go\<close>
  (\<open>SubjectType\<close>, \<open>ResourceType\<close>).
\<close>

subsection \<open>Subjects\<close>

definition SubjectTypeUser :: string where "SubjectTypeUser = ''user''"
definition SubjectTypeServiceAccount :: string where "SubjectTypeServiceAccount = ''service_account''"
definition SubjectTypeGroup :: string where "SubjectTypeGroup = ''group''"
definition SubjectTypeSystemClass :: string where "SubjectTypeSystemClass = ''system_class''"
definition ClassAnonymous :: string where "ClassAnonymous = ''anonymous''"
definition ClassAuthenticated :: string where "ClassAuthenticated = ''authenticated''"

lemmas subject_words = SubjectTypeUser_def SubjectTypeServiceAccount_def SubjectTypeGroup_def
  SubjectTypeSystemClass_def ClassAnonymous_def ClassAuthenticated_def

record Subject =
  sub_Type :: string
  sub_ID :: string

datatype subject_error =
    SubjectTypeUnknown
  | SubjectIDEmpty
  | SystemClassUnknown
  | SubjectIDTooLong
  | SubjectsLegacyDisagrees
  | SubjectsCount
  | SubjectDuplicate

definition SubjectType_Validate :: "string \<Rightarrow> subject_error option" where
  "SubjectType_Validate s =
     (if s \<in> set [SubjectTypeUser, SubjectTypeServiceAccount, SubjectTypeGroup, SubjectTypeSystemClass]
      then None else Some SubjectTypeUnknown)"

definition IsSystemClassName :: "string \<Rightarrow> bool" where
  "IsSystemClassName i \<longleftrightarrow> i = ClassAnonymous \<or> i = ClassAuthenticated"

definition validateSystemClassName :: "string \<Rightarrow> subject_error option" where
  "validateSystemClassName i = (if IsSystemClassName i then None else Some SystemClassUnknown)"

definition IsSystemClass :: "Subject \<Rightarrow> bool" where
  "IsSystemClass s \<longleftrightarrow> sub_Type s = SubjectTypeSystemClass"

definition IsGroup :: "Subject \<Rightarrow> bool" where
  "IsGroup s \<longleftrightarrow> sub_Type s = SubjectTypeGroup"

definition HasSystemClass :: "Subject list \<Rightarrow> bool" where
  "HasSystemClass subjects \<longleftrightarrow> list_ex IsSystemClass subjects"

definition Subject_Validate :: "Subject \<Rightarrow> subject_error option" where
  "Subject_Validate s = (case SubjectType_Validate (sub_Type s) of
       Some e \<Rightarrow> Some e
     | None \<Rightarrow>
         if sub_ID s = [] then Some SubjectIDEmpty
         else if IsSystemClass s then validateSystemClassName (sub_ID s)
         else if length (sub_ID s) > 64 then Some SubjectIDTooLong
         else None)"

definition FGASubjectRef :: "string \<Rightarrow> string \<Rightarrow> string" where
  "FGASubjectRef subjectType subjectID =
     (let t = to_lower subjectType
      in if t = ''service_account'' then ''service_account:'' @ subjectID
         else if t = ''group'' then ''group:'' @ subjectID @ ''#member''
         else if t = SubjectTypeSystemClass then SubjectTypeSystemClass @ '':'' @ subjectID
         else ''user:'' @ subjectID)"

definition MaxSubjectsPerBinding :: nat where "MaxSubjectsPerBinding = 32"

text \<open>The loop of \<open>NormalizeSubjects\<close>, with the set \<open>seen\<close> of \<open>type/id\<close> keys.\<close>

fun check_subjects :: "string list \<Rightarrow> Subject list \<Rightarrow> subject_error option" where
  "check_subjects seen [] = None"
| "check_subjects seen (s # ss) = (case Subject_Validate s of
       Some e \<Rightarrow> Some e
     | None \<Rightarrow>
         let key = sub_Type s @ ''/'' @ sub_ID s
         in if key \<in> set seen then Some SubjectDuplicate else check_subjects (key # seen) ss)"

definition NormalizeSubjects :: "Subject list \<Rightarrow> string \<Rightarrow> string \<Rightarrow> (subject_error, Subject list) result" where
  "NormalizeSubjects subjects legacyType legacyID =
     (if subjects \<noteq> [] \<and> (legacyID \<noteq> [] \<or> legacyType \<noteq> [])
         \<and> (sub_Type (hd subjects) \<noteq> legacyType \<or> sub_ID (hd subjects) \<noteq> legacyID)
      then Inl SubjectsLegacyDisagrees
      else
        let out = (if subjects \<noteq> [] then subjects
                   else if legacyID \<noteq> [] then [\<lparr>sub_Type = legacyType, sub_ID = legacyID\<rparr>] else [])
        in if length out = 0 then Inl SubjectsCount
           else if length out > MaxSubjectsPerBinding then Inl SubjectsCount
           else case check_subjects [] out of Some e \<Rightarrow> Inl e | None \<Rightarrow> Inr out)"

subsection \<open>Speakers and classes\<close>

definition SpeakerAnonymous :: string where
  "SpeakerAnonymous = SubjectTypeSystemClass @ '':'' @ ClassAnonymous"

definition SpeakerAuthenticated :: string where
  "SpeakerAuthenticated = SubjectTypeSystemClass @ '':'' @ ClassAuthenticated"

definition LegacyPublicWildcardWord :: string where "LegacyPublicWildcardWord = ''user:*''"

definition IsClassSubjectWord :: "string \<Rightarrow> bool" where
  "IsClassSubjectWord word =
     (if word = LegacyPublicWildcardWord then True
      else case cut_byte (CHR '':'') word of (kind, _, _) \<Rightarrow> kind = SubjectTypeSystemClass)"

definition SpeakerClasses :: "string \<Rightarrow> string list" where
  "SpeakerClasses speaker = (case cut_byte (CHR '':'') speaker of (kind, i, ok) \<Rightarrow>
     if \<not> ok \<or> i = [] \<or> contains_any i ''#*'' then []
     else if kind = SubjectTypeUser \<or> kind = SubjectTypeServiceAccount
     then [SpeakerAuthenticated, SpeakerAnonymous]
     else [])"

datatype speaker_refusal = ClassIsNotSpeaker string | WildcardIsNotSpeaker

definition SpeakerRefusal :: "string \<Rightarrow> speaker_refusal option" where
  "SpeakerRefusal speaker = (case cut_byte (CHR '':'') speaker of (kind, i, ok) \<Rightarrow>
     if \<not> ok then None
     else if kind = SubjectTypeSystemClass then
       (if i = ClassAnonymous then None else Some (ClassIsNotSpeaker i))
     else if i = wildcard then Some WildcardIsNotSpeaker
     else None)"

definition PublicationSubject :: string where "PublicationSubject = SpeakerAnonymous"
definition PublicationRelation :: string where "PublicationRelation = ''v_get''"

definition IsStoredPublication :: "string \<Rightarrow> string \<Rightarrow> bool" where
  "IsStoredPublication subject relation \<longleftrightarrow> subject = PublicationSubject \<and> relation = PublicationRelation"

subsection \<open>Scope anchors\<close>

definition PrefixAccount :: string where "PrefixAccount = ''acc''"
definition PrefixProject :: string where "PrefixProject = ''prj''"
definition ClusterSingletonID :: string where "ClusterSingletonID = ''cluster_root''"

record scopeKind =
  kind_tier :: Scope
  kind_dotted :: string
  kind_idOK :: "(string \<Rightarrow> bool) option"

definition scopeVocabulary :: "(string \<times> scopeKind) list" where
  "scopeVocabulary =
    [(''cluster'', \<lparr>kind_tier = ScopeCluster, kind_dotted = ScopeTypeClusterDotted,
        kind_idOK = Some (\<lambda>i. i = ClusterSingletonID)\<rparr>),
     (''account'', \<lparr>kind_tier = ScopeAccount, kind_dotted = ScopeTypeAccountDotted,
        kind_idOK = Some (\<lambda>i. has_prefix i PrefixAccount)\<rparr>),
     (''project'', \<lparr>kind_tier = ScopeProject, kind_dotted = ScopeTypeProjectDotted,
        kind_idOK = Some (\<lambda>i. has_prefix i PrefixProject)\<rparr>),
     (''cloud'', \<lparr>kind_tier = ScopeAccount, kind_dotted = [], kind_idOK = None\<rparr>),
     (''folder'', \<lparr>kind_tier = ScopeProject, kind_dotted = [], kind_idOK = None\<rparr>)]"

text \<open>
  The two derived maps are filled in the iteration order of the vocabulary; as no two
  anchors share a dotted name or a tier, the order does not matter.
\<close>

definition scopeAnchorByDotted :: "(string \<times> string) list" where
  "scopeAnchorByDotted = map (\<lambda>(bare, k). (kind_dotted k, bare)) (filter (\<lambda>(bare, k). kind_dotted k \<noteq> []) scopeVocabulary)"

definition scopeAnchorByTier :: "(Scope \<times> string) list" where
  "scopeAnchorByTier = map (\<lambda>(bare, k). (kind_tier k, bare)) (filter (\<lambda>(bare, k). kind_dotted k \<noteq> []) scopeVocabulary)"

definition ScopeTierByKind :: "(string \<times> Scope) list" where
  "ScopeTierByKind = map (\<lambda>(bare, k). (bare, kind_tier k)) scopeVocabulary"

definition Scope_ValidateAgainst :: "Scope \<Rightarrow> string \<Rightarrow> string \<Rightarrow> bool" where
  \<comment> \<open>\<^const>\<open>True\<close> for \<open>nil\<close>, \<^const>\<open>False\<close> for \<open>ErrScopeMismatch\<close>\<close>
  "Scope_ValidateAgainst s resourceType resourceID = (case map_of scopeAnchorByTier s of
       None \<Rightarrow> False
     | Some bare \<Rightarrow>
         if bare \<noteq> resourceType then False
         else case map_of scopeVocabulary bare of
             None \<Rightarrow> False
           | Some k \<Rightarrow> (case kind_idOK k of None \<Rightarrow> False | Some ok \<Rightarrow> ok resourceID))"

definition dotted_of_kind :: "string \<Rightarrow> string" where
  \<comment> \<open>\<open>scopeVocabulary[bare].dotted\<close>, the zero value for a missing key\<close>
  "dotted_of_kind bare = (case map_of scopeVocabulary bare of None \<Rightarrow> [] | Some k \<Rightarrow> kind_dotted k)"

definition IsScopeAnchorKind :: "string \<Rightarrow> bool" where
  "IsScopeAnchorKind bare \<longleftrightarrow> dotted_of_kind bare \<noteq> []"

definition ScopeTypeToDotted :: "string \<Rightarrow> string" where
  "ScopeTypeToDotted bare = (if dotted_of_kind bare \<noteq> [] then dotted_of_kind bare else bare)"

definition ScopeTypeFromDotted :: "string \<Rightarrow> string option" where
  "ScopeTypeFromDotted dotted = map_of scopeAnchorByDotted dotted"

definition DeriveFromResourceType :: "string \<Rightarrow> Scope" where
  "DeriveFromResourceType resourceType = (case map_of scopeVocabulary resourceType of
     Some k \<Rightarrow> kind_tier k | None \<Rightarrow> ScopeProject)"

subsection \<open>Targets\<close>

record AccessTarget =
  AllInScope :: bool
  tgt_Resources :: "ResourceRef list"

definition MaxTargetResourcesPerBinding :: nat where "MaxTargetResourcesPerBinding = 256"

definition Target_IsEmpty :: "AccessTarget \<Rightarrow> bool" where
  "Target_IsEmpty t \<longleftrightarrow> \<not> AllInScope t \<and> length (tgt_Resources t) = 0"

definition objectIDForbidden :: string where
  "objectIDForbidden = [CHR '' '', CHR 0x09, CHR 0x0A, CHR ''#'', CHR '':'']"

definition validObjectID :: "string \<Rightarrow> bool" where
  "validObjectID i \<longleftrightarrow> i \<noteq> [] \<and> \<not> contains_any i objectIDForbidden"

datatype target_error = TargetExclusive | TargetTooMany | TargetTypeEmpty nat | TargetIDEmpty nat | TargetIDInvalid nat

definition Target_Validate :: "AccessTarget \<Rightarrow> target_error list" where
  "Target_Validate t =
     (if AllInScope t \<and> length (tgt_Resources t) > 0 then [TargetExclusive]
      else if length (tgt_Resources t) > MaxTargetResourcesPerBinding then [TargetTooMany]
      else concat (map (\<lambda>(i, r).
         (if obj_Type r = [] then [TargetTypeEmpty i] else [])
         @ (if obj_ID r = [] then [TargetIDEmpty i]
            else if \<not> validObjectID (obj_ID r) then [TargetIDInvalid i] else []))
         (enumerate 0 (tgt_Resources t))))"

definition Target_Contains :: "AccessTarget \<Rightarrow> string \<Rightarrow> string \<Rightarrow> bool" where
  "Target_Contains t dottedType i \<longleftrightarrow> list_ex (\<lambda>r. obj_Type r = dottedType \<and> obj_ID r = i) (tgt_Resources t)"

definition ResourceIDsForTypes :: "AccessTarget \<Rightarrow> string list \<Rightarrow> string list" where
  "ResourceIDsForTypes t types =
     (if length (tgt_Resources t) = 0 \<or> length types = 0 then []
      else first_seen (map obj_ID (filter (\<lambda>r. obj_Type r \<in> set types) (tgt_Resources t))))"

definition target_members :: "AccessTarget \<Rightarrow> string list" where
  "target_members t = map (\<lambda>r. obj_Type r @ '':'' @ obj_ID r) (tgt_Resources t)"

definition Target_Digest :: "(string \<Rightarrow> string) \<Rightarrow> AccessTarget \<Rightarrow> string" where
  \<comment> \<open>\<open>H\<close> is the hexadecimal SHA-256\<close>
  "Target_Digest H t =
     (if AllInScope t \<or> length (tgt_Resources t) = 0 then ''all''
      else ''obj:'' @ H (join_with [CHR 0x0A] (sort (target_members t))))"

definition ValidTargetType :: "(string \<rightharpoonup> string) option \<Rightarrow> string \<Rightarrow> bool" where
  \<comment> \<open>the catalogue interface answers \<open>FGAObjectType\<close>; \<open>nil\<close> is \<^const>\<open>None\<close>\<close>
  "ValidTargetType cat dotted = (case cat of None \<Rightarrow> False | Some f \<Rightarrow> f dotted \<noteq> None)"

definition FirstNonLiveType :: "AccessTarget \<Rightarrow> (string \<rightharpoonup> string) option \<Rightarrow> string option" where
  "FirstNonLiveType t cat = List.find (\<lambda>ty. \<not> ValidTargetType cat ty) (map obj_Type (tgt_Resources t))"

definition DistinctTypes :: "AccessTarget \<Rightarrow> string list" where
  "DistinctTypes t = (if length (tgt_Resources t) = 0 then [] else first_seen (map obj_Type (tgt_Resources t)))"

subsection \<open>The binding\<close>

record AccessBinding =
  ab_ID :: string
  ab_SubjectType :: string
  ab_SubjectID :: string
  ab_RoleID :: string
  ab_ResourceType :: string
  ab_ResourceID :: string
  ab_Scope :: Scope
  ab_Status :: string
  ab_ExpiresAt :: "instant option"
  ab_GrantedByUserID :: string
  ab_RevokedByUserID :: "string option"
  ab_CreatedAt :: instant
  ab_GrantedRelation :: string
  ab_System :: bool
  ab_Subjects :: "Subject list"
  ab_Labels :: "(string \<times> string) list"
  ab_Target :: AccessTarget

datatype binding_error =
    BindingSubjectType subject_error
  | BindingResourceType
  | BindingLabels role_error
  | BindingTarget target_error
  | BindingEmptyField
  | BindingRelationWithRole
  | BindingRelationNotSystem
  | BindingWildcardSubject
  | BindingClusterID
  | BindingScopeMismatch
  | BindingStatusUnknown
  | BindingGrantorTooLong
  | BindingRevokerTooLong
  | BindingExpiryNotAfterCreation

definition ResourceType_Validate :: "string \<Rightarrow> binding_error list" where
  "ResourceType_Validate r = (if IsScopeAnchorKind r then [] else [BindingResourceType])"

definition Status_Validate :: "string \<Rightarrow> binding_error list" where
  "Status_Validate s = (if s \<in> set [''PENDING'', ''ACTIVE'', ''REVOKED''] then [] else [BindingStatusUnknown])"

definition all_subjects :: "AccessBinding \<Rightarrow> Subject list" where
  "all_subjects b = \<lparr>sub_Type = ab_SubjectType b, sub_ID = ab_SubjectID b\<rparr> # ab_Subjects b"

definition Binding_Validate :: "AccessBinding \<Rightarrow> binding_error list" where
  "Binding_Validate b =
     (case SubjectType_Validate (ab_SubjectType b) of None \<Rightarrow> [] | Some e \<Rightarrow> [BindingSubjectType e])
     @ ResourceType_Validate (ab_ResourceType b)
     @ map BindingLabels (Labels_Validate (ab_Labels b))
     @ map BindingTarget (Target_Validate (ab_Target b))
     @ (if ab_SubjectID b = [] \<or> ab_ResourceID b = [] then [BindingEmptyField] else [])
     @ (if ab_RoleID b \<noteq> [] \<and> ab_GrantedRelation b \<noteq> [] then [BindingRelationWithRole]
        else if ab_RoleID b = [] \<and> ab_GrantedRelation b = [] then [BindingEmptyField] else [])
     @ (if ab_GrantedRelation b \<noteq> [] \<and> \<not> ab_System b then [BindingRelationNotSystem] else [])
     @ (if list_ex (\<lambda>s. sub_ID s = wildcard \<and> \<not> (ab_System b \<and> sub_Type s = SubjectTypeUser)) (all_subjects b)
        then [BindingWildcardSubject] else [])
     @ (if ab_ResourceType b = ''cluster'' \<and> ab_ResourceID b \<noteq> [] \<and> ab_ResourceID b \<noteq> ClusterSingletonID
        then [BindingClusterID] else [])
     @ (if ab_Scope b \<noteq> ScopeUnspecified \<and> ab_ResourceID b \<noteq> []
           \<and> \<not> Scope_ValidateAgainst (ab_Scope b) (ab_ResourceType b) (ab_ResourceID b)
        then [BindingScopeMismatch] else [])
     @ (if ab_Status b \<noteq> [] then Status_Validate (ab_Status b) else [])
     @ (if length (ab_GrantedByUserID b) > 64 then [BindingGrantorTooLong] else [])
     @ (case ab_RevokedByUserID b of None \<Rightarrow> []
        | Some u \<Rightarrow> if length u > 64 then [BindingRevokerTooLong] else [])
     @ (case ab_ExpiresAt b of None \<Rightarrow> []
        | Some e \<Rightarrow> if \<not> is_zero_time (ab_CreatedAt b) \<and> \<not> e > ab_CreatedAt b
                   then [BindingExpiryNotAfterCreation] else [])"

subsection \<open>The hierarchy of parents\<close>

record ContainerScope =
  cs_Registered :: bool
  cs_ProjectID :: string
  cs_AccountID :: string

record ParentHierarchy =
  hier_Links :: "string list"
  hier_ProjectID :: string
  hier_AccountID :: string

record ParentClaim =
  claim_ProjectID :: string
  claim_AccountID :: string
  claim_Chain :: "string list"

definition ProjectHierarchy :: "string \<Rightarrow> string \<Rightarrow> ParentHierarchy" where
  "ProjectHierarchy projectID accountID =
     \<lparr>hier_Links = [''project:'' @ projectID, ''account:'' @ accountID],
      hier_ProjectID = projectID, hier_AccountID = accountID\<rparr>"

definition ContainerHierarchy :: "string \<Rightarrow> ContainerScope \<Rightarrow> ParentHierarchy" where
  "ContainerHierarchy container scope =
     (let h = \<lparr>hier_Links = [container], hier_ProjectID = [], hier_AccountID = []\<rparr>
      in if cs_ProjectID scope = [] then h
         else
           let h = h\<lparr>hier_Links := hier_Links h @ [''project:'' @ cs_ProjectID scope],
                     hier_ProjectID := cs_ProjectID scope\<rparr>
           in if cs_AccountID scope \<noteq> [] then
                h\<lparr>hier_Links := hier_Links h @ [''account:'' @ cs_AccountID scope],
                  hier_AccountID := cs_AccountID scope\<rparr>
              else h)"

text \<open>
  The loops of \<open>Admits\<close>, with the cursor \<open>next\<close>: the inner loop moves it to the next link
  equal to the claimed one, the outer one fails when there is none.
\<close>

function seek :: "string list \<Rightarrow> string \<Rightarrow> nat \<Rightarrow> nat" where
  "seek links link next = (if next < length links \<and> links ! next \<noteq> link then seek links link (next + 1) else next)"
  by pat_completeness auto
termination by (relation "measure (\<lambda>(links, link, next). length links - next)") auto

declare seek.simps [simp del]

fun admits_chain :: "string list \<Rightarrow> nat \<Rightarrow> string list \<Rightarrow> bool" where
  "admits_chain links next [] = True"
| "admits_chain links next (link # chain) =
     (let n = seek links link next
      in if n = length links then False else admits_chain links (n + 1) chain)"

definition Admits :: "ParentHierarchy \<Rightarrow> ParentClaim \<Rightarrow> bool" where
  "Admits h c =
     (if claim_ProjectID c \<noteq> [] \<and> claim_ProjectID c \<noteq> hier_ProjectID h then False
      else if claim_AccountID c \<noteq> [] \<and> claim_AccountID c \<noteq> hier_AccountID h then False
      else admits_chain (hier_Links h) 0 (claim_Chain c))"

subsection \<open>Claimed chains, against subsequences\<close>

lemma seek_spec: "next \<le> length links \<Longrightarrow> seek links link next = next + length (takeWhile (\<lambda>l. l \<noteq> link) (drop next links))"
proof (induction links link "next" rule: seek.induct)
  case (1 links link "next")
  show ?case
  proof (cases "next < length links \<and> links ! next \<noteq> link")
    case True
    then have "drop next links = links ! next # drop (next + 1) links" by (simp add: Cons_nth_drop_Suc)
    with 1 True show ?thesis by (simp add: seek.simps [of links link "next"])
  next
    case False
    then have "takeWhile (\<lambda>l. l \<noteq> link) (drop next links) = []"
      by (cases "next < length links") (simp_all add: Cons_nth_drop_Suc [symmetric])
    moreover from False have "seek links link next = next" by (subst seek.simps) (simp only: if_False)
    ultimately show ?thesis by simp
  qed
qed

lemma subseq_Cons_dropWhile:
  "subseq (x # xs) ys \<longleftrightarrow> x \<in> set ys \<and> subseq xs (drop (Suc (length (takeWhile (\<lambda>y. y \<noteq> x) ys))) ys)"
  by (induction ys) (auto dest: subseq_Cons')

lemma admits_chain_subseq: "next \<le> length links \<Longrightarrow> admits_chain links next chain \<longleftrightarrow> subseq chain (drop next links)"
proof (induction chain arbitrary: "next")
  case Nil
  then show ?case by simp
next
  case (Cons link chain)
  let ?k = "length (takeWhile (\<lambda>l. l \<noteq> link) (drop next links))"
  have le: "?k \<le> length links - next" by (metis length_drop length_takeWhile_le)
  have found: "link \<in> set (drop next links) \<longleftrightarrow> next + ?k \<noteq> length links"
  proof -
    have "link \<notin> set (drop next links) \<longleftrightarrow> takeWhile (\<lambda>l. l \<noteq> link) (drop next links) = drop next links"
      by (auto simp: takeWhile_eq_all_conv)
    also have "\<dots> \<longleftrightarrow> ?k = length (drop next links)"
      by (metis takeWhile_eq_take take_all_iff order_refl length_takeWhile_le le_antisym)
    finally show ?thesis using Cons.prems le by auto
  qed
  show ?case
    using Cons.IH [of "next + ?k + 1"] le found Cons.prems
    by (auto simp: seek_spec Let_def subseq_Cons_dropWhile [of link] add.commute)
qed

text \<open>
  C37: a claim of parents is admitted exactly when it tells the truth about the hierarchy: the
  project and the account it names, if any, are those of the hierarchy, and the chain it
  lists is a subsequence of the hierarchy's links, in order, each link used at most once.
\<close>

theorem Admits_iff_subseq:
  "Admits h c \<longleftrightarrow> (claim_ProjectID c = [] \<or> claim_ProjectID c = hier_ProjectID h)
     \<and> (claim_AccountID c = [] \<or> claim_AccountID c = hier_AccountID h)
     \<and> subseq (claim_Chain c) (hier_Links h)"
  by (auto simp: Admits_def admits_chain_subseq)

subsection \<open>The scope vocabulary\<close>

lemma vocabulary_cases:
  "map_of scopeVocabulary b = Some k \<Longrightarrow> b \<in> {''cluster'', ''account'', ''project'', ''cloud'', ''folder''}"
  by (auto simp: scopeVocabulary_def split: if_splits)

lemma anchor_tables:
  "scopeAnchorByDotted = [(''iam.cluster'', ''cluster''), (''iam.account'', ''account''), (''iam.project'', ''project'')]"
  "scopeAnchorByTier = [(ScopeCluster, ''cluster''), (ScopeAccount, ''account''), (ScopeProject, ''project'')]"
  by code_simp+

lemma dotted_of_kind_eq:
  "dotted_of_kind b = (if b = ''cluster'' then ''iam.cluster'' else if b = ''account'' then ''iam.account''
     else if b = ''project'' then ''iam.project'' else [])"
  by (simp add: dotted_of_kind_def scopeVocabulary_def ScopeTypeClusterDotted_def ScopeTypeAccountDotted_def
      ScopeTypeProjectDotted_def)

text \<open>
  The three vocabularies of a scope agree. A word is an anchor exactly when its dotted
  form is read back as that word, and every dotted form that is read is the form of the word
  it is read as; a scope accepts a resource only when the resource type is the anchor that
  derives that scope, so one resource is accepted by at most one scope, and the cluster scope
  only by the one cluster.
\<close>

theorem scope_vocabulary_consistent:
  "(IsScopeAnchorKind b \<longleftrightarrow> ScopeTypeFromDotted (ScopeTypeToDotted b) = Some b)
   \<and> (ScopeTypeFromDotted d = Some b \<longrightarrow> ScopeTypeToDotted b = d)
   \<and> (Scope_ValidateAgainst s b i \<longrightarrow> IsScopeAnchorKind b \<and> DeriveFromResourceType b = s
        \<and> s \<noteq> ScopeUnspecified \<and> (s = ScopeCluster \<longrightarrow> i = ClusterSingletonID))"
proof (intro conjI)
  show "IsScopeAnchorKind b \<longleftrightarrow> ScopeTypeFromDotted (ScopeTypeToDotted b) = Some b"
    by (auto simp: IsScopeAnchorKind_def ScopeTypeFromDotted_def ScopeTypeToDotted_def anchor_tables dotted_of_kind_eq
        split: if_splits)
  show "ScopeTypeFromDotted d = Some b \<longrightarrow> ScopeTypeToDotted b = d"
    by (auto simp: ScopeTypeFromDotted_def ScopeTypeToDotted_def anchor_tables dotted_of_kind_eq split: if_splits)
  show "Scope_ValidateAgainst s b i \<longrightarrow> IsScopeAnchorKind b \<and> DeriveFromResourceType b = s
        \<and> s \<noteq> ScopeUnspecified \<and> (s = ScopeCluster \<longrightarrow> i = ClusterSingletonID)"
    by (cases s) (auto simp: Scope_ValidateAgainst_def anchor_tables IsScopeAnchorKind_def dotted_of_kind_eq
        DeriveFromResourceType_def scopeVocabulary_def split: if_splits)
qed

theorem scope_vocabulary_consistent_witness:
  "Scope_ValidateAgainst ScopeProject ''project'' ''prj42'' \<and> DeriveFromResourceType ''project'' = ScopeProject
   \<and> ScopeTypeToDotted ''project'' = ''iam.project''"
proof -
  have "Scope_ValidateAgainst ScopeProject ''project'' ''prj42''" "ScopeTypeFromDotted ''iam.project'' = Some ''project''"
    by code_simp+
  then show ?thesis
    using scope_vocabulary_consistent [of "''project''" "''iam.project''" ScopeProject "''prj42''"] by blast
qed

subsection \<open>Subjects\<close>

lemma subject_type_cases:
  assumes "SubjectType_Validate t = None"
  obtains "t = ''user''" | "t = ''service_account''" | "t = ''group''" | "t = ''system_class''"
  using assms by (auto simp: SubjectType_Validate_def subject_words split: if_splits)

lemma FGASubjectRef_typed:
  "FGASubjectRef ''user'' i = ''user'' @ CHR '':'' # i"
  "FGASubjectRef ''service_account'' i = ''service_account'' @ CHR '':'' # i"
  "FGASubjectRef ''group'' i = ''group'' @ CHR '':'' # i @ ''#member''"
  "FGASubjectRef ''system_class'' i = ''system_class'' @ CHR '':'' # i"
proof -
  have "to_lower ''user'' = ''user''" "to_lower ''service_account'' = ''service_account''"
    "to_lower ''group'' = ''group''" "to_lower ''system_class'' = ''system_class''" by code_simp+
  then show "FGASubjectRef ''user'' i = ''user'' @ CHR '':'' # i"
    "FGASubjectRef ''service_account'' i = ''service_account'' @ CHR '':'' # i"
    "FGASubjectRef ''group'' i = ''group'' @ CHR '':'' # i @ ''#member''"
    "FGASubjectRef ''system_class'' i = ''system_class'' @ CHR '':'' # i"
    by (simp_all add: FGASubjectRef_def subject_words)
qed

lemma FGASubjectRef_inj:
  assumes "SubjectType_Validate (sub_Type s) = None" "SubjectType_Validate (sub_Type t) = None"
    and "FGASubjectRef (sub_Type s) (sub_ID s) = FGASubjectRef (sub_Type t) (sub_ID t)"
  shows "s = (t :: Subject)"
  using assms
  by (elim subject_type_cases) (simp_all add: FGASubjectRef_typed)

lemma subject_key_inj:
  assumes "SubjectType_Validate (sub_Type s) = None" "SubjectType_Validate (sub_Type t) = None"
    and "sub_Type s @ ''/'' @ sub_ID s = sub_Type t @ ''/'' @ sub_ID t"
  shows "s = (t :: Subject)"
  using assms by (elim subject_type_cases) simp_all

lemma Subject_Validate_type: "Subject_Validate s = None \<Longrightarrow> SubjectType_Validate (sub_Type s) = None"
  by (auto simp: Subject_Validate_def split: option.splits)

lemma check_subjects_ok:
  "check_subjects seen ss = None \<longleftrightarrow>
     (\<forall>s \<in> set ss. Subject_Validate s = None \<and> sub_Type s @ ''/'' @ sub_ID s \<notin> set seen) \<and> distinct ss"
proof (induction seen ss rule: check_subjects.induct)
  case (1 seen)
  then show ?case by simp
next
  case (2 seen s ss)
  show ?case
  proof (cases "Subject_Validate s = None \<and> sub_Type s @ ''/'' @ sub_ID s \<notin> set seen")
    case True
    have "sub_Type q @ ''/'' @ sub_ID q \<noteq> sub_Type s @ ''/'' @ sub_ID s \<longleftrightarrow> q \<noteq> s" if "Subject_Validate q = None" for q
      using subject_key_inj Subject_Validate_type that True by blast
    then show ?thesis using True 2 by (auto simp: Let_def)
  next
    case False
    then show ?thesis by (auto simp: Let_def split: option.splits)
  qed
qed

text \<open>
  which subject lists a binding takes. \<open>NormalizeSubjects\<close> returns the given list, or the
  one legacy subject when the list is empty, exactly when it has 1 to 32 elements, each is
  valid, no subject occurs twice and the legacy fields do not contradict its head; and then
  no two of the subjects are asked by the same word of the relation store.
\<close>

theorem NormalizeSubjects_exact:
  "(NormalizeSubjects subjects lt lid = Inr out \<longleftrightarrow>
      out = (if subjects \<noteq> [] then subjects else if lid \<noteq> [] then [\<lparr>sub_Type = lt, sub_ID = lid\<rparr>] else [])
      \<and> 1 \<le> length out \<and> length out \<le> 32 \<and> list_all (\<lambda>s. Subject_Validate s = None) out \<and> distinct out
      \<and> (subjects \<noteq> [] \<and> (lid \<noteq> [] \<or> lt \<noteq> []) \<longrightarrow> hd subjects = \<lparr>sub_Type = lt, sub_ID = lid\<rparr>))
   \<and> (NormalizeSubjects subjects lt lid = Inr out \<longrightarrow> distinct (map (\<lambda>s. FGASubjectRef (sub_Type s) (sub_ID s)) out))"
proof (intro conjI impI)
  have hd_eq: "hd subjects = \<lparr>sub_Type = lt, sub_ID = lid\<rparr> \<longleftrightarrow> sub_Type (hd subjects) = lt \<and> sub_ID (hd subjects) = lid"
    by (cases "hd subjects") auto
  let ?out = "if subjects \<noteq> [] then subjects else if lid \<noteq> [] then [\<lparr>sub_Type = lt, sub_ID = lid\<rparr>] else []"
  have "NormalizeSubjects subjects lt lid = Inr out \<longleftrightarrow>
      out = ?out \<and> 1 \<le> length ?out \<and> length ?out \<le> 32 \<and> check_subjects [] ?out = None
      \<and> (subjects \<noteq> [] \<and> (lid \<noteq> [] \<or> lt \<noteq> []) \<longrightarrow> hd subjects = \<lparr>sub_Type = lt, sub_ID = lid\<rparr>)"
    unfolding NormalizeSubjects_def hd_eq Let_def MaxSubjectsPerBinding_def
    by (simp add: Suc_le_eq split: option.split) auto
  then show main: "NormalizeSubjects subjects lt lid = Inr out \<longleftrightarrow>
      out = ?out \<and> 1 \<le> length out \<and> length out \<le> 32 \<and> list_all (\<lambda>s. Subject_Validate s = None) out \<and> distinct out
      \<and> (subjects \<noteq> [] \<and> (lid \<noteq> [] \<or> lt \<noteq> []) \<longrightarrow> hd subjects = \<lparr>sub_Type = lt, sub_ID = lid\<rparr>)"
    by (auto simp: check_subjects_ok list_all_iff)
  assume "NormalizeSubjects subjects lt lid = Inr out"
  with main have "distinct out" "\<forall>s \<in> set out. SubjectType_Validate (sub_Type s) = None"
    using Subject_Validate_type by (auto simp: list_all_iff)
  then show "distinct (map (\<lambda>s. FGASubjectRef (sub_Type s) (sub_ID s)) out)"
    unfolding distinct_map by (auto intro!: inj_onI dest: FGASubjectRef_inj)
qed

theorem NormalizeSubjects_exact_witness:
  "let ss = [\<lparr>sub_Type = ''user'', sub_ID = ''usr1''\<rparr>, \<lparr>sub_Type = ''group'', sub_ID = ''grp1''\<rparr>]
   in NormalizeSubjects ss [] [] = Inr ss
      \<and> distinct (map (\<lambda>s. FGASubjectRef (sub_Type s) (sub_ID s)) ss)"
proof -
  let ?ss = "[\<lparr>sub_Type = ''user'', sub_ID = ''usr1''\<rparr>, \<lparr>sub_Type = ''group'', sub_ID = ''grp1''\<rparr>]"
  have ok: "NormalizeSubjects ?ss [] [] = Inr ?ss" by code_simp
  show ?thesis unfolding Let_def using ok NormalizeSubjects_exact [of ?ss "[]" "[]" ?ss] by blast
qed

lemma SpeakerClasses_word:
  "SpeakerClasses w = (if \<exists>i. (w = ''user:'' @ i \<or> w = ''service_account:'' @ i) \<and> i \<noteq> []
        \<and> CHR ''#'' \<notin> set i \<and> CHR ''*'' \<notin> set i then [SpeakerAuthenticated, SpeakerAnonymous] else [])"
proof (cases "cut_byte (CHR '':'') w")
  case (fields kind i ok)
  have shape: "ok \<longleftrightarrow> CHR '':'' \<in> set w" using fields by (simp add: cut_byte_def)
  have clean: "contains_any i ''#*'' \<longleftrightarrow> CHR ''#'' \<in> set i \<or> CHR ''*'' \<in> set i"
    by (auto simp: contains_any_def list_ex_iff)
  have "(\<exists>j. w = pre @ CHR '':'' # j \<and> P j) \<longleftrightarrow> ok \<and> kind = pre \<and> P i" if "CHR '':'' \<notin> set pre" for pre P
    using fields cut_byte_found [OF that] cut_byte_rejoin [of "CHR '':''" w kind i] by auto
  from this [of "''user''"] this [of "''service_account''"]
  have "(\<exists>j. w = ''user:'' @ j \<and> P j) \<longleftrightarrow> ok \<and> kind = ''user'' \<and> P i"
    "(\<exists>j. w = ''service_account:'' @ j \<and> P j) \<longleftrightarrow> ok \<and> kind = ''service_account'' \<and> P i" for P by simp_all
  then show ?thesis
    by (simp only: SpeakerClasses_def fields prod.case clean subject_words conj_disj_distribR ex_disj_distrib) auto
qed

text \<open>
  Who belongs to a class. A word has classes exactly when it is a user or a service
  account with a non-empty id free of the characters \<open>#\<close> and \<open>*\<close>, and then it has both; such
  a word is a speaker and is no class word itself. The reference of a group, of a class and
  of the public wildcard have no classes.
\<close>

theorem SpeakerClasses_exact:
  "(SpeakerClasses w \<noteq> [] \<longleftrightarrow> (\<exists>i. (w = ''user:'' @ i \<or> w = ''service_account:'' @ i) \<and> i \<noteq> []
        \<and> CHR ''#'' \<notin> set i \<and> CHR ''*'' \<notin> set i))
   \<and> (SpeakerClasses w \<noteq> [] \<longrightarrow> SpeakerClasses w = [SpeakerAuthenticated, SpeakerAnonymous]
        \<and> SpeakerRefusal w = None \<and> \<not> IsClassSubjectWord w)
   \<and> SpeakerClasses (FGASubjectRef ''group'' g) = [] \<and> SpeakerClasses (FGASubjectRef ''system_class'' c) = []
   \<and> SpeakerClasses LegacyPublicWildcardWord = []"
proof (intro conjI impI)
  show "SpeakerClasses w \<noteq> [] \<longleftrightarrow> (\<exists>i. (w = ''user:'' @ i \<or> w = ''service_account:'' @ i) \<and> i \<noteq> []
        \<and> CHR ''#'' \<notin> set i \<and> CHR ''*'' \<notin> set i)"
    unfolding SpeakerClasses_word by auto
  show "SpeakerClasses (FGASubjectRef ''group'' g) = []" "SpeakerClasses (FGASubjectRef ''system_class'' c) = []"
    "SpeakerClasses LegacyPublicWildcardWord = []"
    by (auto simp: SpeakerClasses_word FGASubjectRef_typed LegacyPublicWildcardWord_def)
  assume ne: "SpeakerClasses w \<noteq> []"
  then show "SpeakerClasses w = [SpeakerAuthenticated, SpeakerAnonymous]"
    unfolding SpeakerClasses_word by (auto split: if_splits)
  from ne obtain i where i: "w = ''user'' @ CHR '':'' # i \<or> w = ''service_account'' @ CHR '':'' # i" and "CHR ''*'' \<notin> set i"
    unfolding SpeakerClasses_word by (auto split: if_splits)
  then have "i \<noteq> wildcard" by auto
  with i show "SpeakerRefusal w = None" "\<not> IsClassSubjectWord w"
    using cut_byte_found [of "CHR '':''" "''user''" i] cut_byte_found [of "CHR '':''" "''service_account''" i]
    by (auto simp: SpeakerRefusal_def IsClassSubjectWord_def subject_words LegacyPublicWildcardWord_def)
qed

theorem SpeakerClasses_exact_witness:
  "SpeakerClasses ''user:usr1'' \<noteq> [] \<and> SpeakerRefusal ''user:usr1'' = None \<and> \<not> IsClassSubjectWord ''user:usr1''"
proof -
  have "SpeakerClasses ''user:usr1'' \<noteq> []" by code_simp
  then show ?thesis using SpeakerClasses_exact [of "''user:usr1''"] by blast
qed

subsection \<open>The digest of a target\<close>

abbreviation newline :: char where "newline \<equiv> CHR 0x0A"

lemma after_last_colon:
  "CHR '':'' \<notin> set b \<Longrightarrow> rev (takeWhile (\<lambda>c. c \<noteq> CHR '':'') (rev (a @ CHR '':'' # b))) = b"
  by (subst rev_append, subst rev.simps, subst append_assoc, subst takeWhile_append2) auto

lemma member_inj:
  assumes "CHR '':'' \<notin> set i" "CHR '':'' \<notin> set j" "t @ CHR '':'' # i = u @ CHR '':'' # j"
  shows "t = u \<and> i = j"
proof -
  have "i = j"
    using after_last_colon [OF assms(1), of t] after_last_colon [OF assms(2), of u] unfolding assms(3) by (rule trans [OF sym])
  with assms(3) show ?thesis by (simp only: append_same_eq simp_thms)
qed

lemma member_word_inj:
  assumes "\<And>r. r \<in> A \<Longrightarrow> CHR '':'' \<notin> set (obj_ID r)"
  shows "inj_on (\<lambda>r :: ResourceRef. obj_Type r @ '':'' @ obj_ID r) A"
proof (rule inj_onI)
  fix x y :: ResourceRef
  assume xy: "x \<in> A" "y \<in> A" and "obj_Type x @ '':'' @ obj_ID x = obj_Type y @ '':'' @ obj_ID y"
  then have "obj_Type x @ CHR '':'' # obj_ID x = obj_Type y @ CHR '':'' # obj_ID y" by simp
  from member_inj [OF assms assms this, OF xy] show "x = y" by simp
qed

lemma image_mset_inj_on:
  assumes "image_mset f (mset xs) = image_mset f (mset ys)" and "inj_on f (set xs \<union> set ys)"
  shows "mset xs = mset ys"
  using assms by (auto intro!: multiset.inj_map_strong [of "mset xs" "mset ys" f] dest: inj_onD)

lemma ball_enumerate: "(\<forall>p \<in> set (enumerate n xs). P (snd p)) \<longleftrightarrow> (\<forall>x \<in> set xs. P x)"
proof -
  have "set xs = snd ` set (enumerate n xs)" by (metis list.set_map map_snd_enumerate)
  then show ?thesis by simp
qed

lemma Target_Validate_ok [verdict]:
  "Target_Validate t = [] \<longleftrightarrow> \<not> (AllInScope t \<and> tgt_Resources t \<noteq> [])
     \<and> length (tgt_Resources t) \<le> MaxTargetResourcesPerBinding
     \<and> (\<forall>r \<in> set (tgt_Resources t). obj_Type r \<noteq> [] \<and> validObjectID (obj_ID r))"
proof -
  let ?e = "\<lambda>(i, r). (if obj_Type r = [] then [TargetTypeEmpty i] else [])
         @ (if obj_ID r = [] then [TargetIDEmpty i] else if \<not> validObjectID (obj_ID r) then [TargetIDInvalid i] else [])"
  have e: "?e p = [] \<longleftrightarrow> obj_Type (snd p) \<noteq> [] \<and> validObjectID (obj_ID (snd p))" for p
    by (cases p) (simp add: validObjectID_def)
  have "concat (map ?e (enumerate 0 (tgt_Resources t))) = [] \<longleftrightarrow>
      (\<forall>r \<in> set (tgt_Resources t). obj_Type r \<noteq> [] \<and> validObjectID (obj_ID r))"
    unfolding concat_map_Nil e by (rule ball_enumerate)
  then show ?thesis
    unfolding Target_Validate_def by (simp only: no_errors) auto
qed

lemma validObjectID_free: "validObjectID i \<Longrightarrow> CHR '':'' \<notin> set i \<and> newline \<notin> set i"
  by (auto simp: validObjectID_def contains_any_def list_ex_iff objectIDForbidden_def)

text \<open>
  The digest identifies the target. For two accepted targets whose types contain no line
  break, and a digest that maps different member lists to different words, equal digests mean
  equal targets up to the order of the members, or two targets that are not per-object.
\<close>

theorem Target_Digest_identifies:
  assumes "Target_Validate s = []" and "Target_Validate t = []"
    and "\<forall>r \<in> set (tgt_Resources s) \<union> set (tgt_Resources t). newline \<notin> set (obj_Type r)"
    and "inj_on H {join_with [newline] (sort (target_members s)), join_with [newline] (sort (target_members t))}"
    and "Target_Digest H s = Target_Digest H t"
  shows "mset (tgt_Resources s) = mset (tgt_Resources t)"
proof -
  let ?word = "\<lambda>x. join_with [newline] (sort (target_members x))"
  have digest: "Target_Digest H x = (if tgt_Resources x = [] then ''all'' else ''obj:'' @ H (?word x))"
    if "Target_Validate x = []" for x
    using that by (simp add: Target_Digest_def Target_Validate_ok)
  have clean: "\<forall>m \<in> set (sort (target_members x)). newline \<notin> set m"
    if "Target_Validate x = []" "\<forall>r \<in> set (tgt_Resources x). newline \<notin> set (obj_Type r)" for x
    using that validObjectID_free by (simp add: target_members_def Target_Validate_ok)
  show ?thesis
  proof (cases "tgt_Resources s = [] \<or> tgt_Resources t = []")
    case True
    with assms(5) show ?thesis by (auto simp: digest assms(1,2) split: if_splits)
  next
    case False
    with assms(5) have "H (?word s) = H (?word t)" by (simp add: digest assms(1,2))
    with assms(4) have word: "?word s = ?word t" by (rule inj_onD) blast+
    have ne: "sort (target_members x) \<noteq> []" if "tgt_Resources x \<noteq> []" for x
    proof
      assume "sort (target_members x) = []"
      then have "length (sort (target_members x)) = 0" by simp
      with that show False by (simp add: target_members_def)
    qed
    have types: "\<forall>r \<in> set (tgt_Resources s). newline \<notin> set (obj_Type r)" "\<forall>r \<in> set (tgt_Resources t). newline \<notin> set (obj_Type r)"
      using assms(3) by blast+
    have "sort (target_members s) = sort (target_members t)"
      using join_with_inj [OF clean [OF assms(1) types(1)] clean [OF assms(2) types(2)] ne ne word] False by blast
    from arg_cong [OF this, of mset] have "mset (target_members s) = mset (target_members t)"
      unfolding mset_sort .
    then have "image_mset (\<lambda>r. obj_Type r @ '':'' @ obj_ID r) (mset (tgt_Resources s))
        = image_mset (\<lambda>r. obj_Type r @ '':'' @ obj_ID r) (mset (tgt_Resources t))"
      by (simp add: target_members_def)
    moreover have "inj_on (\<lambda>r. obj_Type r @ '':'' @ obj_ID r) (set (tgt_Resources s) \<union> set (tgt_Resources t))"
      using assms(1,2) validObjectID_free unfolding Target_Validate_ok by (intro member_word_inj) blast
    ultimately show ?thesis by (rule image_mset_inj_on)
  qed
qed

theorem Target_Digest_identifies_witness:
  "let s = \<lparr>AllInScope = False, tgt_Resources = [\<lparr>obj_Type = ''vpc.network'', obj_ID = ''a''\<rparr>, \<lparr>obj_Type = ''vpc.subnet'', obj_ID = ''b''\<rparr>]\<rparr>;
       t = \<lparr>AllInScope = False, tgt_Resources = [\<lparr>obj_Type = ''vpc.subnet'', obj_ID = ''b''\<rparr>, \<lparr>obj_Type = ''vpc.network'', obj_ID = ''a''\<rparr>]\<rparr>
   in Target_Digest id s = Target_Digest id t \<and> mset (tgt_Resources s) = mset (tgt_Resources t)"
proof -
  let ?s = "\<lparr>AllInScope = False, tgt_Resources = [\<lparr>obj_Type = ''vpc.network'', obj_ID = ''a''\<rparr>, \<lparr>obj_Type = ''vpc.subnet'', obj_ID = ''b''\<rparr>]\<rparr>"
  let ?t = "\<lparr>AllInScope = False, tgt_Resources = [\<lparr>obj_Type = ''vpc.subnet'', obj_ID = ''b''\<rparr>, \<lparr>obj_Type = ''vpc.network'', obj_ID = ''a''\<rparr>]\<rparr>"
  have valid: "Target_Validate ?s = []" "Target_Validate ?t = []" by code_simp+
  have types: "\<forall>r \<in> set (tgt_Resources ?s) \<union> set (tgt_Resources ?t). newline \<notin> set (obj_Type r)" by simp
  have same: "Target_Digest id ?s = Target_Digest id ?t" by code_simp
  show ?thesis unfolding Let_def
    using same Target_Digest_identifies [OF valid types inj_on_id same] by (rule conjI)
qed

subsection \<open>Accepted bindings\<close>

text \<open>
  C36: what an accepted binding is. It grants either a role or a relation, the latter only on a
  system binding; the wildcard subject occurs only as the user wildcard of a system binding,
  in the head subject and in the whole list; its resource is an anchor of the hierarchy and
  its scope, when it is given, is the one that this anchor derives; on the cluster it is the
  one cluster; its target is the whole scope or a list of objects, not both; and a binding
  with an expiry expires after it was created.
\<close>

theorem accepted_binding:
  assumes "Binding_Validate b = []"
  shows "(ab_RoleID b = [] \<longleftrightarrow> ab_GrantedRelation b \<noteq> [])
    \<and> (ab_GrantedRelation b \<noteq> [] \<longrightarrow> ab_System b)
    \<and> (\<forall>s \<in> set (all_subjects b). sub_ID s = wildcard \<longrightarrow> ab_System b \<and> sub_Type s = SubjectTypeUser)
    \<and> IsScopeAnchorKind (ab_ResourceType b)
    \<and> (ab_Scope b \<noteq> ScopeUnspecified \<longrightarrow> ab_Scope b = DeriveFromResourceType (ab_ResourceType b))
    \<and> (ab_ResourceType b = ''cluster'' \<longrightarrow> ab_ResourceID b = ClusterSingletonID)
    \<and> (AllInScope (ab_Target b) \<longrightarrow> tgt_Resources (ab_Target b) = [])
    \<and> (\<forall>e. ab_ExpiresAt b = Some e \<and> \<not> is_zero_time (ab_CreatedAt b) \<longrightarrow> ab_CreatedAt b < e)"
proof -
  have derive: "DeriveFromResourceType ty = sc" if "Scope_ValidateAgainst sc ty i" for sc ty i
    using that
    by (cases sc) (auto simp: Scope_ValidateAgainst_def anchor_tables DeriveFromResourceType_def scopeVocabulary_def split: if_splits)
  note parts = assms [unfolded Binding_Validate_def, simplified no_errors]
  then have ids: "ab_SubjectID b \<noteq> []" "ab_ResourceID b \<noteq> []"
    and anchor: "ResourceType_Validate (ab_ResourceType b) = []"
    and target: "Target_Validate (ab_Target b) = []"
    and scope: "ab_Scope b \<noteq> ScopeUnspecified \<Longrightarrow> Scope_ValidateAgainst (ab_Scope b) (ab_ResourceType b) (ab_ResourceID b)"
    and subjects: "\<forall>s \<in> set (all_subjects b). sub_ID s = wildcard \<longrightarrow> ab_System b \<and> sub_Type s = SubjectTypeUser"
    and relation: "ab_RoleID b = [] \<longleftrightarrow> ab_GrantedRelation b \<noteq> []" "ab_GrantedRelation b \<noteq> [] \<longrightarrow> ab_System b"
    and cluster: "ab_ResourceType b = ''cluster'' \<longrightarrow> ab_ResourceID b = ClusterSingletonID"
    and expiry: "\<forall>e. ab_ExpiresAt b = Some e \<and> \<not> is_zero_time (ab_CreatedAt b) \<longrightarrow> ab_CreatedAt b < e"
    by (auto simp: list_ex_iff split: if_splits option.splits)
  have "AllInScope (ab_Target b) \<longrightarrow> tgt_Resources (ab_Target b) = []" using target by (simp add: Target_Validate_ok)
  moreover have "IsScopeAnchorKind (ab_ResourceType b)" using anchor by (simp add: ResourceType_Validate_def split: if_splits)
  moreover have "ab_Scope b \<noteq> ScopeUnspecified \<longrightarrow> ab_Scope b = DeriveFromResourceType (ab_ResourceType b)"
    using scope derive by (metis (no_types))
  ultimately show ?thesis using subjects relation cluster expiry by blast
qed

theorem accepted_binding_witness:
  "let b = \<lparr>ab_ID = ''acb1'', ab_SubjectType = ''user'', ab_SubjectID = ''usr1'', ab_RoleID = ''rol1'', ab_ResourceType = ''project'',
       ab_ResourceID = ''prj1'', ab_Scope = ScopeProject, ab_Status = ''ACTIVE'', ab_ExpiresAt = Some 20,
       ab_GrantedByUserID = ''usr2'', ab_RevokedByUserID = None, ab_CreatedAt = 10, ab_GrantedRelation = [], ab_System = False,
       ab_Subjects = [], ab_Labels = [], ab_Target = \<lparr>AllInScope = True, tgt_Resources = []\<rparr>\<rparr>
   in Binding_Validate b = [] \<and> ab_Scope b = DeriveFromResourceType (ab_ResourceType b)"
proof -
  let ?b = "\<lparr>ab_ID = ''acb1'', ab_SubjectType = ''user'', ab_SubjectID = ''usr1'', ab_RoleID = ''rol1'', ab_ResourceType = ''project'',
       ab_ResourceID = ''prj1'', ab_Scope = ScopeProject, ab_Status = ''ACTIVE'', ab_ExpiresAt = Some 20,
       ab_GrantedByUserID = ''usr2'', ab_RevokedByUserID = None, ab_CreatedAt = 10, ab_GrantedRelation = [], ab_System = False,
       ab_Subjects = [], ab_Labels = [], ab_Target = \<lparr>AllInScope = True, tgt_Resources = []\<rparr>\<rparr> :: AccessBinding"
  have ok: "Binding_Validate ?b = []" by code_simp
  have "ab_Scope ?b \<noteq> ScopeUnspecified" by simp
  then show ?thesis unfolding Let_def using ok accepted_binding [OF ok] by blast
qed

end
