(* ===== verification/Catalog_Facts.thy ===== *)
theory Catalog_Facts
  imports Role_Model "HOL-Library.AList"
begin

text \<open>
  The catalogue of resource types and verbs, as a snapshot of its rows: which module and
  resource is which type of the authorisation model, which verbs a type declares, which verbs
  act on the container of an object, and which children a container reads publicly. The grants
  of a rule on a type are computed against it.

  Sources: \<open>internal/catalog/facts.go\<close>, \<open>internal/catalog/rows.go\<close>,
  \<open>internal/authzmap/role_verbs.go\<close>.

  A Go map that the snapshot keeps is a map, or an association list when the code walks it. The
  order in which the code walks a map is a parameter (\<open>walk\<close>), an arbitrary reordering.
\<close>

subsection \<open>Rows\<close>

record ResourceRow =
  rr_Module :: string
  rr_Resource :: string
  rr_ObjectType :: string
  rr_SupersededBy :: string
  rr_ParentTypes :: "string list"
  rr_ParentNames :: "string list"
  rr_Writes :: "string list"
  rr_PublicReadToChildren :: bool
  rr_PermanentProject :: bool

record VerbRow =
  vr_Module :: string
  vr_Resource :: string
  vr_Verb :: string
  vr_PerObject :: bool
  vr_ContainerParent :: string
  vr_ContainerRelation :: string

record Rows =
  rows_Modules :: "string list"
  rows_Resources :: "ResourceRow list"
  rows_Verbs :: "VerbRow list"

record Halves =
  Live :: Rows
  Retired :: Rows

definition row_dotted :: "ResourceRow \<Rightarrow> string" where
  "row_dotted r = rr_Module r @ ''.'' @ rr_Resource r"

definition verb_dotted :: "VerbRow \<Rightarrow> string" where
  "verb_dotted v = vr_Module v @ ''.'' @ vr_Resource v"

definition IsContainer :: "VerbRow \<Rightarrow> bool" where
  "IsContainer v \<longleftrightarrow> vr_ContainerRelation v \<noteq> []"

fun sameStrings :: "string list \<Rightarrow> string list \<Rightarrow> bool" where
  "sameStrings [] [] = True"
| "sameStrings (x # xs) (y # ys) = (x = y \<and> sameStrings xs ys)"
| "sameStrings _ _ = False"

definition ResourceRow_SameForm :: "ResourceRow \<Rightarrow> ResourceRow \<Rightarrow> bool" where
  "ResourceRow_SameForm r u \<longleftrightarrow> rr_ObjectType r = rr_ObjectType u
     \<and> rr_PublicReadToChildren r = rr_PublicReadToChildren u
     \<and> sameStrings (rr_ParentTypes r) (rr_ParentTypes u) \<and> sameStrings (rr_ParentNames r) (rr_ParentNames u)
     \<and> sameStrings (rr_Writes r) (rr_Writes u) \<and> rr_PermanentProject r = rr_PermanentProject u"

definition VerbRow_SameForm :: "VerbRow \<Rightarrow> VerbRow \<Rightarrow> bool" where
  "VerbRow_SameForm v u \<longleftrightarrow> vr_PerObject v = vr_PerObject u
     \<and> vr_ContainerParent v = vr_ContainerParent u \<and> vr_ContainerRelation v = vr_ContainerRelation u"

subsection \<open>The snapshot\<close>

record ContainerGrant =
  cg_Verb :: string
  cg_ParentType :: string
  cg_Relation :: string

record ResourceEntry =
  re_Module :: string
  re_Resource :: string
  re_ObjectType :: string

record RetiredEntry =
  ret_Module :: string
  ret_Resource :: string
  ret_SupersededBy :: string

record containerFact =
  cf_module :: string
  cf_declared :: bool
  cf_children :: "ResourceEntry list"

record Facts =
  verbsByFGAType :: "(string \<times> string list) list"
  ft_common :: "string list"
  ft_all :: "string list"
  ft_modules :: "string \<Rightarrow> bool"
  moduleOrder :: "string list"
  fgaTypeByDotted :: "string \<rightharpoonup> string"
  ft_resources :: "ResourceEntry list"
  ft_retired :: "RetiredEntry list"
  ft_containers :: "string \<rightharpoonup> containerFact"
  containerVerbs :: "string \<rightharpoonup> (string \<rightharpoonup> ContainerGrant)"

datatype catalog_error = CatalogEmpty nat nat nat | RowWithoutObjectType string

subsection \<open>Building the snapshot\<close>

fun module_loop :: "(string \<Rightarrow> bool) \<Rightarrow> string list \<Rightarrow> (string \<Rightarrow> bool) \<times> string list" where
  "module_loop seen [] = (seen, [])"
| "module_loop seen (m # ms) =
     (if seen m then module_loop seen ms
      else let (seen', out) = module_loop (seen(m := True)) ms in (seen', m # out))"

definition entry_of :: "ResourceRow \<Rightarrow> ResourceEntry" where
  "entry_of r = \<lparr>re_Module = rr_Module r, re_Resource = rr_Resource r, re_ObjectType = rr_ObjectType r\<rparr>"

fun type_loop :: "(string \<rightharpoonup> string) \<Rightarrow> ResourceRow list \<Rightarrow> (catalog_error, string \<rightharpoonup> string) result" where
  "type_loop m [] = Inr m"
| "type_loop m (r # rs) =
     (if rr_ObjectType r = [] then Inl (RowWithoutObjectType (row_dotted r))
      else type_loop (m(row_dotted r \<mapsto> rr_ObjectType r)) rs)"

definition sort_entries :: "ResourceEntry list \<Rightarrow> ResourceEntry list" where
  \<comment> \<open>by module, then by resource\<close>
  "sort_entries es = sort_key re_Module (sort_key re_Resource es)"

definition sort_retired :: "RetiredEntry list \<Rightarrow> RetiredEntry list" where
  "sort_retired es = sort_key ret_Module (sort_key ret_Resource es)"

definition container_grant :: "VerbRow \<Rightarrow> ContainerGrant" where
  "container_grant v = \<lparr>cg_Verb = vr_Verb v, cg_ParentType = vr_ContainerParent v, cg_Relation = vr_ContainerRelation v\<rparr>"

fun container_verb_loop ::
  "string list \<Rightarrow> (string \<rightharpoonup> (string \<rightharpoonup> ContainerGrant)) \<Rightarrow> VerbRow list \<Rightarrow> (string \<rightharpoonup> (string \<rightharpoonup> ContainerGrant))" where
  "container_verb_loop live m [] = m"
| "container_verb_loop live m (v # vs) = container_verb_loop live
     (if verb_dotted v \<in> set live \<and> IsContainer v
      then m(verb_dotted v \<mapsto> (case m (verb_dotted v) of None \<Rightarrow> Map.empty | Some g \<Rightarrow> g)(vr_Verb v \<mapsto> container_grant v))
      else m) vs"

definition append_at :: "string \<Rightarrow> string \<Rightarrow> (string \<times> string list) list \<Rightarrow> (string \<times> string list) list" where
  \<comment> \<open>\<open>m[k] = append(m[k], v)\<close>\<close>
  "append_at k v m = AList.update k ((case map_of m k of None \<Rightarrow> [] | Some vs \<Rightarrow> vs) @ [v]) m"

fun verb_loop :: "string list \<Rightarrow> (string \<times> string list) list \<Rightarrow> VerbRow list \<Rightarrow> (string \<times> string list) list" where
  "verb_loop live m [] = m"
| "verb_loop live m (v # vs) = verb_loop live
     (if verb_dotted v \<in> set live \<and> vr_PerObject v then append_at (verb_dotted v) (vr_Verb v) m else m) vs"

fun by_type_loop ::
  "(string \<rightharpoonup> string) \<Rightarrow> (string \<times> string list) list \<Rightarrow> (string \<times> string list) list \<Rightarrow> (string \<times> string list) list" where
  \<comment> \<open>\<open>f.verbsByFGAType[fgaTypeByDotted[dotted]] = sorted verbs\<close>\<close>
  "by_type_loop types m [] = m"
| "by_type_loop types m ((dotted, verbs) # rest) =
     by_type_loop types (AList.update (case types dotted of None \<Rightarrow> [] | Some t \<Rightarrow> t) (sort verbs) m) rest"

fun common_loop :: "string list option \<Rightarrow> (string \<times> string list) list \<Rightarrow> string list option" where
  "common_loop known [] = known"
| "common_loop known ((t, verbs) # rest) =
     common_loop (if verbs = [] then known
                  else (case known of None \<Rightarrow> Some (remdups verbs) | Some vs \<Rightarrow> Some (filter (\<lambda>v. v \<in> set verbs) vs))) rest"

definition vocabularies :: "(string \<times> string list) list \<Rightarrow> string list \<times> string list" where
  "vocabularies byType =
     (sort (case common_loop None byType of None \<Rightarrow> [] | Some vs \<Rightarrow> vs), sort (remdups (concat (map snd byType))))"

definition container_at_row :: "(string \<rightharpoonup> containerFact) \<Rightarrow> string \<Rightarrow> containerFact" where
  \<comment> \<open>the zero value when the key is missing\<close>
  "container_at_row m k = (case m k of None \<Rightarrow> \<lparr>cf_module = [], cf_declared = False, cf_children = []\<rparr> | Some c \<Rightarrow> c)"

fun own_containers ::
  "(string \<rightharpoonup> string) \<Rightarrow> (string \<rightharpoonup> containerFact) \<Rightarrow> ResourceRow list \<Rightarrow> (string \<rightharpoonup> string) \<times> (string \<rightharpoonup> containerFact)" where
  "own_containers byFGA m [] = (byFGA, m)"
| "own_containers byFGA m (r # rs) =
     own_containers (byFGA(rr_ObjectType r \<mapsto> row_dotted r))
       (m(row_dotted r \<mapsto> (container_at_row m (row_dotted r))\<lparr>cf_module := rr_Module r, cf_declared := rr_PublicReadToChildren r\<rparr>)) rs"

fun add_child :: "(string \<rightharpoonup> string) \<Rightarrow> ResourceRow \<Rightarrow> (string \<rightharpoonup> containerFact) \<Rightarrow> string list \<Rightarrow> (string \<rightharpoonup> containerFact)" where
  "add_child byFGA r m [] = m"
| "add_child byFGA r m (pt # pts) = add_child byFGA r
     (case byFGA pt of
        None \<Rightarrow> m
      | Some parent \<Rightarrow> m(parent \<mapsto> (container_at_row m parent)\<lparr>cf_children := cf_children (container_at_row m parent) @ [entry_of r]\<rparr>)) pts"

definition containersOf :: "ResourceRow list \<Rightarrow> string \<rightharpoonup> containerFact" where
  "containersOf rows =
     (let (byFGA, own) = own_containers Map.empty Map.empty rows;
          full = foldl (\<lambda>m r. add_child byFGA r m (rr_ParentTypes r)) own rows
      in (\<lambda>k. map_option (\<lambda>c. c\<lparr>cf_children := sort_entries (cf_children c)\<rparr>) (full k)))"

definition NewFacts :: "((string \<times> string list) list \<Rightarrow> (string \<times> string list) list) \<Rightarrow> Halves \<Rightarrow> (catalog_error, Facts) result" where
  "NewFacts walk h =
     (let rows = Live h in
      if rows_Modules rows = [] \<or> rows_Resources rows = [] \<or> rows_Verbs rows = []
      then Inl (CatalogEmpty (length (rows_Modules rows)) (length (rows_Resources rows)) (length (rows_Verbs rows)))
      else (case type_loop Map.empty (rows_Resources rows) of
              Inl e \<Rightarrow> Inl e
            | Inr types \<Rightarrow>
                (let (modules, order) = module_loop (\<lambda>_. False) (rows_Modules rows);
                     live = map row_dotted (rows_Resources rows);
                     byType = by_type_loop types [] (walk (verb_loop live [] (rows_Verbs rows)));
                     (common, all) = vocabularies byType
                 in Inr \<lparr>verbsByFGAType = byType, ft_common = common, ft_all = all, ft_modules = modules,
                      moduleOrder = sort order, fgaTypeByDotted = types,
                      ft_resources = sort_entries (map entry_of (rows_Resources rows)),
                      ft_retired = sort_retired (map (\<lambda>r. \<lparr>ret_Module = rr_Module r, ret_Resource = rr_Resource r,
                        ret_SupersededBy = rr_SupersededBy r\<rparr>) (rows_Resources (Retired h))),
                      ft_containers = containersOf (rows_Resources rows),
                      containerVerbs = container_verb_loop live Map.empty (rows_Verbs rows)\<rparr>)))"

subsection \<open>Questions to the snapshot\<close>

definition IsKnownModule :: "Facts \<Rightarrow> string \<Rightarrow> bool" where
  "IsKnownModule f m = ft_modules f m"

definition FGAObjectType :: "Facts \<Rightarrow> string \<Rightarrow> string option" where
  "FGAObjectType f dotted = fgaTypeByDotted f dotted"

definition VerbsOfType :: "Facts \<Rightarrow> string \<Rightarrow> string list" where
  "VerbsOfType f fgaType = (case map_of (verbsByFGAType f) fgaType of None \<Rightarrow> [] | Some vs \<Rightarrow> vs)"

definition CommonVerbVocabulary :: "Facts \<Rightarrow> string list" where
  "CommonVerbVocabulary f = ft_common f"

definition AllVerbVocabulary :: "Facts \<Rightarrow> string list" where
  "AllVerbVocabulary f = ft_all f"

definition RolePreviewLookup :: "Facts \<Rightarrow> type_verb_lookup" where
  "RolePreviewLookup f =
     WithCommonFallback (Some (\<lambda>m r. case FGAObjectType f (m @ ''.'' @ r) of
          None \<Rightarrow> None
        | Some t \<Rightarrow> if VerbsOfType f t = [] then None else Some (VerbsOfType f t))) (AllVerbVocabulary f)"

definition PublicReadChildren :: "Facts \<Rightarrow> string \<Rightarrow> string list" where
  "PublicReadChildren f dotted =
     (case ft_containers f dotted of
        None \<Rightarrow> []
      | Some c \<Rightarrow>
          if \<not> cf_declared c then []
          else map (\<lambda>ch. re_Module ch @ ''.'' @ re_Resource ch) (filter (\<lambda>ch. re_Module ch = cf_module c) (cf_children c)))"

definition ContainerVerb :: "Facts option \<Rightarrow> string \<Rightarrow> string \<Rightarrow> ContainerGrant option" where
  "ContainerVerb f dotted verb =
     (case f of
        None \<Rightarrow> None
      | Some f \<Rightarrow> (case containerVerbs f dotted of None \<Rightarrow> None | Some g \<Rightarrow> g verb))"

definition ContainerGrants :: "Facts option \<Rightarrow> string \<Rightarrow> string list \<Rightarrow> string list \<Rightarrow> ContainerGrant list" where
  "ContainerGrants f module resources verbs =
     concat (map (\<lambda>res. if res = wildcard \<or> module = wildcard then []
       else List.map_filter (ContainerVerb f (module @ ''.'' @ res)) verbs) resources)"

subsection \<open>What a rule grants on a type\<close>

definition IsHierarchyScopeType :: "string \<Rightarrow> bool" where
  "IsHierarchyScopeType fgaType \<longleftrightarrow> fgaType = ''account'' \<or> fgaType = ''project''"

fun granted_loop :: "string list \<Rightarrow> string list \<Rightarrow> string list \<Rightarrow> string list" where
  \<comment> \<open>the verbs kept so far, in the order of the expanded list\<close>
  "granted_loop typeVerbs out [] = out"
| "granted_loop typeVerbs out (v # vs) =
     granted_loop typeVerbs
       (if \<not> IsVerbOfType v typeVerbs \<or> NormalizeVerb v \<in> set out then out else out @ [NormalizeVerb v]) vs"

definition GrantedVerbsWithDeclared ::
  "string \<Rightarrow> bool \<Rightarrow> string list \<Rightarrow> string list \<Rightarrow> RulePolicy \<Rightarrow> string list" where
  "GrantedVerbsWithDeclared fgaType declaresVerbs authored typeVerbs policy =
     (if \<not> declaresVerbs then []
      else let out = granted_loop typeVerbs [] (fst (ResolveVerbsAndTier authored typeVerbs))
           in if ''update'' \<in> set out \<and> UpdateImpliesDelete policy \<and> \<not> IsHierarchyScopeType fgaType
                \<and> IsVerbOfType ''delete'' typeVerbs \<and> ''delete'' \<notin> set out
              then out @ [''delete''] else out)"

definition GrantedVerbs :: "Facts \<Rightarrow> string \<Rightarrow> string list \<Rightarrow> string list \<Rightarrow> RulePolicy \<Rightarrow> string list" where
  "GrantedVerbs f fgaType authored typeVerbs policy =
     GrantedVerbsWithDeclared fgaType (VerbsOfType f fgaType \<noteq> []) authored typeVerbs policy"

record RoleVerb =
  rv_ObjectType :: string
  rv_Verb :: string

fun grants_loop :: "Facts \<Rightarrow> RulePolicy \<Rightarrow> RuleSelector \<Rightarrow> (string \<times> string list) list \<Rightarrow> string list \<Rightarrow> (string \<times> string list) list" where
  "grants_loop f policy sel grants [] = grants"
| "grants_loop f policy sel grants (dotted # ds) = grants_loop f policy sel
     (if dotted \<in> fst ` set grants \<or> dotted = [] then grants
      else (case FGAObjectType f dotted of
              None \<Rightarrow> grants
            | Some fgaType \<Rightarrow>
                (let verbs = GrantedVerbs f fgaType (sel_Verbs sel) (VerbsOfType f fgaType) policy
                 in if verbs = [] then grants else grants @ [(dotted, verbs)]))) ds"

definition GrantSelectors :: "Facts \<Rightarrow> RuleSelector list \<Rightarrow> RulePolicy \<Rightarrow> (RuleSelector \<times> (string \<times> string list) list) list" where
  \<comment> \<open>every selector with its field \<open>Grants\<close>\<close>
  "GrantSelectors f selectors policy = map (\<lambda>sel. (sel, grants_loop f policy sel [] (sel_ObjectTypes sel))) selectors"

definition RoleVerbsFromSelectors :: "Facts \<Rightarrow> RuleSelector list \<Rightarrow> RulePolicy \<Rightarrow> RoleVerb list" where
  "RoleVerbsFromSelectors f selectors policy =
     first_seen (concat (map (\<lambda>(sel, grants).
       concat (map (\<lambda>dotted. map (\<lambda>v. \<lparr>rv_ObjectType = dotted, rv_Verb = v\<rparr>)
         (case map_of grants dotted of None \<Rightarrow> [] | Some vs \<Rightarrow> vs)) (sel_ObjectTypes sel))) (GrantSelectors f selectors policy)))"

end
