(* ===== verification/Object_Tables.thy ===== *)
theory Object_Tables
  imports Catalog_Facts Binding_Model
begin

text \<open>
  The tables that the reconciler reads objects from, and the queries it asks them: the mirror of
  the objects of other services with its registered chains of parents, and the own tables of the
  service. What a client of the queries relies on is the locale \<open>object_source\<close>; its
  interpretation shows that the queries keep it.

  Sources: \<open>internal/repo/kaname/pg/resource_mirror/reader.go\<close>, the reading half of
  \<open>internal/repo/kaname/pg/reconcile_adapter.go\<close>, \<open>internal/domain/selector_feed.go\<close>.

  A table is a list of rows and a \<open>SELECT\<close> is a filter of it. Every query may fail
  (\<open>down\<close>); a row that another transaction is deleting is skipped by the queries that lock
  rows (\<open>busy\<close>). JSON containment \<open>labels @> match\<close> is the label predicate of the domain.
\<close>

subsection \<open>Feeds\<close>

datatype FeedSource = FeedMirror | FeedIAMDirect

definition FeedSourceForType :: "string \<Rightarrow> FeedSource" where
  "FeedSourceForType objectType = (if has_prefix objectType ''iam.'' then FeedIAMDirect else FeedMirror)"

definition mirrorFed :: "string \<Rightarrow> bool" where
  "mirrorFed objectType \<longleftrightarrow> FeedSourceForType objectType = FeedMirror"

record MemberCoord =
  mc_ObjectType :: string
  mc_ObjectID :: string

definition coord_of_object :: "MirrorObject \<Rightarrow> MemberCoord" where
  "coord_of_object m = \<lparr>mc_ObjectType = mir_ObjectType m, mc_ObjectID = mir_ObjectID m\<rparr>"

subsection \<open>Rows\<close>

record MirrorRow =
  mw_ObjectType :: string
  mw_ObjectID :: string
  mw_ParentProjectID :: string
  mw_ParentAccountID :: string
  mw_Labels :: "(string \<times> string) list"

record ParentEdge =
  pe_ObjectType :: string
  pe_ObjectID :: string
  pe_ParentType :: string
  pe_ParentID :: string
  pe_Depth :: nat

record CatalogRow =
  cr_Dotted :: string
  cr_ObjectType :: string
  cr_Live :: bool

datatype iam_row =
    ProjectRow string string \<comment> \<open>id, account\<close>
  | AccountRow string
  | RoleRow string string string \<comment> \<open>id, account or empty, project or empty\<close>
  | GroupRow string string
  | ServiceAccountRow string string "(string \<times> string) option" \<comment> \<open>id, account, kind and id of the creator\<close>
  | UserRow string
  | AccessBindingRow string string string \<comment> \<open>id, kind and id of the anchor\<close>

record Tables =
  tb_mirror :: "MirrorRow list"
  tb_edges :: "ParentEdge list"
  tb_catalog :: "CatalogRow list"
  tb_projects :: "string \<rightharpoonup> string" \<comment> \<open>project to account\<close>
  tb_memberships :: "(string \<times> string) list" \<comment> \<open>user and account\<close>
  tb_iam :: "(iam_row \<times> (string \<times> string) list) list" \<comment> \<open>own rows with their labels\<close>

subsection \<open>Projection to objects\<close>

definition singletonAccount :: "string \<Rightarrow> string list" where
  "singletonAccount accountID = (if accountID = [] then [] else [accountID])"

definition resolved_account :: "Tables \<Rightarrow> MirrorRow \<Rightarrow> string" where
  \<comment> \<open>\<open>COALESCE(NULLIF(m.parent_account_id, ''), pj.account_id, '')\<close>\<close>
  "resolved_account tb r =
     (if mw_ParentAccountID r \<noteq> [] then mw_ParentAccountID r
      else case tb_projects tb (mw_ParentProjectID r) of None \<Rightarrow> [] | Some a \<Rightarrow> a)"

definition mirrorRowToDomain :: "Tables \<Rightarrow> MirrorRow \<Rightarrow> MirrorObject" where
  "mirrorRowToDomain tb r = \<lparr>mir_ObjectType = mw_ObjectType r, mir_ObjectID = mw_ObjectID r,
     mir_ParentProjectID = mw_ParentProjectID r, mir_ParentAccountIDs = singletonAccount (resolved_account tb r),
     mir_Labels = mw_Labels r, mir_CreatedBy = []\<rparr>"

text \<open>The columns that \<open>iamDirectScanSpecs\<close> declares for every own type.\<close>

fun iam_type :: "iam_row \<Rightarrow> string" where
  "iam_type (ProjectRow _ _) = ''iam.project''"
| "iam_type (AccountRow _) = ''iam.account''"
| "iam_type (RoleRow _ _ _) = ''iam.role''"
| "iam_type (GroupRow _ _) = ''iam.group''"
| "iam_type (ServiceAccountRow _ _ _) = ''iam.serviceAccount''"
| "iam_type (UserRow _) = ''iam.user''"
| "iam_type (AccessBindingRow _ _ _) = ''iam.accessBinding''"

fun iam_id :: "iam_row \<Rightarrow> string" where
  "iam_id (ProjectRow i _) = i"
| "iam_id (AccountRow i) = i"
| "iam_id (RoleRow i _ _) = i"
| "iam_id (GroupRow i _) = i"
| "iam_id (ServiceAccountRow i _ _) = i"
| "iam_id (UserRow i) = i"
| "iam_id (AccessBindingRow i _ _) = i"

definition account_of_project :: "Tables \<Rightarrow> string \<Rightarrow> string" where
  "account_of_project tb p = (case tb_projects tb p of None \<Rightarrow> [] | Some a \<Rightarrow> a)"

fun parent_accounts :: "Tables \<Rightarrow> iam_row \<Rightarrow> string list" where
  "parent_accounts tb (ProjectRow _ a) = singletonAccount a"
| "parent_accounts tb (AccountRow i) = singletonAccount i"
| "parent_accounts tb (RoleRow _ a p) = singletonAccount (if a \<noteq> [] then a else account_of_project tb p)"
| "parent_accounts tb (GroupRow _ a) = singletonAccount a"
| "parent_accounts tb (ServiceAccountRow _ a _) = singletonAccount a"
| "parent_accounts tb (UserRow i) = sort (map snd (filter (\<lambda>(u, a). u = i \<and> a \<noteq> []) (tb_memberships tb)))"
| "parent_accounts tb (AccessBindingRow _ ty i) =
     singletonAccount (if ty = ''account'' then i else if ty = ''project'' then account_of_project tb i else [])"

fun parent_project :: "iam_row \<Rightarrow> string" where
  "parent_project (ProjectRow i _) = i"
| "parent_project (RoleRow _ _ p) = p"
| "parent_project (AccessBindingRow _ ty i) = (if ty = ''project'' then i else [])"
| "parent_project _ = []"

fun creator_text :: "iam_row \<Rightarrow> string" where
  "creator_text (ServiceAccountRow _ _ (Some (ty, i))) = ty @ '':'' @ i"
| "creator_text _ = []"

definition scan_iam :: "Tables \<Rightarrow> iam_row \<Rightarrow> MirrorObject" where
  "scan_iam tb r = \<lparr>mir_ObjectType = iam_type r, mir_ObjectID = iam_id r, mir_ParentProjectID = parent_project r,
     mir_ParentAccountIDs = parent_accounts tb r, mir_Labels = [], mir_CreatedBy = creator_text r\<rparr>"

subsection \<open>Queries to the mirror\<close>

type_synonym query = "string \<times> string list"

record Source =
  MatchSelector :: "string list \<Rightarrow> (string \<times> string) list \<Rightarrow> (query, MirrorObject list) result"
  MatchAllInScope :: "string list \<Rightarrow> ScopeAnchor \<Rightarrow> (query, MirrorObject list) result"
  MatchByIDs :: "string list \<Rightarrow> string list \<Rightarrow> (query, MirrorObject list) result"
  MatchIAMDirect :: "string list \<Rightarrow> (string \<times> string) list \<Rightarrow> (query, MirrorObject list) result"
  MatchAllInScopeIAMDirect :: "string list \<Rightarrow> ScopeAnchor \<Rightarrow> (query, MirrorObject list) result"
  MatchByIDsIAMDirect :: "string list \<Rightarrow> string list \<Rightarrow> (query, MirrorObject list) result"
  MatchCreatedByIAMDirect :: "string list \<Rightarrow> ScopeAnchor \<Rightarrow> string list \<Rightarrow> (query, MirrorObject list) result"
  LockMirrorObjects :: "MemberCoord list \<Rightarrow> (query, MemberCoord list) result"
  AncestorObjects :: "string \<Rightarrow> string \<Rightarrow> (query, MirrorObject list) result"
  MatchDescendants :: "string list \<Rightarrow> string \<Rightarrow> string list \<Rightarrow> (query, MirrorObject list) result"
  GetMirrorObject :: "string \<Rightarrow> string \<Rightarrow> (query, MirrorObject option) result"
  GetIAMDirectObject :: "string \<Rightarrow> string \<Rightarrow> (query, MirrorObject option) result"

definition order_objects :: "MirrorRow list \<Rightarrow> MirrorRow list" where
  \<comment> \<open>\<open>ORDER BY m.object_type ASC, m.object_id ASC\<close>\<close>
  "order_objects rs = sort_key mw_ObjectType (sort_key mw_ObjectID rs)"

definition select_mirror :: "Tables \<Rightarrow> (MirrorRow \<Rightarrow> bool) \<Rightarrow> MirrorObject list" where
  "select_mirror tb P = map (mirrorRowToDomain tb) (order_objects (filter P (tb_mirror tb)))"

definition MatchByLabels :: "Tables \<Rightarrow> string list \<Rightarrow> (string \<times> string) list \<Rightarrow> MirrorObject list" where
  "MatchByLabels tb types matchLabels =
     (if types = [] \<or> matchLabels = [] then []
      else select_mirror tb (\<lambda>r. mw_ObjectType r \<in> set types \<and> MatchesLabels (mirrorRowToDomain tb r) matchLabels))"

definition AllByTypes :: "Tables \<Rightarrow> string list \<Rightarrow> string \<Rightarrow> string \<Rightarrow> MirrorObject list" where
  "AllByTypes tb types scopeType scopeID =
     (if types = [] then []
      else select_mirror tb (\<lambda>r. mw_ObjectType r \<in> set types
        \<and> (if scopeType = ''project'' then mw_ParentProjectID r = scopeID
           else if scopeType = ''account'' then resolved_account tb r = scopeID else True)))"

definition ByTypesAndIDs :: "Tables \<Rightarrow> string list \<Rightarrow> string list \<Rightarrow> MirrorObject list" where
  "ByTypesAndIDs tb types idents =
     (if types = [] \<or> idents = [] then []
      else select_mirror tb (\<lambda>r. mw_ObjectType r \<in> set types \<and> mw_ObjectID r \<in> set idents))"

definition GetByObject :: "Tables \<Rightarrow> string \<Rightarrow> string \<Rightarrow> MirrorObject option" where
  "GetByObject tb objectType objectID =
     map_option (mirrorRowToDomain tb) (List.find (\<lambda>r. mw_ObjectType r = objectType \<and> mw_ObjectID r = objectID) (tb_mirror tb))"

definition edges_up :: "Tables \<Rightarrow> string \<Rightarrow> string \<Rightarrow> ParentEdge list" where
  \<comment> \<open>the edges of an object, its catalogue type read as a type of the model by a live row\<close>
  "edges_up tb objectType objectID =
     filter (\<lambda>e. pe_ObjectID e = objectID
       \<and> list_ex (\<lambda>c. cr_Dotted c = objectType \<and> cr_Live c \<and> cr_ObjectType c = pe_ObjectType e) (tb_catalog tb)) (tb_edges tb)"

definition edge_names :: "Tables \<Rightarrow> ParentEdge \<Rightarrow> MirrorRow \<Rightarrow> bool" where
  \<comment> \<open>a row of the mirror is the parent that the edge names\<close>
  "edge_names tb e r \<longleftrightarrow> mw_ObjectID r = pe_ParentID e
     \<and> list_ex (\<lambda>c. cr_ObjectType c = pe_ParentType e \<and> cr_Live c \<and> cr_Dotted c = mw_ObjectType r) (tb_catalog tb)"

definition AncestorsOf :: "Tables \<Rightarrow> (MemberCoord \<Rightarrow> bool) \<Rightarrow> string \<Rightarrow> string \<Rightarrow> MirrorObject list" where
  "AncestorsOf tb busy objectType objectID =
     concat (map (\<lambda>e. map (mirrorRowToDomain tb)
         (filter (\<lambda>r. edge_names tb e r \<and> \<not> busy \<lparr>mc_ObjectType = mw_ObjectType r, mc_ObjectID = mw_ObjectID r\<rparr>) (tb_mirror tb)))
       (sort_key pe_Depth (edges_up tb objectType objectID)))"

definition DescendantsOf :: "Tables \<Rightarrow> string list \<Rightarrow> string \<Rightarrow> string list \<Rightarrow> MirrorObject list" where
  "DescendantsOf tb types containerType containerIDs =
     (if types = [] \<or> containerIDs = [] then []
      else select_mirror tb (\<lambda>m. mw_ObjectType m \<in> set types
        \<and> list_ex (\<lambda>e. pe_ParentID e \<in> set containerIDs
            \<and> list_ex (\<lambda>c. cr_Dotted c = containerType \<and> cr_Live c \<and> cr_ObjectType c = pe_ParentType e) (tb_catalog tb))
          (edges_up tb (mw_ObjectType m) (mw_ObjectID m))))"

subsection \<open>Queries to the own tables\<close>

definition iamDirectScanSpecs :: "string list" where
  "iamDirectScanSpecs = [''iam.project'', ''iam.account'', ''iam.role'', ''iam.group'', ''iam.serviceAccount'',
     ''iam.user'', ''iam.accessBinding'']"

definition select_iam :: "Tables \<Rightarrow> string list \<Rightarrow> (iam_row \<Rightarrow> (string \<times> string) list \<Rightarrow> bool) \<Rightarrow> MirrorObject list" where
  \<comment> \<open>one query for every type, ordered by id\<close>
  "select_iam tb types P =
     concat (map (\<lambda>t. if t \<notin> set iamDirectScanSpecs then []
       else map (scan_iam tb) (sort_key iam_id (map fst (filter (\<lambda>(r, ls). iam_type r = t \<and> P r ls) (tb_iam tb))))) types)"

definition iamDirectScopePredicate :: "Tables \<Rightarrow> ScopeAnchor \<Rightarrow> iam_row \<Rightarrow> bool" where
  "iamDirectScopePredicate tb scope r \<longleftrightarrow>
     (if anchor_Type scope = ''project'' then parent_project r = anchor_ID scope
      else if anchor_Type scope = ''account'' then anchor_ID scope \<in> set (parent_accounts tb r)
      else True)"

definition iam_by_labels :: "Tables \<Rightarrow> string list \<Rightarrow> (string \<times> string) list \<Rightarrow> MirrorObject list" where
  "iam_by_labels tb types matchLabels =
     (if types = [] \<or> matchLabels = [] then []
      else select_iam tb types (\<lambda>r ls. MatchesLabels ((scan_iam tb r)\<lparr>mir_Labels := ls\<rparr>) matchLabels))"

definition iamDirectQuery_scope :: "Tables \<Rightarrow> string list \<Rightarrow> ScopeAnchor \<Rightarrow> MirrorObject list" where
  "iamDirectQuery_scope tb types scope = select_iam tb types (\<lambda>r _. iamDirectScopePredicate tb scope r)"

definition iamDirectQuery_ids :: "Tables \<Rightarrow> string list \<Rightarrow> string list \<Rightarrow> MirrorObject list" where
  "iamDirectQuery_ids tb types idents = (if idents = [] then [] else select_iam tb types (\<lambda>r _. iam_id r \<in> set idents))"

fun created_by :: "string list \<Rightarrow> iam_row \<Rightarrow> bool" where
  \<comment> \<open>\<open>o.created_by_type = 'service_account' AND o.created_by_id = ANY(creators)\<close>; only service accounts
     carry the columns\<close>
  "created_by creators (ServiceAccountRow _ _ (Some (ty, i))) \<longleftrightarrow> ty = ''service_account'' \<and> i \<in> set creators"
| "created_by creators _ \<longleftrightarrow> False"

definition matchCreatedBySQL :: "Tables \<Rightarrow> string list \<Rightarrow> ScopeAnchor \<Rightarrow> string list \<Rightarrow> MirrorObject list" where
  "matchCreatedBySQL tb types scope creators =
     (if types = [] \<or> creators = [] then []
      else select_iam tb types (\<lambda>r _. created_by creators r
        \<and> (if anchor_Type scope = ''account'' then singletonAccount (anchor_ID scope) = parent_accounts tb r
           else if anchor_Type scope = ''project'' then parent_project r = anchor_ID scope else True)))"

definition get_iam :: "Tables \<Rightarrow> string \<Rightarrow> string \<Rightarrow> MirrorObject option" where
  "get_iam tb objectType objectID =
     (if objectType \<notin> set iamDirectScanSpecs then None
      else map_option (\<lambda>(r, ls). (scan_iam tb r)\<lparr>mir_Labels := ls\<rparr>)
        (List.find (\<lambda>(r, ls). iam_type r = objectType \<and> iam_id r = objectID) (tb_iam tb)))"

definition lock_mirror :: "Tables \<Rightarrow> (MemberCoord \<Rightarrow> bool) \<Rightarrow> MemberCoord list \<Rightarrow> MemberCoord list" where
  "lock_mirror tb busy objs =
     map (\<lambda>r. \<lparr>mc_ObjectType = mw_ObjectType r, mc_ObjectID = mw_ObjectID r\<rparr>)
       (order_objects (filter (\<lambda>r. \<lparr>mc_ObjectType = mw_ObjectType r, mc_ObjectID = mw_ObjectID r\<rparr> \<in> set objs
         \<and> \<not> busy \<lparr>mc_ObjectType = mw_ObjectType r, mc_ObjectID = mw_ObjectID r\<rparr>) (tb_mirror tb)))"

definition ask :: "(query \<Rightarrow> bool) \<Rightarrow> string \<Rightarrow> string list \<Rightarrow> 'a \<Rightarrow> (query, 'a) result" where
  \<comment> \<open>a query fails or answers\<close>
  "ask down name args answer = (if down (name, args) then Inl (name, args) else Inr answer)"

definition pg_source :: "Tables \<Rightarrow> (query \<Rightarrow> bool) \<Rightarrow> (MemberCoord \<Rightarrow> bool) \<Rightarrow> Source" where
  "pg_source tb down busy =
     \<lparr>MatchSelector = (\<lambda>types ls. ask down ''MatchSelector'' (types @ map fst ls) (MatchByLabels tb types ls)),
      MatchAllInScope = (\<lambda>types sc. ask down ''MatchAllInScope'' types
        (if types = [] then [] else AllByTypes tb types (anchor_Type sc) (anchor_ID sc))),
      MatchByIDs = (\<lambda>types is. ask down ''MatchByIDs'' (types @ is)
        (if types = [] \<or> is = [] then [] else ByTypesAndIDs tb types is)),
      MatchIAMDirect = (\<lambda>types ls. ask down ''MatchIAMDirect'' (types @ map fst ls) (iam_by_labels tb types ls)),
      MatchAllInScopeIAMDirect = (\<lambda>types sc. ask down ''MatchAllInScopeIAMDirect'' types (iamDirectQuery_scope tb types sc)),
      MatchByIDsIAMDirect = (\<lambda>types is. ask down ''MatchByIDsIAMDirect'' (types @ is) (iamDirectQuery_ids tb types is)),
      MatchCreatedByIAMDirect = (\<lambda>types sc cs. ask down ''MatchCreatedByIAMDirect'' (types @ cs) (matchCreatedBySQL tb types sc cs)),
      LockMirrorObjects = (\<lambda>objs. ask down ''LockMirrorObjects'' (map mc_ObjectID objs)
        (if objs = [] then [] else lock_mirror tb busy objs)),
      AncestorObjects = (\<lambda>ty i. ask down ''AncestorObjects'' [ty, i] (AncestorsOf tb busy ty i)),
      MatchDescendants = (\<lambda>types ty is. ask down ''MatchDescendants'' (types @ ty # is) (DescendantsOf tb types ty is)),
      GetMirrorObject = (\<lambda>ty i. ask down ''GetMirrorObject'' [ty, i] (GetByObject tb ty i)),
      GetIAMDirectObject = (\<lambda>ty i. ask down ''GetIAMDirectObject'' [ty, i] (get_iam tb ty i))\<rparr>"

subsection \<open>The interface of the queries\<close>

text \<open>
  The objects that exist, with their labels; the objects that a row being deleted hides from a
  locking query; and for every object of the mirror its ancestors in the mirror. The queries to
  the own tables leave the labels out.
\<close>

definition unlabelled :: "MirrorObject \<Rightarrow> MirrorObject" where
  "unlabelled m = m\<lparr>mir_Labels := []\<rparr>"

definition in_scope_or_wider :: "ScopeAnchor \<Rightarrow> MirrorObject set \<Rightarrow> MirrorObject set \<Rightarrow> bool" where
  \<comment> \<open>what a query narrowed to a scope may return of the candidates \<open>A\<close>: at least the contained ones\<close>
  "in_scope_or_wider sc A B \<longleftrightarrow> B \<subseteq> A \<and> {m \<in> A. IsContainedIn m sc} \<subseteq> B"

locale object_source =
  fixes src :: "'t \<Rightarrow> Source" and objects :: "'t \<Rightarrow> MirrorObject set" and hidden :: "'t \<Rightarrow> MemberCoord \<Rightarrow> bool"
    and above :: "'t \<Rightarrow> MirrorObject \<Rightarrow> MirrorObject set" and invar :: "'t \<Rightarrow> bool"
  assumes unique: "invar t \<Longrightarrow> m \<in> objects t \<Longrightarrow> n \<in> objects t \<Longrightarrow> coord_of_object m = coord_of_object n \<Longrightarrow> m = n"
    and above_mirror: "invar t \<Longrightarrow> a \<in> above t m \<Longrightarrow> a \<in> objects t \<and> mirrorFed (mir_ObjectType a)"
    and mirror_no_creator: "invar t \<Longrightarrow> m \<in> objects t \<Longrightarrow> mirrorFed (mir_ObjectType m) \<Longrightarrow> mir_CreatedBy m = []"
    and by_labels: "invar t \<Longrightarrow> MatchSelector (src t) types ls = Inr xs \<Longrightarrow> ls \<noteq> [] \<Longrightarrow> list_all mirrorFed types \<Longrightarrow>
      set xs = {m \<in> objects t. mir_ObjectType m \<in> set types \<and> MatchesLabels m ls}"
    and by_ids: "invar t \<Longrightarrow> MatchByIDs (src t) types is = Inr xs \<Longrightarrow> list_all mirrorFed types \<Longrightarrow>
      set xs = {m \<in> objects t. mir_ObjectType m \<in> set types \<and> mir_ObjectID m \<in> set is}"
    and in_scope: "invar t \<Longrightarrow> MatchAllInScope (src t) types sc = Inr xs \<Longrightarrow> list_all mirrorFed types \<Longrightarrow>
      in_scope_or_wider sc {m \<in> objects t. mir_ObjectType m \<in> set types} (set xs)"
    and iam_by_labels: "invar t \<Longrightarrow> MatchIAMDirect (src t) types ls = Inr xs \<Longrightarrow> ls \<noteq> [] \<Longrightarrow> list_all (\<lambda>ty. \<not> mirrorFed ty) types \<Longrightarrow>
      set xs = unlabelled ` {m \<in> objects t. mir_ObjectType m \<in> set types \<and> MatchesLabels m ls}"
    and iam_by_ids: "invar t \<Longrightarrow> MatchByIDsIAMDirect (src t) types is = Inr xs \<Longrightarrow> list_all (\<lambda>ty. \<not> mirrorFed ty) types \<Longrightarrow>
      set xs = unlabelled ` {m \<in> objects t. mir_ObjectType m \<in> set types \<and> mir_ObjectID m \<in> set is}"
    and iam_in_scope: "invar t \<Longrightarrow> MatchAllInScopeIAMDirect (src t) types sc = Inr xs \<Longrightarrow> list_all (\<lambda>ty. \<not> mirrorFed ty) types \<Longrightarrow>
      \<exists>B. set xs = unlabelled ` B \<and> in_scope_or_wider sc {m \<in> objects t. mir_ObjectType m \<in> set types} B"
    and iam_created: "invar t \<Longrightarrow> MatchCreatedByIAMDirect (src t) types sc cs = Inr xs \<Longrightarrow> list_all (\<lambda>ty. \<not> mirrorFed ty) types \<Longrightarrow>
      \<exists>B. set xs = unlabelled ` B \<and> in_scope_or_wider sc {m \<in> objects t. mir_ObjectType m \<in> set types
        \<and> mir_CreatedBy m \<in> FGASubjectRef SubjectTypeServiceAccount ` set cs} B"
    and locked: "invar t \<Longrightarrow> LockMirrorObjects (src t) objs = Inr ps \<Longrightarrow>
      set ps = {c \<in> set objs. (\<exists>m \<in> objects t. mirrorFed (mir_ObjectType m) \<and> c = coord_of_object m) \<and> \<not> hidden t c}"
    and ancestors: "invar t \<Longrightarrow> AncestorObjects (src t) (mir_ObjectType m) (mir_ObjectID m) = Inr anc \<Longrightarrow>
      m \<in> objects t \<Longrightarrow> mirrorFed (mir_ObjectType m) \<Longrightarrow> set anc = {a \<in> above t m. \<not> hidden t (coord_of_object a)}"
    and descendants: "invar t \<Longrightarrow> MatchDescendants (src t) types ty is = Inr xs \<Longrightarrow> mirrorFed ty \<Longrightarrow>
      (\<And>i. i \<in> set is \<Longrightarrow> \<exists>a \<in> objects t. coord_of_object a = \<lparr>mc_ObjectType = ty, mc_ObjectID = i\<rparr>) \<Longrightarrow>
      set xs = {m \<in> objects t. mirrorFed (mir_ObjectType m) \<and> mir_ObjectType m \<in> set types
        \<and> (\<exists>a \<in> above t m. mir_ObjectType a = ty \<and> mir_ObjectID a \<in> set is)}"
    and only_mirror: "invar t \<Longrightarrow> MatchDescendants (src t) types ty is = Inr xs \<Longrightarrow> m \<in> set xs \<Longrightarrow>
      m \<in> objects t \<and> mirrorFed (mir_ObjectType m) \<and> mir_ObjectType m \<in> set types"

subsection \<open>The tables keep the interface\<close>

record pg_state =
  pg_tables :: Tables
  pg_down :: "query \<Rightarrow> bool"
  pg_busy :: "MemberCoord \<Rightarrow> bool"

definition pg_src :: "pg_state \<Rightarrow> Source" where
  "pg_src t = pg_source (pg_tables t) (pg_down t) (pg_busy t)"

definition own_object :: "Tables \<Rightarrow> iam_row \<times> (string \<times> string) list \<Rightarrow> MirrorObject" where
  "own_object tb x = (scan_iam tb (fst x))\<lparr>mir_Labels := snd x\<rparr>"

definition pg_objects :: "pg_state \<Rightarrow> MirrorObject set" where
  "pg_objects t = mirrorRowToDomain (pg_tables t) ` set (tb_mirror (pg_tables t)) \<union> own_object (pg_tables t) ` set (tb_iam (pg_tables t))"

definition pg_above :: "pg_state \<Rightarrow> MirrorObject \<Rightarrow> MirrorObject set" where
  "pg_above t m = {mirrorRowToDomain (pg_tables t) r |r. r \<in> set (tb_mirror (pg_tables t))
     \<and> list_ex (\<lambda>e. edge_names (pg_tables t) e r) (edges_up (pg_tables t) (mir_ObjectType m) (mir_ObjectID m))}"

fun creator_kind_ok :: "iam_row \<Rightarrow> bool" where
  \<comment> \<open>\<open>service_accounts_creator_type_ck\<close>\<close>
  "creator_kind_ok (ServiceAccountRow _ _ (Some (ty, _))) \<longleftrightarrow> ty = ''user'' \<or> ty = ''service_account''"
| "creator_kind_ok _ \<longleftrightarrow> True"

text \<open>The primary keys, and that no type of this service is registered in the mirror.\<close>

definition pg_ok :: "pg_state \<Rightarrow> bool" where
  "pg_ok t \<longleftrightarrow> distinct (map (\<lambda>r. (mw_ObjectType r, mw_ObjectID r)) (tb_mirror (pg_tables t)))
     \<and> distinct (map (\<lambda>x. (iam_type (fst x), iam_id (fst x))) (tb_iam (pg_tables t)))
     \<and> list_all (\<lambda>r. mirrorFed (mw_ObjectType r)) (tb_mirror (pg_tables t))
     \<and> list_all (\<lambda>(r, _). creator_kind_ok r) (tb_iam (pg_tables t))"

lemma iam_type_not_mirror [simp]: "\<not> mirrorFed (iam_type r)"
  by (cases r) (simp_all add: mirrorFed_def FeedSourceForType_def has_prefix_def)

lemma iam_type_spec [simp]: "iam_type r \<in> set iamDirectScanSpecs"
  by (cases r) (simp_all add: iamDirectScanSpecs_def)

lemma mirror_fields [simp]:
  "mir_ObjectType (mirrorRowToDomain tb r) = mw_ObjectType r" "mir_ObjectID (mirrorRowToDomain tb r) = mw_ObjectID r"
  "mir_CreatedBy (mirrorRowToDomain tb r) = []" "mir_ParentProjectID (mirrorRowToDomain tb r) = mw_ParentProjectID r"
  "mir_ParentAccountIDs (mirrorRowToDomain tb r) = singletonAccount (resolved_account tb r)"
  by (simp_all add: mirrorRowToDomain_def)

lemma own_fields [simp]:
  "mir_ObjectType (own_object tb x) = iam_type (fst x)" "mir_ObjectID (own_object tb x) = iam_id (fst x)"
  "mir_CreatedBy (own_object tb x) = creator_text (fst x)" "mir_ParentProjectID (own_object tb x) = parent_project (fst x)"
  "mir_ParentAccountIDs (own_object tb x) = parent_accounts tb (fst x)"
  by (simp_all add: own_object_def scan_iam_def)

lemma unlabelled_own [simp]: "unlabelled (own_object tb x) = scan_iam tb (fst x)"
  by (simp add: unlabelled_def own_object_def scan_iam_def)

lemma set_select_mirror: "set (select_mirror tb P) = mirrorRowToDomain tb ` {r \<in> set (tb_mirror tb). P r}"
  by (simp add: select_mirror_def order_objects_def)

lemma set_select_iam:
  "set (select_iam tb types P) = (\<lambda>x. scan_iam tb (fst x)) ` {x \<in> set (tb_iam tb). iam_type (fst x) \<in> set types \<and> P (fst x) (snd x)}"
proof -
  have "set (select_iam tb types P) =
      (\<Union>t \<in> set types. (\<lambda>x. scan_iam tb (fst x)) ` {x \<in> set (tb_iam tb). iam_type (fst x) = t \<and> P (fst x) (snd x)})"
    unfolding select_iam_def by (fastforce simp: image_iff split: if_splits)
  then show ?thesis by blast
qed

lemma ask_ok [simp]: "ask down name args answer = Inr xs \<longleftrightarrow> \<not> down (name, args) \<and> xs = answer"
  by (auto simp: ask_def)

lemma pg_ok_mirror: "pg_ok t \<Longrightarrow> r \<in> set (tb_mirror (pg_tables t)) \<Longrightarrow> mirrorFed (mw_ObjectType r)"
  by (simp add: pg_ok_def list_all_iff)

lemma pg_objects_mirror:
  assumes "pg_ok t"
  shows "m \<in> pg_objects t \<and> mirrorFed (mir_ObjectType m) \<longleftrightarrow> (\<exists>r \<in> set (tb_mirror (pg_tables t)). m = mirrorRowToDomain (pg_tables t) r)"
    and "m \<in> pg_objects t \<and> \<not> mirrorFed (mir_ObjectType m) \<longleftrightarrow> (\<exists>x \<in> set (tb_iam (pg_tables t)). m = own_object (pg_tables t) x)"
  using pg_ok_mirror [OF assms] by (auto simp: pg_objects_def)

lemma pg_select_mirror:
  assumes "pg_ok t" and "list_all mirrorFed types"
    and "\<And>r. P r \<longleftrightarrow> mw_ObjectType r \<in> set types \<and> Q (mirrorRowToDomain (pg_tables t) r)"
  shows "set (select_mirror (pg_tables t) P) = {m \<in> pg_objects t. mir_ObjectType m \<in> set types \<and> Q m}"
proof (rule set_eqI)
  fix m
  have "m \<in> set (select_mirror (pg_tables t) P) \<longleftrightarrow>
      (\<exists>r \<in> set (tb_mirror (pg_tables t)). m = mirrorRowToDomain (pg_tables t) r) \<and> mir_ObjectType m \<in> set types \<and> Q m"
    by (auto simp: set_select_mirror assms(3))
  also have "\<dots> \<longleftrightarrow> m \<in> pg_objects t \<and> mir_ObjectType m \<in> set types \<and> Q m"
    unfolding pg_objects_mirror(1) [OF assms(1), symmetric] using assms(2) by (auto simp: list_all_iff)
  finally show "m \<in> set (select_mirror (pg_tables t) P) \<longleftrightarrow> m \<in> {m \<in> pg_objects t. mir_ObjectType m \<in> set types \<and> Q m}"
    by simp
qed

lemma pg_select_iam:
  assumes "pg_ok t" and "list_all (\<lambda>ty. \<not> mirrorFed ty) types"
    and "\<And>x. x \<in> set (tb_iam (pg_tables t)) \<Longrightarrow> P (fst x) (snd x) \<longleftrightarrow> Q (own_object (pg_tables t) x)"
  shows "set (select_iam (pg_tables t) types P) = unlabelled ` {m \<in> pg_objects t. mir_ObjectType m \<in> set types \<and> Q m}"
proof -
  have "{m \<in> pg_objects t. mir_ObjectType m \<in> set types \<and> Q m}
      = own_object (pg_tables t) ` {x \<in> set (tb_iam (pg_tables t)). iam_type (fst x) \<in> set types \<and> P (fst x) (snd x)}"
  proof (rule set_eqI)
    fix m
    have "m \<in> pg_objects t \<and> mir_ObjectType m \<in> set types \<longleftrightarrow>
        (m \<in> pg_objects t \<and> \<not> mirrorFed (mir_ObjectType m)) \<and> mir_ObjectType m \<in> set types"
      using assms(2) by (auto simp: list_all_iff)
    then have "m \<in> {m \<in> pg_objects t. mir_ObjectType m \<in> set types \<and> Q m} \<longleftrightarrow>
        (\<exists>x \<in> set (tb_iam (pg_tables t)). m = own_object (pg_tables t) x) \<and> mir_ObjectType m \<in> set types \<and> Q m"
      unfolding pg_objects_mirror(2) [OF assms(1), symmetric] by blast
    also have "\<dots> \<longleftrightarrow> (\<exists>x \<in> set (tb_iam (pg_tables t)). m = own_object (pg_tables t) x \<and> iam_type (fst x) \<in> set types \<and> P (fst x) (snd x))"
      using assms(3) by (metis own_fields(1))
    finally show "m \<in> {m \<in> pg_objects t. mir_ObjectType m \<in> set types \<and> Q m} \<longleftrightarrow>
        m \<in> own_object (pg_tables t) ` {x \<in> set (tb_iam (pg_tables t)). iam_type (fst x) \<in> set types \<and> P (fst x) (snd x)}"
      by blast
  qed
  then show ?thesis by (simp add: set_select_iam image_image)
qed

lemma pg_unique:
  assumes "pg_ok t" "m \<in> pg_objects t" "n \<in> pg_objects t" "coord_of_object m = coord_of_object n"
  shows "m = n"
proof (cases "mirrorFed (mir_ObjectType m)")
  case True
  with assms(4) have "mirrorFed (mir_ObjectType n)" by (simp add: coord_of_object_def)
  with True assms(2,3) obtain r s where "r \<in> set (tb_mirror (pg_tables t))" "m = mirrorRowToDomain (pg_tables t) r"
      "s \<in> set (tb_mirror (pg_tables t))" "n = mirrorRowToDomain (pg_tables t) s"
    using pg_objects_mirror(1) [OF assms(1)] by meson
  moreover have "distinct (map (\<lambda>r. (mw_ObjectType r, mw_ObjectID r)) (tb_mirror (pg_tables t)))"
    using assms(1) by (simp add: pg_ok_def)
  ultimately have "r = s" using assms(4) by (auto simp: coord_of_object_def distinct_map dest!: inj_onD)
  then show ?thesis using \<open>m = _\<close> \<open>n = _\<close> by simp
next
  case False
  with assms(4) have "\<not> mirrorFed (mir_ObjectType n)" by (simp add: coord_of_object_def)
  with False assms(2,3) obtain x y where "x \<in> set (tb_iam (pg_tables t))" "m = own_object (pg_tables t) x"
      "y \<in> set (tb_iam (pg_tables t))" "n = own_object (pg_tables t) y"
    using pg_objects_mirror(2) [OF assms(1)] by meson
  moreover have "distinct (map (\<lambda>x. (iam_type (fst x), iam_id (fst x))) (tb_iam (pg_tables t)))"
    using assms(1) by (simp add: pg_ok_def)
  ultimately have "x = y"
    using assms(4) by (auto simp: coord_of_object_def distinct_map dest!: inj_onD)
  then show ?thesis using \<open>m = _\<close> \<open>n = _\<close> by simp
qed

lemma pg_in_scope_mirror:
  "IsContainedIn (mirrorRowToDomain tb r) sc \<Longrightarrow>
    (if anchor_Type sc = ''project'' then mw_ParentProjectID r = anchor_ID sc
     else if anchor_Type sc = ''account'' then resolved_account tb r = anchor_ID sc else True)"
  by (auto simp: IsContainedIn_def singletonAccount_def list_ex_iff split: if_splits)

lemma pg_in_scope_iam: "IsContainedIn (own_object tb x) sc \<Longrightarrow> iamDirectScopePredicate tb sc (fst x)"
  by (auto simp: IsContainedIn_def iamDirectScopePredicate_def list_ex_iff split: if_splits)

lemma created_by_text:
  "creator_kind_ok r \<Longrightarrow> created_by cs r \<longleftrightarrow> creator_text r \<in> FGASubjectRef SubjectTypeServiceAccount ` set cs"
proof (cases "(cs, r)" rule: created_by.cases)
  case (1 creators a b ty i)
  moreover have "FGASubjectRef SubjectTypeServiceAccount j = ''service_account:'' @ j" for j
    by (simp add: FGASubjectRef_def SubjectTypeServiceAccount_def to_lower_def to_lower_char_def go_string)
  ultimately show "creator_kind_ok r \<Longrightarrow> ?thesis" by (auto simp: image_iff)
qed (auto simp: FGASubjectRef_def SubjectTypeServiceAccount_def to_lower_def to_lower_char_def go_string)

lemma pg_src_select [simp]:
  "MatchSelector (pg_src t) types ls = Inr xs \<longleftrightarrow> \<not> pg_down t (''MatchSelector'', types @ map fst ls) \<and> xs = MatchByLabels (pg_tables t) types ls"
  "MatchByIDs (pg_src t) types is = Inr xs \<longleftrightarrow> \<not> pg_down t (''MatchByIDs'', types @ is) \<and> xs = ByTypesAndIDs (pg_tables t) types is"
  "MatchAllInScope (pg_src t) types sc = Inr xs \<longleftrightarrow>
     \<not> pg_down t (''MatchAllInScope'', types) \<and> xs = AllByTypes (pg_tables t) types (anchor_Type sc) (anchor_ID sc)"
  "MatchIAMDirect (pg_src t) types ls = Inr xs \<longleftrightarrow> \<not> pg_down t (''MatchIAMDirect'', types @ map fst ls) \<and> xs = iam_by_labels (pg_tables t) types ls"
  "MatchAllInScopeIAMDirect (pg_src t) types sc = Inr xs \<longleftrightarrow>
     \<not> pg_down t (''MatchAllInScopeIAMDirect'', types) \<and> xs = iamDirectQuery_scope (pg_tables t) types sc"
  "MatchByIDsIAMDirect (pg_src t) types is = Inr xs \<longleftrightarrow>
     \<not> pg_down t (''MatchByIDsIAMDirect'', types @ is) \<and> xs = iamDirectQuery_ids (pg_tables t) types is"
  "MatchCreatedByIAMDirect (pg_src t) types sc cs = Inr xs \<longleftrightarrow>
     \<not> pg_down t (''MatchCreatedByIAMDirect'', types @ cs) \<and> xs = matchCreatedBySQL (pg_tables t) types sc cs"
  "LockMirrorObjects (pg_src t) objs = Inr ps \<longleftrightarrow>
     \<not> pg_down t (''LockMirrorObjects'', map mc_ObjectID objs) \<and> ps = lock_mirror (pg_tables t) (pg_busy t) objs"
  "AncestorObjects (pg_src t) ty i = Inr xs \<longleftrightarrow>
     \<not> pg_down t (''AncestorObjects'', [ty, i]) \<and> xs = AncestorsOf (pg_tables t) (pg_busy t) ty i"
  "MatchDescendants (pg_src t) types ty is = Inr xs \<longleftrightarrow>
     \<not> pg_down t (''MatchDescendants'', types @ ty # is) \<and> xs = DescendantsOf (pg_tables t) types ty is"
  by (auto simp: pg_src_def pg_source_def AllByTypes_def ByTypesAndIDs_def lock_mirror_def order_objects_def cong: if_cong)

lemma pg_wider:
  assumes "pg_ok t" "list_all mirrorFed types" "\<And>m. m \<in> pg_objects t \<Longrightarrow> mirrorFed (mir_ObjectType m) \<Longrightarrow> IsContainedIn m sc \<Longrightarrow> Q m"
    and "B = {m \<in> pg_objects t. mir_ObjectType m \<in> set types \<and> Q m}"
  shows "in_scope_or_wider sc {m \<in> pg_objects t. mir_ObjectType m \<in> set types} B"
  unfolding in_scope_or_wider_def assms(4) using assms(2,3) by (auto simp: list_all_iff)

lemma pg_law_labels:
  assumes "pg_ok t" "ls \<noteq> []" "list_all mirrorFed types"
  shows "set (MatchByLabels (pg_tables t) types ls) = {m \<in> pg_objects t. mir_ObjectType m \<in> set types \<and> MatchesLabels m ls}"
proof (cases "types = []")
  case False
  then show ?thesis unfolding MatchByLabels_def
    using assms(2) pg_select_mirror [OF assms(1,3), where Q = "\<lambda>m. MatchesLabels m ls"] by simp
qed (simp add: MatchByLabels_def)

lemma pg_law_ids:
  assumes "pg_ok t" "list_all mirrorFed types"
  shows "set (ByTypesAndIDs (pg_tables t) types is) = {m \<in> pg_objects t. mir_ObjectType m \<in> set types \<and> mir_ObjectID m \<in> set is}"
proof (cases "types = [] \<or> is = []")
  case False
  then show ?thesis unfolding ByTypesAndIDs_def
    using pg_select_mirror [OF assms, where Q = "\<lambda>m. mir_ObjectID m \<in> set is"] by simp
qed (auto simp: ByTypesAndIDs_def)

lemma pg_law_scope:
  assumes "pg_ok t" "list_all mirrorFed types"
  shows "in_scope_or_wider sc {m \<in> pg_objects t. mir_ObjectType m \<in> set types}
    (set (AllByTypes (pg_tables t) types (anchor_Type sc) (anchor_ID sc)))"
proof -
  let ?Q = "\<lambda>m. (if anchor_Type sc = ''project'' then mir_ParentProjectID m = anchor_ID sc
     else if anchor_Type sc = ''account'' then mir_ParentAccountIDs m = singletonAccount (anchor_ID sc) else True)"
  have inj: "singletonAccount a = singletonAccount b \<longleftrightarrow> a = b" for a b by (simp add: singletonAccount_def)
  have "set (AllByTypes (pg_tables t) types (anchor_Type sc) (anchor_ID sc)) = {m \<in> pg_objects t. mir_ObjectType m \<in> set types \<and> ?Q m}"
    by (cases "types = []") (simp add: AllByTypes_def, unfold AllByTypes_def, simp add: pg_select_mirror [OF assms, where Q = ?Q] inj)
  moreover have "?Q m" if m: "m \<in> pg_objects t" "mirrorFed (mir_ObjectType m)" "IsContainedIn m sc" for m
  proof -
    obtain r where "m = mirrorRowToDomain (pg_tables t) r" using m pg_objects_mirror(1) [OF assms(1)] by meson
    then show ?thesis using pg_in_scope_mirror [of "pg_tables t" r sc] m(3) by (simp add: inj)
  qed
  ultimately show ?thesis by (intro pg_wider [OF assms])
qed

lemma pg_law_iam_labels:
  assumes "pg_ok t" "ls \<noteq> []" "list_all (\<lambda>ty. \<not> mirrorFed ty) types"
  shows "set (iam_by_labels (pg_tables t) types ls) = unlabelled ` {m \<in> pg_objects t. mir_ObjectType m \<in> set types \<and> MatchesLabels m ls}"
proof (cases "types = []")
  case False
  then show ?thesis unfolding iam_by_labels_def
    using assms(2) pg_select_iam [OF assms(1,3), where Q = "\<lambda>m. MatchesLabels m ls"] by (simp add: own_object_def)
qed (simp add: iam_by_labels_def)

lemma pg_law_iam_ids:
  assumes "pg_ok t" "list_all (\<lambda>ty. \<not> mirrorFed ty) types"
  shows "set (iamDirectQuery_ids (pg_tables t) types is) = unlabelled ` {m \<in> pg_objects t. mir_ObjectType m \<in> set types \<and> mir_ObjectID m \<in> set is}"
proof (cases "is = []")
  case False
  then show ?thesis unfolding iamDirectQuery_ids_def
    using pg_select_iam [OF assms, where Q = "\<lambda>m. mir_ObjectID m \<in> set is" and P = "\<lambda>r _. iam_id r \<in> set is"] by simp
qed (simp add: iamDirectQuery_ids_def)

lemma pg_law_iam_scope:
  assumes "pg_ok t" "list_all (\<lambda>ty. \<not> mirrorFed ty) types"
  shows "\<exists>B. set (iamDirectQuery_scope (pg_tables t) types sc) = unlabelled ` B
    \<and> in_scope_or_wider sc {m \<in> pg_objects t. mir_ObjectType m \<in> set types} B"
proof -
  let ?Q = "\<lambda>m. (if anchor_Type sc = ''project'' then mir_ParentProjectID m = anchor_ID sc
      else if anchor_Type sc = ''account'' then anchor_ID sc \<in> set (mir_ParentAccountIDs m) else True)"
  have "set (iamDirectQuery_scope (pg_tables t) types sc) = unlabelled ` {m \<in> pg_objects t. mir_ObjectType m \<in> set types \<and> ?Q m}"
    unfolding iamDirectQuery_scope_def
    by (rule pg_select_iam [OF assms]) (simp add: iamDirectScopePredicate_def)
  moreover have "IsContainedIn m sc \<Longrightarrow> ?Q m" for m
    by (auto simp: IsContainedIn_def list_ex_iff split: if_splits)
  ultimately show ?thesis by (intro exI conjI) (assumption, auto simp: in_scope_or_wider_def)
qed

lemma pg_law_created:
  assumes "pg_ok t" "list_all (\<lambda>ty. \<not> mirrorFed ty) types"
  shows "\<exists>B. set (matchCreatedBySQL (pg_tables t) types sc cs) = unlabelled ` B
    \<and> in_scope_or_wider sc {m \<in> pg_objects t. mir_ObjectType m \<in> set types
        \<and> mir_CreatedBy m \<in> FGASubjectRef SubjectTypeServiceAccount ` set cs} B"
proof (cases "types = [] \<or> cs = []")
  case True
  then show ?thesis by (intro exI [of _ "{}"]) (auto simp: matchCreatedBySQL_def in_scope_or_wider_def)
next
  case False
  let ?C = "\<lambda>m. mir_CreatedBy m \<in> FGASubjectRef SubjectTypeServiceAccount ` set cs"
  let ?S = "\<lambda>m. (if anchor_Type sc = ''account'' then singletonAccount (anchor_ID sc) = mir_ParentAccountIDs m
      else if anchor_Type sc = ''project'' then mir_ParentProjectID m = anchor_ID sc else True)"
  have "set (matchCreatedBySQL (pg_tables t) types sc cs) = unlabelled ` {m \<in> pg_objects t. mir_ObjectType m \<in> set types \<and> ?C m \<and> ?S m}"
  proof -
    have "creator_kind_ok (fst x)" if "x \<in> set (tb_iam (pg_tables t))" for x
      using that assms(1) by (auto simp: pg_ok_def list_all_iff)
    then show ?thesis unfolding matchCreatedBySQL_def if_not_P [OF False]
      by (intro pg_select_iam [OF assms]) (simp add: created_by_text)
  qed
  moreover have "?S m" if m: "m \<in> pg_objects t" "?C m" "IsContainedIn m sc" for m
  proof -
    have cm: "mir_CreatedBy m \<noteq> []"
      using m(2) by (auto simp: FGASubjectRef_def SubjectTypeServiceAccount_def to_lower_def to_lower_char_def go_string)
    obtain x where x: "m = own_object (pg_tables t) x" using m(1) cm by (auto simp: pg_objects_def)
    obtain i a c where "fst x = ServiceAccountRow i a c"
      using cm x by (cases "fst x" rule: creator_text.cases) auto
    then show ?thesis using m(3) x by (auto simp: IsContainedIn_def singletonAccount_def list_ex_iff split: if_splits)
  qed
  ultimately show ?thesis
    by (intro exI conjI) (assumption, unfold in_scope_or_wider_def, blast)
qed

lemma pg_mirror_obtain:
  assumes "pg_ok t" "m \<in> pg_objects t" "mirrorFed (mir_ObjectType m)"
  obtains r where "r \<in> set (tb_mirror (pg_tables t))" "m = mirrorRowToDomain (pg_tables t) r"
  using assms pg_objects_mirror(1) [OF assms(1)] by meson

lemma pg_no_creator: "pg_ok t \<Longrightarrow> m \<in> pg_objects t \<Longrightarrow> mirrorFed (mir_ObjectType m) \<Longrightarrow> mir_CreatedBy m = []"
  by (metis pg_mirror_obtain mirror_fields(3))

lemma coord_of_mirror [simp]:
  "coord_of_object (mirrorRowToDomain tb r) = \<lparr>mc_ObjectType = mw_ObjectType r, mc_ObjectID = mw_ObjectID r\<rparr>"
  by (simp add: coord_of_object_def)

lemma pg_law_lock:
  assumes "pg_ok t"
  shows "set (lock_mirror (pg_tables t) (pg_busy t) objs)
    = {c \<in> set objs. (\<exists>m \<in> pg_objects t. mirrorFed (mir_ObjectType m) \<and> c = coord_of_object m) \<and> \<not> pg_busy t c}"
proof -
  have "(\<exists>m \<in> pg_objects t. mirrorFed (mir_ObjectType m) \<and> c = coord_of_object m) \<longleftrightarrow>
      (\<exists>r \<in> set (tb_mirror (pg_tables t)). c = \<lparr>mc_ObjectType = mw_ObjectType r, mc_ObjectID = mw_ObjectID r\<rparr>)" for c
    using pg_objects_mirror(1) [OF assms] by (metis coord_of_mirror)
  then show ?thesis by (auto simp: lock_mirror_def order_objects_def)
qed

lemma pg_above_objects: "pg_ok t \<Longrightarrow> a \<in> pg_above t m \<Longrightarrow> a \<in> pg_objects t \<and> mirrorFed (mir_ObjectType a)"
  by (auto simp: pg_above_def pg_objects_def dest: pg_ok_mirror)

lemma ex_above: "(\<exists>a \<in> pg_above t m. Q a) \<longleftrightarrow> (\<exists>r \<in> set (tb_mirror (pg_tables t)). Q (mirrorRowToDomain (pg_tables t) r)
    \<and> (\<exists>e \<in> set (edges_up (pg_tables t) (mir_ObjectType m) (mir_ObjectID m)). edge_names (pg_tables t) e r))"
  unfolding pg_above_def list_ex_iff by blast

lemma pg_law_ancestors:
  "set (AncestorsOf (pg_tables t) (pg_busy t) (mir_ObjectType m) (mir_ObjectID m)) = {a \<in> pg_above t m. \<not> pg_busy t (coord_of_object a)}"
  by (auto simp: AncestorsOf_def pg_above_def list_ex_iff)

lemma edges_up_mirror [simp]:
  "edges_up tb (mir_ObjectType (mirrorRowToDomain tb r)) (mir_ObjectID (mirrorRowToDomain tb r)) = edges_up tb (mw_ObjectType r) (mw_ObjectID r)"
  by simp

lemma pg_law_descendants:
  assumes "pg_ok t" "mirrorFed ty"
    and "\<And>i. i \<in> set is \<Longrightarrow> \<exists>a \<in> pg_objects t. coord_of_object a = \<lparr>mc_ObjectType = ty, mc_ObjectID = i\<rparr>"
  shows "set (DescendantsOf (pg_tables t) types ty is) = {m \<in> pg_objects t. mirrorFed (mir_ObjectType m) \<and> mir_ObjectType m \<in> set types
        \<and> (\<exists>a \<in> pg_above t m. mir_ObjectType a = ty \<and> mir_ObjectID a \<in> set is)}"
proof (cases "types = [] \<or> is = []")
  case False
  let ?tb = "pg_tables t"
  let ?P = "\<lambda>m. mw_ObjectType m \<in> set types
        \<and> list_ex (\<lambda>e. pe_ParentID e \<in> set is
            \<and> list_ex (\<lambda>c. cr_Dotted c = ty \<and> cr_Live c \<and> cr_ObjectType c = pe_ParentType e) (tb_catalog ?tb))
          (edges_up ?tb (mw_ObjectType m) (mw_ObjectID m))"
  have row: "\<exists>r \<in> set (tb_mirror ?tb). mw_ObjectType r = ty \<and> mw_ObjectID r = i" if i: "i \<in> set is" for i
  proof -
    obtain a where a: "a \<in> pg_objects t" "coord_of_object a = \<lparr>mc_ObjectType = ty, mc_ObjectID = i\<rparr>"
      using assms(3) [OF i] by blast
    then have "mirrorFed (mir_ObjectType a)" using assms(2) by (simp add: coord_of_object_def)
    then obtain r where "r \<in> set (tb_mirror ?tb)" "a = mirrorRowToDomain ?tb r"
      using pg_mirror_obtain [OF assms(1) a(1)] by blast
    then show ?thesis using a(2) by auto
  qed
  have P: "?P m \<longleftrightarrow> mw_ObjectType m \<in> set types
      \<and> (\<exists>a \<in> pg_above t (mirrorRowToDomain ?tb m). mir_ObjectType a = ty \<and> mir_ObjectID a \<in> set is)" for m
  proof -
    have "(\<exists>a \<in> pg_above t (mirrorRowToDomain ?tb m). mir_ObjectType a = ty \<and> mir_ObjectID a \<in> set is) \<longleftrightarrow>
        (\<exists>r \<in> set (tb_mirror ?tb). mw_ObjectType r = ty \<and> mw_ObjectID r \<in> set is
          \<and> (\<exists>e \<in> set (edges_up ?tb (mw_ObjectType m) (mw_ObjectID m)). edge_names ?tb e r))"
      unfolding ex_above by simp
    also have "\<dots> \<longleftrightarrow> (\<exists>e \<in> set (edges_up ?tb (mw_ObjectType m) (mw_ObjectID m)). pe_ParentID e \<in> set is
        \<and> (\<exists>c \<in> set (tb_catalog ?tb). cr_Dotted c = ty \<and> cr_Live c \<and> cr_ObjectType c = pe_ParentType e))"
      (is "?L \<longleftrightarrow> ?R")
    proof
      show ?R if ?L using that unfolding edge_names_def list_ex_iff by auto
      show ?L if ?R
      proof -
        from that obtain e c where e: "e \<in> set (edges_up ?tb (mw_ObjectType m) (mw_ObjectID m))" "pe_ParentID e \<in> set is"
            "c \<in> set (tb_catalog ?tb)" "cr_Dotted c = ty" "cr_Live c" "cr_ObjectType c = pe_ParentType e" by blast
        obtain r where "r \<in> set (tb_mirror ?tb)" "mw_ObjectType r = ty" "mw_ObjectID r = pe_ParentID e"
          using row [OF e(2)] by blast
        moreover from this have "edge_names ?tb e r" unfolding edge_names_def list_ex_iff using e by blast
        ultimately show ?L using e by auto
      qed
    qed
    finally show ?thesis by (simp add: list_ex_iff)
  qed
  have "set (DescendantsOf ?tb types ty is) = mirrorRowToDomain ?tb ` {m \<in> set (tb_mirror ?tb). ?P m}"
    unfolding DescendantsOf_def if_not_P [OF False] set_select_mirror ..
  also have "\<dots> = {m. (m \<in> pg_objects t \<and> mirrorFed (mir_ObjectType m)) \<and> mir_ObjectType m \<in> set types
        \<and> (\<exists>a \<in> pg_above t m. mir_ObjectType a = ty \<and> mir_ObjectID a \<in> set is)}"
    unfolding P pg_objects_mirror(1) [OF assms(1)] by auto
  finally show ?thesis by (simp add: conj_assoc)
qed (auto simp: DescendantsOf_def)

lemma pg_only_mirror:
  assumes "pg_ok t" "m \<in> set (DescendantsOf (pg_tables t) types ty is)"
  shows "m \<in> pg_objects t \<and> mirrorFed (mir_ObjectType m) \<and> mir_ObjectType m \<in> set types"
  using assms pg_ok_mirror [OF assms(1)] by (auto simp: DescendantsOf_def set_select_mirror pg_objects_def split: if_splits)

interpretation pg_objects: object_source pg_src pg_objects pg_busy pg_above pg_ok
proof (unfold_locales, goal_cases)
  case 1 then show ?case by (rule pg_unique)
next
  case 2 then show ?case by (rule pg_above_objects)
next
  case 3 then show ?case by (rule pg_no_creator)
next
  case 4 then show ?case using pg_law_labels [OF 4(1,3,4)] by (simp only: pg_src_select)
next
  case 5 then show ?case using pg_law_ids [OF 5(1,3)] by (simp only: pg_src_select)
next
  case 6 then show ?case using pg_law_scope [OF 6(1,3)] by (simp only: pg_src_select)
next
  case 7 then show ?case using pg_law_iam_labels [OF 7(1,3,4)] by (simp only: pg_src_select)
next
  case 8 then show ?case using pg_law_iam_ids [OF 8(1,3)] by (simp only: pg_src_select)
next
  case 9 then show ?case using pg_law_iam_scope [OF 9(1,3)] by (simp only: pg_src_select)
next
  case 10 then show ?case using pg_law_created [OF 10(1,3)] by (simp only: pg_src_select)
next
  case 11 then show ?case using pg_law_lock [OF 11(1)] by (simp only: pg_src_select)
next
  case 12 then show ?case using pg_law_ancestors by (simp only: pg_src_select)
next
  case (13 t types ty "is" xs)
  then have "xs = DescendantsOf (pg_tables t) types ty is" by simp
  then show ?case using pg_law_descendants [OF 13(1,3,4)] by simp
next
  case (14 t types ty "is" xs m)
  then have "xs = DescendantsOf (pg_tables t) types ty is" by simp
  then show ?case using pg_only_mirror [OF 14(1)] 14(3) by blast
qed

end
