(* ===== verification/Reconcile_Desired.thy ===== *)
theory Reconcile_Desired
  imports Object_Tables
begin

text \<open>
  What an access binding wants materialised: for every object that a rule of its role reaches, a
  member with the relations of every subject on the object. The reconciler derives it in two
  ways, for all objects of a binding and for one object that changed; the theory models both and
  relates them.

  Sources: \<open>tuples.go\<close>, \<open>subjects.go\<close>, \<open>nested.go\<close>, \<open>creator.go\<close>, \<open>public_reader.go\<close>, the
  deriving half of \<open>reconcile.go\<close> and the matching of \<open>forward.go\<close>, all in
  \<open>internal/apps/kaname/api/access_binding/reconcile\<close>; \<open>internal/domain/target_membership.go\<close>;
  \<open>creator_gates.go\<close> beside them; the projection of a binding in
  \<open>internal/repo/kaname/pg/reconcile_adapter.go\<close>.
\<close>

subsection \<open>Data\<close>

datatype VerificationStatus = VerificationPending | VerificationActive | VerificationRejected

record MembershipTuple =
  mt_User :: string
  mt_Relation :: string
  mt_Object :: string

record TargetMember =
  tm_BindingID :: string
  tm_RoleID :: string
  tm_RuleFP :: string
  tm_ObjectType :: string
  tm_ObjectID :: string
  tm_Status :: VerificationStatus

record BindingScope =
  bs_BindingID :: string
  bs_Scope :: ScopeAnchor
  bs_Subjects :: "Subject list"
  bs_RoleID :: string
  bs_Policy :: RulePolicy
  bs_Selectors :: "RuleSelector list"
  bs_ScopeSelfVerbs :: "string list"
  bs_Target :: AccessTarget
  bs_Active :: bool

record DesiredMember =
  dm_RuleFP :: string
  dm_ObjectType :: string
  dm_ObjectID :: string
  dm_Status :: VerificationStatus
  dm_Tuples :: "MembershipTuple list"

definition coordOf :: "TargetMember \<Rightarrow> MemberCoord" where
  "coordOf m = \<lparr>mc_ObjectType = tm_ObjectType m, mc_ObjectID = tm_ObjectID m\<rparr>"

definition desiredCoord :: "DesiredMember \<Rightarrow> MemberCoord" where
  "desiredCoord d = \<lparr>mc_ObjectType = dm_ObjectType d, mc_ObjectID = dm_ObjectID d\<rparr>"

subsection \<open>Subjects\<close>

record grantee =
  gr_subject :: string
  gr_verbs :: "string list"

definition isClassSubject :: "Subject \<Rightarrow> bool" where
  "isClassSubject s \<longleftrightarrow> sub_Type s = SubjectTypeSystemClass"

definition subjectRef :: "Subject \<Rightarrow> string" where
  "subjectRef s = FGASubjectRef (sub_Type s) (sub_ID s)"

definition classReadVerbs :: "string list \<Rightarrow> string list" where
  "classReadVerbs verbs = filter IsClassReadVerb verbs"

definition subjectVerbs :: "Subject \<Rightarrow> string list \<Rightarrow> string list" where
  "subjectVerbs s verbs = (if isClassSubject s then classReadVerbs verbs else verbs)"

definition grantees :: "BindingScope \<Rightarrow> string list \<Rightarrow> bool \<Rightarrow> grantee list" where
  "grantees bs verbs nested =
     map (\<lambda>s. \<lparr>gr_subject = subjectRef s, gr_verbs = subjectVerbs s verbs\<rparr>)
       (filter (\<lambda>s. \<not> (nested \<and> isClassSubject s) \<and> subjectVerbs s verbs \<noteq> []) (bs_Subjects bs))"

definition selectorGrantees :: "BindingScope \<Rightarrow> RuleSelector \<Rightarrow> grantee list" where
  "selectorGrantees bs sel = grantees bs (sel_Verbs sel) (sel_Container sel \<noteq> None)"

definition classSubjects :: "BindingScope \<Rightarrow> string list" where
  "classSubjects bs = map subjectRef (filter isClassSubject (bs_Subjects bs))"

definition hasNonClassSubject :: "BindingScope \<Rightarrow> bool" where
  "hasNonClassSubject bs \<longleftrightarrow> list_ex (\<lambda>s. \<not> isClassSubject s) (bs_Subjects bs)"

subsection \<open>Tuples of a member\<close>

definition typeVerbsOf :: "Facts \<Rightarrow> string \<Rightarrow> string list" where
  "typeVerbsOf cat fgaType = (if VerbsOfType cat fgaType \<noteq> [] then VerbsOfType cat fgaType else CommonVerbVocabulary cat)"

definition tuples_on :: "string \<Rightarrow> string \<Rightarrow> string list \<Rightarrow> MembershipTuple list" where
  \<comment> \<open>the closure \<open>add\<close> on a list of relations: a repeated tuple is dropped\<close>
  "tuples_on subject object relations =
     first_seen (map (\<lambda>r. \<lparr>mt_User = subject, mt_Relation = r, mt_Object = object\<rparr>) relations)"

definition ruleObjectTuplesWithTypeVerbs ::
  "Facts \<Rightarrow> RulePolicy \<Rightarrow> string \<Rightarrow> string list \<Rightarrow> string \<Rightarrow> string \<Rightarrow> string list \<Rightarrow> MembershipTuple list" where
  "ruleObjectTuplesWithTypeVerbs cat policy subject verbs fgaType objectID typeVerbs =
     (let tier = snd (ResolveVerbsAndTier verbs typeVerbs);
          granted = GrantedVerbs cat fgaType verbs typeVerbs policy
      in tuples_on subject (fgaType @ '':'' @ objectID)
           (map (\<lambda>v. ''v_'' @ v) granted @ (if tier = [] then [] else [tier])))"

definition ruleObjectTuples ::
  "Facts \<Rightarrow> RulePolicy \<Rightarrow> string \<Rightarrow> string list \<Rightarrow> string \<Rightarrow> string \<Rightarrow> MembershipTuple list option" where
  "ruleObjectTuples cat policy subject verbs objectType objectID =
     (case FGAObjectType cat objectType of
        None \<Rightarrow> None
      | Some fgaType \<Rightarrow>
          Some (ruleObjectTuplesWithTypeVerbs cat policy subject verbs fgaType objectID (typeVerbsOf cat fgaType)))"

definition scopeSelfTuplesWithTypeVerbs ::
  "Facts \<Rightarrow> string \<Rightarrow> string \<Rightarrow> string \<Rightarrow> string list \<Rightarrow> string list \<Rightarrow> MembershipTuple list" where
  "scopeSelfTuplesWithTypeVerbs cat subject scopeType scopeID verbs typeVerbs =
     (let tier = snd (ResolveVerbsAndTier verbs typeVerbs);
          emitVerbs = VerbsOfType cat scopeType \<noteq> []
      in tuples_on subject (scopeType @ '':'' @ scopeID)
           ((if emitVerbs then map (\<lambda>v. ''v_'' @ NormalizeVerb v) (filter (\<lambda>v. IsVerbOfType v typeVerbs) verbs) else [])
            @ (if tier = [] then [] else [tier])))"

definition scopeSelfTuples ::
  "Facts \<Rightarrow> string \<Rightarrow> string \<Rightarrow> string \<Rightarrow> string list \<Rightarrow> MembershipTuple list option" where
  "scopeSelfTuples cat subject scopeType scopeID verbs =
     (if scopeID = [] \<or> verbs = [] then None
      else if scopeType = ''account'' \<or> scopeType = ''project''
      then Some (scopeSelfTuplesWithTypeVerbs cat subject scopeType scopeID verbs (typeVerbsOf cat scopeType))
      else None)"

definition scopeSelfRuleFP :: string where "scopeSelfRuleFP = ''scope_self''"

fun scope_self_loop :: "Facts \<Rightarrow> string \<Rightarrow> string \<Rightarrow> grantee list \<Rightarrow> MembershipTuple list option" where
  "scope_self_loop cat scopeType scopeID [] = Some []"
| "scope_self_loop cat scopeType scopeID (g # gs) =
     (case scopeSelfTuples cat (gr_subject g) scopeType scopeID (gr_verbs g) of
        None \<Rightarrow> None
      | Some t \<Rightarrow> map_option (\<lambda>ts. t @ ts) (scope_self_loop cat scopeType scopeID gs))"

definition scopeSelfMember :: "Facts \<Rightarrow> grantee list \<Rightarrow> string \<Rightarrow> string \<Rightarrow> DesiredMember option" where
  "scopeSelfMember cat gs scopeType scopeID =
     (if FGAObjectType cat (''iam.'' @ scopeType) = None then None
      else (case scope_self_loop cat scopeType scopeID gs of
              None \<Rightarrow> None
            | Some tuples \<Rightarrow>
                if tuples = [] then None
                else Some \<lparr>dm_RuleFP = scopeSelfRuleFP, dm_ObjectType = ''iam.'' @ scopeType, dm_ObjectID = scopeID,
                  dm_Status = VerificationActive, dm_Tuples = tuples\<rparr>))"

subsection \<open>The creator of an object\<close>

definition creatorGrantees :: "RuleSelector \<Rightarrow> grantee list \<Rightarrow> MirrorObject \<Rightarrow> grantee list" where
  "creatorGrantees sel gs m =
     (if \<not> sel_CreatedBySubject sel then gs
      else if mir_CreatedBy m = [] then []
      else filter (\<lambda>g. gr_subject g = mir_CreatedBy m) gs)"

definition objectVerbsOf :: "Facts \<Rightarrow> string \<Rightarrow> string list \<Rightarrow> string list" where
  "objectVerbsOf cat objectType verbs = filter (\<lambda>v. ContainerVerb (Some cat) objectType v = None) verbs"

definition verbTuplesOnly :: "MembershipTuple list \<Rightarrow> MembershipTuple list" where
  "verbTuplesOnly tuples = filter (\<lambda>t. has_prefix (mt_Relation t) ''v_'') tuples"

definition creatorSubjectIDs :: "BindingScope \<Rightarrow> string list" where
  "creatorSubjectIDs bs = map sub_ID (filter (\<lambda>s. sub_Type s = SubjectTypeServiceAccount) (bs_Subjects bs))"

definition container_tuples :: "Facts \<Rightarrow> BindingScope \<Rightarrow> string list \<Rightarrow> RuleSelector \<Rightarrow> MembershipTuple list" where
  "container_tuples cat bs subjects sel =
     first_seen (concat (map (\<lambda>typ. concat (map (\<lambda>v.
       (case ContainerVerb (Some cat) typ v of
          None \<Rightarrow> []
        | Some g \<Rightarrow>
            if cg_ParentType g \<noteq> anchor_Type (bs_Scope bs) then []
            else map (\<lambda>subj. \<lparr>mt_User = subj, mt_Relation = cg_Relation g,
                   mt_Object = cg_ParentType g @ '':'' @ anchor_ID (bs_Scope bs)\<rparr>) subjects)) (sel_Verbs sel))) (sel_ObjectTypes sel)))"

definition containerMembers :: "Facts \<Rightarrow> BindingScope \<Rightarrow> DesiredMember list" where
  "containerMembers cat bs =
     (if tgt_Resources (bs_Target bs) \<noteq> [] \<or> anchor_ID (bs_Scope bs) = [] then []
      else let subjects = map (FGASubjectRef SubjectTypeServiceAccount) (creatorSubjectIDs bs)
        in if subjects = [] then []
           else map (\<lambda>sel. \<lparr>dm_RuleFP = sel_RuleFP sel, dm_ObjectType = ''iam.'' @ anchor_Type (bs_Scope bs),
                  dm_ObjectID = anchor_ID (bs_Scope bs), dm_Status = VerificationActive,
                  dm_Tuples = container_tuples cat bs subjects sel\<rparr>)
                (filter (\<lambda>sel. sel_Container sel = None \<and> container_tuples cat bs subjects sel \<noteq> []) (bs_Selectors bs)))"

definition selectorWritesObjects :: "Facts \<Rightarrow> RuleSelector \<Rightarrow> bool" where
  "selectorWritesObjects cat sel \<longleftrightarrow> list_ex (\<lambda>typ. objectVerbsOf cat typ (sel_Verbs sel) \<noteq> []) (sel_ObjectTypes sel)"

subsection \<open>The member of an object\<close>

fun member_loop :: "Facts \<Rightarrow> RulePolicy \<Rightarrow> RuleSelector \<Rightarrow> MirrorObject \<Rightarrow> grantee list \<Rightarrow> MembershipTuple list option" where
  "member_loop cat policy sel m [] = Some []"
| "member_loop cat policy sel m (g # gs) =
     (let verbs = objectVerbsOf cat (mir_ObjectType m) (gr_verbs g)
      in if verbs = [] then member_loop cat policy sel m gs
         else (case ruleObjectTuples cat policy (gr_subject g) verbs (mir_ObjectType m) (mir_ObjectID m) of
                 None \<Rightarrow> None
               | Some t \<Rightarrow> map_option (\<lambda>ts. (if sel_CreatedBySubject sel then verbTuplesOnly t else t) @ ts)
                   (member_loop cat policy sel m gs)))"

definition desired_member :: "RuleSelector \<Rightarrow> MirrorObject \<Rightarrow> VerificationStatus \<Rightarrow> MembershipTuple list \<Rightarrow> DesiredMember" where
  "desired_member sel m status tuples = \<lparr>dm_RuleFP = sel_RuleFP sel, dm_ObjectType = mir_ObjectType m,
     dm_ObjectID = mir_ObjectID m, dm_Status = status, dm_Tuples = tuples\<rparr>"

definition desiredMemberForObject ::
  "Facts \<Rightarrow> RulePolicy \<Rightarrow> grantee list \<Rightarrow> RuleSelector \<Rightarrow> MirrorObject \<Rightarrow> ScopeAnchor \<Rightarrow> DesiredMember option" where
  "desiredMemberForObject cat policy gs0 sel m scope =
     (let gs = creatorGrantees sel gs0 m in
      if gs = [] then None
      else if \<not> IsContainedIn m scope then Some (desired_member sel m VerificationRejected [])
      else (case member_loop cat policy sel m gs of
              None \<Rightarrow> None
            | Some tuples \<Rightarrow> if tuples = [] then None else Some (desired_member sel m VerificationActive tuples)))"

subsection \<open>Selection of an object by a rule\<close>

fun containsStringForward :: "string list \<Rightarrow> string \<Rightarrow> bool" where
  "containsStringForward [] want \<longleftrightarrow> False"
| "containsStringForward (v # vs) want \<longleftrightarrow> v = want \<or> containsStringForward vs want"

definition selectorMatchesObject :: "RuleSelector \<Rightarrow> MirrorObject \<Rightarrow> bool" where
  "selectorMatchesObject sel m \<longleftrightarrow>
     (if \<not> containsStringForward (sel_ObjectTypes sel) (mir_ObjectType m) then False
      else case sel_Arm sel of
        ArmNames \<Rightarrow> containsStringForward (sel_ResourceNames sel) (mir_ObjectID m)
      | ArmLabels \<Rightarrow> MatchesLabels m (sel_MatchLabels sel)
      | ArmAnchor \<Rightarrow> True)"

definition ownerSelectorOf :: "ContainerSelector \<Rightarrow> RuleSelector" where
  "ownerSelectorOf c = \<lparr>sel_RuleFP = cont_OwnerFP c, sel_Arm = cont_Arm c, sel_ObjectTypes = [cont_Type c],
     sel_ResourceNames = cont_ResourceNames c, sel_MatchLabels = cont_MatchLabels c, sel_Verbs = [],
     sel_Container = None, sel_CreatedBySubject = False\<rparr>"

definition containerSelected :: "ContainerSelector \<Rightarrow> BindingScope \<Rightarrow> MirrorObject \<Rightarrow> bool" where
  "containerSelected c bs a \<longleftrightarrow>
     (if mir_ObjectType a \<noteq> cont_Type c \<or> \<not> selectorMatchesObject (ownerSelectorOf c) a then False
      else if tgt_Resources (bs_Target bs) \<noteq> [] \<and> \<not> Target_Contains (bs_Target bs) (mir_ObjectType a) (mir_ObjectID a) then False
      else IsContainedIn a (bs_Scope bs))"

definition nestedCoversObject :: "RuleSelector \<Rightarrow> ContainerSelector \<Rightarrow> BindingScope \<Rightarrow> MirrorObject \<Rightarrow> MirrorObject list \<Rightarrow> bool" where
  "nestedCoversObject sel c bs m ancestors \<longleftrightarrow>
     (if \<not> hasNonClassSubject bs \<or> \<not> selectorMatchesObject sel m then False
      else list_ex (containerSelected c bs) ancestors)"

definition hasNestedSelector :: "BindingScope \<Rightarrow> bool" where
  "hasNestedSelector bs \<longleftrightarrow>
     (if \<not> hasNonClassSubject bs then False else list_ex (\<lambda>sel. sel_Container sel \<noteq> None) (bs_Selectors bs))"

definition nestsUnder :: "BindingScope \<Rightarrow> string \<Rightarrow> bool" where
  "nestsUnder bs objectType \<longleftrightarrow>
     (if \<not> hasNonClassSubject bs then False
      else list_ex (\<lambda>sel. case sel_Container sel of None \<Rightarrow> False | Some c \<Rightarrow> cont_Type c = objectType) (bs_Selectors bs))"

subsection \<open>Public reading of children\<close>

definition publicReaderRuleFPPrefix :: string where "publicReaderRuleFPPrefix = ''public_reader:''"
definition publicReaderClassesSep :: string where "publicReaderClassesSep = ''@''"
definition PublicReaderRelation :: string where "PublicReaderRelation = ''public_reader''"

definition public_fps :: "Facts \<Rightarrow> BindingScope \<Rightarrow> string \<Rightarrow> (string \<Rightarrow> bool) \<Rightarrow> string list" where
  \<comment> \<open>the rules nested in a rule that reads the object, which read its public children as a whole\<close>
  "public_fps cat bs objectType ownerFPs =
     map sel_RuleFP (filter (\<lambda>sel. case sel_Container sel of
         None \<Rightarrow> False
       | Some c \<Rightarrow> ownerFPs (cont_OwnerFP c)
           \<and> PublicReadsChildOf (sel\<lparr>sel_Verbs := classReadVerbs (sel_Verbs sel)\<rparr>) objectType (PublicReadChildren cat objectType))
       (bs_Selectors bs))"

definition publicReaderMember ::
  "Facts \<Rightarrow> BindingScope \<Rightarrow> string list \<Rightarrow> string \<Rightarrow> string \<Rightarrow> (string \<Rightarrow> bool) \<Rightarrow> DesiredMember option" where
  "publicReaderMember cat bs classes objectType objectID ownerFPs =
     (let fps = public_fps cat bs objectType ownerFPs in
      if classes = [] then None
      else if PublicReadChildren cat objectType = [] then None
      else if fps = [] then None
      else (case FGAObjectType cat objectType of
              None \<Rightarrow> None
            | Some fgaType \<Rightarrow>
                Some \<lparr>dm_RuleFP = publicReaderRuleFPPrefix @ join_with '','' (sort fps) @ publicReaderClassesSep @ join_with '','' (sort classes),
                  dm_ObjectType = objectType, dm_ObjectID = objectID, dm_Status = VerificationActive,
                  dm_Tuples = map (\<lambda>c. \<lparr>mt_User = c, mt_Relation = PublicReaderRelation, mt_Object = fgaType @ '':'' @ objectID\<rparr>) classes\<rparr>))"

definition class_read :: "BindingScope \<Rightarrow> string \<Rightarrow> bool" where
  \<comment> \<open>the map \<open>classRead\<close>\<close>
  "class_read bs fp \<longleftrightarrow> list_ex (\<lambda>sel. sel_Container sel = None \<and> classReadVerbs (sel_Verbs sel) \<noteq> [] \<and> sel_RuleFP sel = fp) (bs_Selectors bs)"

definition readers_of :: "BindingScope \<Rightarrow> DesiredMember list \<Rightarrow> MemberCoord \<Rightarrow> string \<Rightarrow> bool" where
  \<comment> \<open>\<open>owners[key]\<close>\<close>
  "readers_of bs members key fp \<longleftrightarrow>
     list_ex (\<lambda>d. dm_Status d = VerificationActive \<and> class_read bs (dm_RuleFP d) \<and> desiredCoord d = key \<and> dm_RuleFP d = fp) members"

definition withPublicReaders :: "Facts \<Rightarrow> BindingScope \<Rightarrow> DesiredMember list \<Rightarrow> DesiredMember list" where
  "withPublicReaders cat bs members =
     (if classSubjects bs = [] then members
      else let order = first_seen (map desiredCoord
             (filter (\<lambda>d. dm_Status d = VerificationActive \<and> class_read bs (dm_RuleFP d)) members))
        in members @ List.map_filter (\<lambda>key. publicReaderMember cat bs (classSubjects bs) (mc_ObjectType key) (mc_ObjectID key)
             (readers_of bs members key)) order)"

subsection \<open>The members of one object\<close>

definition is_anchor_object :: "BindingScope \<Rightarrow> MirrorObject \<Rightarrow> bool" where
  "is_anchor_object bs m \<longleftrightarrow> mir_ObjectType m = ''iam.'' @ anchor_Type (bs_Scope bs) \<and> mir_ObjectID m = anchor_ID (bs_Scope bs)"

definition scope_self_members :: "Facts \<Rightarrow> BindingScope \<Rightarrow> DesiredMember list" where
  "scope_self_members cat bs =
     (if bs_ScopeSelfVerbs bs \<noteq> [] \<and> tgt_Resources (bs_Target bs) = []
      then (case scopeSelfMember cat (grantees bs (bs_ScopeSelfVerbs bs) False) (anchor_Type (bs_Scope bs)) (anchor_ID (bs_Scope bs)) of
              None \<Rightarrow> [] | Some sm \<Rightarrow> [sm])
      else [])"

definition in_target :: "BindingScope \<Rightarrow> MirrorObject \<Rightarrow> bool" where
  "in_target bs m \<longleftrightarrow> tgt_Resources (bs_Target bs) = [] \<or> Target_Contains (bs_Target bs) (mir_ObjectType m) (mir_ObjectID m)"

definition selector_on_object :: "BindingScope \<Rightarrow> MirrorObject \<Rightarrow> MirrorObject list \<Rightarrow> RuleSelector \<Rightarrow> bool" where
  "selector_on_object bs m ancestors sel \<longleftrightarrow>
     (case sel_Container sel of
        Some c \<Rightarrow> nestedCoversObject sel c bs m ancestors
      | None \<Rightarrow> in_target bs m \<and> selectorMatchesObject sel m)"

definition desiredMembersForObject :: "Facts \<Rightarrow> BindingScope \<Rightarrow> MirrorObject \<Rightarrow> MirrorObject list \<Rightarrow> DesiredMember list" where
  "desiredMembersForObject cat bs m ancestors =
     withPublicReaders cat bs
       ((if is_anchor_object bs m then scope_self_members cat bs @ containerMembers cat bs else [])
        @ List.map_filter (\<lambda>sel. desiredMemberForObject cat (bs_Policy bs) (selectorGrantees bs sel) sel m (bs_Scope bs))
            (filter (\<lambda>sel. selectorGrantees bs sel \<noteq> [] \<and> selector_on_object bs m ancestors sel) (bs_Selectors bs)))"

subsection \<open>The members of a binding\<close>

definition partitionByFeed :: "string list \<Rightarrow> string list \<times> string list" where
  "partitionByFeed types = (filter mirrorFed types, filter (\<lambda>t. \<not> mirrorFed t) types)"

definition matchByArm ::
  "Source \<Rightarrow> RuleSelector \<Rightarrow> string list \<Rightarrow> bool \<Rightarrow> ScopeAnchor \<Rightarrow> AccessTarget \<Rightarrow> (query, MirrorObject list) result" where
  "matchByArm s sel types iamDirect scope target =
     (case sel_Arm sel of
        ArmNames \<Rightarrow> if iamDirect then MatchByIDsIAMDirect s types (sel_ResourceNames sel) else MatchByIDs s types (sel_ResourceNames sel)
      | ArmLabels \<Rightarrow> if iamDirect then MatchIAMDirect s types (sel_MatchLabels sel) else MatchSelector s types (sel_MatchLabels sel)
      | ArmAnchor \<Rightarrow>
          if tgt_Resources target \<noteq> [] then
            (let idents = ResourceIDsForTypes target types
             in if idents = [] then Inr []
                else if iamDirect then MatchByIDsIAMDirect s types idents else MatchByIDs s types idents)
          else if iamDirect then MatchAllInScopeIAMDirect s types scope else MatchAllInScope s types scope)"

definition filterMatchedToTarget :: "MirrorObject list \<Rightarrow> AccessTarget \<Rightarrow> MirrorObject list" where
  "filterMatchedToTarget matched target = filter (\<lambda>m. Target_Contains target (mir_ObjectType m) (mir_ObjectID m)) matched"

definition matchSelectorObjects ::
  "Source \<Rightarrow> RuleSelector \<Rightarrow> ScopeAnchor \<Rightarrow> AccessTarget \<Rightarrow> (query, MirrorObject list) result" where
  "matchSelectorObjects s sel scope target =
     (let (mirrorTypes, iamTypes) = partitionByFeed (sel_ObjectTypes sel) in
      case (if mirrorTypes \<noteq> [] then matchByArm s sel mirrorTypes False scope target else Inr []) of
        Inl e \<Rightarrow> Inl e
      | Inr xs \<Rightarrow>
      (case (if iamTypes \<noteq> [] then matchByArm s sel iamTypes True scope target else Inr []) of
        Inl e \<Rightarrow> Inl e
      | Inr ys \<Rightarrow> Inr (if tgt_Resources target \<noteq> [] then filterMatchedToTarget (xs @ ys) target else xs @ ys)))"

definition liveObjects :: "Source \<Rightarrow> MemberCoord list \<Rightarrow> (query, MemberCoord \<Rightarrow> bool) result" where
  "liveObjects s objs =
     (let mirror = first_seen (filter (\<lambda>c. mirrorFed (mc_ObjectType c)) objs) in
      if mirror = [] then Inr (\<lambda>_. True)
      else (case LockMirrorObjects s mirror of
              Inl e \<Rightarrow> Inl e
            | Inr present \<Rightarrow> Inr (\<lambda>c. if \<not> mirrorFed (mc_ObjectType c) then True else c \<in> set present)))"

definition matchNestedObjects ::
  "Source \<Rightarrow> RuleSelector \<Rightarrow> ContainerSelector \<Rightarrow> BindingScope \<Rightarrow> (query, MirrorObject list) result" where
  "matchNestedObjects s sel c bs =
     (case matchSelectorObjects s (ownerSelectorOf c) (bs_Scope bs) (bs_Target bs) of
        Inl e \<Rightarrow> Inl e
      | Inr containers \<Rightarrow>
     (let selected = map coord_of_object (filter (containerSelected c bs) containers) in
      if selected = [] then Inr []
      else (case liveObjects s selected of
              Inl e \<Rightarrow> Inl e
            | Inr live \<Rightarrow>
           (let idents = map mc_ObjectID (filter live selected) in
            if idents = [] then Inr []
            else (case MatchDescendants s (sel_ObjectTypes sel) (cont_Type c) idents of
                    Inl e \<Rightarrow> Inl e
                  | Inr desc \<Rightarrow> Inr (filter (selectorMatchesObject sel) desc))))))"

definition matchCreatorObjects :: "Source \<Rightarrow> RuleSelector \<Rightarrow> BindingScope \<Rightarrow> (query, MirrorObject list) result" where
  "matchCreatorObjects s sel bs =
     (let iamTypes = snd (partitionByFeed (sel_ObjectTypes sel)) in
      if creatorSubjectIDs bs = [] then Inr []
      else if iamTypes = [] then Inr []
      else (case MatchCreatedByIAMDirect s iamTypes (bs_Scope bs) (creatorSubjectIDs bs) of
              Inl e \<Rightarrow> Inl e
            | Inr objs \<Rightarrow> Inr (if tgt_Resources (bs_Target bs) \<noteq> [] then filterMatchedToTarget objs (bs_Target bs) else objs)))"

definition selector_objects :: "Facts \<Rightarrow> Source \<Rightarrow> BindingScope \<Rightarrow> RuleSelector \<Rightarrow> (query, MirrorObject list) result" where
  \<comment> \<open>the objects of one step of the loop over the selectors\<close>
  "selector_objects cat s bs sel =
     (if selectorGrantees bs sel = [] then Inr []
      else case sel_Container sel of
        Some c \<Rightarrow> matchNestedObjects s sel c bs
      | None \<Rightarrow>
          if \<not> selectorWritesObjects cat sel then Inr []
          else if sel_CreatedBySubject sel then matchCreatorObjects s sel bs
          else matchSelectorObjects s sel (bs_Scope bs) (bs_Target bs))"

fun selector_loop :: "Facts \<Rightarrow> Source \<Rightarrow> BindingScope \<Rightarrow> RuleSelector list \<Rightarrow> (query, DesiredMember list) result" where
  "selector_loop cat s bs [] = Inr []"
| "selector_loop cat s bs (sel # sels) =
     (case selector_objects cat s bs sel of
        Inl e \<Rightarrow> Inl e
      | Inr matched \<Rightarrow>
     (case selector_loop cat s bs sels of
        Inl e \<Rightarrow> Inl e
      | Inr rest \<Rightarrow> Inr (List.map_filter (\<lambda>m. desiredMemberForObject cat (bs_Policy bs) (selectorGrantees bs sel) sel m (bs_Scope bs)) matched @ rest)))"

definition desiredRuleMembers :: "Facts \<Rightarrow> Source \<Rightarrow> BindingScope \<Rightarrow> (query, DesiredMember list) result" where
  "desiredRuleMembers cat s bs =
     (case selector_loop cat s bs (bs_Selectors bs) of
        Inl e \<Rightarrow> Inl e
      | Inr members \<Rightarrow> Inr (withPublicReaders cat bs (scope_self_members cat bs @ members @ containerMembers cat bs)))"

definition desiredMembers :: "Facts \<Rightarrow> Source \<Rightarrow> BindingScope \<Rightarrow> (query, DesiredMember list) result" where
  "desiredMembers cat s bs = (if bs_Selectors bs \<noteq> [] then desiredRuleMembers cat s bs else Inr [])"

subsection \<open>The two ways agree\<close>

text \<open>
  \<open>ancestorMemo.forBinding\<close>: the ancestors of the object are read when the binding has a nested
  rule, and only for a present object of the mirror.
\<close>

definition ancestors_for :: "Source \<Rightarrow> BindingScope \<Rightarrow> string \<Rightarrow> string \<Rightarrow> bool \<Rightarrow> (query, MirrorObject list) result" where
  "ancestors_for s bs objectType objectID present =
     (if \<not> hasNestedSelector bs then Inr []
      else if \<not> present \<or> FeedSourceForType objectType = FeedIAMDirect then Inr []
      else AncestorObjects s objectType objectID)"

definition active_at :: "DesiredMember list \<Rightarrow> MemberCoord \<Rightarrow> DesiredMember set" where
  "active_at ds c = {d \<in> set ds. dm_Status d = VerificationActive \<and> desiredCoord d = c}"

text \<open>What validation guarantees of the selectors of a role.\<close>

definition selector_ok :: "BindingScope \<Rightarrow> RuleSelector \<Rightarrow> bool" where
  "selector_ok bs sel \<longleftrightarrow>
     (sel_Arm sel = ArmLabels \<longrightarrow> sel_MatchLabels sel \<noteq> [])
     \<and> (case sel_Container sel of
          None \<Rightarrow> True
        | Some c \<Rightarrow> (cont_Arm c = ArmLabels \<longrightarrow> cont_MatchLabels c \<noteq> [])
            \<and> (mirrorFed (cont_Type c) \<or> list_all (\<lambda>t. \<not> mirrorFed t) (sel_ObjectTypes sel)))
     \<and> (sel_CreatedBySubject sel \<longrightarrow> sel_Arm sel = ArmAnchor \<and> sel_Container sel = None
          \<and> list_all (\<lambda>s. sub_Type s = SubjectTypeServiceAccount) (bs_Subjects bs))"

lemma containsStringForward_iff [simp]: "containsStringForward xs a \<longleftrightarrow> a \<in> set xs"
  by (induction xs) auto

definition arm_matches :: "RuleSelector \<Rightarrow> MirrorObject \<Rightarrow> bool" where
  "arm_matches sel m \<longleftrightarrow> (case sel_Arm sel of ArmNames \<Rightarrow> mir_ObjectID m \<in> set (sel_ResourceNames sel)
     | ArmLabels \<Rightarrow> MatchesLabels m (sel_MatchLabels sel) | ArmAnchor \<Rightarrow> True)"

lemma selectorMatchesObject_iff: "selectorMatchesObject sel m \<longleftrightarrow> mir_ObjectType m \<in> set (sel_ObjectTypes sel) \<and> arm_matches sel m"
  by (simp add: selectorMatchesObject_def arm_matches_def split: arm.split)

lemma unlabelled_fields [simp]:
  "mir_ObjectType (unlabelled m) = mir_ObjectType m" "mir_ObjectID (unlabelled m) = mir_ObjectID m"
  "mir_CreatedBy (unlabelled m) = mir_CreatedBy m" "IsContainedIn (unlabelled m) sc = IsContainedIn m sc"
  "coord_of_object (unlabelled m) = coord_of_object m"
  by (simp_all add: unlabelled_def IsContainedIn_def coord_of_object_def)

lemma member_loop_unlabelled [simp]: "member_loop cat p sel (unlabelled m) gs = member_loop cat p sel m gs"
  by (induction gs) (simp_all add: Let_def split: option.split)

lemma creator_unlabelled [simp]: "creatorGrantees sel gs (unlabelled m) = creatorGrantees sel gs m"
  by (simp add: creatorGrantees_def)

lemma desired_member_unlabelled [simp]: "desired_member sel (unlabelled m) st ts = desired_member sel m st ts"
  by (simp add: desired_member_def)

lemma desired_unlabelled [simp]: "desiredMemberForObject cat p gs sel (unlabelled m) sc = desiredMemberForObject cat p gs sel m sc"
  by (simp only: desiredMemberForObject_def Let_def unlabelled_fields creator_unlabelled desired_member_unlabelled member_loop_unlabelled)

lemma desiredMemberForObject_active:
  assumes "desiredMemberForObject cat p gs sel m sc = Some d" and "dm_Status d = VerificationActive"
  shows "IsContainedIn m sc" "desiredCoord d = coord_of_object m" "creatorGrantees sel gs m \<noteq> []"
    "\<exists>tuples. tuples \<noteq> [] \<and> member_loop cat p sel m (creatorGrantees sel gs m) = Some tuples"
  using assms by (auto simp: desiredMemberForObject_def Let_def desired_member_def desiredCoord_def coord_of_object_def
    split: if_splits option.splits)

lemma Target_Contains_ids:
  "Target_Contains tgt ty i \<Longrightarrow> ty \<in> set types \<Longrightarrow> i \<in> set (ResourceIDsForTypes tgt types)"
  by (auto simp: Target_Contains_def ResourceIDsForTypes_def list_ex_iff intro!: image_eqI)

lemma in_target_ids:
  assumes "in_target bs m" "tgt_Resources (bs_Target bs) \<noteq> []" "mir_ObjectType m \<in> set types"
  shows "mir_ObjectID m \<in> set (ResourceIDsForTypes (bs_Target bs) types)"
  using assms Target_Contains_ids by (auto simp: in_target_def)

context object_source
begin

lemma arm_mirror:
  assumes "invar t" "matchByArm (src t) sel types False (bs_Scope bs) (bs_Target bs) = Inr xs" "list_all mirrorFed types"
    and "sel_Arm sel = ArmLabels \<Longrightarrow> sel_MatchLabels sel \<noteq> []"
  shows "set xs \<subseteq> {m \<in> objects t. mir_ObjectType m \<in> set types \<and> arm_matches sel m}"
    and "{m \<in> objects t. mir_ObjectType m \<in> set types \<and> arm_matches sel m \<and> in_target bs m \<and> IsContainedIn m (bs_Scope bs)} \<subseteq> set xs"
proof -
  have "set xs \<subseteq> {m \<in> objects t. mir_ObjectType m \<in> set types \<and> arm_matches sel m}
      \<and> {m \<in> objects t. mir_ObjectType m \<in> set types \<and> arm_matches sel m \<and> in_target bs m \<and> IsContainedIn m (bs_Scope bs)} \<subseteq> set xs"
  proof (cases "sel_Arm sel")
    case ArmAnchor
    show ?thesis
    proof (cases "tgt_Resources (bs_Target bs) = []")
      case True
      then have "in_scope_or_wider (bs_Scope bs) {m \<in> objects t. mir_ObjectType m \<in> set types} (set xs)"
        using assms(2) ArmAnchor by (intro in_scope [OF assms(1) _ assms(3)]) (simp add: matchByArm_def)
      then show ?thesis using ArmAnchor by (auto simp: arm_matches_def in_scope_or_wider_def)
    next
      case False
      let ?ids = "ResourceIDsForTypes (bs_Target bs) types"
      have "set xs = {m \<in> objects t. mir_ObjectType m \<in> set types \<and> mir_ObjectID m \<in> set ?ids}"
      proof (cases "?ids = []")
        case True
        then show ?thesis using assms(2) ArmAnchor False by (simp add: matchByArm_def Let_def)
      next
        case ids: False
        then show ?thesis using assms(2) ArmAnchor False
          by (intro by_ids [OF assms(1) _ assms(3)]) (simp add: matchByArm_def Let_def)
      qed
      then show ?thesis using ArmAnchor in_target_ids [OF _ False] by (auto simp: arm_matches_def)
    qed
  next
    case ArmNames
    then have "set xs = {m \<in> objects t. mir_ObjectType m \<in> set types \<and> mir_ObjectID m \<in> set (sel_ResourceNames sel)}"
      using assms(2) by (intro by_ids [OF assms(1) _ assms(3)]) (simp add: matchByArm_def)
    then show ?thesis using ArmNames by (auto simp: arm_matches_def)
  next
    case ArmLabels
    then have "set xs = {m \<in> objects t. mir_ObjectType m \<in> set types \<and> MatchesLabels m (sel_MatchLabels sel)}"
      using assms(2,4) by (intro by_labels [OF assms(1) _ _ assms(3)]) (simp_all add: matchByArm_def)
    then show ?thesis using ArmLabels by (auto simp: arm_matches_def)
  qed
  then show "set xs \<subseteq> {m \<in> objects t. mir_ObjectType m \<in> set types \<and> arm_matches sel m}"
    "{m \<in> objects t. mir_ObjectType m \<in> set types \<and> arm_matches sel m \<and> in_target bs m \<and> IsContainedIn m (bs_Scope bs)} \<subseteq> set xs"
    by blast+
qed

lemma arm_iam:
  assumes "invar t" "matchByArm (src t) sel types True (bs_Scope bs) (bs_Target bs) = Inr xs" "list_all (\<lambda>ty. \<not> mirrorFed ty) types"
    and "sel_Arm sel = ArmLabels \<Longrightarrow> sel_MatchLabels sel \<noteq> []"
  shows "\<exists>B. set xs = unlabelled ` B \<and> B \<subseteq> {m \<in> objects t. mir_ObjectType m \<in> set types \<and> arm_matches sel m}
    \<and> {m \<in> objects t. mir_ObjectType m \<in> set types \<and> arm_matches sel m \<and> in_target bs m \<and> IsContainedIn m (bs_Scope bs)} \<subseteq> B"
proof (cases "sel_Arm sel")
  case ArmAnchor
  show ?thesis
  proof (cases "tgt_Resources (bs_Target bs) = []")
    case True
    then have "\<exists>B. set xs = unlabelled ` B \<and> in_scope_or_wider (bs_Scope bs) {m \<in> objects t. mir_ObjectType m \<in> set types} B"
      using assms(2) ArmAnchor by (intro iam_in_scope [OF assms(1) _ assms(3)]) (simp add: matchByArm_def)
    then obtain B where B: "set xs = unlabelled ` B" "in_scope_or_wider (bs_Scope bs) {m \<in> objects t. mir_ObjectType m \<in> set types} B"
      by blast
    show ?thesis
      using B(2) ArmAnchor by (intro exI [of _ B] conjI B(1)) (auto simp: arm_matches_def in_scope_or_wider_def)
  next
    case False
    let ?ids = "ResourceIDsForTypes (bs_Target bs) types"
    have "set xs = unlabelled ` {m \<in> objects t. mir_ObjectType m \<in> set types \<and> mir_ObjectID m \<in> set ?ids}"
    proof (cases "?ids = []")
      case True
      then show ?thesis using assms(2) ArmAnchor False by (simp add: matchByArm_def Let_def)
    next
      case ids: False
      then show ?thesis using assms(2) ArmAnchor False
        by (intro iam_by_ids [OF assms(1) _ assms(3)]) (simp add: matchByArm_def Let_def)
    qed
    then show ?thesis using ArmAnchor in_target_ids [OF _ False]
      by (intro exI [of _ "{m \<in> objects t. mir_ObjectType m \<in> set types \<and> mir_ObjectID m \<in> set ?ids}"] conjI) (auto simp: arm_matches_def)
  qed
next
  case ArmNames
  then have "set xs = unlabelled ` {m \<in> objects t. mir_ObjectType m \<in> set types \<and> mir_ObjectID m \<in> set (sel_ResourceNames sel)}"
    using assms(2) by (intro iam_by_ids [OF assms(1) _ assms(3)]) (simp add: matchByArm_def)
  then show ?thesis using ArmNames
    by (intro exI [of _ "{m \<in> objects t. mir_ObjectType m \<in> set types \<and> mir_ObjectID m \<in> set (sel_ResourceNames sel)}"] conjI)
      (auto simp: arm_matches_def)
next
  case ArmLabels
  then have "set xs = unlabelled ` {m \<in> objects t. mir_ObjectType m \<in> set types \<and> MatchesLabels m (sel_MatchLabels sel)}"
    using assms(2,4) by (intro iam_by_labels [OF assms(1) _ _ assms(3)]) (simp_all add: matchByArm_def)
  then show ?thesis using ArmLabels
    by (intro exI [of _ "{m \<in> objects t. mir_ObjectType m \<in> set types \<and> MatchesLabels m (sel_MatchLabels sel)}"] conjI)
      (auto simp: arm_matches_def)
qed

end

text \<open>
  A row answers for an object when it is the object, without labels if the object is one of the
  service's own.
\<close>

definition answers_for :: "MirrorObject \<Rightarrow> MirrorObject \<Rightarrow> bool" where
  "answers_for n m \<longleftrightarrow> unlabelled n = unlabelled m \<and> (mirrorFed (mir_ObjectType m) \<longrightarrow> n = m)"

lemma answers_for_refl [simp]: "answers_for m m"
  by (simp add: answers_for_def)

lemma answers_for_unlabelled: "\<not> mirrorFed (mir_ObjectType m) \<Longrightarrow> answers_for (unlabelled m) m"
  by (simp add: answers_for_def unlabelled_def)

lemma answers_for_fields:
  assumes "answers_for n m"
  shows "mir_ObjectType n = mir_ObjectType m" "mir_ObjectID n = mir_ObjectID m" "coord_of_object n = coord_of_object m"
    "desiredMemberForObject cat p gs sel n sc = desiredMemberForObject cat p gs sel m sc"
  using assms unfolding answers_for_def by (metis unlabelled_fields desired_unlabelled)+

context object_source
begin

lemma matched_objects:
  assumes t: "invar t" and r: "matchSelectorObjects (src t) sel (bs_Scope bs) (bs_Target bs) = Inr xs"
    and labels: "sel_Arm sel = ArmLabels \<Longrightarrow> sel_MatchLabels sel \<noteq> []"
  shows "n \<in> set xs \<Longrightarrow> \<exists>m \<in> objects t. answers_for n m \<and> selectorMatchesObject sel m \<and> in_target bs m"
    and "m \<in> objects t \<Longrightarrow> selectorMatchesObject sel m \<Longrightarrow> in_target bs m \<Longrightarrow> IsContainedIn m (bs_Scope bs) \<Longrightarrow>
      \<exists>n \<in> set xs. answers_for n m"
proof -
  let ?mt = "filter mirrorFed (sel_ObjectTypes sel)" and ?it = "filter (\<lambda>ty. \<not> mirrorFed ty) (sel_ObjectTypes sel)"
  obtain ms os where ms: "(if ?mt \<noteq> [] then matchByArm (src t) sel ?mt False (bs_Scope bs) (bs_Target bs) else Inr []) = Inr ms"
    and is': "(if ?it \<noteq> [] then matchByArm (src t) sel ?it True (bs_Scope bs) (bs_Target bs) else Inr []) = Inr os"
    and xs: "xs = (if tgt_Resources (bs_Target bs) \<noteq> [] then filterMatchedToTarget (ms @ os) (bs_Target bs) else ms @ os)"
    using r unfolding matchSelectorObjects_def partitionByFeed_def Let_def prod.case by (auto split: sum.splits if_splits)
  have M: "set ms \<subseteq> {m \<in> objects t. mir_ObjectType m \<in> set ?mt \<and> arm_matches sel m}"
      "{m \<in> objects t. mir_ObjectType m \<in> set ?mt \<and> arm_matches sel m \<and> in_target bs m \<and> IsContainedIn m (bs_Scope bs)} \<subseteq> set ms"
  proof -
    have "list_all mirrorFed ?mt" by (simp add: list_all_iff)
    then show "set ms \<subseteq> {m \<in> objects t. mir_ObjectType m \<in> set ?mt \<and> arm_matches sel m}"
      "{m \<in> objects t. mir_ObjectType m \<in> set ?mt \<and> arm_matches sel m \<and> in_target bs m \<and> IsContainedIn m (bs_Scope bs)} \<subseteq> set ms"
      using arm_mirror [where types = ?mt and bs = bs and xs = ms and sel = sel, OF t _ _ labels] ms by (auto simp: filter_empty_conv split: if_splits)
  qed
  obtain B where B: "set os = unlabelled ` B" "B \<subseteq> {m \<in> objects t. mir_ObjectType m \<in> set ?it \<and> arm_matches sel m}"
      "{m \<in> objects t. mir_ObjectType m \<in> set ?it \<and> arm_matches sel m \<and> in_target bs m \<and> IsContainedIn m (bs_Scope bs)} \<subseteq> B"
  proof (cases "?it = []")
    case True
    then show ?thesis using is' that [of "{}"] by simp
  next
    case False
    have "list_all (\<lambda>ty. \<not> mirrorFed ty) ?it" by (simp add: list_all_iff)
    then show ?thesis using arm_iam [where types = ?it and bs = bs and xs = os and sel = sel, OF t _ _ labels] is' False that by auto
  qed
  have tgt: "n \<in> set xs \<longleftrightarrow> n \<in> set (ms @ os) \<and> in_target bs n" for n
    by (auto simp: xs filterMatchedToTarget_def in_target_def)
  have tgt': "answers_for n m \<Longrightarrow> in_target bs n = in_target bs m" for n m
    by (simp add: in_target_def answers_for_fields)
  show "\<exists>m \<in> objects t. answers_for n m \<and> selectorMatchesObject sel m \<and> in_target bs m" if n: "n \<in> set xs"
  proof (cases "n \<in> set ms")
    case True
    then show ?thesis using M(1) n tgt by (intro bexI [of _ n]) (auto simp: selectorMatchesObject_iff)
  next
    case False
    then obtain m where m: "m \<in> B" "n = unlabelled m" using n tgt B(1) by auto
    then have "answers_for n m" using B(2) answers_for_unlabelled by auto
    then show ?thesis using m B(2) n tgt tgt' by (intro bexI [of _ m]) (auto simp: selectorMatchesObject_iff)
  qed
  show "\<exists>n \<in> set xs. answers_for n m"
    if m: "m \<in> objects t" "selectorMatchesObject sel m" "in_target bs m" "IsContainedIn m (bs_Scope bs)"
  proof (cases "mirrorFed (mir_ObjectType m)")
    case True
    then have "m \<in> set ms" using m M(2) by (auto simp: selectorMatchesObject_iff)
    then show ?thesis using m(3) tgt by (intro bexI [of _ m]) auto
  next
    case False
    then have "m \<in> B" using m B(3) by (auto simp: selectorMatchesObject_iff)
    moreover have "answers_for (unlabelled m) m" using False by (rule answers_for_unlabelled)
    ultimately show ?thesis using m(3) tgt tgt' B(1) by (intro bexI [of _ "unlabelled m"]) auto
  qed
qed

lemma creator_objects:
  assumes t: "invar t" and r: "matchCreatorObjects (src t) sel bs = Inr xs"
    and sel: "sel_CreatedBySubject sel" "sel_Arm sel = ArmAnchor" "list_all (\<lambda>s. sub_Type s = SubjectTypeServiceAccount) (bs_Subjects bs)"
  shows "n \<in> set xs \<Longrightarrow> \<exists>m \<in> objects t. answers_for n m \<and> selectorMatchesObject sel m \<and> in_target bs m"
    and "m \<in> objects t \<Longrightarrow> selectorMatchesObject sel m \<Longrightarrow> in_target bs m \<Longrightarrow> IsContainedIn m (bs_Scope bs) \<Longrightarrow>
      creatorGrantees sel (selectorGrantees bs sel) m \<noteq> [] \<Longrightarrow> \<exists>n \<in> set xs. answers_for n m"
proof -
  let ?it = "filter (\<lambda>ty. \<not> mirrorFed ty) (sel_ObjectTypes sel)" and ?refs = "FGASubjectRef SubjectTypeServiceAccount ` set (creatorSubjectIDs bs)"
  have it: "list_all (\<lambda>ty. \<not> mirrorFed ty) ?it" by (simp add: list_all_iff)
  have creator: "mir_CreatedBy m \<in> ?refs \<and> \<not> mirrorFed (mir_ObjectType m) \<and> creatorSubjectIDs bs \<noteq> []"
    if m: "m \<in> objects t" "creatorGrantees sel (selectorGrantees bs sel) m \<noteq> []" for m
  proof -
    obtain s where s: "s \<in> set (bs_Subjects bs)" "mir_CreatedBy m = subjectRef s" "mir_CreatedBy m \<noteq> []"
      using m(2) sel(1) by (auto simp: creatorGrantees_def selectorGrantees_def grantees_def filter_empty_conv split: if_splits)
    then have "mir_CreatedBy m \<in> ?refs" using sel(3)
      by (auto simp: subjectRef_def creatorSubjectIDs_def list_all_iff intro!: image_eqI)
    moreover have "\<not> mirrorFed (mir_ObjectType m)" using mirror_no_creator [OF t m(1)] s(3) by blast
    ultimately show ?thesis by auto
  qed
  have matches: "selectorMatchesObject sel m \<longleftrightarrow> mir_ObjectType m \<in> set (sel_ObjectTypes sel)" for m
    using sel(2) by (simp add: selectorMatchesObject_iff arm_matches_def)
  have "\<exists>B. set xs = unlabelled ` B \<and> B \<subseteq> {m \<in> objects t. mir_ObjectType m \<in> set ?it \<and> in_target bs m}
      \<and> {m \<in> objects t. mir_ObjectType m \<in> set ?it \<and> mir_CreatedBy m \<in> ?refs \<and> in_target bs m \<and> IsContainedIn m (bs_Scope bs)} \<subseteq> B"
  proof (cases "creatorSubjectIDs bs = [] \<or> ?it = []")
    case True
    then have "xs = []" using r by (auto simp: matchCreatorObjects_def partitionByFeed_def Let_def split: if_splits)
    moreover have "{m \<in> objects t. mir_ObjectType m \<in> set ?it \<and> mir_CreatedBy m \<in> ?refs} = {}"
      using True by (auto simp: filter_empty_conv)
    ultimately show ?thesis by (intro exI [of _ "{}"]) auto
  next
    case False
    obtain ys where ys: "MatchCreatedByIAMDirect (src t) ?it (bs_Scope bs) (creatorSubjectIDs bs) = Inr ys"
        "xs = (if tgt_Resources (bs_Target bs) \<noteq> [] then filterMatchedToTarget ys (bs_Target bs) else ys)"
      using r False unfolding matchCreatorObjects_def partitionByFeed_def Let_def by (auto split: sum.splits if_splits)
    obtain B where B: "set ys = unlabelled ` B" "in_scope_or_wider (bs_Scope bs)
        {m \<in> objects t. mir_ObjectType m \<in> set ?it \<and> mir_CreatedBy m \<in> ?refs} B"
      using iam_created [OF t ys(1) it] by blast
    have "set xs = unlabelled ` {m \<in> B. in_target bs m}"
      using B(1) by (auto simp: ys(2) filterMatchedToTarget_def in_target_def)
    then show ?thesis using B(2) by (intro exI [of _ "{m \<in> B. in_target bs m}"]) (auto simp: in_scope_or_wider_def)
  qed
  then obtain B where B: "set xs = unlabelled ` B" "B \<subseteq> {m \<in> objects t. mir_ObjectType m \<in> set ?it \<and> in_target bs m}"
      "{m \<in> objects t. mir_ObjectType m \<in> set ?it \<and> mir_CreatedBy m \<in> ?refs \<and> in_target bs m \<and> IsContainedIn m (bs_Scope bs)} \<subseteq> B"
    by blast
  show "\<exists>m \<in> objects t. answers_for n m \<and> selectorMatchesObject sel m \<and> in_target bs m" if n: "n \<in> set xs"
  proof -
    obtain m where "m \<in> B" "n = unlabelled m" using n B(1) by auto
    then show ?thesis using B(2) answers_for_unlabelled by (intro bexI [of _ m]) (auto simp: matches)
  qed
  show "\<exists>n \<in> set xs. answers_for n m" if m: "m \<in> objects t" "selectorMatchesObject sel m" "in_target bs m"
      "IsContainedIn m (bs_Scope bs)" "creatorGrantees sel (selectorGrantees bs sel) m \<noteq> []"
  proof -
    note c = creator [OF m(1,5)]
    then have "m \<in> B" using m B(3) by (auto simp: matches)
    then show ?thesis using c B(1) answers_for_unlabelled by (intro bexI [of _ "unlabelled m"]) auto
  qed
qed

end

context object_source
begin

lemma container_objects:
  assumes t: "invar t" and r: "matchSelectorObjects (src t) (ownerSelectorOf c) (bs_Scope bs) (bs_Target bs) = Inr xs"
    and c: "mirrorFed (cont_Type c)" "cont_Arm c = ArmLabels \<Longrightarrow> cont_MatchLabels c \<noteq> []"
  shows "{n \<in> set xs. containerSelected c bs n} = {a \<in> objects t. containerSelected c bs a}"
proof -
  have lab: "sel_Arm (ownerSelectorOf c) = ArmLabels \<Longrightarrow> sel_MatchLabels (ownerSelectorOf c) \<noteq> []"
    using c(2) by (simp add: ownerSelectorOf_def)
  have sel: "mir_ObjectType n = cont_Type c \<and> selectorMatchesObject (ownerSelectorOf c) n \<and> in_target bs n \<and> IsContainedIn n (bs_Scope bs)"
    if "containerSelected c bs n" for n
    using that by (auto simp: containerSelected_def in_target_def split: if_splits)
  show ?thesis
  proof (intro equalityI subsetI)
    fix n
    assume n: "n \<in> {n \<in> set xs. containerSelected c bs n}"
    then obtain m where m: "m \<in> objects t" "answers_for n m" using matched_objects(1) [OF t r lab] by blast
    moreover have "mirrorFed (mir_ObjectType m)" using n sel c(1) answers_for_fields(1) [OF m(2)] by auto
    ultimately show "n \<in> {a \<in> objects t. containerSelected c bs a}" using n by (auto simp: answers_for_def)
  next
    fix a
    assume a: "a \<in> {a \<in> objects t. containerSelected c bs a}"
    then obtain n where "n \<in> set xs" "answers_for n a" using matched_objects(2) [OF t r lab] sel by blast
    then show "a \<in> {n \<in> set xs. containerSelected c bs n}" using a sel c(1) by (auto simp: answers_for_def)
  qed
qed

lemma live_containers:
  assumes t: "invar t" and r: "liveObjects (src t) objs = Inr live"
    and objs: "o' \<in> set objs" "o' = coord_of_object a" "a \<in> objects t" "mirrorFed (mir_ObjectType a)"
  shows "live o' \<longleftrightarrow> \<not> hidden t o'"
proof -
  let ?m = "first_seen (filter (\<lambda>c. mirrorFed (mc_ObjectType c)) objs)"
  have m: "o' \<in> set ?m" using objs by (simp add: coord_of_object_def)
  then have "?m \<noteq> []" by (metis empty_iff list.set(1))
  then obtain ps where ps: "LockMirrorObjects (src t) ?m = Inr ps"
      "live = (\<lambda>c. if \<not> mirrorFed (mc_ObjectType c) then True else c \<in> set ps)"
    using r unfolding liveObjects_def Let_def by (auto split: sum.splits)
  have "o' \<in> set ps \<longleftrightarrow> \<not> hidden t o'"
    unfolding locked [OF t ps(1)] using m objs by blast
  then show ?thesis using objs by (simp add: ps(2) coord_of_object_def)
qed

lemma nested_objects:
  assumes t: "invar t" and r: "matchNestedObjects (src t) sel c bs = Inr xs"
    and c: "cont_Arm c = ArmLabels \<Longrightarrow> cont_MatchLabels c \<noteq> []"
      "mirrorFed (cont_Type c) \<or> list_all (\<lambda>ty. \<not> mirrorFed ty) (sel_ObjectTypes sel)"
  shows "set xs = {m \<in> objects t. mirrorFed (mir_ObjectType m) \<and> selectorMatchesObject sel m
    \<and> (\<exists>a \<in> above t m. containerSelected c bs a \<and> \<not> hidden t (coord_of_object a))}"
proof -
  obtain cs where cs: "matchSelectorObjects (src t) (ownerSelectorOf c) (bs_Scope bs) (bs_Target bs) = Inr cs"
    using r by (auto simp: matchNestedObjects_def split: sum.splits)
  define selected where "selected = map coord_of_object (filter (containerSelected c bs) cs)"
  have knd: "mir_ObjectType a = cont_Type c" if "containerSelected c bs a" for a
    using that by (auto simp: containerSelected_def split: if_splits)
  show ?thesis
  proof (cases "mirrorFed (cont_Type c)")
    case False
    then have none: "list_all (\<lambda>ty. \<not> mirrorFed ty) (sel_ObjectTypes sel)" using c(2) by simp
    have "xs = [] \<or> (\<exists>ids desc. MatchDescendants (src t) (sel_ObjectTypes sel) (cont_Type c) ids = Inr desc \<and> xs = filter (selectorMatchesObject sel) desc)"
      using r cs by (auto simp: matchNestedObjects_def Let_def split: sum.splits if_splits)
    then have "set xs = {}" 
    proof (elim disjE exE conjE)
      fix ids desc
      assume d: "MatchDescendants (src t) (sel_ObjectTypes sel) (cont_Type c) ids = Inr desc" "xs = filter (selectorMatchesObject sel) desc"
      have "mirrorFed (mir_ObjectType m) \<and> mir_ObjectType m \<in> set (sel_ObjectTypes sel)" if "m \<in> set desc" for m
        using only_mirror [OF t d(1) that] by simp
      then show "set xs = {}" using none by (auto simp: d(2) list_all_iff)
    qed simp
    moreover have "selectorMatchesObject sel m \<Longrightarrow> \<not> mirrorFed (mir_ObjectType m)" for m
      using none by (auto simp: selectorMatchesObject_iff list_all_iff)
    ultimately show ?thesis by auto
  next
    case True
    have C: "{n \<in> set cs. containerSelected c bs n} = {a \<in> objects t. containerSelected c bs a}"
      by (rule container_objects [OF t cs True c(1)])
    then have S: "set selected = coord_of_object ` {a \<in> objects t. containerSelected c bs a}"
      by (simp add: selected_def)
    have ab: "a \<in> objects t" if "a \<in> above t m" for a m using above_mirror [OF t that] by simp
    show ?thesis
    proof (cases "selected = []")
      case True
      then have "xs = []" using r cs by (auto simp: matchNestedObjects_def selected_def split: sum.splits if_splits)
      then show ?thesis using S True ab by auto
    next
      case False
      obtain live where live: "liveObjects (src t) selected = Inr live"
        using r cs False by (auto simp: matchNestedObjects_def selected_def Let_def split: sum.splits if_splits)
      define ids where "ids = map mc_ObjectID (filter live selected)"
      have L: "live (coord_of_object a) \<longleftrightarrow> \<not> hidden t (coord_of_object a)" if "a \<in> objects t" "containerSelected c bs a" for a
        using that S True knd by (intro live_containers [OF t live _ refl]) auto
      have ids: "mir_ObjectID a \<in> set ids \<longleftrightarrow> containerSelected c bs a \<and> \<not> hidden t (coord_of_object a)"
        if a: "a \<in> objects t" "mir_ObjectType a = cont_Type c" for a
      proof
        assume "mir_ObjectID a \<in> set ids"
        then obtain b where b: "b \<in> objects t" "containerSelected c bs b" "live (coord_of_object b)" "mir_ObjectID a = mir_ObjectID b"
          using S by (auto simp: ids_def coord_of_object_def)
        then have "a = b" using a knd by (intro unique [OF t]) (simp_all add: coord_of_object_def)
        then show "containerSelected c bs a \<and> \<not> hidden t (coord_of_object a)" using b L by simp
      next
        assume "containerSelected c bs a \<and> \<not> hidden t (coord_of_object a)"
        then have "coord_of_object a \<in> set (filter live selected)" using L a S by auto
        then show "mir_ObjectID a \<in> set ids" unfolding ids_def by (force simp: coord_of_object_def)
      qed
      have ids_obj: "\<exists>a \<in> objects t. coord_of_object a = \<lparr>mc_ObjectType = cont_Type c, mc_ObjectID = i\<rparr>" if "i \<in> set ids" for i
        using that S knd by (force simp: ids_def coord_of_object_def)
      have "set xs = {m \<in> objects t. mirrorFed (mir_ObjectType m) \<and> selectorMatchesObject sel m
          \<and> (\<exists>a \<in> above t m. mir_ObjectType a = cont_Type c \<and> mir_ObjectID a \<in> set ids)}"
      proof (cases "ids = []")
        case True
        then have "xs = []" using r cs False live by (auto simp: matchNestedObjects_def selected_def Let_def ids_def split: sum.splits if_splits)
        then show ?thesis using True by simp
      next
        case nonempty: False
        obtain desc where desc: "MatchDescendants (src t) (sel_ObjectTypes sel) (cont_Type c) ids = Inr desc" "xs = filter (selectorMatchesObject sel) desc"
          using r cs False live nonempty unfolding ids_def selected_def matchNestedObjects_def Let_def by (auto split: sum.splits if_splits)
        show ?thesis using descendants [OF t desc(1) True ids_obj] by (auto simp: desc(2) selectorMatchesObject_iff)
      qed
      then show ?thesis using ids ab knd by blast
    qed
  qed
qed

end

lemma member_loop_writes:
  assumes "member_loop cat p sel m gs = Some tuples" "tuples \<noteq> []"
  shows "\<exists>g \<in> set gs. objectVerbsOf cat (mir_ObjectType m) (gr_verbs g) \<noteq> []"
  using assms by (induction gs arbitrary: tuples) (auto simp: Let_def split: if_splits option.splits)

lemma selectorGrantees_verbs:
  "g \<in> set (selectorGrantees bs sel) \<Longrightarrow> set (gr_verbs g) \<subseteq> set (sel_Verbs sel)"
  by (auto simp: selectorGrantees_def grantees_def subjectVerbs_def classReadVerbs_def split: if_splits)

lemma active_writes:
  assumes "desiredMemberForObject cat p (selectorGrantees bs sel) sel m sc = Some d" "dm_Status d = VerificationActive"
    and "mir_ObjectType m \<in> set (sel_ObjectTypes sel)"
  shows "selectorWritesObjects cat sel"
proof -
  obtain tuples where "tuples \<noteq> []" "member_loop cat p sel m (creatorGrantees sel (selectorGrantees bs sel) m) = Some tuples"
    using desiredMemberForObject_active(4) [OF assms(1,2)] by blast
  then obtain g where g: "g \<in> set (creatorGrantees sel (selectorGrantees bs sel) m)" "objectVerbsOf cat (mir_ObjectType m) (gr_verbs g) \<noteq> []"
    using member_loop_writes by blast
  then have "g \<in> set (selectorGrantees bs sel)" by (auto simp: creatorGrantees_def split: if_splits)
  then have "objectVerbsOf cat (mir_ObjectType m) (sel_Verbs sel) \<noteq> []"
    using g(2) selectorGrantees_verbs by (fastforce simp: objectVerbsOf_def filter_empty_conv)
  then show ?thesis using assms(3) by (auto simp: selectorWritesObjects_def list_ex_iff)
qed

lemma nested_grantees:
  "sel_Container sel = Some c \<Longrightarrow> selectorGrantees bs sel \<noteq> [] \<Longrightarrow> hasNonClassSubject bs"
  by (auto simp: selectorGrantees_def grantees_def hasNonClassSubject_def filter_empty_conv list_ex_iff)

definition selector_active :: "Facts \<Rightarrow> BindingScope \<Rightarrow> RuleSelector \<Rightarrow> MirrorObject \<Rightarrow> DesiredMember \<Rightarrow> bool" where
  "selector_active cat bs sel m d \<longleftrightarrow>
     desiredMemberForObject cat (bs_Policy bs) (selectorGrantees bs sel) sel m (bs_Scope bs) = Some d \<and> dm_Status d = VerificationActive"

lemma selector_active_contained: "selector_active cat bs sel m d \<Longrightarrow> IsContainedIn m (bs_Scope bs)"
  by (auto simp: selector_active_def dest: desiredMemberForObject_active(1))

lemma selector_active_coord: "selector_active cat bs sel m d \<Longrightarrow> desiredCoord d = coord_of_object m"
  by (auto simp: selector_active_def dest: desiredMemberForObject_active(2))

lemma selector_active_answers: "answers_for n m \<Longrightarrow> selector_active cat bs sel n d = selector_active cat bs sel m d"
  by (simp add: selector_active_def answers_for_fields)

context object_source
begin

lemma nested_selector:
  assumes t: "invar t" and sel: "sel \<in> set (bs_Selectors bs)" "selector_ok bs sel" "sel_Container sel = Some c" "selectorGrantees bs sel \<noteq> []"
    and r: "matchNestedObjects (src t) sel c bs = Inr xs" and m: "m \<in> objects t"
    and anc: "ancestors_for (src t) bs (mir_ObjectType m) (mir_ObjectID m) True = Inr anc"
  shows "m \<in> set xs \<longleftrightarrow> nestedCoversObject sel c bs m anc"
proof -
  have cont: "cont_Arm c = ArmLabels \<Longrightarrow> cont_MatchLabels c \<noteq> []"
    "mirrorFed (cont_Type c) \<or> list_all (\<lambda>ty. \<not> mirrorFed ty) (sel_ObjectTypes sel)"
    using sel(2,3) by (auto simp: selector_ok_def)
  have nc: "hasNonClassSubject bs" by (rule nested_grantees [OF sel(3,4)])
  have nest: "hasNestedSelector bs" using nc sel(1,3) by (auto simp: hasNestedSelector_def list_ex_iff)
  have X: "m \<in> set xs \<longleftrightarrow> mirrorFed (mir_ObjectType m) \<and> selectorMatchesObject sel m
      \<and> (\<exists>a \<in> above t m. containerSelected c bs a \<and> \<not> hidden t (coord_of_object a))"
    using nested_objects [OF t r cont(1) cont(2)] m by simp
  show ?thesis
  proof (cases "mirrorFed (mir_ObjectType m)")
    case True
    then have "AncestorObjects (src t) (mir_ObjectType m) (mir_ObjectID m) = Inr anc"
      using anc nest by (simp add: ancestors_for_def mirrorFed_def)
    then have "set anc = {a \<in> above t m. \<not> hidden t (coord_of_object a)}" by (rule ancestors [OF t _ m True])
    then show ?thesis unfolding X using True nc by (auto simp: nestedCoversObject_def list_ex_iff)
  next
    case False
    then have "FeedSourceForType (mir_ObjectType m) = FeedIAMDirect"
      by (cases "FeedSourceForType (mir_ObjectType m)") (simp_all add: mirrorFed_def)
    then have "anc = []" using anc nest by (simp add: ancestors_for_def)
    then show ?thesis unfolding X using False by (simp add: nestedCoversObject_def)
  qed
qed

lemma selector_agrees:
  assumes t: "invar t" and sel: "sel \<in> set (bs_Selectors bs)" "selector_ok bs sel"
    and r: "selector_objects cat (src t) bs sel = Inr xs" and m: "m \<in> objects t"
    and anc: "ancestors_for (src t) bs (mir_ObjectType m) (mir_ObjectID m) True = Inr anc"
  shows "(\<exists>n \<in> set xs. selector_active cat bs sel n d \<and> desiredCoord d = coord_of_object m) \<longleftrightarrow>
    selectorGrantees bs sel \<noteq> [] \<and> selector_on_object bs m anc sel \<and> selector_active cat bs sel m d"
proof (cases "selectorGrantees bs sel = []")
  case True
  then show ?thesis using r by (simp add: selector_objects_def)
next
  case gs: False
  have same: "k = m" if "k \<in> objects t" "answers_for n k" "selector_active cat bs sel n d" "desiredCoord d = coord_of_object m" for n k
    using that m answers_for_fields(3) [OF that(2)] selector_active_coord [OF that(3)] by (intro unique [OF t]) auto
  show ?thesis
  proof (cases "sel_Container sel")
    case (Some c)
    then have r': "matchNestedObjects (src t) sel c bs = Inr xs" using r gs by (simp add: selector_objects_def)
    have cont: "cont_Arm c = ArmLabels \<Longrightarrow> cont_MatchLabels c \<noteq> []"
      "mirrorFed (cont_Type c) \<or> list_all (\<lambda>ty. \<not> mirrorFed ty) (sel_ObjectTypes sel)"
      using sel(2) Some by (auto simp: selector_ok_def)
    have "set xs \<subseteq> objects t" using nested_objects [OF t r' cont] by blast
    then have "(\<exists>n \<in> set xs. selector_active cat bs sel n d \<and> desiredCoord d = coord_of_object m) \<longleftrightarrow> m \<in> set xs \<and> selector_active cat bs sel m d"
      using same selector_active_coord by (metis answers_for_refl subsetD)
    then show ?thesis using nested_selector [OF t sel Some gs r' m anc] gs Some by (simp add: selector_on_object_def)
  next
    case None
    have key: "(\<exists>n \<in> set xs. selector_active cat bs sel n d \<and> desiredCoord d = coord_of_object m) \<longleftrightarrow>
        selectorMatchesObject sel m \<and> in_target bs m \<and> selector_active cat bs sel m d"
    proof (cases "selectorWritesObjects cat sel")
      case False
      then have "xs = []" using r gs None by (simp add: selector_objects_def)
      then show ?thesis using False active_writes by (auto simp: selector_active_def selectorMatchesObject_iff)
    next
      case True
      have fwd: "\<exists>k \<in> objects t. answers_for n k \<and> selectorMatchesObject sel k \<and> in_target bs k" if "n \<in> set xs" for n
      proof (cases "sel_CreatedBySubject sel")
        case c: True
        then show ?thesis using creator_objects(1) [OF t, of sel bs xs n] r gs None True sel(2) that
          by (simp add: selector_objects_def selector_ok_def)
      next
        case c: False
        then show ?thesis using matched_objects(1) [OF t, of sel bs xs n] r gs None True sel(2) that
          by (simp add: selector_objects_def selector_ok_def)
      qed
      have bwd: "\<exists>n \<in> set xs. answers_for n m" if "selectorMatchesObject sel m" "in_target bs m" "selector_active cat bs sel m d"
      proof (cases "sel_CreatedBySubject sel")
        case c: True
        have "creatorGrantees sel (selectorGrantees bs sel) m \<noteq> []"
          using that(3) desiredMemberForObject_active(3) by (auto simp: selector_active_def)
        then show ?thesis using creator_objects(2) [OF t, of sel bs xs m] r gs None True sel(2) that m c selector_active_contained [OF that(3)]
          by (simp add: selector_objects_def selector_ok_def)
      next
        case c: False
        then show ?thesis using matched_objects(2) [OF t, of sel bs xs m] r gs None True sel(2) that m selector_active_contained [OF that(3)]
          by (simp add: selector_objects_def selector_ok_def)
      qed
      show ?thesis using fwd bwd same selector_active_answers selector_active_coord answers_for_fields(3) by metis
    qed
    then show ?thesis using gs None by (auto simp: selector_on_object_def)
  qed
qed

lemma selector_loop_agrees:
  assumes t: "invar t" and m: "m \<in> objects t"
    and anc: "ancestors_for (src t) bs (mir_ObjectType m) (mir_ObjectID m) True = Inr anc"
    and sels: "set sels \<subseteq> set (bs_Selectors bs)" "list_all (selector_ok bs) sels"
    and r: "selector_loop cat (src t) bs sels = Inr ds"
  shows "active_at ds (coord_of_object m) = {d. \<exists>sel \<in> set sels. selectorGrantees bs sel \<noteq> [] \<and> selector_on_object bs m anc sel
    \<and> selector_active cat bs sel m d}"
  using sels r
proof (induction sels arbitrary: ds)
  case Nil
  then show ?case by (simp add: active_at_def)
next
  case (Cons sel sels)
  obtain xs rest where xs: "selector_objects cat (src t) bs sel = Inr xs" and rest: "selector_loop cat (src t) bs sels = Inr rest"
    and ds: "ds = List.map_filter (\<lambda>m. desiredMemberForObject cat (bs_Policy bs) (selectorGrantees bs sel) sel m (bs_Scope bs)) xs @ rest"
    using Cons.prems(3) by (auto split: sum.splits)
  have "d \<in> active_at ds (coord_of_object m) \<longleftrightarrow>
      (\<exists>n \<in> set xs. selector_active cat bs sel n d \<and> desiredCoord d = coord_of_object m) \<or> d \<in> active_at rest (coord_of_object m)" for d
    by (auto simp: active_at_def ds selector_active_def map_filter_def intro!: image_eqI)
  moreover have "active_at rest (coord_of_object m) = {d. \<exists>sel \<in> set sels. selectorGrantees bs sel \<noteq> [] \<and> selector_on_object bs m anc sel
    \<and> selector_active cat bs sel m d}"
    using Cons.prems rest by (intro Cons.IH) auto
  moreover note selector_agrees [OF t _ _ xs m anc]
  ultimately show ?case using Cons.prems(1,2) by auto
qed

end

definition public_at :: "Facts \<Rightarrow> BindingScope \<Rightarrow> MemberCoord \<Rightarrow> DesiredMember set \<Rightarrow> DesiredMember set" where
  "public_at cat bs c ds =
     (if classSubjects bs = [] \<or> \<not> (\<exists>d \<in> ds. class_read bs (dm_RuleFP d)) then {}
      else set_option (publicReaderMember cat bs (classSubjects bs) (mc_ObjectType c) (mc_ObjectID c)
        (\<lambda>fp. class_read bs fp \<and> fp \<in> dm_RuleFP ` ds)))"

lemma publicReaderMember_at:
  assumes "publicReaderMember cat bs cls ty i own = Some d"
  shows "dm_Status d = VerificationActive" "desiredCoord d = \<lparr>mc_ObjectType = ty, mc_ObjectID = i\<rparr>"
  using assms by (auto simp: publicReaderMember_def Let_def desiredCoord_def split: if_splits option.splits)

lemma coord_eta: "\<lparr>mc_ObjectType = mc_ObjectType c, mc_ObjectID = mc_ObjectID c\<rparr> = (c :: MemberCoord)"
  by (cases c) simp

lemma active_at_public:
  "active_at (withPublicReaders cat bs ds) c = active_at ds c \<union> public_at cat bs c (active_at ds c)"
proof (cases "classSubjects bs = []")
  case True
  then show ?thesis by (simp add: withPublicReaders_def public_at_def)
next
  case False
  let ?own = "\<lambda>key. readers_of bs ds key"
  have own: "?own c = (\<lambda>fp. class_read bs fp \<and> fp \<in> dm_RuleFP ` active_at ds c)"
    by (rule ext) (auto simp: readers_of_def active_at_def list_ex_iff)
  have at: "dm_Status d = VerificationActive \<and> desiredCoord d = k"
    if "publicReaderMember cat bs (classSubjects bs) (mc_ObjectType k) (mc_ObjectID k) P = Some d" for d k P
    using publicReaderMember_at [OF that] by (simp add: coord_eta)
  have "d \<in> active_at (withPublicReaders cat bs ds) c \<longleftrightarrow> d \<in> active_at ds c \<or> d \<in> public_at cat bs c (active_at ds c)" for d
  proof -
    have "d \<in> active_at (withPublicReaders cat bs ds) c \<longleftrightarrow> d \<in> active_at ds c \<or>
        (\<exists>k. (\<exists>e \<in> set ds. dm_Status e = VerificationActive \<and> class_read bs (dm_RuleFP e) \<and> desiredCoord e = k)
          \<and> publicReaderMember cat bs (classSubjects bs) (mc_ObjectType k) (mc_ObjectID k) (?own k) = Some d
          \<and> dm_Status d = VerificationActive \<and> desiredCoord d = c)"
      using False by (force simp: withPublicReaders_def active_at_def map_filter_def Let_def)
    also have "\<dots> \<longleftrightarrow> d \<in> active_at ds c \<or>
        (\<exists>e \<in> active_at ds c. class_read bs (dm_RuleFP e))
          \<and> publicReaderMember cat bs (classSubjects bs) (mc_ObjectType c) (mc_ObjectID c) (?own c) = Some d"
      unfolding active_at_def mem_Collect_eq
      by (intro disj_cong refl, rule iffI) (auto dest: at, (metis at)+)
    also have "\<dots> \<longleftrightarrow> d \<in> active_at ds c \<or> d \<in> public_at cat bs c (active_at ds c)"
      using False by (auto simp: public_at_def own split: option.splits)
    finally show ?thesis .
  qed
  then show ?thesis by blast
qed

lemma active_at_append: "active_at (xs @ ys) c = active_at xs c \<union> active_at ys c"
  by (auto simp: active_at_def)

lemma scope_self_member_at:
  "scopeSelfMember cat gs ty i = Some d \<Longrightarrow> desiredCoord d = \<lparr>mc_ObjectType = ''iam.'' @ ty, mc_ObjectID = i\<rparr>"
  by (auto simp: scopeSelfMember_def desiredCoord_def split: if_split_asm option.split_asm)

lemma own_members_at:
  assumes "d \<in> set (scope_self_members cat bs @ containerMembers cat bs)"
  shows "desiredCoord d = \<lparr>mc_ObjectType = ''iam.'' @ anchor_Type (bs_Scope bs), mc_ObjectID = anchor_ID (bs_Scope bs)\<rparr>"
proof (cases "d \<in> set (scope_self_members cat bs)")
  case True
  then have "scopeSelfMember cat (grantees bs (bs_ScopeSelfVerbs bs) False) (anchor_Type (bs_Scope bs)) (anchor_ID (bs_Scope bs)) = Some d"
    unfolding scope_self_members_def
    by (cases "bs_ScopeSelfVerbs bs \<noteq> [] \<and> tgt_Resources (bs_Target bs) = []";
        cases "scopeSelfMember cat (grantees bs (bs_ScopeSelfVerbs bs) False) (anchor_Type (bs_Scope bs)) (anchor_ID (bs_Scope bs))")
      (simp_all only: if_True if_False simp_thms option.case list.set insert_iff empty_iff)
  then show ?thesis by (rule scope_self_member_at)
next
  case False
  then show ?thesis using assms
    unfolding containerMembers_def Let_def by (force simp: desiredCoord_def split: if_split_asm)
qed

lemma own_members_elsewhere:
  assumes "\<not> is_anchor_object bs m"
  shows "active_at (scope_self_members cat bs @ containerMembers cat bs) (coord_of_object m) = {}"
  using assms own_members_at [of _ cat bs] by (auto simp: active_at_def is_anchor_object_def coord_of_object_def)

lemma active_at_selectors:
  "active_at (List.map_filter (\<lambda>sel. desiredMemberForObject cat (bs_Policy bs) (selectorGrantees bs sel) sel m (bs_Scope bs)) (filter P sels)) (coord_of_object m)
    = {d. \<exists>sel \<in> set sels. P sel \<and> selector_active cat bs sel m d}"
proof (rule set_eqI)
  fix d
  have "d \<in> active_at (List.map_filter (\<lambda>sel. desiredMemberForObject cat (bs_Policy bs) (selectorGrantees bs sel) sel m (bs_Scope bs)) (filter P sels)) (coord_of_object m)
      \<longleftrightarrow> (\<exists>sel \<in> set sels. P sel \<and> selector_active cat bs sel m d \<and> desiredCoord d = coord_of_object m)"
    by (force simp: active_at_def map_filter_def selector_active_def)
  then show "d \<in> active_at (List.map_filter (\<lambda>sel. desiredMemberForObject cat (bs_Policy bs) (selectorGrantees bs sel) sel m (bs_Scope bs)) (filter P sels)) (coord_of_object m)
      \<longleftrightarrow> d \<in> {d. \<exists>sel \<in> set sels. P sel \<and> selector_active cat bs sel m d}"
    using selector_active_coord by blast
qed

context object_source
begin

lemma narrow_agrees:
  assumes t: "invar t" and m: "m \<in> objects t"
    and sels: "list_all (selector_ok bs) (bs_Selectors bs)" "bs_Selectors bs = [] \<Longrightarrow> bs_ScopeSelfVerbs bs = []"
    and anc: "ancestors_for (src t) bs (mir_ObjectType m) (mir_ObjectID m) True = Inr anc"
    and r: "desiredMembers cat (src t) bs = Inr full"
  shows "active_at full (coord_of_object m) = active_at (desiredMembersForObject cat bs m anc) (coord_of_object m)"
proof (cases "bs_Selectors bs = []")
  case True
  then show ?thesis using r sels(2)
    by (simp add: desiredMembers_def desiredMembersForObject_def scope_self_members_def containerMembers_def Let_def map_filter_def
      withPublicReaders_def active_at_def)
next
  case False
  then obtain ds where ds: "selector_loop cat (src t) bs (bs_Selectors bs) = Inr ds"
    and full: "full = withPublicReaders cat bs (scope_self_members cat bs @ ds @ containerMembers cat bs)"
    using r by (auto simp: desiredMembers_def desiredRuleMembers_def split: sum.splits)
  have "active_at (scope_self_members cat bs @ ds @ containerMembers cat bs) (coord_of_object m)
      = active_at ((if is_anchor_object bs m then scope_self_members cat bs @ containerMembers cat bs else [])
        @ List.map_filter (\<lambda>sel. desiredMemberForObject cat (bs_Policy bs) (selectorGrantees bs sel) sel m (bs_Scope bs))
            (filter (\<lambda>sel. selectorGrantees bs sel \<noteq> [] \<and> selector_on_object bs m anc sel) (bs_Selectors bs))) (coord_of_object m)"
    using own_members_elsewhere [of bs m cat] selector_loop_agrees [OF t m anc subset_refl sels(1) ds]
    unfolding active_at_append active_at_selectors by (auto simp: active_at_append active_at_def)
  then show ?thesis by (simp only: full desiredMembersForObject_def active_at_public)
qed

end

subsection \<open>The projection of a binding\<close>

datatype RoleLifecycleState = RoleLifecycleUnset | RoleLifecycleDeclared | RoleLifecycleWithdrawn

definition scopeTypeVerbs :: "Facts \<Rightarrow> string \<Rightarrow> string list" where
  "scopeTypeVerbs cat scopeType = (if length (VerbsOfType cat scopeType) > 0 then VerbsOfType cat scopeType else AllVerbVocabulary cat)"

definition bindingSubjects :: "AccessBinding \<Rightarrow> Subject list" where
  "bindingSubjects b = (if length (ab_Subjects b) > 0 then ab_Subjects b else [\<lparr>sub_Type = ab_SubjectType b, sub_ID = ab_SubjectID b\<rparr>])"

definition scopeAnchorFor :: "AccessBinding \<Rightarrow> ScopeAnchor" where
  "scopeAnchorFor b = \<lparr>anchor_Type = ab_ResourceType b, anchor_ID = ab_ResourceID b\<rparr>"

definition no_role :: "string \<Rightarrow> Role" where
  \<comment> \<open>\<open>domain.Role{ID: role.ID}\<close>\<close>
  "no_role i = \<lparr>role_ID = i, ClusterID = [], AccountID = [], ProjectID = [], role_Name = [], role_Description = [],
     role_Rules = [], role_Permissions = [], IsSystem = False, OwnerModule = [], role_Labels = []\<rparr>"

definition bindingScopeFrom :: "Facts \<Rightarrow> (string \<Rightarrow> string) \<Rightarrow> AccessBinding \<Rightarrow> Role \<Rightarrow> RoleLifecycleState \<Rightarrow> BindingScope" where
  "bindingScopeFrom cat H b role0 state =
     (let role = (if state \<noteq> RoleLifecycleDeclared then no_role (role_ID role0) else role0)
      in \<lparr>bs_BindingID = ab_ID b, bs_Scope = scopeAnchorFor b, bs_Subjects = bindingSubjects b, bs_RoleID = ab_RoleID b,
          bs_Policy = PolicyOfRole (IsSystem role) (OwnerModule role),
          bs_Selectors = MaterializingSelectorsInScope H (role_Rules role) (ab_Scope b),
          bs_ScopeSelfVerbs = (case ScopeSelfVerbs (role_Rules role) (ab_ResourceType b) (scopeTypeVerbs cat (ab_ResourceType b)) of
             None \<Rightarrow> [] | Some vs \<Rightarrow> vs),
          bs_Target = ab_Target b, bs_Active = (ab_Status b = ''ACTIVE'')\<rparr>)"

subsection \<open>The gates of a creator role\<close>

datatype creator_gate_error = CreatorScopeNotAccount | CreatorTargetNotAllInScope | CreatorSubjectNotServiceAccount

definition isCreatorRole :: "Facts option \<Rightarrow> rules \<Rightarrow> bool" where
  "isCreatorRole facts rules \<longleftrightarrow>
     list_ex (\<lambda>r. CreatedBySubject r \<or> (facts \<noteq> None \<and> length (ContainerGrants facts (Module r) (Resources r) (Verbs r)) > 0)) rules"

definition validateCreatorRoleGates :: "Facts option \<Rightarrow> Role \<Rightarrow> AccessBinding \<Rightarrow> creator_gate_error option" where
  "validateCreatorRoleGates facts role b =
     (if \<not> isCreatorRole facts (role_Rules role) then None
      else if ab_ResourceType b \<noteq> ''account'' then Some CreatorScopeNotAccount
      else if length (tgt_Resources (ab_Target b)) > 0 then Some CreatorTargetNotAllInScope
      else if list_ex (\<lambda>s. sub_Type s \<noteq> SubjectTypeServiceAccount) (ab_Subjects b) then Some CreatorSubjectNotServiceAccount
      else None)"

lemma dotted_feed: "mirrorFed (m @ ''.'' @ r) \<longleftrightarrow> mirrorFed (m @ ''.'' @ s)"
proof -
  have "has_prefix (m @ ''.'' @ q) ''iam.'' \<longleftrightarrow> take 4 (m @ ''.'') = ''iam.''" for q
  proof (cases "length m \<ge> 3")
    case True
    then have "take 4 (m @ ''.'' @ q) = take 4 (m @ ''.'')" by (cases "length m = 3") simp_all
    then show ?thesis by (simp add: has_prefix_def numeral_eq_Suc)
  next
    case False
    then have "m = [] \<or> (\<exists>a. m = [a]) \<or> (\<exists>a b. m = [a, b])"
      by (cases m; cases "tl m"; cases "tl (tl m)") auto
    then show ?thesis by (auto simp: has_prefix_def)
  qed
  then show ?thesis by (simp add: mirrorFed_def FeedSourceForType_def)
qed

lemma dotted_loop_prefix:
  "ty \<in> set (dotted_loop m False types ress) \<Longrightarrow> ty \<in> set types \<or> (\<exists>r. ty = m @ ''.'' @ r)"
  by (induction ress arbitrary: types) (fastforce split: if_splits)+

lemma nested_selector_ok:
  assumes "sel \<in> set (nestedSelectors H own)"
  shows "selector_ok bs sel"
proof -
  obtain raw where own: "OwnerType own \<noteq> []" "sel_ObjectTypes sel = dottedTypes (effective_child own raw) False"
      "sel_Container sel = Some (containerOf H own)" "\<not> sel_CreatedBySubject sel"
      "sel_Arm sel = Rule_Arm (effective_child own raw)"
      "sel_MatchLabels sel = (if Rule_Arm (effective_child own raw) = ArmLabels then labels_of (effective_child own raw) else [])"
    using assms by (auto simp: nestedSelectors_def EffectiveChildren_def zip_map2 zip_same_conv_map split: if_splits)
  have "mirrorFed (OwnerType own) \<or> (\<forall>ty \<in> set (sel_ObjectTypes sel). \<not> mirrorFed ty)"
  proof -
    have m: "OwnerType own = Module own @ ''.'' @ hd (Resources own)" "Module own \<noteq> wildcard"
      using own(1) by (auto simp: OwnerType_def split: if_splits)
    have "\<exists>r. ty = Module own @ ''.'' @ r" if "ty \<in> set (sel_ObjectTypes sel)" for ty
      using that m(2) own(2) dotted_loop_prefix [of ty "Module own" "[]"] by (auto simp: dottedTypes_def effective_child_def)
    then show ?thesis using m(1) dotted_feed by metis
  qed
  then show ?thesis using own by (auto simp: selector_ok_def containerOf_def Rule_Arm_def list_all_iff split: if_splits)
qed

lemma binding_selectors_ok:
  assumes rules: "Rules_Validate p modules (role_Rules role) = []" and gate: "validateCreatorRoleGates facts role b = None"
    and subjects: "ab_Subjects b \<noteq> []" and bs: "bs = bindingScopeFrom cat H b role state"
  shows "list_all (selector_ok bs) (bs_Selectors bs)" "bs_Selectors bs = [] \<Longrightarrow> bs_ScopeSelfVerbs bs = []"
proof -
  let ?rs = "if state \<noteq> RoleLifecycleDeclared then [] else role_Rules role"
  have rs: "bs_Selectors bs = MaterializingSelectorsInScope H ?rs (ab_Scope b)"
      "bs_ScopeSelfVerbs bs = (case ScopeSelfVerbs ?rs (ab_ResourceType b) (scopeTypeVerbs cat (ab_ResourceType b)) of None \<Rightarrow> [] | Some vs \<Rightarrow> vs)"
      "bs_Subjects bs = ab_Subjects b"
    using subjects by (simp_all add: bs bindingScopeFrom_def no_role_def bindingSubjects_def Let_def)
  have ok: "selector_ok bs (rule_selector H e r)" if r: "r \<in> set (role_Rules role)" for r e
  proof -
    have "Rule_Arm r = ArmAnchor \<and> list_all (\<lambda>s. sub_Type s = SubjectTypeServiceAccount) (ab_Subjects b)" if c: "CreatedBySubject r"
    proof
      have "Rule_Validate p modules r = []" using rules r by (rule Rules_Validate_member)
      then have "validate_own p modules r = []" by (simp add: Rule_Validate.simps)
      then show "Rule_Arm r = ArmAnchor" using c by (auto simp: validate_own_def Rule_Arm_def split: if_splits)
      have "isCreatorRole facts (role_Rules role)" using r c by (auto simp: isCreatorRole_def list_ex_iff)
      then show "list_all (\<lambda>s. sub_Type s = SubjectTypeServiceAccount) (ab_Subjects b)"
        using gate by (auto simp: validateCreatorRoleGates_def list_all_iff list_ex_iff split: if_splits)
    qed
    then show ?thesis using rs(3) by (auto simp: selector_ok_def rule_selector_def Rule_Arm_def split: if_splits)
  qed
  show "list_all (selector_ok bs) (bs_Selectors bs)"
    unfolding rs(1) by (auto simp: MaterializingSelectorsInScope_def materializingSelectors_def list_all_iff ok nested_selector_ok)
  show "bs_Selectors bs = [] \<Longrightarrow> bs_ScopeSelfVerbs bs = []"
    unfolding rs(1,2) by (cases "?rs") (simp_all add: MaterializingSelectorsInScope_def materializingSelectors_def ScopeSelfVerbs_def split: if_splits)
qed

text \<open>
  C3: Whatever queries fail or skip rows that are being deleted, a pass over one object gives the
  object the same active members, with the same tuples, as a pass over the whole binding, when
  the role of the binding is accepted and the binding passed the gates of creator roles.
\<close>

theorem object_pass_agrees_with_full_pass:
  assumes "pg_ok t" and "m \<in> pg_objects t"
    and "Rules_Validate p modules (role_Rules role) = []" and "validateCreatorRoleGates (Some cat) role b = None"
    and "ab_Subjects b \<noteq> []"
    and "ancestors_for (pg_src t) (bindingScopeFrom cat H b role state) (mir_ObjectType m) (mir_ObjectID m) True = Inr anc"
    and "desiredMembers cat (pg_src t) (bindingScopeFrom cat H b role state) = Inr full"
  shows "active_at full (coord_of_object m)
    = active_at (desiredMembersForObject cat (bindingScopeFrom cat H b role state) m anc) (coord_of_object m)"
  by (rule pg_objects.narrow_agrees [OF assms(1,2) binding_selectors_ok(1) [OF assms(3-5) refl]
        binding_selectors_ok(2) [OF assms(3-5) refl] assms(6,7)])

definition sample_rows :: Halves where
  "sample_rows =
     (let res = \<lambda>m r t ps pub. \<lparr>rr_Module = m, rr_Resource = r, rr_ObjectType = t, rr_SupersededBy = [], rr_ParentTypes = ps,
        rr_ParentNames = [], rr_Writes = [], rr_PublicReadToChildren = pub, rr_PermanentProject = False\<rparr>;
        verb = \<lambda>m r v. \<lparr>vr_Module = m, vr_Resource = r, vr_Verb = v, vr_PerObject = True, vr_ContainerParent = [], vr_ContainerRelation = []\<rparr>
      in \<lparr>Live = \<lparr>rows_Modules = [''iam'', ''registry''],
            rows_Resources = [res ''iam'' ''project'' ''project'' [] False,
              res ''registry'' ''registries'' ''registry_registry'' [''project''] True,
              res ''registry'' ''repositories'' ''registry_repository'' [''registry_registry''] False],
            rows_Verbs = [verb ''iam'' ''project'' ''get'', verb ''registry'' ''registries'' ''get'', verb ''registry'' ''registries'' ''update'',
              verb ''registry'' ''registries'' ''delete'', verb ''registry'' ''repositories'' ''get'']\<rparr>,
          Retired = \<lparr>rows_Modules = [], rows_Resources = [], rows_Verbs = []\<rparr>\<rparr>)"

definition sample_catalog :: Facts where
  "sample_catalog = projr (NewFacts (\<lambda>l. l) sample_rows)"

definition sample_store :: pg_state where
  "sample_store =
     (let row = \<lambda>t i. \<lparr>mw_ObjectType = t, mw_ObjectID = i, mw_ParentProjectID = ''p1'', mw_ParentAccountID = [], mw_Labels = []\<rparr>
      in \<lparr>pg_tables = \<lparr>tb_mirror = [row ''registry.registries'' ''r1'', row ''registry.repositories'' ''x1''],
            tb_edges = [\<lparr>pe_ObjectType = ''registry_repository'', pe_ObjectID = ''x1'', pe_ParentType = ''registry_registry'',
              pe_ParentID = ''r1'', pe_Depth = 1\<rparr>],
            tb_catalog = [\<lparr>cr_Dotted = ''registry.registries'', cr_ObjectType = ''registry_registry'', cr_Live = True\<rparr>,
              \<lparr>cr_Dotted = ''registry.repositories'', cr_ObjectType = ''registry_repository'', cr_Live = True\<rparr>],
            tb_projects = [''p1'' \<mapsto> ''a1''], tb_memberships = [], tb_iam = []\<rparr>,
          pg_down = (\<lambda>_. False), pg_busy = (\<lambda>_. False)\<rparr>)"

definition sample_editor :: Role where
  "sample_editor = (no_role ''rol1'')\<lparr>role_Rules := [Rule ''registry'' [''registries''] [''update''] [''r1''] None
     (Some [Rule [] [''repositories''] [''get''] [] None None False]) False]\<rparr>"

definition sample_binding :: AccessBinding where
  "sample_binding = \<lparr>ab_ID = ''acb1'', ab_SubjectType = [], ab_SubjectID = [], ab_RoleID = ''rol1'', ab_ResourceType = ''project'',
     ab_ResourceID = ''p1'', ab_Scope = ScopeProject, ab_Status = ''ACTIVE'', ab_ExpiresAt = None, ab_GrantedByUserID = [],
     ab_RevokedByUserID = None, ab_CreatedAt = 0, ab_GrantedRelation = [], ab_System = False,
     ab_Subjects = [\<lparr>sub_Type = SubjectTypeUser, sub_ID = ''usr1''\<rparr>], ab_Labels = [], ab_Target = \<lparr>AllInScope = True, tgt_Resources = []\<rparr>\<rparr>"
definition sample_bs :: BindingScope where
  "sample_bs = bindingScopeFrom sample_catalog id sample_binding sample_editor RoleLifecycleDeclared"

definition sample_repo :: MirrorObject where
  "sample_repo = mirrorRowToDomain (pg_tables sample_store) (tb_mirror (pg_tables sample_store) ! 1)"

definition sample_registry :: MirrorObject where
  "sample_registry = mirrorRowToDomain (pg_tables sample_store) (tb_mirror (pg_tables sample_store) ! 0)"

lemma sample_accepted:
  "Rules_Validate (PolicyOfRole False []) (Some (ModuleSetOf [''registry''])) (role_Rules sample_editor) = []"
  by code_simp

lemma sample_gates: "validateCreatorRoleGates (Some sample_catalog) sample_editor sample_binding = None"
  by code_simp

lemma sample_full:
  "isl (desiredMembers sample_catalog (pg_src sample_store) sample_bs) = False
   \<and> map desiredCoord (projr (desiredMembers sample_catalog (pg_src sample_store) sample_bs)) = [coord_of_object sample_registry, coord_of_object sample_repo]
   \<and> list_all (\<lambda>d. dm_Status d = VerificationActive) (projr (desiredMembers sample_catalog (pg_src sample_store) sample_bs))"
  by code_simp

lemma sample_ancestors: "ancestors_for (pg_src sample_store) sample_bs (mir_ObjectType sample_repo) (mir_ObjectID sample_repo) True = Inr [sample_registry]"
  by code_simp

lemma sample_pg_ok: "pg_ok sample_store" by code_simp

lemma sample_objects: "sample_repo \<in> pg_objects sample_store" "sample_registry \<in> pg_objects sample_store"
  by (simp_all add: pg_objects_def sample_repo_def sample_registry_def sample_store_def Let_def)

lemma object_pass_agrees_with_full_pass_witness:
  "\<exists>full. desiredMembers sample_catalog (pg_src sample_store) sample_bs = Inr full
     \<and> active_at full (coord_of_object sample_repo) \<noteq> {}
     \<and> active_at full (coord_of_object sample_repo)
         = active_at (desiredMembersForObject sample_catalog sample_bs sample_repo [sample_registry]) (coord_of_object sample_repo)"
proof -
  obtain full where full: "desiredMembers sample_catalog (pg_src sample_store) sample_bs = Inr full"
      "map desiredCoord full = [coord_of_object sample_registry, coord_of_object sample_repo]"
      "list_all (\<lambda>d. dm_Status d = VerificationActive) full"
    using sample_full by (cases "desiredMembers sample_catalog (pg_src sample_store) sample_bs") simp_all
  have "coord_of_object sample_repo \<in> desiredCoord ` set full" unfolding set_map [symmetric] full(2) by simp
  then have "active_at full (coord_of_object sample_repo) \<noteq> {}" using full(3) by (force simp: active_at_def list_all_iff)
  moreover have "ab_Subjects sample_binding \<noteq> []" by (simp add: sample_binding_def)
  ultimately show ?thesis
    using full(1) object_pass_agrees_with_full_pass [OF sample_pg_ok sample_objects(1) sample_accepted sample_gates _
        sample_ancestors [unfolded sample_bs_def] full(1) [unfolded sample_bs_def]]
    by (intro exI [of _ full]) (simp add: sample_bs_def)
qed

end
