(* ===== verification/Reconcile_Store.thy ===== *)
theory Reconcile_Store
  imports Reconcile_Desired
begin

text \<open>
  The tables that a reconcile pass writes: the members of the bindings, the ledger of emitted
  tuples, the journal of tuple writes and deletes, and the direct facts that the database folds
  from the journal in the same transaction.

  Sources: the writing half of \<open>internal/repo/kaname/pg/reconcile_adapter.go\<close>,
  \<open>pg/target_members/store.go\<close>, \<open>pg/fga_outbox/emitter.go\<close> and the fold
  \<open>relation_fact_fold_row\<close> of the migration
  \<open>20261019180000_relation_fact_delete_keeps_a_held_fact.sql\<close>. The constraints on the columns of
  a fact (\<open>fact_accepted\<close>) and of the row of a member in the ledger (\<open>member_row_accepted\<close>) are those
  of the migrations \<open>20261015120000\<close>, \<open>20261017020000\<close> and \<open>20261021081500\<close>; a write that they refuse
  fails. The creation of a binding records rows of its own at the empty coordinate; the passes
  write rows of members only.

  Every call of the adapter may fail (\<open>pe_down\<close>, by name and arguments); a failed transaction
  leaves the tables as they were. A pass holds the lock of its binding, and the fold asks for
  holders under the lock of the row of the fact, so passes are modelled one after the other.
  The row of a write is stamped with the start of the transaction, the row of a delete with the
  clock at its insertion (\<open>pe_clock\<close>, indexed by the length of the journal).
\<close>

subsection \<open>Tables\<close>

record LedgerRow =
  lr_Member :: MemberCoord
  lr_Tuple :: MembershipTuple

record EmittedTupleRef =
  et_BindingID :: string
  et_Member :: MemberCoord
  et_Tuple :: MembershipTuple

record grantGroup =
  gg_user :: string
  gg_object :: string
  gg_relations :: "string list"

datatype event_type = EventTypeWrite | EventTypeDelete

record Fact =
  fact_version :: instant
  fact_condition :: string

datatype audit_event =
    ContainmentRejected string string string ScopeAnchor "string option" \<comment> \<open>binding, object type, object, scope, tenant\<close>
  | BindingRevoked string Subject ScopeAnchor string string \<comment> \<open>binding, subject, scope, role, tenant\<close>

record Store =
  st_members :: "TargetMember list"
  st_ledger :: "EmittedTupleRef list"
  st_journal :: "(event_type \<times> grantGroup) list"
  st_facts :: "MembershipTuple \<rightharpoonup> Fact"
  st_bindings :: "AccessBinding list"
  st_roles :: "string \<rightharpoonup> Role \<times> RoleLifecycleState"
  st_selectors :: "(string \<times> RuleSelector) list" \<comment> \<open>the selectors of the roles, by role\<close>
  st_admins :: "(string \<times> string) list" \<comment> \<open>cluster and subject of the unexpired administrator grants\<close>
  st_audit :: "audit_event list"
  st_changes :: "(string \<times> string) list" \<comment> \<open>subject, kind of subject\<close>

datatype pass_error =
    Database query
  | IncompleteTuple MembershipTuple
  | RowConstraint
  | ObjectMalformed string
  | ObjectInCatalogVocabulary string
  | FactConstraint
  | SubjectIDRequired
  | CoverageDesync DesiredMember

record PassEnv =
  pe_src :: Source
  pe_down :: "query \<Rightarrow> bool"
  pe_cat :: Facts
  pe_hash :: "string \<Rightarrow> string"
  pe_begin :: instant
  pe_clock :: "nat \<Rightarrow> instant"
  pe_account :: "string \<rightharpoonup> string" \<comment> \<open>account of a project\<close>
  pe_tables :: Tables \<comment> \<open>mirror and own tables that the lookup of bindings joins\<close>
  pe_walk :: "TargetMember list \<Rightarrow> TargetMember list" \<comment> \<open>order in which a map is walked\<close>

definition call :: "PassEnv \<Rightarrow> string \<Rightarrow> string list \<Rightarrow> (pass_error, 'a) result \<Rightarrow> (pass_error, 'a) result" where
  "call e name args r = (if pe_down e (name, args) then Inl (Database (name, args)) else r)"

definition query :: "(query, 'a) result \<Rightarrow> (pass_error, 'a) result" where
  "query r = (case r of Inl q \<Rightarrow> Inl (Database q) | Inr x \<Rightarrow> Inr x)"

subsection \<open>The journal and its fold\<close>

fun add_grant :: "grantGroup list \<Rightarrow> MembershipTuple \<Rightarrow> grantGroup list" where
  "add_grant [] t = [\<lparr>gg_user = mt_User t, gg_object = mt_Object t, gg_relations = [mt_Relation t]\<rparr>]"
| "add_grant (g # gs) t =
     (if gg_user g = mt_User t \<and> gg_object g = mt_Object t then g\<lparr>gg_relations := gg_relations g @ [mt_Relation t]\<rparr> # gs
      else g # add_grant gs t)"

definition groupByGrant :: "MembershipTuple list \<Rightarrow> grantGroup list" where
  "groupByGrant tuples =
     sort_key gg_object (sort_key gg_user
       (map (\<lambda>g. g\<lparr>gg_relations := sort (gg_relations g)\<rparr>) (foldl add_grant [] (first_seen tuples))))"

definition split_object :: "string \<Rightarrow> (pass_error, string \<times> string) result" where
  "split_object object =
     (let ty = takeWhile (\<lambda>c. c \<noteq> CHR '':'') object; i = drop (length ty + 1) object
      in if ty = [] \<or> i = [] then Inl (ObjectMalformed object)
         else if CHR ''.'' \<in> set ty then Inl (ObjectInCatalogVocabulary ty) else Inr (ty, i))"

definition condition_of :: "string \<Rightarrow> string \<Rightarrow> string \<Rightarrow> string" where
  "condition_of ty relation user =
     (if ty = ''compute_instance'' \<and> (relation = ''console'' \<or> relation = ''ssh'')
        \<and> takeWhile (\<lambda>c. c \<noteq> CHR '':'') user = ''user'' then ''mfa_fresh'' else [])"

definition stored_subject :: "string \<Rightarrow> string \<Rightarrow> string" where
  "stored_subject user relation =
     (if user = ''user:*'' then (if relation = ''v_get'' then ''system_class:anonymous'' else ''system_class:authenticated'') else user)"

definition binding_row :: "Store \<Rightarrow> string \<Rightarrow> AccessBinding option" where
  "binding_row st b = List.find (\<lambda>ab. ab_ID ab = b) (st_bindings st)"

definition binding_active :: "Store \<Rightarrow> string \<Rightarrow> bool" where
  "binding_active st b \<longleftrightarrow> (case binding_row st b of None \<Rightarrow> False | Some ab \<Rightarrow> ab_Status ab = ''ACTIVE'')"

definition holds_tuple :: "Store \<Rightarrow> MembershipTuple \<Rightarrow> bool" where
  "holds_tuple st t \<longleftrightarrow>
     list_ex (\<lambda>r. et_Tuple r = t \<and> binding_active st (et_BindingID r)) (st_ledger st)
     \<or> (mt_Relation t = ''system_admin'' \<and> list_ex (\<lambda>(c, s). mt_Object t = ''cluster:'' @ c \<and> s = mt_User t) (st_admins st))"

fun wildcard_subject :: "string \<Rightarrow> bool" where
  \<comment> \<open>the pattern \<open>:\*($|#)\<close> of the constraints on subjects\<close>
  "wildcard_subject [] = False"
| "wildcard_subject (c # cs) =
     ((c = CHR '':'' \<and> (cs = ''*'' \<or> has_prefix cs ''*#'')) \<or> wildcard_subject cs)"

definition subject_class :: "string \<Rightarrow> bool" where
  "subject_class user \<longleftrightarrow> user = ''system_class:anonymous'' \<or> user = ''system_class:authenticated''"

definition fact_accepted :: "MembershipTuple \<Rightarrow> bool" where
  \<comment> \<open>\<open>relation_fact_subject_not_wildcard\<close>, \<open>relation_fact_subject_class_reads_only\<close>,
     \<open>relation_fact_public_reader_subject_is_class\<close> and the non-empty columns\<close>
  "fact_accepted t \<longleftrightarrow> mt_User t \<noteq> [] \<and> mt_Relation t \<noteq> [] \<and> \<not> wildcard_subject (mt_User t)
     \<and> (takeWhile (\<lambda>c. c \<noteq> CHR '':'') (mt_User t) = ''system_class''
        \<longrightarrow> subject_class (mt_User t) \<and> mt_Relation t \<in> {''v_get'', ''viewer'', ''system_viewer'', ''public_reader''})
     \<and> (mt_Relation t = ''public_reader'' \<longrightarrow> subject_class (mt_User t))"

definition fold_write :: "string \<Rightarrow> instant \<Rightarrow> MembershipTuple \<Rightarrow> Store \<Rightarrow> (pass_error, Store) result" where
  "fold_write ty stamp t st =
     (if \<not> fact_accepted t then Inl FactConstraint
      else Inr (case st_facts st t of
          Some f \<Rightarrow> if fact_version f < stamp
            then st\<lparr>st_facts := (st_facts st)(t \<mapsto> \<lparr>fact_version = stamp, fact_condition = condition_of ty (mt_Relation t) (mt_User t)\<rparr>)\<rparr>
            else st
        | None \<Rightarrow> st\<lparr>st_facts := (st_facts st)(t \<mapsto> \<lparr>fact_version = stamp, fact_condition = condition_of ty (mt_Relation t) (mt_User t)\<rparr>)\<rparr>))"

definition fold_delete :: "instant \<Rightarrow> MembershipTuple \<Rightarrow> Store \<Rightarrow> (pass_error, Store) result" where
  "fold_delete stamp t0 st =
     (let t = t0\<lparr>mt_User := stored_subject (mt_User t0) (mt_Relation t0)\<rparr> in
      Inr (case st_facts st t of
          None \<Rightarrow> st
        | Some f \<Rightarrow> if holds_tuple st t then st
            else if fact_version f \<le> stamp then st\<lparr>st_facts := (st_facts st)(t := None)\<rparr> else st))"

fun fold_relations :: "event_type \<Rightarrow> string \<Rightarrow> string \<Rightarrow> string \<Rightarrow> instant \<Rightarrow> string list \<Rightarrow> Store \<Rightarrow> (pass_error, Store) result" where
  "fold_relations ev ty user object stamp [] st = Inr st"
| "fold_relations ev ty user object stamp (r # rs) st =
     (case (case ev of
              EventTypeWrite \<Rightarrow> fold_write ty stamp \<lparr>mt_User = user, mt_Relation = r, mt_Object = object\<rparr> st
            | EventTypeDelete \<Rightarrow> fold_delete stamp \<lparr>mt_User = user, mt_Relation = r, mt_Object = object\<rparr> st) of
        Inl err \<Rightarrow> Inl err
      | Inr st1 \<Rightarrow> fold_relations ev ty user object stamp rs st1)"

definition relation_fact_fold_row :: "event_type \<Rightarrow> instant \<Rightarrow> grantGroup \<Rightarrow> Store \<Rightarrow> (pass_error, Store) result" where
  \<comment> \<open>the row of a binding, which carries no version of an owner\<close>
  "relation_fact_fold_row ev stamp g st =
     (let relations = filter (\<lambda>r. \<not> has_prefix r ''v_'') (gg_relations g)
      in if relations = [] then Inr st
         else (case split_object (gg_object g) of
                 Inl err \<Rightarrow> Inl err
               | Inr (ty, i) \<Rightarrow> fold_relations ev ty (gg_user g) (gg_object g) stamp relations st))"

fun fold_rows :: "event_type \<Rightarrow> instant \<Rightarrow> grantGroup list \<Rightarrow> Store \<Rightarrow> (pass_error, Store) result" where
  "fold_rows ev stamp [] st = Inr st"
| "fold_rows ev stamp (g # gs) st =
     (case relation_fact_fold_row ev stamp g st of Inl err \<Rightarrow> Inl err | Inr st1 \<Rightarrow> fold_rows ev stamp gs st1)"

definition emitTx :: "PassEnv \<Rightarrow> event_type \<Rightarrow> MembershipTuple list \<Rightarrow> Store \<Rightarrow> (pass_error, Store) result" where
  "emitTx e ev tuples st =
     (if tuples = [] then Inr st
      else let groups = groupByGrant tuples;
               stamp = (case ev of EventTypeWrite \<Rightarrow> pe_begin e | EventTypeDelete \<Rightarrow> pe_clock e (length (st_journal st)))
        in call e ''fga_outbox'' (map gg_object groups)
             (fold_rows ev stamp groups (st\<lparr>st_journal := st_journal st @ map (Pair ev) groups\<rparr>)))"

definition EmitTupleWrite :: "PassEnv \<Rightarrow> MembershipTuple list \<Rightarrow> Store \<Rightarrow> (pass_error, Store) result" where
  "EmitTupleWrite e = emitTx e EventTypeWrite"

definition EmitTupleDelete :: "PassEnv \<Rightarrow> MembershipTuple list \<Rightarrow> Store \<Rightarrow> (pass_error, Store) result" where
  "EmitTupleDelete e = emitTx e EventTypeDelete"

subsection \<open>The ledger\<close>

definition complete_tuple :: "MembershipTuple \<Rightarrow> bool" where
  "complete_tuple t \<longleftrightarrow> mt_User t \<noteq> [] \<and> mt_Relation t \<noteq> [] \<and> mt_Object t \<noteq> []"

fun ledger_columns :: "EmittedTupleRef list \<Rightarrow> EmittedTupleRef list \<Rightarrow> (pass_error, EmittedTupleRef list) result" where
  \<comment> \<open>\<open>ledgerColumns.add\<close> on every reference\<close>
  "ledger_columns seen [] = Inr seen"
| "ledger_columns seen (r # rs) =
     (if \<not> complete_tuple (et_Tuple r) then Inl (IncompleteTuple (et_Tuple r))
      else ledger_columns (if r \<in> set seen then seen else seen @ [r]) rs)"

definition dotted_name :: "string \<Rightarrow> bool" where
  \<comment> \<open>the pattern of two non-empty parts around one dot\<close>
  "dotted_name s \<longleftrightarrow>
     (let a = takeWhile (\<lambda>c. c \<noteq> CHR ''.'') s; r = drop (length a + 1) s
      in a \<noteq> [] \<and> r \<noteq> [] \<and> CHR ''.'' \<notin> set r)"

definition member_row_accepted :: "EmittedTupleRef \<Rightarrow> bool" where
  \<comment> \<open>\<open>access_binding_emitted_tuples_user_not_wildcard\<close> and \<open>_member_coordinate\<close> on the row of a member\<close>
  "member_row_accepted r \<longleftrightarrow>
     (let object = mt_Object (et_Tuple r); ty = takeWhile (\<lambda>c. c \<noteq> CHR '':'') object
      in \<not> wildcard_subject (mt_User (et_Tuple r)) \<and> dotted_name (mc_ObjectType (et_Member r)) \<and> mc_ObjectID (et_Member r) \<noteq> []
         \<and> ty \<noteq> [] \<and> CHR '':'' \<in> set object \<and> drop (length ty + 1) object = mc_ObjectID (et_Member r))"

definition RecordEmittedTuplesBatch :: "PassEnv \<Rightarrow> EmittedTupleRef list \<Rightarrow> Store \<Rightarrow> (pass_error, Store) result" where
  "RecordEmittedTuplesBatch e refs st =
     (if refs = [] then Inr st
      else (case ledger_columns [] refs of
              Inl err \<Rightarrow> Inl err
            | Inr rows \<Rightarrow> call e ''RecordEmittedTuples'' (map (mt_Object \<circ> et_Tuple) rows)
                (if \<not> list_all member_row_accepted rows then Inl RowConstraint
                 else Inr (st\<lparr>st_ledger := st_ledger st @ filter (\<lambda>r. r \<notin> set (st_ledger st)) rows\<rparr>))))"

definition RecordEmittedTuples :: "PassEnv \<Rightarrow> string \<Rightarrow> MemberCoord \<Rightarrow> MembershipTuple list \<Rightarrow> Store \<Rightarrow> (pass_error, Store) result" where
  "RecordEmittedTuples e b coord tuples st =
     (if tuples = [] then Inr st
      else RecordEmittedTuplesBatch e (map (\<lambda>t. \<lparr>et_BindingID = b, et_Member = coord, et_Tuple = t\<rparr>) tuples) st)"

definition ForgetEmittedTuples :: "PassEnv \<Rightarrow> string \<Rightarrow> LedgerRow list \<Rightarrow> Store \<Rightarrow> (pass_error, Store) result" where
  "ForgetEmittedTuples e b rows st =
     (if rows = [] then Inr st
      else (case ledger_columns [] (map (\<lambda>r. \<lparr>et_BindingID = b, et_Member = lr_Member r, et_Tuple = lr_Tuple r\<rparr>) rows) of
              Inl err \<Rightarrow> Inl err
            | Inr refs \<Rightarrow> call e ''ForgetEmittedTuples'' (b # map (mt_Object \<circ> et_Tuple) refs)
                (Inr (st\<lparr>st_ledger := filter (\<lambda>r. r \<notin> set refs) (st_ledger st)\<rparr>))))"

definition LedgerTuplesForMember :: "PassEnv \<Rightarrow> string \<Rightarrow> MemberCoord \<Rightarrow> Store \<Rightarrow> (pass_error, MembershipTuple list) result" where
  "LedgerTuplesForMember e b coord st = call e ''LedgerTuplesForMember'' [b, mc_ObjectType coord, mc_ObjectID coord]
     (Inr (map et_Tuple (filter (\<lambda>r. et_BindingID r = b \<and> et_Member r = coord) (st_ledger st))))"

definition LedgerTuples :: "PassEnv \<Rightarrow> string \<Rightarrow> Store \<Rightarrow> (pass_error, LedgerRow list) result" where
  "LedgerTuples e b st = call e ''LedgerTuples'' [b]
     (Inr (map (\<lambda>r. \<lparr>lr_Member = et_Member r, lr_Tuple = et_Tuple r\<rparr>) (filter (\<lambda>r. et_BindingID r = b) (st_ledger st))))"

subsection \<open>Members\<close>

definition member_key :: "TargetMember \<Rightarrow> string \<times> string \<times> string \<times> string \<times> string" where
  \<comment> \<open>the primary key\<close>
  "member_key m = (tm_BindingID m, tm_RoleID m, tm_RuleFP m, tm_ObjectType m, tm_ObjectID m)"

definition upsert_row :: "TargetMember \<Rightarrow> TargetMember list \<Rightarrow> TargetMember list" where
  "upsert_row m ms =
     (if member_key m \<in> member_key ` set ms
      then map (\<lambda>r. if member_key r = member_key m then r\<lparr>tm_Status := tm_Status m\<rparr> else r) ms
      else ms @ [m])"

definition row_accepted :: "TargetMember \<Rightarrow> bool" where
  "row_accepted m \<longleftrightarrow> tm_ObjectID m \<noteq> [] \<and> tm_RuleFP m \<noteq> [] \<and> tm_ObjectType m \<noteq> []"

definition UpsertMember :: "PassEnv \<Rightarrow> TargetMember \<Rightarrow> Store \<Rightarrow> (pass_error, Store) result" where
  "UpsertMember e m st = call e ''UpsertMember'' [tm_BindingID m, tm_RuleFP m, tm_ObjectType m, tm_ObjectID m]
     (if \<not> row_accepted m then Inl RowConstraint else Inr (st\<lparr>st_members := upsert_row m (st_members st)\<rparr>))"

fun first_of_key :: "TargetMember list \<Rightarrow> TargetMember list \<Rightarrow> TargetMember list" where
  \<comment> \<open>of the members with the same key the first\<close>
  "first_of_key seen [] = seen"
| "first_of_key seen (m # ms) =
     first_of_key (if member_key m \<in> member_key ` set seen then seen else seen @ [m]) ms"

definition UpsertMembers :: "PassEnv \<Rightarrow> TargetMember list \<Rightarrow> Store \<Rightarrow> (pass_error, Store) result" where
  "UpsertMembers e ms st =
     (if ms = [] then Inr st
      else let rows = first_of_key [] ms in
        call e ''UpsertMembers'' (map tm_ObjectID rows)
          (if \<not> list_all row_accepted rows then Inl RowConstraint
           else Inr (st\<lparr>st_members := foldl (\<lambda>ms m. upsert_row m ms) (st_members st) rows\<rparr>)))"

definition DeleteMember :: "PassEnv \<Rightarrow> string \<Rightarrow> string \<Rightarrow> string \<Rightarrow> string \<Rightarrow> Store \<Rightarrow> (pass_error, Store) result" where
  "DeleteMember e b fp ty i st = call e ''DeleteMember'' [b, fp, ty, i]
     (Inr (st\<lparr>st_members := filter (\<lambda>r. \<not> (tm_BindingID r = b \<and> tm_RuleFP r = fp \<and> tm_ObjectType r = ty \<and> tm_ObjectID r = i)) (st_members st)\<rparr>))"

definition order_members :: "TargetMember list \<Rightarrow> TargetMember list" where
  "order_members ms = sort_key tm_RuleFP (sort_key tm_ObjectType (sort_key tm_ObjectID ms))"

definition CurrentMembers :: "PassEnv \<Rightarrow> string \<Rightarrow> Store \<Rightarrow> (pass_error, TargetMember list) result" where
  "CurrentMembers e b st = call e ''CurrentMembers'' [b]
     (Inr (order_members (filter (\<lambda>m. tm_BindingID m = b) (st_members st))))"

definition CurrentMembersForObject :: "PassEnv \<Rightarrow> string \<Rightarrow> string \<Rightarrow> string \<Rightarrow> Store \<Rightarrow> (pass_error, TargetMember list) result" where
  "CurrentMembersForObject e b ty i st = call e ''CurrentMembersForObject'' [b, ty, i]
     (Inr (sort_key tm_RuleFP (filter (\<lambda>m. tm_ObjectType m = ty \<and> tm_ObjectID m = i \<and> tm_BindingID m = b) (st_members st))))"

definition BindingsForObject :: "PassEnv \<Rightarrow> string \<Rightarrow> string \<Rightarrow> Store \<Rightarrow> (pass_error, string list) result" where
  "BindingsForObject e ty i st = call e ''BindingsForObject'' [ty, i]
     (Inr (sort (remdups (map tm_BindingID (filter (\<lambda>m. tm_ObjectType m = ty \<and> tm_ObjectID m = i) (st_members st))))))"

subsection \<open>Bindings and audit\<close>

definition binding_scope :: "PassEnv \<Rightarrow> string \<Rightarrow> Store \<Rightarrow> BindingScope option" where
  \<comment> \<open>a role that is gone gives the zero role\<close>
  "binding_scope e b st =
     (case binding_row st b of
        None \<Rightarrow> None
      | Some ab \<Rightarrow>
          let (role, state) = (case st_roles st (ab_RoleID ab) of None \<Rightarrow> (no_role [], RoleLifecycleUnset) | Some r \<Rightarrow> r)
          in Some (bindingScopeFrom (pe_cat e) (pe_hash e) ab role state))"

definition LoadBinding :: "PassEnv \<Rightarrow> string \<Rightarrow> Store \<Rightarrow> (pass_error, BindingScope option) result" where
  "LoadBinding e b st = call e ''LoadBinding'' [b] (Inr (binding_scope e b st))"

definition LoadBindingForForward :: "PassEnv \<Rightarrow> string \<Rightarrow> Store \<Rightarrow> (pass_error, BindingScope option) result" where
  "LoadBindingForForward e b st = call e ''LoadBindingForForward'' [b] (Inr (binding_scope e b st))"

definition LoadBindingsForForward :: "PassEnv \<Rightarrow> string list \<Rightarrow> Store \<Rightarrow> (pass_error, string \<rightharpoonup> BindingScope) result" where
  "LoadBindingsForForward e bs st =
     (if bs = [] then Inr Map.empty
      else call e ''LoadBindingsForForward'' bs (Inr (\<lambda>b. if b \<in> set bs then binding_scope e b st else None)))"

definition RevokeExpiredBinding :: "PassEnv \<Rightarrow> string \<Rightarrow> Store \<Rightarrow> (pass_error, bool \<times> Store) result" where
  "RevokeExpiredBinding e b st = call e ''RevokeExpiredBinding'' [b]
     (Inr (if binding_active st b
        then (True, st\<lparr>st_bindings := map (\<lambda>ab. if ab_ID ab = b \<and> ab_Status ab = ''ACTIVE'' then ab\<lparr>ab_Status := ''REVOKED''\<rparr> else ab) (st_bindings st)\<rparr>)
        else (False, st)))"

definition scopeTenantAccountID :: "PassEnv \<Rightarrow> ScopeAnchor \<Rightarrow> (pass_error, string option) result" where
  "scopeTenantAccountID e scope =
     (let nullable = \<lambda>s. if s = [] then None else Some s in
      if anchor_Type scope = ''account'' then Inr (nullable (anchor_ID scope))
      else if anchor_Type scope = ''project'' then call e ''scopeTenantAccountID'' [anchor_ID scope]
        (Inr (case pe_account e (anchor_ID scope) of None \<Rightarrow> None | Some a \<Rightarrow> nullable a))
      else Inr None)"

definition EmitContainmentAudit :: "PassEnv \<Rightarrow> string \<Rightarrow> string \<Rightarrow> string \<Rightarrow> ScopeAnchor \<Rightarrow> Store \<Rightarrow> (pass_error, Store) result" where
  "EmitContainmentAudit e b ty i scope st =
     (case scopeTenantAccountID e scope of
        Inl err \<Rightarrow> Inl err
      | Inr tenant \<Rightarrow> call e ''EmitContainmentAudit'' [b, ty, i]
          (Inr (st\<lparr>st_audit := st_audit st @ [ContainmentRejected b ty i scope tenant]\<rparr>)))"

subsection \<open>Bindings that an object concerns\<close>

definition ReplaceRuleSelectors :: "string \<Rightarrow> RuleSelector list \<Rightarrow> Store \<Rightarrow> Store" where
  \<comment> \<open>the selectors of a role are replaced, those without types are left out, and a later one replaces
     an earlier one with its fingerprint\<close>
  "ReplaceRuleSelectors roleID selectors st =
     st\<lparr>st_selectors := foldl
       (\<lambda>rows sel. if sel_ObjectTypes sel = [] then rows
          else if list_ex (\<lambda>r. fst r = roleID \<and> sel_RuleFP (snd r) = sel_RuleFP sel) rows
          then map (\<lambda>r. if fst r = roleID \<and> sel_RuleFP (snd r) = sel_RuleFP sel then (roleID, sel) else r) rows
          else rows @ [(roleID, sel)])
       (filter (\<lambda>r. fst r \<noteq> roleID) (st_selectors st)) selectors\<rparr>"

definition mirror_join :: "Tables \<Rightarrow> AccessBinding \<Rightarrow> RuleSelector \<Rightarrow> MirrorRow \<Rightarrow> bool" where
  "mirror_join tb b sel m \<longleftrightarrow> mw_ObjectType m \<in> set (sel_ObjectTypes sel)
     \<and> (case sel_Arm sel of
          ArmNames \<Rightarrow> mw_ObjectID m \<in> set (sel_ResourceNames sel)
        | ArmLabels \<Rightarrow> MatchesLabels (mirrorRowToDomain tb m) (sel_MatchLabels sel)
        | _ \<Rightarrow> ab_ResourceType b = ''cluster''
            \<or> (ab_ResourceType b = ''account''
               \<and> Some (ab_ResourceID b) = (if mw_ParentAccountID m \<noteq> [] then Some (mw_ParentAccountID m) else tb_projects tb (mw_ParentProjectID m)))
            \<or> (ab_ResourceType b = ''project'' \<and> mw_ParentProjectID m = ab_ResourceID b))"

definition SelectorBindingsMatchingObject :: "PassEnv \<Rightarrow> string \<Rightarrow> string \<Rightarrow> Store \<Rightarrow> (pass_error, string list) result" where
  "SelectorBindingsMatchingObject e objectType objectID st = call e ''SelectorBindingsMatchingObject'' [objectType, objectID]
     (Inr (sort [ab_ID b. (role, sel) \<leftarrow> st_selectors st, b \<leftarrow> st_bindings st, m \<leftarrow> tb_mirror (pe_tables e),
        ab_RoleID b = role \<and> ab_Status b = ''ACTIVE'' \<and> mw_ObjectType m = objectType \<and> mw_ObjectID m = objectID
        \<and> mirror_join (pe_tables e) b sel m]))"

definition iam_join :: "Tables \<Rightarrow> AccessBinding \<Rightarrow> RuleSelector \<Rightarrow> iam_row \<times> (string \<times> string) list \<Rightarrow> bool" where
  "iam_join tb b sel o' \<longleftrightarrow> iam_type (fst o') \<in> set (sel_ObjectTypes sel)
     \<and> (case sel_Arm sel of
          ArmNames \<Rightarrow> iam_id (fst o') \<in> set (sel_ResourceNames sel)
        | ArmLabels \<Rightarrow> MatchesLabels ((scan_iam tb (fst o'))\<lparr>mir_Labels := snd o'\<rparr>) (sel_MatchLabels sel)
        | _ \<Rightarrow> (ab_ResourceType b \<noteq> ''account'' \<and> ab_ResourceType b \<noteq> ''project'')
            \<or> (ab_ResourceType b = ''account'' \<and> ab_ResourceID b \<in> set (parent_accounts tb (fst o')))
            \<or> (ab_ResourceType b = ''project'' \<and> ab_ResourceID b = parent_project (fst o')))"

definition IAMDirectSelectorBindingsMatchingObject :: "PassEnv \<Rightarrow> string \<Rightarrow> string \<Rightarrow> Store \<Rightarrow> (pass_error, string list) result" where
  "IAMDirectSelectorBindingsMatchingObject e objectType objectID st =
     (if objectType \<notin> set iamDirectScanSpecs then Inr []
      else call e ''IAMDirectSelectorBindingsMatchingObject'' [objectType, objectID]
        (Inr (sort [ab_ID b. (role, sel) \<leftarrow> st_selectors st, b \<leftarrow> st_bindings st, x \<leftarrow> tb_iam (pe_tables e),
          ab_RoleID b = role \<and> ab_Status b = ''ACTIVE'' \<and> iam_type (fst x) = objectType \<and> iam_id (fst x) = objectID
          \<and> iam_join (pe_tables e) b sel x])))"

subsection \<open>What the journal does to the facts\<close>

definition folds :: "MembershipTuple \<Rightarrow> bool" where
  \<comment> \<open>the relation is stored as a fact: it is no verb\<close>
  "folds t \<longleftrightarrow> \<not> has_prefix (mt_Relation t) ''v_''"

definition group_tuples :: "grantGroup \<Rightarrow> MembershipTuple set" where
  "group_tuples g = {\<lparr>mt_User = gg_user g, mt_Relation = r, mt_Object = gg_object g\<rparr> |r. r \<in> set (gg_relations g)}"

definition same_but_facts :: "Store \<Rightarrow> Store \<Rightarrow> bool" where
  "same_but_facts st st' \<longleftrightarrow> st_members st' = st_members st \<and> st_ledger st' = st_ledger st \<and> st_bindings st' = st_bindings st
     \<and> st_roles st' = st_roles st \<and> st_admins st' = st_admins st \<and> st_audit st' = st_audit st \<and> st_changes st' = st_changes st"

lemma same_but_facts_refl [simp]: "same_but_facts st st"
  by (simp add: same_but_facts_def)

lemma same_but_facts_trans: "same_but_facts a b \<Longrightarrow> same_but_facts b c \<Longrightarrow> same_but_facts a c"
  by (simp add: same_but_facts_def)

lemma same_holds: "same_but_facts st st' \<Longrightarrow> holds_tuple st' t = holds_tuple st t"
  by (simp add: same_but_facts_def holds_tuple_def binding_active_def binding_row_def)

definition written :: "instant \<Rightarrow> MembershipTuple set \<Rightarrow> Store \<Rightarrow> Store \<Rightarrow> bool" where
  \<comment> \<open>after writes of the tuples with a stamp\<close>
  "written stamp T st st' \<longleftrightarrow> same_but_facts st st'
     \<and> (\<forall>t. st_facts st' t \<noteq> None \<longleftrightarrow> st_facts st t \<noteq> None \<or> t \<in> T)
     \<and> (\<forall>t f. st_facts st' t = Some f \<longrightarrow> st_facts st t = Some f \<or> fact_version f = stamp)"

lemma written_refl: "written stamp {} st st"
  by (simp add: written_def)

lemma written_trans:
  assumes "written s T a b" "written s U b c"
  shows "written s (T \<union> U) a c"
proof -
  note A = assms(1)[unfolded written_def] and B = assms(2)[unfolded written_def]
  have "same_but_facts a c" using A B by (blast intro: same_but_facts_trans)
  moreover have "st_facts c t \<noteq> None \<longleftrightarrow> st_facts a t \<noteq> None \<or> t \<in> T \<union> U" for t using A B by simp
  moreover have "st_facts a t = Some f \<or> fact_version f = s" if "st_facts c t = Some f" for t f using A B that by blast
  ultimately show ?thesis unfolding written_def by blast
qed

definition stored_tuple :: "MembershipTuple \<Rightarrow> MembershipTuple" where
  \<comment> \<open>the tuple whose fact a delete removes\<close>
  "stored_tuple t = t\<lparr>mt_User := stored_subject (mt_User t) (mt_Relation t)\<rparr>"

lemma stored_tuple_plain: "\<not> wildcard_subject (mt_User t) \<Longrightarrow> stored_tuple t = t"
  by (cases "mt_User t = ''user:*''") (simp_all add: stored_tuple_def stored_subject_def has_prefix_def)

definition deleted :: "instant \<Rightarrow> MembershipTuple set \<Rightarrow> Store \<Rightarrow> Store \<Rightarrow> bool" where
  \<comment> \<open>after deletes of the tuples with a stamp that no fact is newer than\<close>
  "deleted stamp T st st' \<longleftrightarrow> same_but_facts st st'
     \<and> (\<forall>t f. st_facts st' t = Some f \<longrightarrow> st_facts st t = Some f)
     \<and> (\<forall>t. st_facts st t \<noteq> None \<and> holds_tuple st t \<longrightarrow> st_facts st' t \<noteq> None)
     \<and> (\<forall>t \<in> T. mt_User t \<noteq> ''user:*'' \<and> \<not> holds_tuple st t \<and> (\<forall>f. st_facts st t = Some f \<longrightarrow> fact_version f \<le> stamp) \<longrightarrow> st_facts st' t = None)
     \<and> (\<forall>t. st_facts st t \<noteq> None \<and> t \<notin> stored_tuple ` T \<longrightarrow> st_facts st' t \<noteq> None)"

lemma deleted_refl: "deleted stamp {} st st"
  by (simp add: deleted_def)

lemma deletedD:
  assumes "deleted s T a b"
  shows "same_but_facts a b" "st_facts b t = Some f \<Longrightarrow> st_facts a t = Some f"
    "st_facts a t \<noteq> None \<Longrightarrow> holds_tuple a t \<Longrightarrow> st_facts b t \<noteq> None"
    "t \<in> T \<Longrightarrow> mt_User t \<noteq> ''user:*'' \<Longrightarrow> \<not> holds_tuple a t \<Longrightarrow> (\<And>f. st_facts a t = Some f \<Longrightarrow> fact_version f \<le> s) \<Longrightarrow> st_facts b t = None"
    "st_facts a t \<noteq> None \<Longrightarrow> t \<notin> stored_tuple ` T \<Longrightarrow> st_facts b t \<noteq> None"
  using assms unfolding deleted_def by blast+

lemma deletedI:
  assumes "same_but_facts a b" "\<And>t f. st_facts b t = Some f \<Longrightarrow> st_facts a t = Some f"
    "\<And>t. st_facts a t \<noteq> None \<Longrightarrow> holds_tuple a t \<Longrightarrow> st_facts b t \<noteq> None"
    "\<And>t. t \<in> T \<Longrightarrow> mt_User t \<noteq> ''user:*'' \<Longrightarrow> \<not> holds_tuple a t \<Longrightarrow> (\<And>f. st_facts a t = Some f \<Longrightarrow> fact_version f \<le> s) \<Longrightarrow> st_facts b t = None"
    "\<And>t. st_facts a t \<noteq> None \<Longrightarrow> t \<notin> stored_tuple ` T \<Longrightarrow> st_facts b t \<noteq> None"
  shows "deleted s T a b"
  using assms unfolding deleted_def by blast

lemma deleted_trans:
  assumes "deleted s T a b" "deleted s U b c"
  shows "deleted s (T \<union> U) a c"
proof (rule deletedI)
  note h = same_holds [OF deletedD(1) [OF assms(1)]]
  show "same_but_facts a c" by (rule same_but_facts_trans [OF deletedD(1) [OF assms(1)] deletedD(1) [OF assms(2)]])
  show "st_facts a t = Some f" if "st_facts c t = Some f" for t f
    by (rule deletedD(2) [OF assms(1) deletedD(2) [OF assms(2) that]])
  show "st_facts c t \<noteq> None" if "st_facts a t \<noteq> None" "holds_tuple a t" for t
    using deletedD(3) [OF assms(2) deletedD(3) [OF assms(1) that]] that(2) h by simp
  show "st_facts c t \<noteq> None" if "st_facts a t \<noteq> None" "t \<notin> stored_tuple ` (T \<union> U)" for t
    by (rule deletedD(5) [OF assms(2) deletedD(5) [OF assms(1) that(1)]]) (use that(2) in \<open>simp_all add: image_Un\<close>)
  show "st_facts c t = None"
    if "t \<in> T \<union> U" "mt_User t \<noteq> ''user:*''" "\<not> holds_tuple a t" "\<And>f. st_facts a t = Some f \<Longrightarrow> fact_version f \<le> s" for t
  proof (cases "t \<in> T")
    case True
    then have "st_facts b t = None" using deletedD(4) [OF assms(1)] that(2-4) by blast
    then show ?thesis using deletedD(2) [OF assms(2), of t] by (cases "st_facts c t") simp_all
  next
    case False
    then have "t \<in> U" using that(1) by simp
    moreover have "\<not> holds_tuple b t" using that(3) h by simp
    moreover have "fact_version f \<le> s" if "st_facts b t = Some f" for f
      using deletedD(2) [OF assms(1) that] \<open>\<And>f. st_facts a t = Some f \<Longrightarrow> fact_version f \<le> s\<close> by blast
    ultimately show ?thesis using deletedD(4) [OF assms(2)] that(2) by blast
  qed
qed

lemma fold_write_written:
  assumes "fold_write ty stamp t st = Inr st'"
  shows "written stamp {t} st st'"
  using assms by (auto simp: fold_write_def written_def same_but_facts_def split: if_splits option.splits)

lemma fold_delete_deleted:
  assumes "fold_delete stamp t st = Inr st'"
  shows "deleted stamp {t} st st'"
proof -
  let ?t = "t\<lparr>mt_User := stored_subject (mt_User t) (mt_Relation t)\<rparr>"
  have same: "mt_User t \<noteq> ''user:*'' \<Longrightarrow> ?t = t" by (simp add: stored_subject_def)
  have img: "stored_tuple t = ?t" by (simp add: stored_tuple_def)
  show ?thesis
  proof (cases "st_facts st ?t = None \<or> holds_tuple st ?t \<or> \<not> fact_version (the (st_facts st ?t)) \<le> stamp")
    case True
    then have "st' = st" using assms by (auto simp: fold_delete_def Let_def split: option.splits if_splits)
    then show ?thesis using True same by (cases "st_facts st ?t") (auto simp: deleted_def img)
  next
    case False
    then have "st' = st\<lparr>st_facts := (st_facts st)(?t := None)\<rparr>" using assms by (auto simp: fold_delete_def Let_def)
    then show ?thesis using False same by (auto simp: deleted_def same_but_facts_def img)
  qed
qed

lemma fold_relations_written:
  assumes "fold_relations EventTypeWrite ty user object stamp rs st = Inr st'"
  shows "written stamp {\<lparr>mt_User = user, mt_Relation = r, mt_Object = object\<rparr> |r. r \<in> set rs} st st'"
  using assms
proof (induction rs arbitrary: st)
  case Nil
  then show ?case by (simp add: written_refl)
next
  case (Cons r rs)
  then obtain st1 where st1: "fold_write ty stamp \<lparr>mt_User = user, mt_Relation = r, mt_Object = object\<rparr> st = Inr st1"
    and rest: "fold_relations EventTypeWrite ty user object stamp rs st1 = Inr st'" by (auto split: sum.splits)
  have "{\<lparr>mt_User = user, mt_Relation = q, mt_Object = object\<rparr> |q. q \<in> set (r # rs)}
      = {\<lparr>mt_User = user, mt_Relation = r, mt_Object = object\<rparr>} \<union> {\<lparr>mt_User = user, mt_Relation = q, mt_Object = object\<rparr> |q. q \<in> set rs}"
    by auto
  then show ?case using written_trans [OF fold_write_written [OF st1] Cons.IH [OF rest]] by simp
qed

lemma fold_relations_deleted:
  assumes "fold_relations EventTypeDelete ty user object stamp rs st = Inr st'"
  shows "deleted stamp {\<lparr>mt_User = user, mt_Relation = r, mt_Object = object\<rparr> |r. r \<in> set rs} st st'"
  using assms
proof (induction rs arbitrary: st)
  case Nil
  then show ?case by (simp add: deleted_refl)
next
  case (Cons r rs)
  then obtain st1 where st1: "fold_delete stamp \<lparr>mt_User = user, mt_Relation = r, mt_Object = object\<rparr> st = Inr st1"
    and rest: "fold_relations EventTypeDelete ty user object stamp rs st1 = Inr st'" by (auto split: sum.splits)
  have "{\<lparr>mt_User = user, mt_Relation = q, mt_Object = object\<rparr> |q. q \<in> set (r # rs)}
      = {\<lparr>mt_User = user, mt_Relation = r, mt_Object = object\<rparr>} \<union> {\<lparr>mt_User = user, mt_Relation = q, mt_Object = object\<rparr> |q. q \<in> set rs}"
    by auto
  then show ?case using deleted_trans [OF fold_delete_deleted [OF st1] Cons.IH [OF rest]] by simp
qed

lemma group_folds:
  "{t \<in> group_tuples g. folds t} = {\<lparr>mt_User = gg_user g, mt_Relation = r, mt_Object = gg_object g\<rparr> |r. r \<in> set (filter (\<lambda>r. \<not> has_prefix r ''v_'') (gg_relations g))}"
  by (auto simp: group_tuples_def folds_def)

lemma fold_row_written:
  assumes "relation_fact_fold_row EventTypeWrite stamp g st = Inr st'"
  shows "written stamp {t \<in> group_tuples g. folds t} st st'"
  using assms fold_relations_written [of _ "gg_user g" "gg_object g" stamp "filter (\<lambda>r. \<not> has_prefix r ''v_'') (gg_relations g)" st st'] written_refl [of stamp st]
  unfolding relation_fact_fold_row_def Let_def group_folds by (auto split: if_splits sum.splits)

lemma fold_row_deleted:
  assumes "relation_fact_fold_row EventTypeDelete stamp g st = Inr st'"
  shows "deleted stamp {t \<in> group_tuples g. folds t} st st'"
  using assms fold_relations_deleted [of _ "gg_user g" "gg_object g" stamp "filter (\<lambda>r. \<not> has_prefix r ''v_'') (gg_relations g)" st st'] deleted_refl [of stamp st]
  unfolding relation_fact_fold_row_def Let_def group_folds by (auto split: if_splits sum.splits)

lemma fold_rows_written:
  "fold_rows EventTypeWrite stamp gs st = Inr st' \<Longrightarrow> written stamp {t \<in> \<Union> (group_tuples ` set gs). folds t} st st'"
proof (induction gs arbitrary: st)
  case Nil
  then show ?case by (simp add: written_refl)
next
  case (Cons g gs)
  then obtain st1 where st1: "relation_fact_fold_row EventTypeWrite stamp g st = Inr st1" "fold_rows EventTypeWrite stamp gs st1 = Inr st'"
    by (auto split: sum.splits)
  have "{t \<in> \<Union> (group_tuples ` set (g # gs)). folds t} = {t \<in> group_tuples g. folds t} \<union> {t \<in> \<Union> (group_tuples ` set gs). folds t}" by auto
  then show ?case using written_trans [OF fold_row_written [OF st1(1)] Cons.IH [OF st1(2)]] by simp
qed

lemma fold_rows_deleted:
  "fold_rows EventTypeDelete stamp gs st = Inr st' \<Longrightarrow> deleted stamp {t \<in> \<Union> (group_tuples ` set gs). folds t} st st'"
proof (induction gs arbitrary: st)
  case Nil
  then show ?case by (simp add: deleted_refl)
next
  case (Cons g gs)
  then obtain st1 where st1: "relation_fact_fold_row EventTypeDelete stamp g st = Inr st1" "fold_rows EventTypeDelete stamp gs st1 = Inr st'"
    by (auto split: sum.splits)
  have "{t \<in> \<Union> (group_tuples ` set (g # gs)). folds t} = {t \<in> group_tuples g. folds t} \<union> {t \<in> \<Union> (group_tuples ` set gs). folds t}" by auto
  then show ?case using deleted_trans [OF fold_row_deleted [OF st1(1)] Cons.IH [OF st1(2)]] by simp
qed

lemma group_add:
  assumes "gg_user g = mt_User t" "gg_object g = mt_Object t"
  shows "group_tuples (g\<lparr>gg_relations := gg_relations g @ [mt_Relation t]\<rparr>) = insert t (group_tuples g)"
  using assms by (cases t) (auto simp: group_tuples_def)

lemma group_new: "group_tuples \<lparr>gg_user = mt_User t, gg_object = mt_Object t, gg_relations = [mt_Relation t]\<rparr> = {t}"
  by (cases t) (auto simp: group_tuples_def)

lemma add_grant_tuples: "\<Union> (group_tuples ` set (add_grant gs t)) = insert t (\<Union> (group_tuples ` set gs))"
  by (induction gs) (auto simp: group_add group_new)

lemma groupByGrant_tuples [simp]: "\<Union> (group_tuples ` set (groupByGrant ts)) = set ts"
proof -
  have "\<Union> (group_tuples ` set (foldl add_grant gs us)) = \<Union> (group_tuples ` set gs) \<union> set us" for gs us
    by (induction us arbitrary: gs) (auto simp: add_grant_tuples)
  moreover have "\<Union> (group_tuples ` (\<lambda>g. g\<lparr>gg_relations := sort (gg_relations g)\<rparr>) ` G) = \<Union> (group_tuples ` G)" for G
    by (simp add: group_tuples_def image_image)
  ultimately show ?thesis by (simp add: groupByGrant_def)
qed

lemma EmitTupleWrite_written:
  assumes "EmitTupleWrite e ts st = Inr st'"
  shows "written (pe_begin e) {t \<in> set ts. folds t} st st'"
proof (cases "ts = []")
  case True
  then show ?thesis using assms by (simp add: EmitTupleWrite_def emitTx_def written_refl)
next
  case False
  then have "fold_rows EventTypeWrite (pe_begin e) (groupByGrant ts) (st\<lparr>st_journal := st_journal st @ map (Pair EventTypeWrite) (groupByGrant ts)\<rparr>) = Inr st'"
    using assms by (simp add: EmitTupleWrite_def emitTx_def Let_def call_def split: if_splits)
  from fold_rows_written [OF this] show ?thesis by (simp add: written_def same_but_facts_def)
qed

lemma deleted_journal: "deleted s T (st\<lparr>st_journal := j\<rparr>) st' = deleted s T st st'"
  unfolding deleted_def by (simp add: same_but_facts_def holds_tuple_def binding_active_def binding_row_def)

lemma EmitTupleDelete_deleted:
  assumes "EmitTupleDelete e ts st = Inr st'"
  shows "deleted (pe_clock e (length (st_journal st))) {t \<in> set ts. folds t} st st'"
proof (cases "ts = []")
  case True
  then show ?thesis using assms by (simp add: EmitTupleDelete_def emitTx_def deleted_refl)
next
  case False
  then have "fold_rows EventTypeDelete (pe_clock e (length (st_journal st))) (groupByGrant ts) (st\<lparr>st_journal := st_journal st @ map (Pair EventTypeDelete) (groupByGrant ts)\<rparr>) = Inr st'"
    using assms by (simp add: EmitTupleDelete_def emitTx_def Let_def call_def split: if_splits)
  from fold_rows_deleted [OF this] show ?thesis by (simp add: deleted_journal)
qed

subsection \<open>What the calls do to the ledger\<close>

definition rows_at :: "string \<Rightarrow> MemberCoord \<Rightarrow> Store \<Rightarrow> MembershipTuple set" where
  "rows_at b c st = {et_Tuple r |r. r \<in> set (st_ledger st) \<and> et_BindingID r = b \<and> et_Member r = c}"

lemma rows_at_iff: "t \<in> rows_at b c st \<longleftrightarrow> \<lparr>et_BindingID = b, et_Member = c, et_Tuple = t\<rparr> \<in> set (st_ledger st)"
proof
  assume "t \<in> rows_at b c st"
  then obtain r where r: "r \<in> set (st_ledger st)" "et_BindingID r = b" "et_Member r = c" "et_Tuple r = t" by (auto simp: rows_at_def)
  then have "r = \<lparr>et_BindingID = b, et_Member = c, et_Tuple = t\<rparr>" by simp
  then show "\<lparr>et_BindingID = b, et_Member = c, et_Tuple = t\<rparr> \<in> set (st_ledger st)" using r(1) by (simp only:)
qed (force simp: rows_at_def)

lemma rows_at_same: "same_but_facts st st' \<Longrightarrow> rows_at b c st' = rows_at b c st"
  by (simp add: same_but_facts_def rows_at_def)

lemma holds_iff:
  "holds_tuple st t \<longleftrightarrow> (\<exists>b c. binding_active st b \<and> t \<in> rows_at b c st)
     \<or> (mt_Relation t = ''system_admin'' \<and> list_ex (\<lambda>(c, s). mt_Object t = ''cluster:'' @ c \<and> s = mt_User t) (st_admins st))"
  by (auto simp: holds_tuple_def rows_at_def list_ex_iff)

lemma ledger_columns_set: "ledger_columns seen refs = Inr rows \<Longrightarrow> set rows = set seen \<union> set refs"
  by (induction seen refs arbitrary: rows rule: ledger_columns.induct) (auto split: if_splits)

definition same_rest :: "Store \<Rightarrow> Store \<Rightarrow> bool" where
  \<comment> \<open>nothing but the ledger, the members and the audit changes\<close>
  "same_rest st st' \<longleftrightarrow> st_facts st' = st_facts st \<and> st_bindings st' = st_bindings st \<and> st_roles st' = st_roles st \<and> st_admins st' = st_admins st"

lemma RecordEmittedTuples_rows:
  assumes "RecordEmittedTuples e b c ts st = Inr st'"
  shows "rows_at b' c' st' = (if b' = b \<and> c' = c then rows_at b c st \<union> set ts else rows_at b' c' st)"
    "same_rest st st'" "st_members st' = st_members st"
proof -
  let ?refs = "map (\<lambda>t. \<lparr>et_BindingID = b, et_Member = c, et_Tuple = t\<rparr>) ts"
  have "set (st_ledger st') = set (st_ledger st) \<union> set ?refs \<and> same_rest st st' \<and> st_members st' = st_members st"
    using assms ledger_columns_set [of "[]" ?refs]
    by (auto simp: RecordEmittedTuples_def RecordEmittedTuplesBatch_def call_def same_rest_def split: if_splits sum.splits)
  then show "rows_at b' c' st' = (if b' = b \<and> c' = c then rows_at b c st \<union> set ts else rows_at b' c' st)"
    "same_rest st st'" "st_members st' = st_members st"
    by (auto simp: rows_at_iff set_eq_iff)
qed

lemma ForgetEmittedTuples_rows:
  assumes "ForgetEmittedTuples e b (map (\<lambda>t. \<lparr>lr_Member = c, lr_Tuple = t\<rparr>) ts) st = Inr st'"
  shows "rows_at b' c' st' = (if b' = b \<and> c' = c then rows_at b c st - set ts else rows_at b' c' st)"
    "same_rest st st'" "st_members st' = st_members st"
proof -
  let ?refs = "map (\<lambda>r. \<lparr>et_BindingID = b, et_Member = lr_Member r, et_Tuple = lr_Tuple r\<rparr>) (map (\<lambda>t. \<lparr>lr_Member = c, lr_Tuple = t\<rparr>) ts)"
  have "set (st_ledger st') = set (st_ledger st) - set ?refs \<and> same_rest st st' \<and> st_members st' = st_members st"
    using assms ledger_columns_set [of "[]" ?refs]
    by (auto simp: ForgetEmittedTuples_def call_def same_rest_def split: if_splits sum.splits)
  then show "rows_at b' c' st' = (if b' = b \<and> c' = c then rows_at b c st - set ts else rows_at b' c' st)"
    "same_rest st st'" "st_members st' = st_members st"
    by (auto simp: rows_at_iff set_eq_iff)
qed

lemma ForgetEmittedTuples_all:
  assumes "ForgetEmittedTuples e b rows st = Inr st'" and "\<And>c. rows_at b c st \<subseteq> {lr_Tuple r |r. r \<in> set rows \<and> lr_Member r = c}"
  shows "rows_at b' c' st' = (if b' = b then {} else rows_at b' c' st)" "same_rest st st'" "st_members st' = st_members st"
proof -
  let ?refs = "map (\<lambda>r. \<lparr>et_BindingID = b, et_Member = lr_Member r, et_Tuple = lr_Tuple r\<rparr>) rows"
  have led: "set (st_ledger st') = set (st_ledger st) - set ?refs" "same_rest st st'" "st_members st' = st_members st"
    using assms(1) ledger_columns_set [of "[]" ?refs]
    by (auto simp: ForgetEmittedTuples_def call_def same_rest_def split: if_splits sum.splits)
  have "t \<notin> rows_at b c st'" for c t
  proof
    assume t: "t \<in> rows_at b c st'"
    then have "t \<in> rows_at b c st" by (simp add: rows_at_iff led(1))
    then obtain r where "r \<in> set rows" "lr_Member r = c" "lr_Tuple r = t" using assms(2) by blast
    then show False using t by (auto simp: rows_at_iff led(1))
  qed
  then show "rows_at b' c' st' = (if b' = b then {} else rows_at b' c' st)"
    by (auto simp: rows_at_iff led(1))
  show "same_rest st st'" "st_members st' = st_members st" by (rule led(2), rule led(3))
qed

lemma LedgerTuplesForMember_set: "LedgerTuplesForMember e b c st = Inr ts \<Longrightarrow> set ts = rows_at b c st"
  by (auto simp: LedgerTuplesForMember_def call_def rows_at_def split: if_splits)

lemma LedgerTuples_set: "LedgerTuples e b st = Inr rows \<Longrightarrow> \<lparr>lr_Member = c, lr_Tuple = t\<rparr> \<in> set rows \<longleftrightarrow> t \<in> rows_at b c st"
  by (force simp: LedgerTuples_def call_def rows_at_def split: if_splits)

lemma UpsertMember_same:
  "UpsertMember e m st = Inr st' \<Longrightarrow> same_rest st st' \<and> st_ledger st' = st_ledger st"
  by (auto simp: UpsertMember_def call_def same_rest_def split: if_splits)

lemma DeleteMember_same:
  "DeleteMember e b fp ty i st = Inr st' \<Longrightarrow> same_rest st st' \<and> st_ledger st' = st_ledger st"
  by (auto simp: DeleteMember_def call_def same_rest_def split: if_splits)

lemma EmitContainmentAudit_same:
  "EmitContainmentAudit e b ty i sc st = Inr st' \<Longrightarrow> same_rest st st' \<and> st_ledger st' = st_ledger st \<and> st_members st' = st_members st"
  by (auto simp: EmitContainmentAudit_def call_def same_rest_def split: if_splits sum.splits)

end
