(* ===== verification/Reconcile_Pass.thy ===== *)
theory Reconcile_Pass
  imports Reconcile_Store
begin

text \<open>
  The full pass of the reconciler over a binding, plain and converging. A pass compares the
  members that the binding wants with the stored ones, writes and revokes members, and keeps the
  ledger of emitted tuples and the journal in step.

  Sources: \<open>reconcile.go\<close> and \<open>emitted_completion.go\<close> of
  \<open>internal/apps/kaname/api/access_binding/reconcile\<close>.

  The Go map of current members is an association list by \<open>memberRuleKey\<close>; the order in which
  it is walked is \<open>pe_walk\<close>. The locks of bindings, roles and rows order passes and have no effect
  of their own; a pass that cannot take them fails. The observation of sizes and log lines are
  left out.
\<close>

subsection \<open>The state of a pass\<close>

text \<open>
  The collector \<open>syncFGACollector\<close> (\<open>ps_seen\<close>, \<open>ps_pending\<close>) and the lazily read ledger
  \<open>emittedView\<close> of the binding in work (\<open>ps_view\<close>).
\<close>

record Pass =
  ps_store :: Store
  ps_seen :: "MembershipTuple list"
  ps_pending :: "(string \<times> MembershipTuple list) list"
  ps_view :: "LedgerRow list option"

datatype view_scope = BindingEmitted bool | ObjectEmitted MemberCoord

definition new_pass :: "Store \<Rightarrow> Pass" where
  "new_pass st = \<lparr>ps_store = st, ps_seen = [], ps_pending = [], ps_view = None\<rparr>"

definition on_store :: "(Store \<Rightarrow> (pass_error, Store) result) \<Rightarrow> Pass \<Rightarrow> (pass_error, Pass) result" where
  "on_store f p = (case f (ps_store p) of Inl err \<Rightarrow> Inl err | Inr st \<Rightarrow> Inr (p\<lparr>ps_store := st\<rparr>))"

definition memberRuleKey :: "string \<Rightarrow> string \<Rightarrow> string \<Rightarrow> string" where
  "memberRuleKey ruleFP objectType objectID = ruleFP @ [nul] @ objectType @ [nul] @ objectID"

definition key_of_member :: "TargetMember \<Rightarrow> string" where
  "key_of_member m = memberRuleKey (tm_RuleFP m) (tm_ObjectType m) (tm_ObjectID m)"

definition key_of_desired :: "DesiredMember \<Rightarrow> string" where
  "key_of_desired d = memberRuleKey (dm_RuleFP d) (dm_ObjectType d) (dm_ObjectID d)"

definition currentByKey :: "TargetMember list \<Rightarrow> (string \<times> TargetMember) list" where
  "currentByKey current = foldl (\<lambda>m c. AList.update (key_of_member c) c m) [] current"

subsection \<open>The collector\<close>

definition collectNew :: "MembershipTuple list \<Rightarrow> Pass \<Rightarrow> MembershipTuple list \<times> Pass" where
  "collectNew tuples p =
     (let fresh = filter (\<lambda>t. t \<notin> set (ps_seen p)) (first_seen tuples)
      in (fresh, p\<lparr>ps_seen := ps_seen p @ fresh\<rparr>))"

definition deferDelete :: "string \<Rightarrow> MembershipTuple list \<Rightarrow> Pass \<Rightarrow> Pass" where
  "deferDelete b tuples p = (if tuples = [] then p else p\<lparr>ps_pending := ps_pending p @ [(b, tuples)]\<rparr>)"

fun flush_loop :: "PassEnv \<Rightarrow> MembershipTuple list \<Rightarrow> (string \<times> MembershipTuple list) list \<Rightarrow> Store \<Rightarrow> (pass_error, Store) result" where
  "flush_loop e seen [] st = Inr st"
| "flush_loop e seen (pd # pds) st =
     (let revoke = filter (\<lambda>t. t \<notin> set seen) (snd pd) in
      if revoke = [] then flush_loop e seen pds st
      else (case EmitTupleDelete e revoke st of
              Inl err \<Rightarrow> Inl err
            | Inr st1 \<Rightarrow> flush_loop e seen pds st1))"

definition flushDeletes :: "PassEnv \<Rightarrow> Pass \<Rightarrow> (pass_error, Store) result" where
  "flushDeletes e p = flush_loop e (ps_seen p) (ps_pending p) (ps_store p)"

subsection \<open>Claims and revocation\<close>

definition claimed :: "DesiredMember list \<Rightarrow> MembershipTuple \<Rightarrow> bool" where
  "claimed desired t \<longleftrightarrow> list_ex (\<lambda>d. dm_Status d = VerificationActive \<and> t \<in> set (dm_Tuples d)) desired"

definition claimedAt :: "DesiredMember list \<Rightarrow> MemberCoord \<Rightarrow> MembershipTuple \<Rightarrow> bool" where
  "claimedAt desired coord t \<longleftrightarrow>
     list_ex (\<lambda>d. dm_Status d = VerificationActive \<and> desiredCoord d = coord \<and> t \<in> set (dm_Tuples d)) desired"

definition revokeMemberTuples ::
  "PassEnv \<Rightarrow> string \<Rightarrow> DesiredMember list \<Rightarrow> TargetMember \<Rightarrow> Pass \<Rightarrow> (pass_error, Pass) result" where
  "revokeMemberTuples e b desired m p =
     (case LedgerTuplesForMember e b (coordOf m) (ps_store p) of
        Inl err \<Rightarrow> Inl err
      | Inr tuples \<Rightarrow>
          let forget = filter (\<lambda>t. \<not> claimedAt desired (coordOf m) t) tuples;
              revoke = filter (\<lambda>t. \<not> claimed desired t) forget
          in if forget = [] then Inr p
             else (case ForgetEmittedTuples e b (map (\<lambda>t. \<lparr>lr_Member = coordOf m, lr_Tuple = t\<rparr>) forget) (ps_store p) of
                     Inl err \<Rightarrow> Inl err
                   | Inr st \<Rightarrow> Inr (deferDelete b revoke (p\<lparr>ps_store := st\<rparr>))))"

definition revokeWholeLedger :: "PassEnv \<Rightarrow> string \<Rightarrow> Pass \<Rightarrow> (pass_error, Pass) result" where
  "revokeWholeLedger e b p =
     (case LedgerTuples e b (ps_store p) of
        Inl err \<Rightarrow> Inl err
      | Inr rows \<Rightarrow>
          if rows = [] then Inr p
          else (case ForgetEmittedTuples e b rows (ps_store p) of
                  Inl err \<Rightarrow> Inl err
                | Inr st \<Rightarrow> Inr (deferDelete b (first_seen (map lr_Tuple rows)) (p\<lparr>ps_store := st\<rparr>))))"

subsection \<open>Convergence of an unchanged member\<close>

definition converges :: "view_scope \<Rightarrow> BindingScope \<Rightarrow> bool" where
  "converges v bs \<longleftrightarrow> (case v of BindingEmitted c \<Rightarrow> c | ObjectEmitted _ \<Rightarrow> False) \<or> length (bs_Subjects bs) \<ge> 2"

definition ensure :: "PassEnv \<Rightarrow> view_scope \<Rightarrow> string \<Rightarrow> Pass \<Rightarrow> (pass_error, LedgerRow list) result" where
  "ensure e v b p =
     (case ps_view p of
        Some rows \<Rightarrow> Inr rows
      | None \<Rightarrow>
          (case v of
             BindingEmitted _ \<Rightarrow> LedgerTuples e b (ps_store p)
           | ObjectEmitted coord \<Rightarrow>
               (case LedgerTuplesForMember e b coord (ps_store p) of
                  Inl err \<Rightarrow> Inl err
                | Inr tuples \<Rightarrow> Inr (map (\<lambda>t. \<lparr>lr_Member = coord, lr_Tuple = t\<rparr>) tuples))))"

definition sort_tuples :: "MembershipTuple list \<Rightarrow> MembershipTuple list" where
  \<comment> \<open>\<open>compareTuples\<close>: subject, relation, object\<close>
  "sort_tuples ts = sort_key mt_User (sort_key mt_Relation (sort_key mt_Object ts))"

definition write_missing ::
  "PassEnv \<Rightarrow> string \<Rightarrow> MemberCoord \<Rightarrow> MembershipTuple list \<Rightarrow> LedgerRow list \<Rightarrow> Pass \<Rightarrow> (pass_error, LedgerRow list \<times> Pass) result" where
  "write_missing e b coord missing rows p =
     (if missing = [] then Inr (rows, p)
      else let (fresh, p1) = collectNew missing p in
        (case on_store (EmitTupleWrite e fresh) p1 of
           Inl err \<Rightarrow> Inl err
         | Inr p2 \<Rightarrow>
        (case on_store (RecordEmittedTuples e b coord missing) p2 of
           Inl err \<Rightarrow> Inl err
         | Inr p3 \<Rightarrow> Inr (rows @ map (\<lambda>t. \<lparr>lr_Member = coord, lr_Tuple = t\<rparr>) missing, p3))))"

definition drop_surplus ::
  "PassEnv \<Rightarrow> string \<Rightarrow> DesiredMember list \<Rightarrow> MemberCoord \<Rightarrow> LedgerRow list \<Rightarrow> Pass \<Rightarrow> (pass_error, LedgerRow list \<times> Pass) result" where
  "drop_surplus e b desired coord rows p =
     (let forget = sort_tuples (filter (\<lambda>t. \<not> claimedAt desired coord t)
            (remdups (map lr_Tuple (filter (\<lambda>r. lr_Member r = coord) rows))));
          revoke = filter (\<lambda>t. \<not> claimed desired t) forget
      in if forget = [] then Inr (rows, p)
         else (case on_store (ForgetEmittedTuples e b (map (\<lambda>t. \<lparr>lr_Member = coord, lr_Tuple = t\<rparr>) forget)) p of
                 Inl err \<Rightarrow> Inl err
               | Inr p1 \<Rightarrow> Inr (filter (\<lambda>r. \<not> (lr_Member r = coord \<and> lr_Tuple r \<in> set forget)) rows, deferDelete b revoke p1)))"

definition convergeMemberTuples ::
  "PassEnv \<Rightarrow> view_scope \<Rightarrow> BindingScope \<Rightarrow> DesiredMember list \<Rightarrow> DesiredMember \<Rightarrow> Pass \<Rightarrow> (pass_error, Pass) result" where
  "convergeMemberTuples e v bs desired d p =
     (if \<not> converges v bs \<or> dm_Tuples d = [] then Inr p
      else (case ensure e v (bs_BindingID bs) p of
              Inl err \<Rightarrow> Inl err
            | Inr rows \<Rightarrow>
           (let coord = desiredCoord d;
                missing = filter (\<lambda>t. \<lparr>lr_Member = coord, lr_Tuple = t\<rparr> \<notin> set rows) (dm_Tuples d)
            in case write_missing e (bs_BindingID bs) coord missing rows p of
                 Inl err \<Rightarrow> Inl err
               | Inr (rows1, p1) \<Rightarrow>
              (case drop_surplus e (bs_BindingID bs) desired coord rows1 p1 of
                 Inl err \<Rightarrow> Inl err
               | Inr (rows2, p2) \<Rightarrow> Inr (p2\<lparr>ps_view := Some rows2\<rparr>)))))"

subsection \<open>The difference\<close>

definition written_coords :: "(string \<times> TargetMember) list \<Rightarrow> DesiredMember list \<Rightarrow> MemberCoord list" where
  \<comment> \<open>the set \<open>writes\<close>\<close>
  "written_coords current desired =
     first_seen (map desiredCoord (filter (\<lambda>d. dm_Status d \<noteq> VerificationPending
       \<and> \<not> (case map_of current (key_of_desired d) of None \<Rightarrow> False | Some prev \<Rightarrow> tm_Status prev = dm_Status d)) desired))"

definition keepLiveDesired ::
  "PassEnv \<Rightarrow> DesiredMember list \<Rightarrow> (string \<times> TargetMember) list \<Rightarrow> (pass_error, DesiredMember list) result" where
  "keepLiveDesired e desired current =
     (let writes = written_coords current desired in
      if writes = [] then Inr desired
      else (case query (liveObjects (pe_src e) writes) of
              Inl err \<Rightarrow> Inl err
            | Inr live \<Rightarrow> Inr (filter (\<lambda>d. \<not> (desiredCoord d \<in> set writes \<and> dm_Status d \<noteq> VerificationPending \<and> \<not> live (desiredCoord d))) desired)))"

definition member_of :: "BindingScope \<Rightarrow> DesiredMember \<Rightarrow> TargetMember" where
  "member_of bs d = \<lparr>tm_BindingID = bs_BindingID bs, tm_RoleID = bs_RoleID bs, tm_RuleFP = dm_RuleFP d,
     tm_ObjectType = dm_ObjectType d, tm_ObjectID = dm_ObjectID d, tm_Status = dm_Status d\<rparr>"

definition activate_member :: "PassEnv \<Rightarrow> BindingScope \<Rightarrow> DesiredMember \<Rightarrow> Pass \<Rightarrow> (pass_error, Pass) result" where
  "activate_member e bs d p =
     (if dm_Tuples d = [] then Inl (CoverageDesync d)
      else let (fresh, p1) = collectNew (dm_Tuples d) p in
        (case on_store (EmitTupleWrite e fresh) p1 of
           Inl err \<Rightarrow> Inl err
         | Inr p2 \<Rightarrow> on_store (RecordEmittedTuples e (bs_BindingID bs) (desiredCoord d) (dm_Tuples d)) p2))"

definition apply_desired ::
  "PassEnv \<Rightarrow> view_scope \<Rightarrow> BindingScope \<Rightarrow> DesiredMember list \<Rightarrow> (string \<times> TargetMember) list \<Rightarrow> DesiredMember \<Rightarrow> Pass \<Rightarrow> (pass_error, Pass) result" where
  "apply_desired e v bs desired current d p =
     (let prev = map_of current (key_of_desired d) in
      if map_option tm_Status prev = Some (dm_Status d)
      then (if dm_Status d = VerificationActive then convergeMemberTuples e v bs desired d p else Inr p)
      else (case on_store (UpsertMember e (member_of bs d)) p of
              Inl err \<Rightarrow> Inl err
            | Inr p1 \<Rightarrow>
                let retract = (case prev of
                      Some m \<Rightarrow> if tm_Status m = VerificationActive then revokeMemberTuples e (bs_BindingID bs) desired m p1 else Inr p1
                    | None \<Rightarrow> Inr p1)
                in (case dm_Status d of
                      VerificationActive \<Rightarrow> activate_member e bs d p1
                    | VerificationRejected \<Rightarrow>
                        (case retract of
                           Inl err \<Rightarrow> Inl err
                         | Inr p2 \<Rightarrow> on_store (EmitContainmentAudit e (bs_BindingID bs) (dm_ObjectType d) (dm_ObjectID d) (bs_Scope bs)) p2)
                    | VerificationPending \<Rightarrow> retract)))"

fun desired_loop ::
  "PassEnv \<Rightarrow> view_scope \<Rightarrow> BindingScope \<Rightarrow> DesiredMember list \<Rightarrow> (string \<times> TargetMember) list \<Rightarrow> DesiredMember list \<Rightarrow> Pass \<Rightarrow> (pass_error, Pass) result" where
  "desired_loop e v bs desired current [] p = Inr p"
| "desired_loop e v bs desired current (d # ds) p =
     (case apply_desired e v bs desired current d p of
        Inl err \<Rightarrow> Inl err
      | Inr p1 \<Rightarrow> desired_loop e v bs desired current ds p1)"

fun leaving_loop ::
  "PassEnv \<Rightarrow> BindingScope \<Rightarrow> DesiredMember list \<Rightarrow> TargetMember list \<Rightarrow> Pass \<Rightarrow> (pass_error, Pass) result" where
  "leaving_loop e bs desired [] p = Inr p"
| "leaving_loop e bs desired (m # ms) p =
     (if key_of_member m \<in> key_of_desired ` set desired then leaving_loop e bs desired ms p
      else (case (if tm_Status m = VerificationActive then revokeMemberTuples e (bs_BindingID bs) desired m p else Inr p) of
              Inl err \<Rightarrow> Inl err
            | Inr p1 \<Rightarrow>
           (case on_store (DeleteMember e (bs_BindingID bs) (tm_RuleFP m) (tm_ObjectType m) (tm_ObjectID m)) p1 of
              Inl err \<Rightarrow> Inl err
            | Inr p2 \<Rightarrow> leaving_loop e bs desired ms p2)))"

definition applyDiff ::
  "PassEnv \<Rightarrow> view_scope \<Rightarrow> BindingScope \<Rightarrow> DesiredMember list \<Rightarrow> TargetMember list \<Rightarrow> Pass \<Rightarrow> (pass_error, Pass) result" where
  "applyDiff e v bs desired0 current0 p =
     (let current = currentByKey current0 in
      case keepLiveDesired e desired0 current of
        Inl err \<Rightarrow> Inl err
      | Inr desired \<Rightarrow>
     (case desired_loop e v bs desired current desired (p\<lparr>ps_view := None\<rparr>) of
        Inl err \<Rightarrow> Inl err
      | Inr p1 \<Rightarrow> leaving_loop e bs desired (pe_walk e (map snd current)) p1))"

subsection \<open>Full passes\<close>

definition lock_call :: "PassEnv \<Rightarrow> string \<Rightarrow> string list \<Rightarrow> Pass \<Rightarrow> (pass_error, Pass) result" where
  "lock_call e name ids p = call e name ids (Inr p)"

definition diff_whole :: "PassEnv \<Rightarrow> bool \<Rightarrow> BindingScope \<Rightarrow> string \<Rightarrow> Pass \<Rightarrow> (pass_error, Pass) result" where
  "diff_whole e converge bs b p =
     (case query (desiredMembers (pe_cat e) (pe_src e) bs) of
        Inl err \<Rightarrow> Inl err
      | Inr desired \<Rightarrow>
     (case CurrentMembers e b (ps_store p) of
        Inl err \<Rightarrow> Inl err
      | Inr current \<Rightarrow> applyDiff e (BindingEmitted converge) bs desired current p))"

definition reconcileBinding :: "PassEnv \<Rightarrow> bool \<Rightarrow> string \<Rightarrow> Pass \<Rightarrow> (pass_error, Pass) result" where
  "reconcileBinding e converge b p0 =
     (case lock_call e ''AcquireBindingLock'' [b] p0 of
        Inl err \<Rightarrow> Inl err
      | Inr p \<Rightarrow>
     (case LoadBinding e b (ps_store p) of
        Inl err \<Rightarrow> Inl err
      | Inr None \<Rightarrow> Inr p
      | Inr (Some bs) \<Rightarrow> if \<not> bs_Active bs then Inr p else diff_whole e converge bs b p))"

definition WithTx :: "PassEnv \<Rightarrow> (Store \<Rightarrow> (pass_error, Store) result) \<Rightarrow> Store \<Rightarrow> pass_error option \<times> Store" where
  \<comment> \<open>committed on success, rolled back on an error\<close>
  "WithTx e f st =
     (case call e ''begin'' [] (Inr ()) of
        Inl err \<Rightarrow> (Some err, st)
      | Inr _ \<Rightarrow>
     (case f st of
        Inl err \<Rightarrow> (Some err, st)
      | Inr st1 \<Rightarrow> (case call e ''commit'' [] (Inr ()) of Inl err \<Rightarrow> (Some err, st) | Inr _ \<Rightarrow> (None, st1))))"

definition run_pass :: "PassEnv \<Rightarrow> (Pass \<Rightarrow> (pass_error, Pass) result) \<Rightarrow> Store \<Rightarrow> (pass_error, Store) result" where
  "run_pass e f st = (case f (new_pass st) of Inl err \<Rightarrow> Inl err | Inr p \<Rightarrow> flushDeletes e p)"

definition fullPass :: "PassEnv \<Rightarrow> bool \<Rightarrow> string \<Rightarrow> Store \<Rightarrow> pass_error option \<times> Store" where
  "fullPass e converge b = WithTx e (run_pass e (reconcileBinding e converge b))"

definition ReconcileBinding :: "PassEnv \<Rightarrow> string \<Rightarrow> Store \<Rightarrow> pass_error option \<times> Store" where
  "ReconcileBinding e = fullPass e False"

definition ConvergeBinding :: "PassEnv \<Rightarrow> string \<Rightarrow> Store \<Rightarrow> pass_error option \<times> Store" where
  "ConvergeBinding e = fullPass e True"

subsection \<open>Steps of a pass\<close>

text \<open>
  What every operation of a pass over binding \<open>b\<close> with the wanted members \<open>D\<close> does: rows of
  other bindings stay, new rows are claimed at their coordinate and claimed rows stay; a tuple
  collected as written has a claimed row; facts are only added; and a forgotten row is claimed
  elsewhere or pending for deletion.
\<close>

definition ledger_step :: "DesiredMember list \<Rightarrow> string \<Rightarrow> Store \<Rightarrow> Store \<Rightarrow> bool" where
  "ledger_step D b st st' \<longleftrightarrow> (\<forall>b' c. b' \<noteq> b \<longrightarrow> rows_at b' c st' = rows_at b' c st)
     \<and> (\<forall>c. rows_at b c st' \<subseteq> rows_at b c st \<union> {t. claimedAt D c t})
     \<and> (\<forall>c. rows_at b c st \<inter> {t. claimedAt D c t} \<subseteq> rows_at b c st')"

definition pending_tuples :: "Pass \<Rightarrow> MembershipTuple set" where
  "pending_tuples p = \<Union> (set ` snd ` set (ps_pending p))"

definition pass_step :: "PassEnv \<Rightarrow> DesiredMember list \<Rightarrow> string \<Rightarrow> Pass \<Rightarrow> Pass \<Rightarrow> bool" where
  "pass_step e D b p p' \<longleftrightarrow> ledger_step D b (ps_store p) (ps_store p')
     \<and> st_bindings (ps_store p') = st_bindings (ps_store p) \<and> st_admins (ps_store p') = st_admins (ps_store p)
     \<and> set (ps_seen p) \<subseteq> set (ps_seen p') \<and> pending_tuples p \<subseteq> pending_tuples p'
     \<and> (\<forall>t \<in> set (ps_seen p') - set (ps_seen p). \<exists>c. t \<in> rows_at b c (ps_store p') \<and> claimedAt D c t)
     \<and> (\<forall>t. st_facts (ps_store p') t \<noteq> None \<longleftrightarrow> st_facts (ps_store p) t \<noteq> None \<or> (t \<in> set (ps_seen p') - set (ps_seen p) \<and> folds t))
     \<and> (\<forall>t f. st_facts (ps_store p') t = Some f \<longrightarrow> st_facts (ps_store p) t = Some f \<or> fact_version f = pe_begin e)
     \<and> (\<forall>c t. t \<in> rows_at b c (ps_store p) \<longrightarrow> t \<in> rows_at b c (ps_store p') \<or> claimed D t \<or> t \<in> pending_tuples p')
     \<and> (\<forall>c t. t \<in> rows_at b c (ps_store p') \<longrightarrow> t \<in> rows_at b c (ps_store p) \<or> t \<in> set (ps_seen p'))"

lemma ledger_step_refl: "ledger_step D b st st"
  by (auto simp: ledger_step_def)

lemma ledger_step_trans:
  assumes "ledger_step D b x y" "ledger_step D b y z"
  shows "ledger_step D b x z"
  using assms unfolding ledger_step_def by blast

lemma ledger_step_rows: "(\<And>b c. rows_at b c st' = rows_at b c st) \<Longrightarrow> ledger_step D b st st'"
  by (auto simp: ledger_step_def)

lemma pass_stepD:
  assumes "pass_step e D b p p'"
  shows "ledger_step D b (ps_store p) (ps_store p')"
    "st_bindings (ps_store p') = st_bindings (ps_store p)" "st_admins (ps_store p') = st_admins (ps_store p)"
    "set (ps_seen p) \<subseteq> set (ps_seen p')" "pending_tuples p \<subseteq> pending_tuples p'"
    "t \<in> set (ps_seen p') \<Longrightarrow> t \<notin> set (ps_seen p) \<Longrightarrow> \<exists>c. t \<in> rows_at b c (ps_store p') \<and> claimedAt D c t"
    "st_facts (ps_store p') t \<noteq> None \<longleftrightarrow> st_facts (ps_store p) t \<noteq> None \<or> (t \<in> set (ps_seen p') - set (ps_seen p) \<and> folds t)"
    "st_facts (ps_store p') t = Some f \<Longrightarrow> st_facts (ps_store p) t = Some f \<or> fact_version f = pe_begin e"
    "t \<in> rows_at b c (ps_store p) \<Longrightarrow> t \<in> rows_at b c (ps_store p') \<or> claimed D t \<or> t \<in> pending_tuples p'"
    "t \<in> rows_at b c (ps_store p') \<Longrightarrow> t \<in> rows_at b c (ps_store p) \<or> t \<in> set (ps_seen p')"
  using assms unfolding pass_step_def by blast+

lemma pass_stepI:
  assumes "ledger_step D b (ps_store p) (ps_store p')"
    "st_bindings (ps_store p') = st_bindings (ps_store p)" "st_admins (ps_store p') = st_admins (ps_store p)"
    "set (ps_seen p) \<subseteq> set (ps_seen p')" "pending_tuples p \<subseteq> pending_tuples p'"
    "\<And>t. t \<in> set (ps_seen p') \<Longrightarrow> t \<notin> set (ps_seen p) \<Longrightarrow> \<exists>c. t \<in> rows_at b c (ps_store p') \<and> claimedAt D c t"
    "\<And>t. st_facts (ps_store p') t \<noteq> None \<longleftrightarrow> st_facts (ps_store p) t \<noteq> None \<or> (t \<in> set (ps_seen p') - set (ps_seen p) \<and> folds t)"
    "\<And>t f. st_facts (ps_store p') t = Some f \<Longrightarrow> st_facts (ps_store p) t = Some f \<or> fact_version f = pe_begin e"
    "\<And>c t. t \<in> rows_at b c (ps_store p) \<Longrightarrow> t \<in> rows_at b c (ps_store p') \<or> claimed D t \<or> t \<in> pending_tuples p'"
    "\<And>c t. t \<in> rows_at b c (ps_store p') \<Longrightarrow> t \<in> rows_at b c (ps_store p) \<or> t \<in> set (ps_seen p')"
  shows "pass_step e D b p p'"
  using assms unfolding pass_step_def by blast

lemma pass_step_refl: "pass_step e D b p p"
  by (rule pass_stepI) (simp_all add: ledger_step_refl)

lemma pass_step_trans:
  assumes 1: "pass_step e D b p q" and 2: "pass_step e D b q r"
  shows "pass_step e D b p r"
proof (rule pass_stepI)
  show "ledger_step D b (ps_store p) (ps_store r)" by (rule ledger_step_trans [OF pass_stepD(1) [OF 1] pass_stepD(1) [OF 2]])
  show "st_bindings (ps_store r) = st_bindings (ps_store p)" "st_admins (ps_store r) = st_admins (ps_store p)"
    using pass_stepD(2,3) [OF 1] pass_stepD(2,3) [OF 2] by simp_all
  show "set (ps_seen p) \<subseteq> set (ps_seen r)" "pending_tuples p \<subseteq> pending_tuples r"
    using pass_stepD(4,5) [OF 1] pass_stepD(4,5) [OF 2] by blast+
  show "\<exists>c. t \<in> rows_at b c (ps_store r) \<and> claimedAt D c t" if t: "t \<in> set (ps_seen r)" "t \<notin> set (ps_seen p)" for t
  proof (cases "t \<in> set (ps_seen q)")
    case True
    then obtain c where "t \<in> rows_at b c (ps_store q)" "claimedAt D c t" using pass_stepD(6) [OF 1 True t(2)] by blast
    then show ?thesis using pass_stepD(1) [OF 2] unfolding ledger_step_def by blast
  qed (rule pass_stepD(6) [OF 2 t(1)])
  show "st_facts (ps_store r) t \<noteq> None \<longleftrightarrow> st_facts (ps_store p) t \<noteq> None \<or> (t \<in> set (ps_seen r) - set (ps_seen p) \<and> folds t)" for t
    using pass_stepD(7) [OF 1, of t] pass_stepD(7) [OF 2, of t] pass_stepD(4) [OF 1] pass_stepD(4) [OF 2] by blast
  show "st_facts (ps_store p) t = Some f \<or> fact_version f = pe_begin e" if "st_facts (ps_store r) t = Some f" for t f
    using pass_stepD(8) [OF 1, of t f] pass_stepD(8) [OF 2 that] by blast
  show "t \<in> rows_at b c (ps_store r) \<or> claimed D t \<or> t \<in> pending_tuples r" if "t \<in> rows_at b c (ps_store p)" for c t
    using pass_stepD(9) [OF 1 that] pass_stepD(9) [OF 2, of t c] pass_stepD(5) [OF 2] by blast
  show "t \<in> rows_at b c (ps_store p) \<or> t \<in> set (ps_seen r)" if "t \<in> rows_at b c (ps_store r)" for c t
    using pass_stepD(10) [OF 2 that] pass_stepD(10) [OF 1, of t c] pass_stepD(4) [OF 2] by blast
qed

lemma claimedAt_claimed: "claimedAt D c t \<Longrightarrow> claimed D t"
  by (auto simp: claimedAt_def claimed_def list_ex_iff)

lemma claimedAtI: "d \<in> set D \<Longrightarrow> dm_Status d = VerificationActive \<Longrightarrow> t \<in> set (dm_Tuples d) \<Longrightarrow> claimedAt D (desiredCoord d) t"
  by (auto simp: claimedAt_def list_ex_iff)

lemma on_storeD: "on_store f p = Inr p' \<Longrightarrow> f (ps_store p) = Inr (ps_store p') \<and> p' = p\<lparr>ps_store := ps_store p'\<rparr>"
  by (auto simp: on_store_def split: sum.splits)

lemma deferDelete_pending: "pending_tuples (deferDelete b ts p) = pending_tuples p \<union> set ts"
  by (auto simp: deferDelete_def pending_tuples_def)

lemma deferDelete_fields [simp]:
  "ps_store (deferDelete b ts p) = ps_store p" "ps_seen (deferDelete b ts p) = ps_seen p" "ps_view (deferDelete b ts p) = ps_view p"
  by (simp_all add: deferDelete_def)

lemma pending_fields [simp]:
  "pending_tuples (p\<lparr>ps_store := st\<rparr>) = pending_tuples p" "pending_tuples (p\<lparr>ps_view := v\<rparr>) = pending_tuples p"
  "pending_tuples (p\<lparr>ps_seen := s\<rparr>) = pending_tuples p"
  by (simp_all add: pending_tuples_def)

text \<open>A change of the store that leaves ledger and facts.\<close>

lemma quiet_step:
  assumes "on_store f p = Inr p'" and "\<And>st'. f (ps_store p) = Inr st' \<Longrightarrow> same_rest (ps_store p) st' \<and> st_ledger st' = st_ledger (ps_store p)"
  shows "pass_step e D b p p'" "ps_view p' = ps_view p" "\<And>b c. rows_at b c (ps_store p') = rows_at b c (ps_store p)"
proof -
  have p': "same_rest (ps_store p) (ps_store p')" "st_ledger (ps_store p') = st_ledger (ps_store p)" "p' = p\<lparr>ps_store := ps_store p'\<rparr>"
    using on_storeD [OF assms(1)] assms(2) by blast+
  show rows: "rows_at b c (ps_store p') = rows_at b c (ps_store p)" for b c by (simp add: rows_at_def p'(2))
  have seen: "ps_seen p' = ps_seen p" "pending_tuples p' = pending_tuples p" by (subst p'(3), simp)+
  show "ps_view p' = ps_view p" by (subst p'(3)) simp
  show "pass_step e D b p p'"
    by (rule pass_stepI) (use p'(1) in \<open>simp_all add: seen rows ledger_step_rows same_rest_def\<close>)
qed

subsection \<open>Writing and forgetting rows\<close>

lemma write_step:
  assumes 1: "on_store (EmitTupleWrite e fresh) p1 = Inr p2" and 2: "on_store (RecordEmittedTuples e b c ts) p2 = Inr p3"
    and p1: "(fresh, p1) = collectNew ts p" and ts: "\<And>t. t \<in> set ts \<Longrightarrow> claimedAt D c t"
  shows "pass_step e D b p p3" "ps_view p3 = ps_view p" "set ts \<subseteq> rows_at b c (ps_store p3)"
proof -
  have f: "fresh = filter (\<lambda>t. t \<notin> set (ps_seen p)) (first_seen ts)" "p1 = p\<lparr>ps_seen := ps_seen p @ fresh\<rparr>"
    using p1 by (simp_all add: collectNew_def Let_def)
  have w: "written (pe_begin e) {t \<in> set fresh. folds t} (ps_store p) (ps_store p2)" "p2 = p1\<lparr>ps_store := ps_store p2\<rparr>"
    using on_storeD [OF 1] EmitTupleWrite_written [of e fresh "ps_store p1" "ps_store p2"] by (simp_all add: f(2))
  have r2: "RecordEmittedTuples e b c ts (ps_store p2) = Inr (ps_store p3)" "p3 = p2\<lparr>ps_store := ps_store p3\<rparr>"
    using on_storeD [OF 2] by simp_all
  note R = RecordEmittedTuples_rows [OF r2(1)]
  have rows: "rows_at b' c' (ps_store p2) = rows_at b' c' (ps_store p)" for b' c'
    using w(1) by (simp add: written_def rows_at_same)
  have fields: "ps_seen p3 = ps_seen p @ fresh" "pending_tuples p3 = pending_tuples p" "ps_view p3 = ps_view p"
    by (subst r2(2), subst w(2), simp add: f(2))+
  show "ps_view p3 = ps_view p" by (rule fields(3))
  show rec: "set ts \<subseteq> rows_at b c (ps_store p3)" by (simp add: R(1))
  have fresh: "set fresh = set ts - set (ps_seen p)" by (auto simp: f(1))
  show "pass_step e D b p p3"
  proof (rule pass_stepI)
    show "ledger_step D b (ps_store p) (ps_store p3)" using ts by (auto simp: ledger_step_def R(1) rows)
    show "st_bindings (ps_store p3) = st_bindings (ps_store p)" "st_admins (ps_store p3) = st_admins (ps_store p)"
      using w(1) R(2) by (simp_all add: written_def same_but_facts_def same_rest_def)
    show "set (ps_seen p) \<subseteq> set (ps_seen p3)" "pending_tuples p \<subseteq> pending_tuples p3" by (simp_all add: fields)
    show "\<exists>c. t \<in> rows_at b c (ps_store p3) \<and> claimedAt D c t" if "t \<in> set (ps_seen p3)" "t \<notin> set (ps_seen p)" for t
      using that fresh ts rec by (intro exI [of _ c]) (auto simp: fields(1))
    show "st_facts (ps_store p3) t \<noteq> None \<longleftrightarrow> st_facts (ps_store p) t \<noteq> None \<or> (t \<in> set (ps_seen p3) - set (ps_seen p) \<and> folds t)" for t
      using w(1) R(2) fresh by (auto simp: written_def same_rest_def fields(1))
    show "st_facts (ps_store p) t = Some f \<or> fact_version f = pe_begin e" if "st_facts (ps_store p3) t = Some f" for t f
      using w(1) R(2) that by (simp add: written_def same_rest_def)
    show "t \<in> rows_at b c' (ps_store p3) \<or> claimed D t \<or> t \<in> pending_tuples p3" if "t \<in> rows_at b c' (ps_store p)" for c' t
      using that by (auto simp: R(1) rows)
    show "t \<in> rows_at b c' (ps_store p) \<or> t \<in> set (ps_seen p3)" if "t \<in> rows_at b c' (ps_store p3)" for c' t
      using that fresh by (auto simp: R(1) rows fields(1) split: if_splits)
  qed
qed

lemma forget_step:
  assumes 1: "ForgetEmittedTuples e b (map (\<lambda>t. \<lparr>lr_Member = c, lr_Tuple = t\<rparr>) forget) (ps_store p) = Inr st"
    and f: "\<And>t. t \<in> set forget \<Longrightarrow> \<not> claimedAt D c t" "set revoke = {t \<in> set forget. \<not> claimed D t}"
    and p': "p' = deferDelete b revoke (p\<lparr>ps_store := st\<rparr>)"
  shows "pass_step e D b p p'" "ps_view p' = ps_view p" "rows_at b c (ps_store p') = rows_at b c (ps_store p) - set forget"
proof -
  note R = ForgetEmittedTuples_rows [OF 1]
  show "ps_view p' = ps_view p" "rows_at b c (ps_store p') = rows_at b c (ps_store p) - set forget" by (simp_all add: p' R(1))
  show "pass_step e D b p p'"
    by (rule pass_stepI) (use R(2) f in \<open>auto simp: p' ledger_step_def R(1) same_rest_def deferDelete_pending split: if_splits\<close>)
qed

subsection \<open>Settled coordinates and recorded members\<close>

definition settled :: "DesiredMember list \<Rightarrow> string \<Rightarrow> MemberCoord \<Rightarrow> Pass \<Rightarrow> bool" where
  "settled D b c p \<longleftrightarrow> (\<forall>t \<in> rows_at b c (ps_store p). claimedAt D c t)"

definition recorded :: "string \<Rightarrow> DesiredMember \<Rightarrow> Pass \<Rightarrow> bool" where
  "recorded b d p \<longleftrightarrow> set (dm_Tuples d) \<subseteq> rows_at b (desiredCoord d) (ps_store p)"

definition in_view :: "view_scope \<Rightarrow> MemberCoord \<Rightarrow> bool" where
  "in_view v c \<longleftrightarrow> (case v of BindingEmitted _ \<Rightarrow> True | ObjectEmitted c' \<Rightarrow> c = c')"

text \<open>
  The ledger read once is older than the table: a claimed row of it is in the table, and a row of
  the table that it lacks is claimed.
\<close>

definition rows_ok :: "DesiredMember list \<Rightarrow> string \<Rightarrow> view_scope \<Rightarrow> LedgerRow list \<Rightarrow> Store \<Rightarrow> bool" where
  "rows_ok D b v rows st \<longleftrightarrow> (\<forall>c t. in_view v c \<longrightarrow>
     (\<lparr>lr_Member = c, lr_Tuple = t\<rparr> \<in> set rows \<and> claimedAt D c t \<longrightarrow> t \<in> rows_at b c st)
     \<and> (t \<in> rows_at b c st \<and> \<lparr>lr_Member = c, lr_Tuple = t\<rparr> \<notin> set rows \<longrightarrow> claimedAt D c t))"

definition view_ok :: "DesiredMember list \<Rightarrow> string \<Rightarrow> view_scope \<Rightarrow> Pass \<Rightarrow> bool" where
  "view_ok D b v p \<longleftrightarrow> (\<forall>rows. ps_view p = Some rows \<longrightarrow> rows_ok D b v rows (ps_store p))"

lemma settled_step: "pass_step e D b p p' \<Longrightarrow> settled D b c p \<Longrightarrow> settled D b c p'"
  using pass_stepD(1) unfolding settled_def ledger_step_def by blast

lemma recorded_step:
  assumes "pass_step e D b p p'" "recorded b d p" "d \<in> set D" "dm_Status d = VerificationActive"
  shows "recorded b d p'"
  using pass_stepD(1) [OF assms(1)] assms(2) claimedAtI [OF assms(3,4)] unfolding recorded_def ledger_step_def by blast

lemma rows_ok_step:
  assumes "ledger_step D b st st'" "rows_ok D b v rows st"
  shows "rows_ok D b v rows st'"
  using assms unfolding rows_ok_def ledger_step_def by blast

lemma view_ok_step:
  assumes "pass_step e D b p p'" "view_ok D b v p" "ps_view p' = ps_view p"
  shows "view_ok D b v p'"
  using assms rows_ok_step [OF pass_stepD(1) [OF assms(1)]] by (simp add: view_ok_def)

lemma revokeMemberTuples_step:
  assumes "revokeMemberTuples e b D m p = Inr p'"
  shows "pass_step e D b p p'" "ps_view p' = ps_view p" "settled D b (coordOf m) p'"
proof -
  obtain ts where ts: "LedgerTuplesForMember e b (coordOf m) (ps_store p) = Inr ts"
    using assms by (auto simp: revokeMemberTuples_def split: sum.splits)
  let ?forget = "filter (\<lambda>t. \<not> claimedAt D (coordOf m) t) ts"
  note rows = LedgerTuplesForMember_set [OF ts]
  have "pass_step e D b p p' \<and> ps_view p' = ps_view p \<and> rows_at b (coordOf m) (ps_store p') = rows_at b (coordOf m) (ps_store p) - set ?forget"
  proof (cases "?forget = []")
    case True
    then have "p' = p" using assms ts by (simp add: revokeMemberTuples_def Let_def)
    then show ?thesis using True by (simp only: pass_step_refl) simp
  next
    case False
    then obtain st where st: "ForgetEmittedTuples e b (map (\<lambda>t. \<lparr>lr_Member = coordOf m, lr_Tuple = t\<rparr>) ?forget) (ps_store p) = Inr st"
      "p' = deferDelete b (filter (\<lambda>t. \<not> claimed D t) ?forget) (p\<lparr>ps_store := st\<rparr>)"
      using assms ts unfolding revokeMemberTuples_def Let_def by (auto split: sum.splits if_splits)
    show ?thesis using forget_step [OF st(1) _ _ st(2), of D] by auto
  qed
  then show "pass_step e D b p p'" "ps_view p' = ps_view p" "settled D b (coordOf m) p'"
    using rows by (auto simp: settled_def)
qed

lemma ensure_ok:
  assumes "ensure e v b p = Inr rows" "view_ok D b v p"
  shows "rows_ok D b v rows (ps_store p)"
proof (cases "ps_view p")
  case None
  show ?thesis
  proof (cases v)
    case (BindingEmitted c)
    then have "LedgerTuples e b (ps_store p) = Inr rows" using assms(1) None by (simp add: ensure_def)
    from LedgerTuples_set [OF this] show ?thesis by (simp add: rows_ok_def)
  next
    case (ObjectEmitted c)
    then obtain ts where ts: "LedgerTuplesForMember e b c (ps_store p) = Inr ts" "rows = map (\<lambda>t. \<lparr>lr_Member = c, lr_Tuple = t\<rparr>) ts"
      using assms(1) None by (auto simp: ensure_def split: sum.splits)
    show ?thesis using LedgerTuplesForMember_set [OF ts(1)] by (auto simp: rows_ok_def in_view_def ObjectEmitted ts(2))
  qed
next
  case (Some rows')
  then show ?thesis using assms by (simp add: ensure_def view_ok_def)
qed

lemma sort_tuples_set [simp]: "set (sort_tuples ts) = set ts"
  by (simp add: sort_tuples_def)

lemma write_missing_step:
  assumes "write_missing e b c missing rows p = Inr (rows', p')" and claim: "\<And>t. t \<in> set missing \<Longrightarrow> claimedAt D c t"
  shows "pass_step e D b p p'" "set missing \<subseteq> rows_at b c (ps_store p')"
    "rows_ok D b v rows (ps_store p) \<Longrightarrow> rows_ok D b v rows' (ps_store p')"
proof -
  have "pass_step e D b p p' \<and> set missing \<subseteq> rows_at b c (ps_store p') \<and> set rows' = set rows \<union> {\<lparr>lr_Member = c, lr_Tuple = t\<rparr> |t. t \<in> set missing}"
  proof (cases "missing = []")
    case True
    then show ?thesis using assms(1) by (simp add: write_missing_def pass_step_refl)
  next
    case False
    obtain fresh p1 where p1: "collectNew missing p = (fresh, p1)" by fastforce
    then obtain p2 where p2: "on_store (EmitTupleWrite e fresh) p1 = Inr p2" "on_store (RecordEmittedTuples e b c missing) p2 = Inr p'"
      "rows' = rows @ map (\<lambda>t. \<lparr>lr_Member = c, lr_Tuple = t\<rparr>) missing"
      using assms(1) False by (auto simp: write_missing_def Let_def split: sum.splits)
    show ?thesis using write_step [OF p2(1,2) p1 [symmetric] claim] by (auto simp: p2(3))
  qed
  then have s: "pass_step e D b p p'" and m: "set missing \<subseteq> rows_at b c (ps_store p')"
    and rows': "set rows' = set rows \<union> {\<lparr>lr_Member = c, lr_Tuple = t\<rparr> |t. t \<in> set missing}" by blast+
  show "pass_step e D b p p'" "set missing \<subseteq> rows_at b c (ps_store p')" by (rule s, rule m)
  show "rows_ok D b v rows' (ps_store p')" if ok: "rows_ok D b v rows (ps_store p)"
    using rows_ok_step [OF pass_stepD(1) [OF s] ok] m unfolding rows_ok_def rows' by blast
qed

lemma drop_surplus_step:
  assumes "drop_surplus e b D c rows p = Inr (rows', p')"
  shows "pass_step e D b p p'" "rows_ok D b v rows (ps_store p) \<Longrightarrow> rows_ok D b v rows' (ps_store p')"
    "rows_ok D b v rows (ps_store p) \<Longrightarrow> in_view v c \<Longrightarrow> settled D b c p'"
proof -
  let ?forget = "sort_tuples (filter (\<lambda>t. \<not> claimedAt D c t) (remdups (map lr_Tuple (filter (\<lambda>r. lr_Member r = c) rows))))"
  have forget: "t \<in> set ?forget \<longleftrightarrow> \<not> claimedAt D c t \<and> \<lparr>lr_Member = c, lr_Tuple = t\<rparr> \<in> set rows" for t
  proof -
    have eq: "r = \<lparr>lr_Member = c, lr_Tuple = t\<rparr> \<longleftrightarrow> lr_Member r = c \<and> lr_Tuple r = t" for r :: LedgerRow by auto
    have "\<lparr>lr_Member = c, lr_Tuple = t\<rparr> \<in> set rows \<longleftrightarrow> (\<exists>r \<in> set rows. lr_Member r = c \<and> lr_Tuple r = t)"
      using eq by metis
    then show ?thesis by auto
  qed
  have "pass_step e D b p p' \<and> rows_at b c (ps_store p') = rows_at b c (ps_store p) - set ?forget
      \<and> rows' = filter (\<lambda>r. \<not> (lr_Member r = c \<and> lr_Tuple r \<in> set ?forget)) rows"
  proof (cases "?forget = []")
    case True
    then show ?thesis using assms(1) by (simp add: drop_surplus_def Let_def pass_step_refl)
  next
    case False
    then obtain p1 where p1: "on_store (ForgetEmittedTuples e b (map (\<lambda>t. \<lparr>lr_Member = c, lr_Tuple = t\<rparr>) ?forget)) p = Inr p1"
      "p' = deferDelete b (filter (\<lambda>t. \<not> claimed D t) ?forget) p1" "rows' = filter (\<lambda>r. \<not> (lr_Member r = c \<and> lr_Tuple r \<in> set ?forget)) rows"
      using assms(1) unfolding drop_surplus_def Let_def by (auto split: sum.splits if_splits)
    have p': "p' = deferDelete b (filter (\<lambda>t. \<not> claimed D t) ?forget) (p\<lparr>ps_store := ps_store p1\<rparr>)"
      using on_storeD [OF p1(1)] p1(2) by (metis (no_types))
    have nc: "\<not> claimedAt D c t" if "t \<in> set ?forget" for t using that forget by blast
    note f = forget_step [OF conjunct1 [OF on_storeD [OF p1(1)]] nc _ p']
    show ?thesis using f(1) f(3) p1(3) by simp
  qed
  then have s: "pass_step e D b p p'" and rows: "rows_at b c (ps_store p') = rows_at b c (ps_store p) - set ?forget"
    and rows': "rows' = filter (\<lambda>r. \<not> (lr_Member r = c \<and> lr_Tuple r \<in> set ?forget)) rows" by blast+
  show "pass_step e D b p p'" by (rule s)
  have r: "t \<in> rows_at b c (ps_store p') \<longleftrightarrow> t \<in> rows_at b c (ps_store p) \<and> (claimedAt D c t \<or> \<lparr>lr_Member = c, lr_Tuple = t\<rparr> \<notin> set rows)" for t
    unfolding rows using forget by blast
  show "settled D b c p'" if "rows_ok D b v rows (ps_store p)" "in_view v c" using that by (auto simp: settled_def rows_ok_def r)
  have "\<lparr>lr_Member = c', lr_Tuple = t\<rparr> \<in> set rows' \<longleftrightarrow> \<lparr>lr_Member = c', lr_Tuple = t\<rparr> \<in> set rows \<and> (c' = c \<longrightarrow> claimedAt D c t)" for c' t
    unfolding rows' set_filter mem_Collect_eq LedgerRow.select_convs using forget by blast
  note r' = this
  show "rows_ok D b v rows' (ps_store p')" if ok: "rows_ok D b v rows (ps_store p)"
    using rows_ok_step [OF pass_stepD(1) [OF s] ok] r r' unfolding rows_ok_def by metis
qed

lemma converge_cases:
  assumes "convergeMemberTuples e v bs D d p = Inr p'" "converges v bs" "dm_Tuples d \<noteq> []"
  obtains rows rows1 p1 rows2 p2 where "ensure e v (bs_BindingID bs) p = Inr rows"
    "write_missing e (bs_BindingID bs) (desiredCoord d)
       (filter (\<lambda>t. \<lparr>lr_Member = desiredCoord d, lr_Tuple = t\<rparr> \<notin> set rows) (dm_Tuples d)) rows p = Inr (rows1, p1)"
    "drop_surplus e (bs_BindingID bs) D (desiredCoord d) rows1 p1 = Inr (rows2, p2)" "p' = p2\<lparr>ps_view := Some rows2\<rparr>"
proof -
  note c = assms(1) [unfolded convergeMemberTuples_def Let_def]
  obtain rows where rows: "ensure e v (bs_BindingID bs) p = Inr rows" using c assms(2,3) by (auto split: sum.splits)
  obtain rows1 p1 where w: "write_missing e (bs_BindingID bs) (desiredCoord d)
       (filter (\<lambda>t. \<lparr>lr_Member = desiredCoord d, lr_Tuple = t\<rparr> \<notin> set rows) (dm_Tuples d)) rows p = Inr (rows1, p1)"
    using c assms(2,3) rows by (auto split: sum.splits prod.splits)
  obtain rows2 p2 where s: "drop_surplus e (bs_BindingID bs) D (desiredCoord d) rows1 p1 = Inr (rows2, p2)" "p' = p2\<lparr>ps_view := Some rows2\<rparr>"
    using c assms(2,3) rows w by (auto split: sum.splits prod.splits)
  show ?thesis by (rule that [OF rows w s])
qed

lemma convergeMemberTuples_pass:
  assumes c: "convergeMemberTuples e v bs D d p = Inr p'" and d: "d \<in> set D" "dm_Status d = VerificationActive"
  shows "pass_step e D (bs_BindingID bs) p p'"
proof (cases "converges v bs \<and> dm_Tuples d \<noteq> []")
  case True
  obtain rows rows1 p1 rows2 p2 where "ensure e v (bs_BindingID bs) p = Inr rows" and s: "write_missing e (bs_BindingID bs) (desiredCoord d)
       (filter (\<lambda>t. \<lparr>lr_Member = desiredCoord d, lr_Tuple = t\<rparr> \<notin> set rows) (dm_Tuples d)) rows p = Inr (rows1, p1)"
      "drop_surplus e (bs_BindingID bs) D (desiredCoord d) rows1 p1 = Inr (rows2, p2)" "p' = p2\<lparr>ps_view := Some rows2\<rparr>"
    by (rule converge_cases [OF c conjunct1 [OF True] conjunct2 [OF True]])
  have "pass_step e D (bs_BindingID bs) p p1" by (rule write_missing_step(1) [OF s(1)]) (use claimedAtI [OF d] in simp)
  then have "pass_step e D (bs_BindingID bs) p p2" by (rule pass_step_trans [OF _ drop_surplus_step(1) [OF s(2)]])
  then show ?thesis by (simp add: pass_step_def s(3))
next
  case False
  then show ?thesis using c by (auto simp: convergeMemberTuples_def pass_step_refl)
qed

lemma convergeMemberTuples_step:
  assumes c: "convergeMemberTuples e v bs D d p = Inr p'" and ok: "view_ok D (bs_BindingID bs) v p" and view: "in_view v (desiredCoord d)"
    and d: "d \<in> set D" "dm_Status d = VerificationActive"
  shows "view_ok D (bs_BindingID bs) v p'"
    "converges v bs \<Longrightarrow> dm_Tuples d \<noteq> [] \<Longrightarrow> recorded (bs_BindingID bs) d p' \<and> settled D (bs_BindingID bs) (desiredCoord d) p'"
proof -
  let ?b = "bs_BindingID bs" and ?c = "desiredCoord d"
  have "view_ok D ?b v p' \<and> (converges v bs \<and> dm_Tuples d \<noteq> [] \<longrightarrow> recorded ?b d p' \<and> settled D ?b ?c p')"
  proof (cases "converges v bs \<and> dm_Tuples d \<noteq> []")
    case False
    then show ?thesis using c ok by (auto simp: convergeMemberTuples_def)
  next
    case True
    then have t: "converges v bs" "dm_Tuples d \<noteq> []" by simp_all
    let ?missing = "\<lambda>rows. filter (\<lambda>t. \<lparr>lr_Member = ?c, lr_Tuple = t\<rparr> \<notin> set rows) (dm_Tuples d)"
    obtain rows rows1 p1 rows2 p2 where rows: "ensure e v ?b p = Inr rows" and w: "write_missing e ?b ?c (?missing rows) rows p = Inr (rows1, p1)"
      and s: "drop_surplus e ?b D ?c rows1 p1 = Inr (rows2, p2)" "p' = p2\<lparr>ps_view := Some rows2\<rparr>"
      by (rule converge_cases [OF c t])
    have cl: "claimedAt D ?c t" if "t \<in> set (dm_Tuples d)" for t using claimedAtI [OF d that] .
    note R = ensure_ok [OF rows ok]
    have cl': "claimedAt D ?c t" if "t \<in> set (?missing rows)" for t using that cl by simp
    note S = drop_surplus_step [OF s(1)]
    have W: "pass_step e D ?b p p1" "set (?missing rows) \<subseteq> rows_at ?b ?c (ps_store p1)" "rows_ok D ?b v rows1 (ps_store p1)"
      by (rule write_missing_step(1) [OF w], erule cl') (rule write_missing_step(2) [OF w], erule cl', rule write_missing_step(3) [OF w _ R], erule cl')
    note ok1 = W(3)
    have "t \<in> rows_at ?b ?c (ps_store p2)" if t: "t \<in> set (dm_Tuples d)" for t
    proof -
      have "t \<in> rows_at ?b ?c (ps_store p1)"
      proof (cases "\<lparr>lr_Member = ?c, lr_Tuple = t\<rparr> \<in> set rows")
        case True
        then have "t \<in> rows_at ?b ?c (ps_store p)" using R cl [OF t] view unfolding rows_ok_def by blast
        then show ?thesis using pass_stepD(1) [OF W(1)] cl [OF t] unfolding ledger_step_def by blast
      next
        case False
        then show ?thesis using W(2) t by auto
      qed
      then show ?thesis using pass_stepD(1) [OF S(1)] cl [OF t] unfolding ledger_step_def by blast
    qed
    then have "recorded ?b d p'" by (auto simp: recorded_def s(2))
    moreover have "settled D ?b ?c p'" using S(3) [OF ok1 view] by (simp add: settled_def s(2))
    moreover have "view_ok D ?b v p'" using S(2) [OF ok1] by (simp add: view_ok_def s(2))
    ultimately show ?thesis by blast
  qed
  then show "view_ok D ?b v p'" "converges v bs \<Longrightarrow> dm_Tuples d \<noteq> [] \<Longrightarrow> recorded ?b d p' \<and> settled D ?b ?c p'" by blast+
qed

subsection \<open>The difference as a whole\<close>

lemma activate_member_step:
  assumes "activate_member e bs d p = Inr p'" and d: "d \<in> set D" "dm_Status d = VerificationActive"
  shows "pass_step e D (bs_BindingID bs) p p'" "ps_view p' = ps_view p" "recorded (bs_BindingID bs) d p'"
proof -
  obtain fresh p1 where p1: "collectNew (dm_Tuples d) p = (fresh, p1)" by fastforce
  then obtain p2 where p2: "on_store (EmitTupleWrite e fresh) p1 = Inr p2"
      "on_store (RecordEmittedTuples e (bs_BindingID bs) (desiredCoord d) (dm_Tuples d)) p2 = Inr p'"
    using assms(1) by (auto simp: activate_member_def Let_def split: if_splits sum.splits)
  note w = write_step [OF p2 p1 [symmetric] claimedAtI [OF d]]
  show "pass_step e D (bs_BindingID bs) p p'" "ps_view p' = ps_view p" "recorded (bs_BindingID bs) d p'"
    using w by (simp_all add: recorded_def)
qed

definition was_active :: "(string \<times> TargetMember) list \<Rightarrow> DesiredMember \<Rightarrow> bool" where
  "was_active current d \<longleftrightarrow> (case map_of current (key_of_desired d) of None \<Rightarrow> False | Some m \<Rightarrow> tm_Status m = VerificationActive)"

definition done_with :: "view_scope \<Rightarrow> BindingScope \<Rightarrow> DesiredMember list \<Rightarrow> (string \<times> TargetMember) list \<Rightarrow> DesiredMember \<Rightarrow> Pass \<Rightarrow> bool" where
  "done_with v bs D current d p \<longleftrightarrow>
     (dm_Status d = VerificationActive \<and> (converges v bs \<or> \<not> was_active current d) \<longrightarrow> recorded (bs_BindingID bs) d p)
     \<and> (was_active current d \<and> (converges v bs \<or> dm_Status d \<noteq> VerificationActive) \<longrightarrow> settled D (bs_BindingID bs) (desiredCoord d) p)"

lemma done_with_step:
  "pass_step e D (bs_BindingID bs) p p' \<Longrightarrow> d \<in> set D \<Longrightarrow> done_with v bs D current d p \<Longrightarrow> done_with v bs D current d p'"
  using settled_step recorded_step unfolding done_with_def by blast

lemma apply_desired_step:
  assumes a: "apply_desired e v bs D current d p = Inr p'" and d: "d \<in> set D"
    and ok: "view_ok D (bs_BindingID bs) v p" "in_view v (desiredCoord d)"
    and tuples: "dm_Status d = VerificationActive \<Longrightarrow> dm_Tuples d \<noteq> []"
    and coord: "\<And>m. map_of current (key_of_desired d) = Some m \<Longrightarrow> coordOf m = desiredCoord d"
  shows "pass_step e D (bs_BindingID bs) p p' \<and> view_ok D (bs_BindingID bs) v p' \<and> done_with v bs D current d p'"
proof (cases "map_option tm_Status (map_of current (key_of_desired d)) = Some (dm_Status d)")
  case True
  show ?thesis
  proof (cases "dm_Status d = VerificationActive")
    case act: True
    then have c: "convergeMemberTuples e v bs D d p = Inr p'" using a True by (simp add: apply_desired_def Let_def)
    have "was_active current d" using True act by (auto simp: was_active_def split: option.splits)
    then show ?thesis using convergeMemberTuples_pass [OF c d act] convergeMemberTuples_step [OF c ok d act] tuples [OF act] act by (simp add: done_with_def)
  next
    case False
    then have "p' = p" using a True by (simp add: apply_desired_def Let_def)
    moreover have "\<not> was_active current d" using True False by (auto simp: was_active_def)
    ultimately show ?thesis using ok(1) False by (simp add: pass_step_refl done_with_def)
  qed
next
  case False
  then obtain p1 where p1: "on_store (UpsertMember e (member_of bs d)) p = Inr p1"
    using a unfolding apply_desired_def Let_def if_not_P [OF False] by (auto split: sum.splits)
  have q: "pass_step e D (bs_BindingID bs) p p1" "ps_view p1 = ps_view p"
    using quiet_step(1,2) [OF p1] UpsertMember_same by blast+
  have ok1: "view_ok D (bs_BindingID bs) v p1" by (rule view_ok_step [OF q(1) ok(1) q(2)])
  let ?retract = "case map_of current (key_of_desired d) of
      Some m \<Rightarrow> if tm_Status m = VerificationActive then revokeMemberTuples e (bs_BindingID bs) D m p1 else Inr p1 | None \<Rightarrow> Inr p1"
  have retract: "pass_step e D (bs_BindingID bs) p1 p2 \<and> ps_view p2 = ps_view p1 \<and> (was_active current d \<longrightarrow> settled D (bs_BindingID bs) (desiredCoord d) p2)"
    if "?retract = Inr p2" for p2
  proof (cases "was_active current d")
    case True
    then obtain m where m: "map_of current (key_of_desired d) = Some m" "tm_Status m = VerificationActive"
      by (auto simp: was_active_def split: option.splits)
    then show ?thesis using revokeMemberTuples_step [of e "bs_BindingID bs" D m p1 p2] that coord [OF m(1)] by simp
  next
    case False
    then have "p2 = p1" using that by (auto simp: was_active_def split: option.splits if_splits)
    then show ?thesis using False by (simp add: pass_step_refl)
  qed
  have a1: "(case dm_Status d of VerificationActive \<Rightarrow> activate_member e bs d p1
      | VerificationRejected \<Rightarrow> (case ?retract of Inl err \<Rightarrow> Inl err
          | Inr p2 \<Rightarrow> on_store (EmitContainmentAudit e (bs_BindingID bs) (dm_ObjectType d) (dm_ObjectID d) (bs_Scope bs)) p2)
      | VerificationPending \<Rightarrow> ?retract) = Inr p'"
    using a unfolding apply_desired_def Let_def if_not_P [OF False] p1 sum.case .
  show ?thesis
  proof (cases "dm_Status d")
    case VerificationActive
    then have act: "activate_member e bs d p1 = Inr p'" using a1 by simp
    note s = activate_member_step [OF act d VerificationActive]
    have "\<not> was_active current d" using False VerificationActive by (auto simp: was_active_def split: option.splits)
    then show ?thesis using pass_step_trans [OF q(1) s(1)] view_ok_step [OF s(1) ok1 s(2)] s(3) by (simp add: done_with_def)
  next
    case VerificationPending
    then have "?retract = Inr p'" using a1 by simp
    note r = retract [OF this]
    show ?thesis
      using r pass_step_trans [OF q(1) conjunct1 [OF r]] view_ok_step [OF conjunct1 [OF r] ok1] VerificationPending by (simp add: done_with_def)
  next
    case VerificationRejected
    then obtain p2 where p2: "?retract = Inr p2" "on_store (EmitContainmentAudit e (bs_BindingID bs) (dm_ObjectType d) (dm_ObjectID d) (bs_Scope bs)) p2 = Inr p'"
      using a1 by (auto split: sum.splits)
    note r = retract [OF p2(1)]
    have "pass_step e D (bs_BindingID bs) p2 p' \<and> ps_view p' = ps_view p2"
      using quiet_step(1,2) [OF p2(2)] EmitContainmentAudit_same by blast
    then have s: "pass_step e D (bs_BindingID bs) p1 p'" "ps_view p' = ps_view p1" "pass_step e D (bs_BindingID bs) p2 p'"
      using r pass_step_trans by fastforce+
    then show ?thesis using pass_step_trans [OF q(1) s(1)] view_ok_step [OF s(1) ok1 s(2)] r settled_step [OF s(3)] VerificationRejected
      by (simp add: done_with_def)
  qed
qed

lemma desired_loop_step:
  assumes "desired_loop e v bs D current ds p = Inr p'" and "set ds \<subseteq> set D" and "view_ok D (bs_BindingID bs) v p"
    and "\<And>d. d \<in> set D \<Longrightarrow> in_view v (desiredCoord d)"
    and "\<And>d. d \<in> set D \<Longrightarrow> dm_Status d = VerificationActive \<Longrightarrow> dm_Tuples d \<noteq> []"
    and "\<And>d m. d \<in> set D \<Longrightarrow> map_of current (key_of_desired d) = Some m \<Longrightarrow> coordOf m = desiredCoord d"
  shows "pass_step e D (bs_BindingID bs) p p' \<and> (\<forall>d \<in> set ds. done_with v bs D current d p')"
  using assms(1-3)
proof (induction ds arbitrary: p)
  case Nil
  then show ?case by (simp add: pass_step_refl)
next
  case (Cons d ds)
  obtain p1 where p1: "apply_desired e v bs D current d p = Inr p1" "desired_loop e v bs D current ds p1 = Inr p'"
    using Cons.prems(1) by (auto split: sum.splits)
  have d: "d \<in> set D" using Cons.prems(2) by simp
  note s = apply_desired_step [OF p1(1) d Cons.prems(3) assms(4) [OF d] assms(5) [OF d] assms(6) [OF d], simplified]
  have rest: "pass_step e D (bs_BindingID bs) p1 p'" "\<forall>d \<in> set ds. done_with v bs D current d p'"
    using Cons.IH [OF p1(2)] Cons.prems(2) s by auto
  then show ?case using s pass_step_trans done_with_step [OF rest(1) d] by fastforce
qed

text \<open>What the difference does to rows and facts needs nothing of the members.\<close>

lemma retract_pass:
  assumes "(case prev of Some m \<Rightarrow> if tm_Status m = VerificationActive then revokeMemberTuples e b D m p else Inr p | None \<Rightarrow> Inr p) = Inr p'"
  shows "pass_step e D b p p'"
  using assms revokeMemberTuples_step(1) by (auto simp: pass_step_refl split: option.splits if_splits)

lemma apply_desired_pass:
  assumes a: "apply_desired e v bs D current d p = Inr p'" and d: "d \<in> set D"
  shows "pass_step e D (bs_BindingID bs) p p'"
proof (cases "map_option tm_Status (map_of current (key_of_desired d)) = Some (dm_Status d)")
  case True
  then show ?thesis using a d convergeMemberTuples_pass by (auto simp: apply_desired_def Let_def pass_step_refl split: if_splits)
next
  case False
  then obtain p1 where p1: "on_store (UpsertMember e (member_of bs d)) p = Inr p1"
    using a unfolding apply_desired_def Let_def if_not_P [OF False] by (auto split: sum.splits)
  have q: "pass_step e D (bs_BindingID bs) p p1" using quiet_step(1) [OF p1] UpsertMember_same by blast
  have "pass_step e D (bs_BindingID bs) p1 p'"
  proof (cases "dm_Status d")
    case VerificationActive
    then have "activate_member e bs d p1 = Inr p'" using a unfolding apply_desired_def Let_def if_not_P [OF False] p1 sum.case by simp
    then show ?thesis by (rule activate_member_step(1) [OF _ d VerificationActive])
  next
    case VerificationPending
    then show ?thesis using a unfolding apply_desired_def Let_def if_not_P [OF False] p1 sum.case by (intro retract_pass) simp
  next
    case VerificationRejected
    then obtain p2 where p2: "(case map_of current (key_of_desired d) of
          Some m \<Rightarrow> if tm_Status m = VerificationActive then revokeMemberTuples e (bs_BindingID bs) D m p1 else Inr p1 | None \<Rightarrow> Inr p1) = Inr p2"
        "on_store (EmitContainmentAudit e (bs_BindingID bs) (dm_ObjectType d) (dm_ObjectID d) (bs_Scope bs)) p2 = Inr p'"
      using a unfolding apply_desired_def Let_def if_not_P [OF False] p1 sum.case by (auto split: sum.splits)
    have "pass_step e D (bs_BindingID bs) p2 p'" using quiet_step(1) [OF p2(2)] EmitContainmentAudit_same by blast
    then show ?thesis by (rule pass_step_trans [OF retract_pass [OF p2(1)]])
  qed
  then show ?thesis by (rule pass_step_trans [OF q])
qed

lemma desired_loop_pass:
  "desired_loop e v bs D current ds p = Inr p' \<Longrightarrow> set ds \<subseteq> set D \<Longrightarrow> pass_step e D (bs_BindingID bs) p p'"
proof (induction ds arbitrary: p)
  case (Cons d ds)
  then obtain p1 where p1: "apply_desired e v bs D current d p = Inr p1" "desired_loop e v bs D current ds p1 = Inr p'" by (auto split: sum.splits)
  show ?case using pass_step_trans [OF apply_desired_pass [OF p1(1)] Cons.IH [OF p1(2)]] Cons.prems(2) by simp
qed (simp add: pass_step_refl)

lemma leaving_loop_step:
  assumes "leaving_loop e bs D ms p = Inr p'"
  shows "pass_step e D (bs_BindingID bs) p p' \<and> (\<forall>m \<in> set ms. key_of_member m \<notin> key_of_desired ` set D \<and> tm_Status m = VerificationActive
    \<longrightarrow> settled D (bs_BindingID bs) (coordOf m) p')"
  using assms
proof (induction ms arbitrary: p)
  case Nil
  then show ?case by (simp add: pass_step_refl)
next
  case (Cons m ms)
  show ?case
  proof (cases "key_of_member m \<in> key_of_desired ` set D")
    case True
    then show ?thesis using Cons by simp
  next
    case False
    then obtain p1 p2 where p1: "(if tm_Status m = VerificationActive then revokeMemberTuples e (bs_BindingID bs) D m p else Inr p) = Inr p1"
      and p2: "on_store (DeleteMember e (bs_BindingID bs) (tm_RuleFP m) (tm_ObjectType m) (tm_ObjectID m)) p1 = Inr p2"
        "leaving_loop e bs D ms p2 = Inr p'"
      using Cons.prems by (auto split: sum.splits)
    have s1: "pass_step e D (bs_BindingID bs) p p1" "tm_Status m = VerificationActive \<Longrightarrow> settled D (bs_BindingID bs) (coordOf m) p1"
      using p1 revokeMemberTuples_step [of e "bs_BindingID bs" D m p p1] by (auto simp: pass_step_refl split: if_splits)
    have s2: "pass_step e D (bs_BindingID bs) p1 p2" using quiet_step(1) [OF p2(1)] DeleteMember_same by blast
    note s3 = Cons.IH [OF p2(2)]
    have s23: "pass_step e D (bs_BindingID bs) p1 p'" by (rule pass_step_trans [OF s2]) (use s3 in blast)
    show ?thesis using s3 pass_step_trans [OF s1(1) s23] settled_step [OF s23 s1(2)] by auto
  qed
qed

text \<open>The keys of members tell them apart.\<close>

definition keys_ok :: "DesiredMember list \<Rightarrow> TargetMember list \<Rightarrow> bool" where
  "keys_ok D ms \<longleftrightarrow> inj_on key_of_member (set ms)
     \<and> (\<forall>d \<in> set D. \<forall>m \<in> set ms. key_of_member m = key_of_desired d \<longrightarrow> coordOf m = desiredCoord d)"

lemma currentByKey_snoc: "currentByKey (ms @ [m]) = AList.update (key_of_member m) m (currentByKey ms)"
  by (simp add: currentByKey_def)

lemma currentByKey_distinct: "distinct (map fst (currentByKey ms))"
  by (induction ms rule: rev_induct) (simp_all add: currentByKey_snoc distinct_update, simp add: currentByKey_def)

lemma currentByKey_map:
  assumes "inj_on key_of_member (set ms)"
  shows "map_of (currentByKey ms) k = Some m \<longleftrightarrow> m \<in> set ms \<and> key_of_member m = k"
  using assms
proof (induction ms rule: rev_induct)
  case Nil
  then show ?case by (simp add: currentByKey_def)
next
  case (snoc x xs)
  have inj: "inj_on key_of_member (set xs)" using snoc.prems by (rule inj_on_subset) auto
  show ?case
  proof (cases "k = key_of_member x")
    case True
    have "m \<in> set (xs @ [x]) \<and> key_of_member m = k \<longleftrightarrow> m = x" using snoc.prems True by (auto simp: inj_on_def)
    then show ?thesis using True by (auto simp: currentByKey_snoc update_conv')
  next
    case False
    then show ?thesis using snoc.IH [OF inj] by (auto simp: currentByKey_snoc update_conv')
  qed
qed

lemma currentByKey_values:
  assumes "inj_on key_of_member (set ms)"
  shows "set (map snd (currentByKey ms)) = set ms"
proof -
  have "m \<in> set (map snd (currentByKey ms)) \<longleftrightarrow> (\<exists>k. map_of (currentByKey ms) k = Some m)" for m
    using currentByKey_distinct [of ms] by (force simp: map_of_eq_Some_iff)
  then show ?thesis using currentByKey_map [OF assms] by auto
qed

lemma applyDiff_pass:
  assumes "applyDiff e v bs D0 ms p = Inr p'"
  obtains D where "pass_step e D (bs_BindingID bs) p p'"
proof -
  obtain D p1 where s: "desired_loop e v bs D (currentByKey ms) D (p\<lparr>ps_view := None\<rparr>) = Inr p1"
      "leaving_loop e bs D (pe_walk e (map snd (currentByKey ms))) p1 = Inr p'"
    using assms by (auto simp: applyDiff_def Let_def split: sum.splits)
  have "pass_step e D (bs_BindingID bs) (p\<lparr>ps_view := None\<rparr>) p'"
    using pass_step_trans [OF desired_loop_pass [OF s(1) subset_refl]] leaving_loop_step [OF s(2)] by blast
  moreover have "pass_step e D (bs_BindingID bs) (p\<lparr>ps_view := None\<rparr>) p' = pass_step e D (bs_BindingID bs) p p'" by (simp add: pass_step_def)
  ultimately show ?thesis using that by blast
qed

lemma applyDiff_step:
  assumes a: "applyDiff e v bs D0 ms p = Inr p'" and walk: "\<And>xs. set (pe_walk e xs) = set xs"
    and live: "keepLiveDesired e D0 (currentByKey ms) = Inr D"
    and view: "\<And>d. d \<in> set D \<Longrightarrow> in_view v (desiredCoord d)"
    and tuples: "\<And>d. d \<in> set D \<Longrightarrow> dm_Status d = VerificationActive \<Longrightarrow> dm_Tuples d \<noteq> []"
    and keys: "keys_ok D ms"
  shows "pass_step e D (bs_BindingID bs) (p\<lparr>ps_view := None\<rparr>) p'"
    "\<And>d. d \<in> set D \<Longrightarrow> done_with v bs D (currentByKey ms) d p'"
    "\<And>m. m \<in> set ms \<Longrightarrow> tm_Status m = VerificationActive \<Longrightarrow> converges v bs \<or> key_of_member m \<notin> key_of_desired ` set D \<Longrightarrow>
      settled D (bs_BindingID bs) (coordOf m) p'"
proof -
  have inj: "inj_on key_of_member (set ms)" using keys by (simp add: keys_ok_def)
  obtain p1 where p1: "desired_loop e v bs D (currentByKey ms) D (p\<lparr>ps_view := None\<rparr>) = Inr p1"
      "leaving_loop e bs D (pe_walk e (map snd (currentByKey ms))) p1 = Inr p'"
    using a live by (auto simp: applyDiff_def Let_def split: sum.splits)
  have coord: "coordOf m = desiredCoord d" if "d \<in> set D" "map_of (currentByKey ms) (key_of_desired d) = Some m" for d m
    using that keys currentByKey_map [OF inj] by (auto simp: keys_ok_def)
  have v0: "view_ok D (bs_BindingID bs) v (p\<lparr>ps_view := None\<rparr>)" by (simp add: view_ok_def)
  note s1 = desired_loop_step [OF p1(1) subset_refl v0 view tuples coord]
  note s2 = leaving_loop_step [OF p1(2)]
  show "pass_step e D (bs_BindingID bs) (p\<lparr>ps_view := None\<rparr>) p'"
    using pass_step_trans s1 s2 by blast
  show dn: "done_with v bs D (currentByKey ms) d p'" if "d \<in> set D" for d
    using done_with_step [OF _ that] s1 s2 that by blast
  show "settled D (bs_BindingID bs) (coordOf m) p'"
    if m: "m \<in> set ms" "tm_Status m = VerificationActive" "converges v bs \<or> key_of_member m \<notin> key_of_desired ` set D" for m
  proof (cases "key_of_member m \<in> key_of_desired ` set D")
    case True
    then obtain d where d: "d \<in> set D" "key_of_desired d = key_of_member m" by auto
    then have cur: "map_of (currentByKey ms) (key_of_desired d) = Some m" using m(1) currentByKey_map [OF inj] by simp
    then show ?thesis using dn [OF d(1)] m True coord [OF d(1) cur] by (auto simp: done_with_def was_active_def)
  next
    case False
    have "m \<in> set (pe_walk e (map snd (currentByKey ms)))" using m(1) currentByKey_values [OF inj] walk by simp
    then show ?thesis using s2 m False by blast
  qed
qed

subsection \<open>What a pass touches\<close>

text \<open>
  A pass over binding \<open>b\<close> whose wanted and stored members lie in the coordinates \<open>Z\<close>, from the
  tables \<open>st\<close>: rows at other coordinates stay, a row is one of \<open>st\<close> or claimed, and what is pending
  for deletion or read in the view comes from rows of \<open>st\<close>.
\<close>

definition traced_view :: "Store \<Rightarrow> DesiredMember list \<Rightarrow> string \<Rightarrow> LedgerRow list \<Rightarrow> bool" where
  "traced_view st D b rows \<longleftrightarrow> (\<forall>r \<in> set rows. lr_Tuple r \<in> rows_at b (lr_Member r) st \<or> claimed D (lr_Tuple r))"

definition traced :: "MemberCoord set \<Rightarrow> Store \<Rightarrow> DesiredMember list \<Rightarrow> string \<Rightarrow> Pass \<Rightarrow> bool" where
  "traced Z st D b p \<longleftrightarrow> (\<forall>c. c \<notin> Z \<longrightarrow> rows_at b c (ps_store p) = rows_at b c st)
     \<and> (\<forall>c t. t \<in> rows_at b c (ps_store p) \<longrightarrow> t \<in> rows_at b c st \<or> claimed D t)
     \<and> (\<forall>t \<in> pending_tuples p. \<exists>c \<in> Z. t \<in> rows_at b c st)
     \<and> (\<forall>rows. ps_view p = Some rows \<longrightarrow> traced_view st D b rows)"

lemma tracedD:
  assumes "traced Z st D b p"
  shows "c \<notin> Z \<Longrightarrow> rows_at b c (ps_store p) = rows_at b c st" "t \<in> rows_at b c (ps_store p) \<Longrightarrow> t \<in> rows_at b c st \<or> claimed D t"
    "t \<in> pending_tuples p \<Longrightarrow> \<exists>c \<in> Z. t \<in> rows_at b c st" "ps_view p = Some rows \<Longrightarrow> traced_view st D b rows"
  using assms unfolding traced_def by blast+

lemma traced_new: "traced Z st D b (new_pass st)"
  by (simp add: traced_def new_pass_def pending_tuples_def)

lemma traced_same:
  assumes "traced Z st D b p" "\<And>c. rows_at b c (ps_store p') = rows_at b c (ps_store p)" "pending_tuples p' = pending_tuples p" "ps_view p' = ps_view p"
  shows "traced Z st D b p'"
  using assms unfolding traced_def by simp

lemma traced_quiet:
  assumes "traced Z st D b p" "on_store f p = Inr p'"
    and "\<And>st'. f (ps_store p) = Inr st' \<Longrightarrow> same_rest (ps_store p) st' \<and> st_ledger st' = st_ledger (ps_store p)"
  shows "traced Z st D b p'"
proof (rule traced_same [OF assms(1)])
  show "rows_at b c (ps_store p') = rows_at b c (ps_store p)" for c by (rule quiet_step(3) [OF assms(2,3)])
  show "ps_view p' = ps_view p" by (rule quiet_step(2) [OF assms(2,3)])
  show "pending_tuples p' = pending_tuples p" by (subst conjunct2 [OF on_storeD [OF assms(2)]]) simp
qed

lemma traced_write:
  assumes 1: "on_store (EmitTupleWrite e fresh) p1 = Inr p2" and 2: "on_store (RecordEmittedTuples e b c ts) p2 = Inr p3"
    and p1: "(fresh, p1) = collectNew ts p" and ts: "\<And>t. t \<in> set ts \<Longrightarrow> claimed D t" and tr: "traced Z st D b p" "c \<in> Z"
  shows "traced Z st D b p3"
proof -
  have f: "p1 = p\<lparr>ps_seen := ps_seen p @ fresh\<rparr>" using p1 by (simp add: collectNew_def Let_def)
  have w: "written (pe_begin e) {t \<in> set fresh. folds t} (ps_store p) (ps_store p2)" "p2 = p1\<lparr>ps_store := ps_store p2\<rparr>"
    using on_storeD [OF 1] EmitTupleWrite_written [of e fresh "ps_store p1" "ps_store p2"] by (simp_all add: f)
  have r2: "RecordEmittedTuples e b c ts (ps_store p2) = Inr (ps_store p3)" "p3 = p2\<lparr>ps_store := ps_store p3\<rparr>"
    using on_storeD [OF 2] by simp_all
  have rows: "rows_at b c' (ps_store p3) = (if c' = c then rows_at b c (ps_store p) \<union> set ts else rows_at b c' (ps_store p))" for c'
    using w(1) rows_at_same [of "ps_store p" "ps_store p2"] by (simp add: RecordEmittedTuples_rows(1) [OF r2(1)] written_def)
  have "pending_tuples p3 = pending_tuples p" "ps_view p3 = ps_view p"
    by (subst r2(2), subst w(2), simp add: f)+
  then show ?thesis using tr ts unfolding traced_def rows by auto
qed

lemma traced_forget:
  assumes "ForgetEmittedTuples e b (map (\<lambda>t. \<lparr>lr_Member = c, lr_Tuple = t\<rparr>) forget) (ps_store p) = Inr st1"
    and "p' = deferDelete b revoke (p\<lparr>ps_store := st1\<rparr>)" and "\<And>t. t \<in> set revoke \<Longrightarrow> t \<in> rows_at b c st"
    and tr: "traced Z st D b p" "c \<in> Z"
  shows "traced Z st D b p'"
proof -
  have "rows_at b c' (ps_store p') = (if c' = c then rows_at b c (ps_store p) - set forget else rows_at b c' (ps_store p))" for c'
    by (simp add: assms(2) ForgetEmittedTuples_rows(1) [OF assms(1)])
  moreover have "pending_tuples p' = pending_tuples p \<union> set revoke" "ps_view p' = ps_view p" by (simp_all add: assms(2) deferDelete_pending)
  moreover have "\<exists>c \<in> Z. t \<in> rows_at b c st" if "t \<in> set revoke" for t using assms(3) [OF that] tr(2) by blast
  ultimately show ?thesis using tr unfolding traced_def by auto
qed

lemma traced_revoke:
  assumes "revokeMemberTuples e b D m p = Inr p'" "traced Z st D b p" "coordOf m \<in> Z"
  shows "traced Z st D b p'"
proof -
  obtain ts where ts: "LedgerTuplesForMember e b (coordOf m) (ps_store p) = Inr ts"
    using assms(1) by (auto simp: revokeMemberTuples_def split: sum.splits)
  let ?forget = "filter (\<lambda>t. \<not> claimedAt D (coordOf m) t) ts"
  show ?thesis
  proof (cases "?forget = []")
    case True
    then have "p' = p" using assms(1) ts by (simp add: revokeMemberTuples_def Let_def)
    then show ?thesis using assms(2) by simp
  next
    case False
    then obtain st1 where st1: "ForgetEmittedTuples e b (map (\<lambda>t. \<lparr>lr_Member = coordOf m, lr_Tuple = t\<rparr>) ?forget) (ps_store p) = Inr st1"
      "p' = deferDelete b (filter (\<lambda>t. \<not> claimed D t) ?forget) (p\<lparr>ps_store := st1\<rparr>)"
      using assms(1) ts unfolding revokeMemberTuples_def Let_def by (auto split: sum.splits if_splits)
    show ?thesis
      by (rule traced_forget [OF st1 _ assms(2,3)]) (use LedgerTuplesForMember_set [OF ts] tracedD(2) [OF assms(2)] in auto)
  qed
qed

lemma traced_ensure:
  assumes "ensure e v b p = Inr rows" "traced Z st D b p"
  shows "traced_view st D b rows"
proof (cases "ps_view p")
  case None
  show ?thesis
  proof (cases v)
    case (BindingEmitted c)
    then have "LedgerTuples e b (ps_store p) = Inr rows" using assms(1) None by (simp add: ensure_def)
    note l = LedgerTuples_set [OF this]
    have "lr_Tuple r \<in> rows_at b (lr_Member r) (ps_store p)" if "r \<in> set rows" for r
    proof -
      have "\<lparr>lr_Member = lr_Member r, lr_Tuple = lr_Tuple r\<rparr> = r" by simp
      then show ?thesis using l [of "lr_Member r" "lr_Tuple r"] that by (simp only:)
    qed
    then show ?thesis using tracedD(2) [OF assms(2)] by (auto simp: traced_view_def)
  next
    case (ObjectEmitted c)
    then obtain ts where ts: "LedgerTuplesForMember e b c (ps_store p) = Inr ts" "rows = map (\<lambda>t. \<lparr>lr_Member = c, lr_Tuple = t\<rparr>) ts"
      using assms(1) None by (auto simp: ensure_def split: sum.splits)
    show ?thesis using LedgerTuplesForMember_set [OF ts(1)] tracedD(2) [OF assms(2)] by (auto simp: traced_view_def ts(2))
  qed
next
  case (Some rows')
  then show ?thesis using assms tracedD(4) [OF assms(2)] by (simp add: ensure_def)
qed

lemma traced_missing:
  assumes "write_missing e b c missing rows p = Inr (rows', p')" "\<And>t. t \<in> set missing \<Longrightarrow> claimed D t"
    and "traced Z st D b p" "c \<in> Z" "traced_view st D b rows"
  shows "traced Z st D b p'" "traced_view st D b rows'"
proof -
  have "traced Z st D b p' \<and> traced_view st D b rows'"
  proof (cases "missing = []")
    case True
    then show ?thesis using assms by (simp add: write_missing_def)
  next
    case False
    obtain fresh p1 where p1: "collectNew missing p = (fresh, p1)" by fastforce
    then obtain p2 where p2: "on_store (EmitTupleWrite e fresh) p1 = Inr p2" "on_store (RecordEmittedTuples e b c missing) p2 = Inr p'"
      "rows' = rows @ map (\<lambda>t. \<lparr>lr_Member = c, lr_Tuple = t\<rparr>) missing"
      using assms(1) False by (auto simp: write_missing_def Let_def split: sum.splits)
    have "traced_view st D b rows'" using assms(2,5) by (auto simp: p2(3) traced_view_def)
    then show ?thesis using traced_write [OF p2(1,2) p1 [symmetric] assms(2-4)] by simp
  qed
  then show "traced Z st D b p'" "traced_view st D b rows'" by simp_all
qed

lemma traced_surplus:
  assumes "drop_surplus e b D c rows p = Inr (rows', p')" "traced Z st D b p" "c \<in> Z" "traced_view st D b rows"
  shows "traced Z st D b p'" "traced_view st D b rows'"
proof -
  let ?forget = "sort_tuples (filter (\<lambda>t. \<not> claimedAt D c t) (remdups (map lr_Tuple (filter (\<lambda>r. lr_Member r = c) rows))))"
  have "traced Z st D b p' \<and> traced_view st D b rows'"
  proof (cases "?forget = []")
    case True
    then show ?thesis using assms by (simp add: drop_surplus_def Let_def)
  next
    case False
    then obtain p1 where p1: "on_store (ForgetEmittedTuples e b (map (\<lambda>t. \<lparr>lr_Member = c, lr_Tuple = t\<rparr>) ?forget)) p = Inr p1"
      "p' = deferDelete b (filter (\<lambda>t. \<not> claimed D t) ?forget) p1" "rows' = filter (\<lambda>r. \<not> (lr_Member r = c \<and> lr_Tuple r \<in> set ?forget)) rows"
      using assms(1) unfolding drop_surplus_def Let_def by (auto split: sum.splits if_splits)
    have p': "p' = deferDelete b (filter (\<lambda>t. \<not> claimed D t) ?forget) (p\<lparr>ps_store := ps_store p1\<rparr>)"
      using on_storeD [OF p1(1)] p1(2) by (metis (no_types))
    have "traced Z st D b p'"
      by (rule traced_forget [OF conjunct1 [OF on_storeD [OF p1(1)]] p' _ assms(2,3)]) (use assms(4) in \<open>auto simp: traced_view_def\<close>)
    then show ?thesis using assms(4) by (simp add: p1(3) traced_view_def)
  qed
  then show "traced Z st D b p'" "traced_view st D b rows'" by simp_all
qed
lemma traced_converge:
  assumes c: "convergeMemberTuples e v bs D d p = Inr p'" and d: "d \<in> set D" "dm_Status d = VerificationActive"
    and tr: "traced Z st D (bs_BindingID bs) p" "desiredCoord d \<in> Z"
  shows "traced Z st D (bs_BindingID bs) p'"
proof (cases "converges v bs \<and> dm_Tuples d \<noteq> []")
  case True
  obtain rows rows1 p1 rows2 p2 where s: "ensure e v (bs_BindingID bs) p = Inr rows" "write_missing e (bs_BindingID bs) (desiredCoord d)
       (filter (\<lambda>t. \<lparr>lr_Member = desiredCoord d, lr_Tuple = t\<rparr> \<notin> set rows) (dm_Tuples d)) rows p = Inr (rows1, p1)"
      "drop_surplus e (bs_BindingID bs) D (desiredCoord d) rows1 p1 = Inr (rows2, p2)" "p' = p2\<lparr>ps_view := Some rows2\<rparr>"
    by (rule converge_cases [OF c conjunct1 [OF True] conjunct2 [OF True]])
  have cl: "claimed D t" if "t \<in> set (filter (\<lambda>t. \<lparr>lr_Member = desiredCoord d, lr_Tuple = t\<rparr> \<notin> set rows) (dm_Tuples d))" for t
    using claimedAt_claimed [OF claimedAtI [OF d]] that by simp
  note m = traced_missing [OF s(2) cl tr traced_ensure [OF s(1) tr(1)]]
  note x = traced_surplus [OF s(3) m(1) tr(2) m(2)]
  show ?thesis using x by (simp add: traced_def s(4))
qed (use c tr in \<open>auto simp: convergeMemberTuples_def\<close>)

lemma traced_apply:
  assumes a: "apply_desired e v bs D current d p = Inr p'" and d: "d \<in> set D"
    and tr: "traced Z st D (bs_BindingID bs) p" "desiredCoord d \<in> Z" and cur: "\<And>m. map_of current (key_of_desired d) = Some m \<Longrightarrow> coordOf m \<in> Z"
  shows "traced Z st D (bs_BindingID bs) p'"
proof (cases "map_option tm_Status (map_of current (key_of_desired d)) = Some (dm_Status d)")
  case True
  then show ?thesis using a d tr traced_converge by (auto simp: apply_desired_def Let_def split: if_splits)
next
  case False
  then obtain p1 where p1: "on_store (UpsertMember e (member_of bs d)) p = Inr p1"
    using a unfolding apply_desired_def Let_def if_not_P [OF False] by (auto split: sum.splits)
  have tr1: "traced Z st D (bs_BindingID bs) p1" by (rule traced_quiet [OF tr(1) p1]) (rule UpsertMember_same)
  have retract: "traced Z st D (bs_BindingID bs) p2" if "(case map_of current (key_of_desired d) of
      Some m \<Rightarrow> if tm_Status m = VerificationActive then revokeMemberTuples e (bs_BindingID bs) D m p1 else Inr p1 | None \<Rightarrow> Inr p1) = Inr p2" for p2
    using that tr1 cur traced_revoke [OF _ tr1] by (auto split: option.splits if_splits)
  note a1 = a [unfolded apply_desired_def Let_def if_not_P [OF False] p1 sum.case]
  show ?thesis
  proof (cases "dm_Status d")
    case VerificationActive
    obtain fresh q where q: "collectNew (dm_Tuples d) p1 = (fresh, q)" by fastforce
    then obtain p2 where p2: "on_store (EmitTupleWrite e fresh) q = Inr p2"
        "on_store (RecordEmittedTuples e (bs_BindingID bs) (desiredCoord d) (dm_Tuples d)) p2 = Inr p'"
      using a1 VerificationActive by (auto simp: activate_member_def Let_def split: if_splits sum.splits)
    show ?thesis by (rule traced_write [OF p2 q [symmetric] claimedAt_claimed [OF claimedAtI [OF d VerificationActive]] tr1 tr(2)])
  next
    case VerificationPending
    then show ?thesis using a1 by (intro retract) simp
  next
    case VerificationRejected
    then obtain p2 where p2: "(case map_of current (key_of_desired d) of
          Some m \<Rightarrow> if tm_Status m = VerificationActive then revokeMemberTuples e (bs_BindingID bs) D m p1 else Inr p1 | None \<Rightarrow> Inr p1) = Inr p2"
        "on_store (EmitContainmentAudit e (bs_BindingID bs) (dm_ObjectType d) (dm_ObjectID d) (bs_Scope bs)) p2 = Inr p'"
      using a1 by (auto split: sum.splits)
    show ?thesis by (rule traced_quiet [OF retract [OF p2(1)] p2(2)]) (use EmitContainmentAudit_same in blast)
  qed
qed

lemma traced_desired:
  assumes "desired_loop e v bs D current ds p = Inr p'" and "set ds \<subseteq> set D" and "traced Z st D (bs_BindingID bs) p"
    and Z: "\<And>d. d \<in> set D \<Longrightarrow> desiredCoord d \<in> Z" "\<And>m k. map_of current k = Some m \<Longrightarrow> coordOf m \<in> Z"
  shows "traced Z st D (bs_BindingID bs) p'"
  using assms(1-3)
proof (induction ds arbitrary: p)
  case (Cons d ds)
  obtain p1 where p1: "apply_desired e v bs D current d p = Inr p1" "desired_loop e v bs D current ds p1 = Inr p'"
    using Cons.prems(1) by (auto split: sum.splits)
  have d: "d \<in> set D" using Cons.prems(2) by simp
  show ?case using Cons.IH [OF p1(2) _ traced_apply [OF p1(1) d Cons.prems(3) Z(1) [OF d] Z(2)]] Cons.prems(2) by simp
qed simp

lemma traced_leaving:
  assumes "leaving_loop e bs D ms p = Inr p'" and "traced Z st D (bs_BindingID bs) p" and "\<And>m. m \<in> set ms \<Longrightarrow> coordOf m \<in> Z"
  shows "traced Z st D (bs_BindingID bs) p'"
  using assms
proof (induction ms arbitrary: p)
  case (Cons m ms)
  show ?case
  proof (cases "key_of_member m \<in> key_of_desired ` set D")
    case True
    then show ?thesis using Cons by simp
  next
    case False
    then obtain p1 p2 where p1: "(if tm_Status m = VerificationActive then revokeMemberTuples e (bs_BindingID bs) D m p else Inr p) = Inr p1"
      and p2: "on_store (DeleteMember e (bs_BindingID bs) (tm_RuleFP m) (tm_ObjectType m) (tm_ObjectID m)) p1 = Inr p2"
        "leaving_loop e bs D ms p2 = Inr p'"
      using Cons.prems(1) by (auto split: sum.splits)
    have "traced Z st D (bs_BindingID bs) p1"
      using p1 traced_revoke [OF _ Cons.prems(2)] Cons.prems(2,3) by (auto split: if_splits)
    then have "traced Z st D (bs_BindingID bs) p2" by (rule traced_quiet [OF _ p2(1)]) (rule DeleteMember_same)
    then show ?thesis by (rule Cons.IH [OF p2(2)]) (use Cons.prems(3) in simp)
  qed
qed simp

lemma desired_loop_accepted:
  assumes "desired_loop e v bs D current ds p = Inr p'" "d \<in> set ds"
  shows "row_accepted (member_of bs d) \<or> (\<exists>m. map_of current (key_of_desired d) = Some m)"
  using assms
proof (induction ds arbitrary: p)
  case (Cons x xs)
  then obtain p1 where p1: "apply_desired e v bs D current x p = Inr p1" "desired_loop e v bs D current xs p1 = Inr p'" by (auto split: sum.splits)
  have "row_accepted (member_of bs x)" if "map_of current (key_of_desired x) = None"
    using p1(1) that by (auto simp: apply_desired_def on_store_def UpsertMember_def call_def split: if_splits sum.splits)
  then show ?case using Cons.IH [OF p1(2)] Cons.prems(2) by auto
qed simp

lemma applyDiff_traced:
  assumes a: "applyDiff e v bs D0 ms p = Inr p'" and walk: "\<And>xs. set (pe_walk e xs) = set xs"
    and live: "keepLiveDesired e D0 (currentByKey ms) = Inr D" and keys: "keys_ok D ms" and tr: "traced Z st D (bs_BindingID bs) (p\<lparr>ps_view := None\<rparr>)"
    and Z: "\<And>d. d \<in> set D \<Longrightarrow> desiredCoord d \<in> Z" "\<And>m. m \<in> set ms \<Longrightarrow> coordOf m \<in> Z"
  shows "traced Z st D (bs_BindingID bs) p'"
    "\<And>d. d \<in> set D \<Longrightarrow> row_accepted (member_of bs d) \<or> (\<exists>m \<in> set ms. coordOf m = desiredCoord d)"
proof -
  have inj: "inj_on key_of_member (set ms)" using keys by (simp add: keys_ok_def)
  obtain p1 where p1: "desired_loop e v bs D (currentByKey ms) D (p\<lparr>ps_view := None\<rparr>) = Inr p1"
      "leaving_loop e bs D (pe_walk e (map snd (currentByKey ms))) p1 = Inr p'"
    using a live by (auto simp: applyDiff_def Let_def split: sum.splits)
  have "traced Z st D (bs_BindingID bs) p1"
    by (rule traced_desired [OF p1(1) subset_refl tr Z(1)]) (use Z(2) currentByKey_map [OF inj] in auto)
  then show "traced Z st D (bs_BindingID bs) p'"
    by (rule traced_leaving [OF p1(2)]) (use Z(2) walk currentByKey_values [OF inj] in auto)
  show "row_accepted (member_of bs d) \<or> (\<exists>m \<in> set ms. coordOf m = desiredCoord d)" if "d \<in> set D" for d
    using desired_loop_accepted [OF p1(1) that] keys that currentByKey_map [OF inj] unfolding keys_ok_def by blast
qed

subsection \<open>The end of a pass\<close>

lemma flush_loop_Cons:
  assumes "flush_loop e seen (pd # pds) st = Inr st'"
  obtains st1 where "EmitTupleDelete e (filter (\<lambda>t. t \<notin> set seen) (snd pd)) st = Inr st1" "flush_loop e seen pds st1 = Inr st'"
  using assms by (auto simp: Let_def EmitTupleDelete_def emitTx_def split: if_splits sum.splits)

lemma flush_loop_same: "flush_loop e seen pds st = Inr st' \<Longrightarrow> same_but_facts st st'"
proof (induction pds arbitrary: st)
  case (Cons pd pds)
  from Cons.prems obtain st1 where "EmitTupleDelete e (filter (\<lambda>t. t \<notin> set seen) (snd pd)) st = Inr st1" "flush_loop e seen pds st1 = Inr st'"
    by (rule flush_loop_Cons)
  then show ?case using same_but_facts_trans [OF deletedD(1) [OF EmitTupleDelete_deleted]] Cons.IH by simp
qed simp

lemma flush_loop_prev: "flush_loop e seen pds st = Inr st' \<Longrightarrow> st_facts st' t = Some f \<Longrightarrow> st_facts st t = Some f"
proof (induction pds arbitrary: st)
  case (Cons pd pds)
  from Cons.prems(1) obtain st1 where s: "EmitTupleDelete e (filter (\<lambda>t. t \<notin> set seen) (snd pd)) st = Inr st1" "flush_loop e seen pds st1 = Inr st'"
    by (rule flush_loop_Cons)
  show ?case by (rule deletedD(2) [OF EmitTupleDelete_deleted [OF s(1)] Cons.IH [OF s(2) Cons.prems(2)]])
qed simp

lemma flush_loop_keep:
  "flush_loop e seen pds st = Inr st' \<Longrightarrow> st_facts st t \<noteq> None \<Longrightarrow> holds_tuple st t \<Longrightarrow> st_facts st' t \<noteq> None"
proof (induction pds arbitrary: st)
  case (Cons pd pds)
  from Cons.prems(1) obtain st1 where s: "EmitTupleDelete e (filter (\<lambda>t. t \<notin> set seen) (snd pd)) st = Inr st1" "flush_loop e seen pds st1 = Inr st'"
    by (rule flush_loop_Cons)
  note d = deletedD [OF EmitTupleDelete_deleted [OF s(1)]]
  have "holds_tuple st1 t" using Cons.prems(3) same_holds [OF d(1)] by simp
  then show ?case using Cons.IH [OF s(2) d(3) [OF Cons.prems(2,3)]] by simp
qed simp

lemma flush_loop_gone:
  assumes "flush_loop e seen pds st = Inr st'" "t \<in> \<Union> (set ` snd ` set pds) - set seen" "folds t" "mt_User t \<noteq> ''user:*''"
    "\<not> holds_tuple st t" "\<And>f n. st_facts st t = Some f \<Longrightarrow> fact_version f \<le> pe_clock e n"
  shows "st_facts st' t = None"
  using assms
proof (induction pds arbitrary: st)
  case (Cons pd pds)
  from Cons.prems(1) obtain st1 where s: "EmitTupleDelete e (filter (\<lambda>t. t \<notin> set seen) (snd pd)) st = Inr st1" "flush_loop e seen pds st1 = Inr st'"
    by (rule flush_loop_Cons)
  note d = deletedD [OF EmitTupleDelete_deleted [OF s(1)]]
  show ?case
  proof (cases "t \<in> set (snd pd)")
    case True
    then have "st_facts st1 t = None" using d(4) [of t] Cons.prems(2-6) by simp
    then show ?thesis using flush_loop_prev [OF s(2), of t] by (cases "st_facts st' t") auto
  next
    case False
    show ?thesis
    proof (rule Cons.IH [OF s(2) _ Cons.prems(3,4)])
      show "t \<in> \<Union> (set ` snd ` set pds) - set seen" using Cons.prems(2) False by auto
      show "\<not> holds_tuple st1 t" using Cons.prems(5) same_holds [OF d(1)] by simp
      show "fact_version f \<le> pe_clock e n" if "st_facts st1 t = Some f" for f n using Cons.prems(6) d(2) [OF that] by blast
    qed
  qed
qed simp

lemma flush_loop_stay:
  "flush_loop e seen pds st = Inr st' \<Longrightarrow> st_facts st t \<noteq> None \<Longrightarrow> t \<notin> stored_tuple ` \<Union> (set ` snd ` set pds) \<Longrightarrow> st_facts st' t \<noteq> None"
proof (induction pds arbitrary: st)
  case (Cons pd pds)
  from Cons.prems(1) obtain st1 where s: "EmitTupleDelete e (filter (\<lambda>t. t \<notin> set seen) (snd pd)) st = Inr st1" "flush_loop e seen pds st1 = Inr st'"
    by (rule flush_loop_Cons)
  have "t \<notin> stored_tuple ` {u \<in> set (filter (\<lambda>t. t \<notin> set seen) (snd pd)). folds u}" using Cons.prems(3) by auto
  then have "st_facts st1 t \<noteq> None" by (rule deletedD(5) [OF EmitTupleDelete_deleted [OF s(1)] Cons.prems(2)])
  then show ?case by (rule Cons.IH [OF s(2)]) (use Cons.prems(3) in auto)
qed simp

lemma flush_nothing:
  assumes "flushDeletes e p = Inr st'" "pending_tuples p = {}"
  shows "st_facts st' t \<noteq> None \<longleftrightarrow> st_facts (ps_store p) t \<noteq> None"
proof
  note f = assms(1) [unfolded flushDeletes_def]
  show "st_facts (ps_store p) t \<noteq> None" if "st_facts st' t \<noteq> None" using flush_loop_prev [OF f, of t] that by (cases "st_facts st' t") auto
  show "st_facts st' t \<noteq> None" if "st_facts (ps_store p) t \<noteq> None"
    by (rule flush_loop_stay [OF f that]) (use assms(2) in \<open>simp add: pending_tuples_def\<close>)
qed

lemma WithTx_ok: "WithTx e f st = (None, st') \<Longrightarrow> f st = Inr st'"
  by (auto simp: WithTx_def split: sum.splits)

lemma publicReaderMember_tuples: "publicReaderMember cat bs cls ty i own = Some d \<Longrightarrow> dm_Tuples d \<noteq> []"
  by (auto simp: publicReaderMember_def Let_def split: if_split_asm option.split_asm)

lemma withPublicReaders_tuples:
  assumes "\<And>d. d \<in> set ds \<Longrightarrow> dm_Status d = VerificationActive \<Longrightarrow> dm_Tuples d \<noteq> []" "d \<in> set (withPublicReaders cat bs ds)"
    "dm_Status d = VerificationActive"
  shows "dm_Tuples d \<noteq> []"
proof (cases "d \<in> set ds")
  case False
  then obtain x where x: "publicReaderMember cat bs (classSubjects bs) (mc_ObjectType x) (mc_ObjectID x) (readers_of bs ds x) \<noteq> None"
      "d = the (publicReaderMember cat bs (classSubjects bs) (mc_ObjectType x) (mc_ObjectID x) (readers_of bs ds x))"
    using assms(2) unfolding withPublicReaders_def Let_def map_filter_def by (cases "classSubjects bs = []") auto
  then show ?thesis by (intro publicReaderMember_tuples) simp
qed (use assms in blast)

lemma scopeSelfMember_tuples: "scopeSelfMember cat gs ty i = Some d \<Longrightarrow> dm_Tuples d \<noteq> []"
  by (auto simp: scopeSelfMember_def split: if_split_asm option.split_asm)

lemma own_members_tuples:
  assumes "d \<in> set (scope_self_members cat bs) \<or> d \<in> set (containerMembers cat bs)"
  shows "dm_Tuples d \<noteq> []"
proof (cases "d \<in> set (scope_self_members cat bs)")
  case True
  then have "scopeSelfMember cat (grantees bs (bs_ScopeSelfVerbs bs) False) (anchor_Type (bs_Scope bs)) (anchor_ID (bs_Scope bs)) = Some d"
    unfolding scope_self_members_def
    by (cases "bs_ScopeSelfVerbs bs \<noteq> [] \<and> tgt_Resources (bs_Target bs) = []";
        cases "scopeSelfMember cat (grantees bs (bs_ScopeSelfVerbs bs) False) (anchor_Type (bs_Scope bs)) (anchor_ID (bs_Scope bs))")
      (simp_all only: if_True if_False simp_thms option.case list.set insert_iff empty_iff)
  then show ?thesis by (rule scopeSelfMember_tuples)
next
  case False
  then show ?thesis using assms unfolding containerMembers_def Let_def by (force split: if_split_asm)
qed

lemma desiredMemberForObject_tuples:
  "desiredMemberForObject cat pol gs sel m sc = Some d \<Longrightarrow> dm_Status d = VerificationActive \<Longrightarrow> dm_Tuples d \<noteq> []"
  by (auto simp: desiredMemberForObject_def desired_member_def Let_def split: if_split_asm option.split_asm)

lemma selector_loop_tuples:
  "selector_loop cat s bs sels = Inr ds \<Longrightarrow> d \<in> set ds \<Longrightarrow> dm_Status d = VerificationActive \<Longrightarrow> dm_Tuples d \<noteq> []"
proof (induction sels arbitrary: ds)
  case (Cons sel sels)
  obtain xs rest where "ds = List.map_filter (\<lambda>m. desiredMemberForObject cat (bs_Policy bs) (selectorGrantees bs sel) sel m (bs_Scope bs)) xs @ rest"
      "selector_loop cat s bs sels = Inr rest"
    using Cons.prems(1) by (auto split: sum.splits)
  then show ?case using Cons desiredMemberForObject_tuples by (auto simp: map_filter_def)
qed simp

lemma desiredMembers_tuples:
  assumes "desiredMembers cat s bs = Inr D" "d \<in> set D" "dm_Status d = VerificationActive"
  shows "dm_Tuples d \<noteq> []"
proof (cases "bs_Selectors bs = []")
  case True
  then show ?thesis using assms by (simp add: desiredMembers_def)
next
  case False
  then obtain ds where ds: "selector_loop cat s bs (bs_Selectors bs) = Inr ds"
      "D = withPublicReaders cat bs (scope_self_members cat bs @ ds @ containerMembers cat bs)"
    using assms(1) by (auto simp: desiredMembers_def desiredRuleMembers_def split: sum.splits)
  have "dm_Tuples x \<noteq> []" if "x \<in> set (scope_self_members cat bs @ ds @ containerMembers cat bs)" "dm_Status x = VerificationActive" for x
    using that own_members_tuples selector_loop_tuples [OF ds(1)] by auto
  then show ?thesis using assms(2,3) withPublicReaders_tuples unfolding ds(2) by blast
qed

lemma keepLiveDesired_subset: "keepLiveDesired e D0 cur = Inr D \<Longrightarrow> set D \<subseteq> set D0"
  by (auto simp: keepLiveDesired_def Let_def split: if_splits sum.splits)

definition touched :: "DesiredMember list \<Rightarrow> TargetMember list \<Rightarrow> MemberCoord set" where
  "touched D ms = desiredCoord ` set D \<union> coordOf ` set ms"

text \<open>The members of a committed full pass: what was stored, what is wanted, and the pass over them.\<close>

lemma fullPass_steps:
  assumes c: "fullPass e converge b st = (None, st')" and walk: "\<And>xs. set (pe_walk e xs) = set xs"
    and load: "LoadBinding e b st = Inr (Some bs)" "bs_Active bs" "bs_BindingID bs = b"
    and ms: "CurrentMembers e b st = Inr ms" and want: "desiredMembers (pe_cat e) (pe_src e) bs = Inr D0"
    and live: "keepLiveDesired e D0 (currentByKey ms) = Inr D" and keys: "keys_ok D ms"
  obtains p where "pass_step e D b (new_pass st) p" "flushDeletes e p = Inr st'" "traced (touched D ms) st D b p"
    "\<And>d. d \<in> set D \<Longrightarrow> row_accepted (member_of bs d) \<or> (\<exists>m \<in> set ms. coordOf m = desiredCoord d)"
    "\<And>d. d \<in> set D \<Longrightarrow> done_with (BindingEmitted converge) bs D (currentByKey ms) d p"
    "\<And>m. m \<in> set ms \<Longrightarrow> tm_Status m = VerificationActive \<Longrightarrow> converge \<Longrightarrow> settled D b (coordOf m) p"
proof -
  have "run_pass e (reconcileBinding e converge b) st = Inr st'" using c by (auto simp: fullPass_def dest: WithTx_ok)
  then obtain p where p: "reconcileBinding e converge b (new_pass st) = Inr p" "flushDeletes e p = Inr st'"
    by (auto simp: run_pass_def split: sum.splits)
  then have a: "applyDiff e (BindingEmitted converge) bs D0 ms (new_pass st) = Inr p"
    using load ms want by (auto simp: reconcileBinding_def lock_call_def call_def diff_whole_def query_def new_pass_def split: if_splits)
  have tuples: "dm_Tuples d \<noteq> []" if "d \<in> set D" "dm_Status d = VerificationActive" for d
    using desiredMembers_tuples [OF want _ that(2)] keepLiveDesired_subset [OF live] that(1) by blast
  have view: "in_view (BindingEmitted converge) c" for c by (simp add: in_view_def)
  have "pass_step e D b ((new_pass st)\<lparr>ps_view := None\<rparr>) p"
    by (rule applyDiff_step(1) [OF a walk live view _ keys, unfolded load(3)]) (rule tuples)
  moreover have "(new_pass st)\<lparr>ps_view := None\<rparr> = new_pass st" by (simp add: new_pass_def)
  moreover have d: "done_with (BindingEmitted converge) bs D (currentByKey ms) d p" if "d \<in> set D" for d
    by (rule applyDiff_step(2) [OF a walk live view _ keys that]) (rule tuples)
  moreover have "settled D b (coordOf m) p" if "m \<in> set ms" "tm_Status m = VerificationActive" converge for m
    by (rule applyDiff_step(3) [OF a walk live view _ keys that(1,2), unfolded load(3)]) (rule tuples, use that(3) in \<open>auto simp: converges_def\<close>)
  moreover have "traced (touched D ms) st D (bs_BindingID bs) ((new_pass st)\<lparr>ps_view := None\<rparr>)"
    using traced_new [of _ st] by (simp add: new_pass_def)
  note t = applyDiff_traced [OF a walk live keys this]
  have "traced (touched D ms) st D (bs_BindingID bs) p" by (rule t(1)) (simp_all add: touched_def)
  moreover have "row_accepted (member_of bs d) \<or> (\<exists>m \<in> set ms. coordOf m = desiredCoord d)" if "d \<in> set D" for d
    by (rule t(2) [OF _ _ that]) (simp_all add: touched_def)
  ultimately show ?thesis using that p(2) load(3) by simp
qed

subsection \<open>What a pass reads\<close>

definition pass_input :: "PassEnv \<Rightarrow> string \<Rightarrow> Store \<Rightarrow> (BindingScope \<times> DesiredMember list \<times> TargetMember list) option" where
  \<comment> \<open>the active binding, the members it wants and the stored ones\<close>
  "pass_input e b st =
     (case LoadBinding e b st of
        Inr (Some bs) \<Rightarrow> if \<not> bs_Active bs then None else
          (case (desiredMembers (pe_cat e) (pe_src e) bs, CurrentMembers e b st) of
             (Inr D0, Inr ms) \<Rightarrow> (case keepLiveDesired e D0 (currentByKey ms) of Inr D \<Rightarrow> Some (bs, D, ms) | Inl _ \<Rightarrow> None)
           | _ \<Rightarrow> None)
      | _ \<Rightarrow> None)"

definition pass_keyed :: "PassEnv \<Rightarrow> string \<Rightarrow> Store \<Rightarrow> bool" where
  \<comment> \<open>keys tell the members of a pass apart\<close>
  "pass_keyed e b st \<longleftrightarrow> (case pass_input e b st of None \<Rightarrow> True | Some (bs, D, ms) \<Rightarrow> keys_ok D ms)"

lemma LoadBinding_ID: "LoadBinding e b st = Inr (Some bs) \<Longrightarrow> bs_BindingID bs = b"
  by (auto simp: LoadBinding_def binding_scope_def call_def binding_row_def bindingScopeFrom_def Let_def find_Some_iff split: if_splits option.splits prod.splits)

lemma pass_input_ID: "pass_input e b st = Some (bs, D, ms) \<Longrightarrow> bs_BindingID bs = b"
  by (auto simp: pass_input_def LoadBinding_ID split: sum.splits option.splits if_splits)

lemma pass_inputE:
  assumes "pass_input e b st = Some (bs, D, ms)"
  obtains D0 where "LoadBinding e b st = Inr (Some bs)" "bs_Active bs" "desiredMembers (pe_cat e) (pe_src e) bs = Inr D0"
    "CurrentMembers e b st = Inr ms" "keepLiveDesired e D0 (currentByKey ms) = Inr D"
  using assms by (auto simp: pass_input_def split: sum.splits option.splits if_splits)

lemma fullPass_changes:
  assumes c: "fullPass e converge b st = (err, st')" and diff: "st' \<noteq> st"
  obtains bs D ms where "err = None" "pass_input e b st = Some (bs, D, ms)"
proof -
  have err: "err = None" using c diff by (auto simp: fullPass_def WithTx_def call_def split: sum.splits if_splits)
  then have "run_pass e (reconcileBinding e converge b) st = Inr st'" using c by (auto simp: fullPass_def dest: WithTx_ok)
  then obtain p where p: "reconcileBinding e converge b (new_pass st) = Inr p" "flushDeletes e p = Inr st'"
    by (auto simp: run_pass_def split: sum.splits)
  have "p \<noteq> new_pass st" using p(2) diff by (auto simp: flushDeletes_def new_pass_def)
  then obtain bs where bs: "LoadBinding e b st = Inr (Some bs)" "bs_Active bs" "diff_whole e converge bs b (new_pass st) = Inr p"
    using p(1) by (auto simp: reconcileBinding_def lock_call_def call_def new_pass_def split: sum.splits option.splits if_splits)
  then show ?thesis using that err
    by (auto simp: diff_whole_def query_def pass_input_def applyDiff_def Let_def new_pass_def split: sum.splits)
qed

lemma fullPass_diff:
  assumes c: "fullPass e converge b st = (err, st')" and diff: "st' \<noteq> st"
  obtains bs D0 ms p where "applyDiff e (BindingEmitted converge) bs D0 ms (new_pass st) = Inr p" "flushDeletes e p = Inr st'"
proof -
  have "err = None" using c diff by (auto simp: fullPass_def WithTx_def call_def split: sum.splits if_splits)
  then have "run_pass e (reconcileBinding e converge b) st = Inr st'" using c by (auto simp: fullPass_def dest: WithTx_ok)
  then obtain p where p: "reconcileBinding e converge b (new_pass st) = Inr p" "flushDeletes e p = Inr st'"
    by (auto simp: run_pass_def split: sum.splits)
  have "p \<noteq> new_pass st" using p(2) diff by (auto simp: flushDeletes_def new_pass_def)
  then show ?thesis using that [OF _ p(2)] p(1)
    by (auto simp: reconcileBinding_def lock_call_def call_def diff_whole_def split: sum.splits option.splits if_splits)
qed

lemma committed_pass:
  assumes c: "fullPass e converge b st = (None, st')" and i: "pass_input e b st = Some (bs, D, ms)"
    and key: "pass_keyed e b st" and walk: "\<And>xs. set (pe_walk e xs) = set xs"
  obtains p where "pass_step e D b (new_pass st) p" "flushDeletes e p = Inr st'" "traced (touched D ms) st D b p"
    "\<And>d. d \<in> set D \<Longrightarrow> row_accepted (member_of bs d) \<or> (\<exists>m \<in> set ms. coordOf m = desiredCoord d)"
    "\<And>d. d \<in> set D \<Longrightarrow> done_with (BindingEmitted converge) bs D (currentByKey ms) d p"
    "\<And>m. m \<in> set ms \<Longrightarrow> tm_Status m = VerificationActive \<Longrightarrow> converge \<Longrightarrow> settled D b (coordOf m) p"
proof -
  have k: "bs_BindingID bs = b" "keys_ok D ms" using key i pass_input_ID [OF i] by (simp_all add: pass_keyed_def)
  from i obtain D0 where D0: "LoadBinding e b st = Inr (Some bs)" "bs_Active bs" "desiredMembers (pe_cat e) (pe_src e) bs = Inr D0"
    "CurrentMembers e b st = Inr ms" "keepLiveDesired e D0 (currentByKey ms) = Inr D" by (rule pass_inputE)
  show ?thesis by (rule fullPass_steps [OF c walk D0(1,2) k(1) D0(4,3,5) k(2)], rule that)
qed

subsection \<open>A converging pass makes the ledger what the binding wants\<close>

lemma flushDeletes_same: "flushDeletes e p = Inr st' \<Longrightarrow> same_but_facts (ps_store p) st'"
  unfolding flushDeletes_def by (rule flush_loop_same)

lemma settled_recorded_rows:
  assumes set: "settled D b c p" and rec: "\<And>d. d \<in> set D \<Longrightarrow> dm_Status d = VerificationActive \<Longrightarrow> recorded b d p"
  shows "rows_at b c (ps_store p) = {t. claimedAt D c t}"
  using set rec by (auto simp: settled_def recorded_def claimedAt_def list_ex_iff)

lemma unstored_settled:
  assumes "pass_step e D b (new_pass st) p" "rows_at b c st = {}"
  shows "settled D b c p"
  using pass_stepD(1) [OF assms(1)] assms(2) unfolding settled_def ledger_step_def new_pass_def by auto

lemma converging_recorded:
  "done_with (BindingEmitted True) bs D cur d p \<Longrightarrow> dm_Status d = VerificationActive \<Longrightarrow> recorded (bs_BindingID bs) d p"
  by (simp add: done_with_def converges_def)

definition binding_level :: MemberCoord where
  \<comment> \<open>the coordinate of the rows that belong to the binding and to none of its members\<close>
  "binding_level = \<lparr>mc_ObjectType = [], mc_ObjectID = []\<rparr>"

definition active_member :: "string \<Rightarrow> MemberCoord \<Rightarrow> Store \<Rightarrow> bool" where
  "active_member b c st \<longleftrightarrow>
     list_ex (\<lambda>m. tm_BindingID m = b \<and> coordOf m = c \<and> tm_Status m = VerificationActive) (st_members st)"

lemma CurrentMembers_set: "CurrentMembers e b st = Inr ms \<Longrightarrow> set ms = {m \<in> set (st_members st). tm_BindingID m = b}"
  by (auto simp: CurrentMembers_def order_members_def call_def split: if_splits)

lemma level_untouched:
  assumes "\<And>m. m \<in> set ms \<Longrightarrow> row_accepted m"
    and "\<And>d. d \<in> set D \<Longrightarrow> row_accepted (member_of bs d) \<or> (\<exists>m \<in> set ms. coordOf m = desiredCoord d)"
  shows "binding_level \<notin> touched D ms"
proof
  assume "binding_level \<in> touched D ms"
  then have "(\<exists>m \<in> set ms. coordOf m = binding_level) \<or> (\<exists>d \<in> set D. desiredCoord d = binding_level \<and> row_accepted (member_of bs d))"
    using assms(2) unfolding touched_def by (metis UnE imageE)
  then show False
    using assms(1) by (auto simp: binding_level_def coordOf_def desiredCoord_def row_accepted_def member_of_def)
qed

text \<open>
  C4: The ledger refines the wanted members. After a committed converging pass over an active
  binding, the ledger holds at a coordinate exactly the tuples that the wanted active members
  carry there, if it held no row there before or the binding had an active member there. The rows
  that belong to the binding itself, which the creation of a binding records at the empty
  coordinate, stay as they are, and so do the rows of other bindings. Stored members satisfy the
  constraints of their table.
\<close>

theorem ConvergeBinding_makes_the_ledger_wanted:
  assumes "ConvergeBinding e b st = (None, st')" and "pass_input e b st = Some (bs, D, ms)" and "pass_keyed e b st"
    and "\<And>xs. set (pe_walk e xs) = set xs" and "list_all row_accepted (st_members st)"
  shows "(rows_at b c st = {} \<or> active_member b c st \<longrightarrow> rows_at b c st' = {t. claimedAt D c t})
    \<and> rows_at b binding_level st' = rows_at b binding_level st \<and> (b' \<noteq> b \<longrightarrow> rows_at b' c st' = rows_at b' c st)"
proof -
  note bs = pass_input_ID [OF assms(2)]
  obtain p where p: "pass_step e D b (new_pass st) p" "flushDeletes e p = Inr st'" "traced (touched D ms) st D b p"
      "\<And>d. d \<in> set D \<Longrightarrow> row_accepted (member_of bs d) \<or> (\<exists>m \<in> set ms. coordOf m = desiredCoord d)"
      "\<And>d. d \<in> set D \<Longrightarrow> done_with (BindingEmitted True) bs D (currentByKey ms) d p"
      "\<And>m. m \<in> set ms \<Longrightarrow> tm_Status m = VerificationActive \<Longrightarrow> settled D b (coordOf m) p"
    by (rule committed_pass [OF assms(1)[unfolded ConvergeBinding_def] assms(2-4)]) simp
  have ms: "CurrentMembers e b st = Inr ms" using assms(2) by (rule pass_inputE)
  have "rows_at b c (ps_store p) = {t. claimedAt D c t}" if "rows_at b c st = {} \<or> active_member b c st"
  proof -
    have "settled D b c p"
      using that p(6) CurrentMembers_set [OF ms] unstored_settled [OF p(1), of c] by (auto simp: active_member_def list_ex_iff)
    then show ?thesis using settled_recorded_rows converging_recorded [OF p(5)] bs by metis
  qed
  moreover have "row_accepted m" if "m \<in> set ms" for m using that assms(5) CurrentMembers_set [OF ms] by (simp add: list_all_iff)
  then have "rows_at b binding_level (ps_store p) = rows_at b binding_level st"
    by (rule tracedD(1) [OF p(3) level_untouched [OF _ p(4)]])
  ultimately show ?thesis
    using rows_at_same [OF flushDeletes_same [OF p(2)]] pass_stepD(1) [OF p(1)] by (simp add: ledger_step_def new_pass_def)
qed

subsection \<open>The facts follow the ledger\<close>

definition clock_runs :: "PassEnv \<Rightarrow> Store \<Rightarrow> MembershipTuple \<Rightarrow> bool" where
  \<comment> \<open>the clock of the database is not behind the start of the transaction and the version of the fact\<close>
  "clock_runs e st t \<longleftrightarrow> (\<forall>n. pe_begin e \<le> pe_clock e n \<and> (\<forall>f. st_facts st t = Some f \<longrightarrow> fact_version f \<le> pe_clock e n))"

definition plain_ledger :: "Store \<Rightarrow> bool" where
  \<comment> \<open>\<open>access_binding_emitted_tuples_user_not_wildcard\<close>\<close>
  "plain_ledger st \<longleftrightarrow> list_all (\<lambda>r. \<not> wildcard_subject (mt_User (et_Tuple r))) (st_ledger st)"

lemma plain_rows: "plain_ledger st \<Longrightarrow> t \<in> rows_at b c st \<Longrightarrow> stored_tuple t = t"
  by (auto simp: plain_ledger_def rows_at_def list_all_iff stored_tuple_plain)

lemma holds_step:
  assumes "pass_step e D b p p'" "holds_tuple (ps_store p) t"
  shows "holds_tuple (ps_store p') t \<or> (\<exists>c. t \<in> rows_at b c (ps_store p) \<and> t \<notin> rows_at b c (ps_store p'))"
  using assms(2) pass_stepD(1-3) [OF assms(1)] unfolding holds_iff ledger_step_def binding_active_def binding_row_def by metis

lemma holds_back:
  assumes "pass_step e D b p p'" "holds_tuple (ps_store p') t"
  shows "holds_tuple (ps_store p) t \<or> t \<in> set (ps_seen p')"
  using assms(2) pass_stepD(1-3,10) [OF assms(1)] unfolding holds_iff ledger_step_def binding_active_def binding_row_def by metis

lemma binding_active_of: "LoadBinding e b st = Inr (Some bs) \<Longrightarrow> bs_Active bs = binding_active st b"
  by (auto simp: LoadBinding_def binding_scope_def call_def bindingScopeFrom_def Let_def binding_active_def split: option.splits if_splits prod.splits)

lemma flush_held:
  assumes step: "pass_step e D b (new_pass st) p" and flush: "flushDeletes e p = Inr st'"
    and t: "folds t" "holds_tuple st' t" and before: "holds_tuple st t \<Longrightarrow> st_facts st t \<noteq> None"
  shows "st_facts st' t \<noteq> None"
proof -
  have h: "holds_tuple (ps_store p) t" using t(2) same_holds [OF flushDeletes_same [OF flush]] by simp
  then have "st_facts (ps_store p) t \<noteq> None"
    using holds_back [OF step h] pass_stepD(7) [OF step, of t] before t(1) by (auto simp: new_pass_def)
  then show ?thesis by (rule flush_loop_keep [OF flush [unfolded flushDeletes_def] _ h])
qed

lemma flush_surplus:
  assumes step: "pass_step e D b (new_pass st) p" and flush: "flushDeletes e p = Inr st'"
    and claim: "\<And>t. claimed D t \<Longrightarrow> holds_tuple (ps_store p) t" and act: "binding_active st b"
    and clock: "clock_runs e st t" and t: "folds t" "mt_User t \<noteq> ''user:*''" "st_facts st' t \<noteq> None" and before: "st_facts st t \<noteq> None \<Longrightarrow> holds_tuple st t"
  shows "holds_tuple st' t"
proof (rule ccontr)
  note fl = flush [unfolded flushDeletes_def] and new = new_pass_def [of st]
  assume "\<not> holds_tuple st' t"
  then have n: "\<not> holds_tuple (ps_store p) t" using same_holds [OF flushDeletes_same [OF flush]] by simp
  have f: "st_facts (ps_store p) t \<noteq> None" using t(3) flush_loop_prev [OF fl, of t] by (cases "st_facts st' t") auto
  have ns: "t \<notin> set (ps_seen p)"
  proof
    assume "t \<in> set (ps_seen p)"
    then obtain c where "t \<in> rows_at b c (ps_store p)" using pass_stepD(6) [OF step, of t] by (auto simp: new)
    then have "holds_tuple (ps_store p) t" using act pass_stepD(2) [OF step] by (auto simp: holds_iff binding_active_def binding_row_def new)
    then show False using n by simp
  qed
  have "holds_tuple (ps_store (new_pass st)) t" using f ns pass_stepD(7) [OF step, of t] before by (simp add: new)
  then obtain c where c: "t \<in> rows_at b c (ps_store (new_pass st))" "t \<notin> rows_at b c (ps_store p)"
    using holds_step [OF step] n by blast
  then have "t \<in> pending_tuples p" using pass_stepD(9) [OF step c(1)] claim n by blast
  then have "t \<in> \<Union> (set ` snd ` set (ps_pending p)) - set (ps_seen p)" using ns by (simp add: pending_tuples_def)
  moreover have "fact_version g \<le> pe_clock e k" if "st_facts (ps_store p) t = Some g" for g k
    using pass_stepD(8) [OF step that] clock by (auto simp: clock_runs_def new)
  ultimately have "st_facts st' t = None" using flush_loop_gone [OF fl _ t(1,2) n] by blast
  then show False using t(3) by simp
qed

lemma flush_unheld:
  assumes step: "pass_step e D b (new_pass st) p" and trace: "traced Z st D b p" and flush: "flushDeletes e p = Inr st'"
    and act: "binding_active st b" and plain: "plain_ledger st" and t: "st_facts st t \<noteq> None" "\<not> holds_tuple st t"
  shows "st_facts st' t \<noteq> None"
proof (rule flush_loop_stay [OF flush [unfolded flushDeletes_def]])
  show "st_facts (ps_store p) t \<noteq> None" using pass_stepD(7) [OF step, of t] t(1) by (simp add: new_pass_def)
  have "t \<notin> stored_tuple ` pending_tuples p"
  proof
    assume "t \<in> stored_tuple ` pending_tuples p"
    then obtain u c where u: "t = stored_tuple u" "u \<in> rows_at b c st" using tracedD(3) [OF trace] by blast
    then have "t \<in> rows_at b c st" using plain_rows [OF plain u(2)] by simp
    then show False using t(2) act by (auto simp: holds_iff)
  qed
  then show "t \<notin> stored_tuple ` \<Union> (set ` snd ` set (ps_pending p))" by (simp add: pending_tuples_def)
qed


definition held_are_facts :: "Store \<Rightarrow> bool" where
  "held_are_facts st \<longleftrightarrow> (\<forall>t. folds t \<and> holds_tuple st t \<longrightarrow> st_facts st t \<noteq> None)"

subsection \<open>A sample pass\<close>

definition sample_stale :: MembershipTuple where
  "sample_stale = \<lparr>mt_User = ''user:usr1'', mt_Relation = ''viewer'', mt_Object = ''registry_registry:r9''\<rparr>"

definition sample_pointer :: MembershipTuple where
  \<comment> \<open>from the binding to its parent, recorded with the binding\<close>
  "sample_pointer = \<lparr>mt_User = ''project:prj1'', mt_Relation = ''project'', mt_Object = ''iam_access_binding:acb1''\<rparr>"

definition sample_structure :: MembershipTuple where
  \<comment> \<open>of the hierarchy of the tenants, which no binding holds\<close>
  "sample_structure = \<lparr>mt_User = ''account:acc1'', mt_Relation = ''account'', mt_Object = ''project:prj1''\<rparr>"

definition sample_gone :: TargetMember where
  "sample_gone = \<lparr>tm_BindingID = ''acb1'', tm_RoleID = ''rol1'', tm_RuleFP = ''fp'', tm_ObjectType = ''registry.registries'',
     tm_ObjectID = ''r9'', tm_Status = VerificationActive\<rparr>"

definition sample_tables :: Store where
  \<comment> \<open>one member whose object is gone, with its row and its fact, and the row and the facts of the hierarchy\<close>
  "sample_tables = \<lparr>st_members = [sample_gone],
     st_ledger = [\<lparr>et_BindingID = ''acb1'', et_Member = binding_level, et_Tuple = sample_pointer\<rparr>,
       \<lparr>et_BindingID = ''acb1'', et_Member = coordOf sample_gone, et_Tuple = sample_stale\<rparr>],
     st_journal = [], st_facts = [sample_stale \<mapsto> \<lparr>fact_version = 5, fact_condition = []\<rparr>,
       sample_pointer \<mapsto> \<lparr>fact_version = 4, fact_condition = []\<rparr>, sample_structure \<mapsto> \<lparr>fact_version = 3, fact_condition = []\<rparr>],
     st_bindings = [sample_binding], st_roles = [''rol1'' \<mapsto> (sample_editor, RoleLifecycleDeclared)],
     st_selectors = [],
     st_admins = [], st_audit = [], st_changes = []\<rparr>"

definition sample_env :: PassEnv where
  "sample_env = \<lparr>pe_src = pg_src sample_store, pe_down = (\<lambda>_. False), pe_cat = sample_catalog, pe_hash = id, pe_begin = 7,
     pe_clock = (\<lambda>_. 9), pe_account = (\<lambda>_. None), pe_tables = pg_tables sample_store, pe_walk = id\<rparr>"

lemma sample_input: "pass_input sample_env ''acb1'' sample_tables \<noteq> None"
  by code_simp
lemma sample_keyed: "pass_keyed sample_env ''acb1'' sample_tables"
  by code_simp
lemma sample_committed: "fst (ConvergeBinding sample_env ''acb1'' sample_tables) = None"
  by code_simp
lemma sample_cleared: "st_facts (snd (ConvergeBinding sample_env ''acb1'' sample_tables)) sample_stale = None"
  by code_simp
lemma sample_member: "list_all row_accepted (st_members sample_tables)" "active_member ''acb1'' (coordOf sample_gone) sample_tables"
  by code_simp+
lemma sample_level: "sample_pointer \<in> rows_at ''acb1'' binding_level sample_tables"
  by (simp add: rows_at_iff sample_tables_def)
lemma sample_plain: "plain_ledger sample_tables"
  by code_simp
lemma sample_walk: "set (pe_walk sample_env xs) = set xs"
  by (simp add: sample_env_def)
lemma sample_clock: "clock_runs sample_env sample_tables t"
  by (simp add: clock_runs_def sample_env_def sample_tables_def)
lemma sample_holds: "holds_tuple sample_tables sample_stale" "\<not> holds_tuple sample_tables sample_structure"
    "holds_tuple sample_tables sample_pointer"
  by code_simp+
lemma sample_facts: "st_facts sample_tables sample_stale \<noteq> None" "st_facts sample_tables sample_structure \<noteq> None"
  by (simp_all add: sample_tables_def)
lemma sample_tuples: "folds sample_stale" "mt_User sample_stale \<noteq> ''user:*''" "folds sample_structure" "mt_User sample_structure \<noteq> ''user:*''"
  by code_simp+

lemma sample_pass: "ConvergeBinding sample_env ''acb1'' sample_tables = (None, snd (ConvergeBinding sample_env ''acb1'' sample_tables))"
  using sample_committed by (metis prod.collapse)

lemma ConvergeBinding_makes_the_ledger_wanted_witness:
  "\<exists>bs D ms. pass_input sample_env ''acb1'' sample_tables = Some (bs, D, ms)
     \<and> rows_at ''acb1'' (coordOf sample_gone) (snd (ConvergeBinding sample_env ''acb1'' sample_tables)) = {t. claimedAt D (coordOf sample_gone) t}
     \<and> sample_pointer \<in> rows_at ''acb1'' binding_level (snd (ConvergeBinding sample_env ''acb1'' sample_tables))"
proof -
  obtain bs D ms where i: "pass_input sample_env ''acb1'' sample_tables = Some (bs, D, ms)"
    using sample_input by (metis not_Some_eq prod_cases3)
  show ?thesis
    using i ConvergeBinding_makes_the_ledger_wanted [OF sample_pass i sample_keyed sample_walk sample_member(1), of "coordOf sample_gone"]
      sample_member(2) sample_level by blast
qed


end
