(* ===== verification/Reconcile_Object.thy ===== *)
theory Reconcile_Object
  imports Reconcile_Pass
begin

text \<open>
  The remaining passes of the reconciler: the pass over one changed object and the lookup of the
  bindings that it concerns, the expiry of a binding, and the additive forward passes over a new
  binding and over a new object.

  Sources: \<open>reconcile.go\<close> and \<open>forward.go\<close> of
  \<open>internal/apps/kaname/api/access_binding/reconcile\<close> and their calls in
  \<open>internal/repo/kaname/pg/reconcile_adapter.go\<close>.

  The memory of the ancestors of an object is left out: a query answers the same within a pass.
\<close>

subsection \<open>Locks before the first write\<close>

definition lock_calls :: "PassEnv \<Rightarrow> string \<Rightarrow> string list \<Rightarrow> Pass \<Rightarrow> (pass_error, Pass) result" where
  "lock_calls e name ids p = (if ids = [] then Inr p else lock_call e name ids p)"

definition AcquireBindingLocks :: "PassEnv \<Rightarrow> string list \<Rightarrow> Pass \<Rightarrow> (pass_error, Pass) result" where
  "AcquireBindingLocks e = lock_calls e ''AcquireBindingLocks''"

definition LockBindingsAndRoles :: "PassEnv \<Rightarrow> string list \<Rightarrow> Pass \<Rightarrow> (pass_error, Pass) result" where
  "LockBindingsAndRoles e ids p =
     (case lock_calls e ''LockBindings'' ids p of
        Inl err \<Rightarrow> Inl err
      | Inr p1 \<Rightarrow> lock_calls e ''LockRolesOfBindings'' ids p1)"

subsection \<open>The pass over an object\<close>

definition dedupSortBindingIDs :: "string list list \<Rightarrow> string list" where
  "dedupSortBindingIDs sets = sort (remdups (concat sets))"

definition matching_bindings :: "PassEnv \<Rightarrow> string \<Rightarrow> string \<Rightarrow> Store \<Rightarrow> (pass_error, string list) result" where
  "matching_bindings e objectType objectID st =
     (if FeedSourceForType objectType = FeedIAMDirect then IAMDirectSelectorBindingsMatchingObject e objectType objectID st
      else SelectorBindingsMatchingObject e objectType objectID st)"

definition get_object :: "PassEnv \<Rightarrow> string \<Rightarrow> string \<Rightarrow> (pass_error, MirrorObject option) result" where
  "get_object e objectType objectID =
     query (if FeedSourceForType objectType = FeedIAMDirect then GetIAMDirectObject (pe_src e) objectType objectID
            else GetMirrorObject (pe_src e) objectType objectID)"

definition still_live :: "PassEnv \<Rightarrow> MemberCoord \<Rightarrow> MirrorObject option \<Rightarrow> (pass_error, MirrorObject option) result" where
  \<comment> \<open>the row of the object under its lock\<close>
  "still_live e coord obj =
     (case obj of
        None \<Rightarrow> Inr None
      | Some m \<Rightarrow>
          (case query (liveObjects (pe_src e) [coord]) of
             Inl err \<Rightarrow> Inl err
           | Inr live \<Rightarrow> Inr (if live coord then Some m else None)))"

definition desired_on_object :: "PassEnv \<Rightarrow> BindingScope \<Rightarrow> MemberCoord \<Rightarrow> MirrorObject option \<Rightarrow> (pass_error, DesiredMember list) result" where
  "desired_on_object e bs coord obj =
     (case obj of
        None \<Rightarrow> Inr []
      | Some m \<Rightarrow>
          (case query (ancestors_for (pe_src e) bs (mc_ObjectType coord) (mc_ObjectID coord) True) of
             Inl err \<Rightarrow> Inl err
           | Inr anc \<Rightarrow> Inr (desiredMembersForObject (pe_cat e) bs m anc)))"

definition reconcileBindingForObject ::
  "PassEnv \<Rightarrow> string \<Rightarrow> MemberCoord \<Rightarrow> MirrorObject option \<Rightarrow> Pass \<Rightarrow> (pass_error, Pass) result" where
  "reconcileBindingForObject e b coord obj p =
     (case LoadBinding e b (ps_store p) of
        Inl err \<Rightarrow> Inl err
      | Inr None \<Rightarrow> Inr p
      | Inr (Some bs) \<Rightarrow>
          if \<not> bs_Active bs then Inr p
          else if nestsUnder bs (mc_ObjectType coord) then diff_whole e False bs b p
          else
         (case desired_on_object e bs coord obj of
            Inl err \<Rightarrow> Inl err
          | Inr desired \<Rightarrow>
         (case CurrentMembersForObject e b (mc_ObjectType coord) (mc_ObjectID coord) (ps_store p) of
            Inl err \<Rightarrow> Inl err
          | Inr current \<Rightarrow> applyDiff e (ObjectEmitted coord) bs desired current p)))"

fun fan_out :: "PassEnv \<Rightarrow> MemberCoord \<Rightarrow> MirrorObject option \<Rightarrow> string list \<Rightarrow> Pass \<Rightarrow> (pass_error, Pass) result" where
  "fan_out e coord obj [] p = Inr p"
| "fan_out e coord obj (b # bs) p =
     (case reconcileBindingForObject e b coord obj p of
        Inl err \<Rightarrow> Inl err
      | Inr p1 \<Rightarrow> fan_out e coord obj bs p1)"

definition object_pass :: "PassEnv \<Rightarrow> string \<Rightarrow> string \<Rightarrow> Pass \<Rightarrow> (pass_error, Pass) result" where
  "object_pass e objectType objectID p0 =
     (let st = ps_store p0; coord = \<lparr>mc_ObjectType = objectType, mc_ObjectID = objectID\<rparr> in
      case BindingsForObject e objectType objectID st of
        Inl err \<Rightarrow> Inl err
      | Inr existing \<Rightarrow>
     (case matching_bindings e objectType objectID st of
        Inl err \<Rightarrow> Inl err
      | Inr matching \<Rightarrow>
     (case get_object e objectType objectID of
        Inl err \<Rightarrow> Inl err
      | Inr obj0 \<Rightarrow>
     (let union = dedupSortBindingIDs [existing, matching] in
      case AcquireBindingLocks e union p0 of
        Inl err \<Rightarrow> Inl err
      | Inr p1 \<Rightarrow>
     (case LockBindingsAndRoles e union p1 of
        Inl err \<Rightarrow> Inl err
      | Inr p2 \<Rightarrow>
     (case still_live e coord obj0 of
        Inl err \<Rightarrow> Inl err
      | Inr obj \<Rightarrow> fan_out e coord obj union p2))))))"

definition ReconcileObject :: "PassEnv \<Rightarrow> string \<Rightarrow> string \<Rightarrow> Store \<Rightarrow> pass_error option \<times> Store" where
  "ReconcileObject e objectType objectID = WithTx e (run_pass e (object_pass e objectType objectID))"

subsection \<open>Expiry\<close>

fun emitSubjectChangeOfExpiry :: "PassEnv \<Rightarrow> Subject list \<Rightarrow> Store \<Rightarrow> (pass_error, Store) result" where
  "emitSubjectChangeOfExpiry e [] st = Inr st"
| "emitSubjectChangeOfExpiry e (s # ss) st =
     (if sub_ID s = [] then Inl SubjectIDRequired
      else (case call e ''EmitSubjectChangeEvent'' [sub_ID s]
               (Inr (st\<lparr>st_changes := st_changes st @ [(sub_ID s, sub_Type s)]\<rparr>)) of
              Inl err \<Rightarrow> Inl err
            | Inr st1 \<Rightarrow> emitSubjectChangeOfExpiry e ss st1))"

fun revoked_audit_loop :: "PassEnv \<Rightarrow> BindingScope \<Rightarrow> string \<Rightarrow> Subject list \<Rightarrow> Store \<Rightarrow> (pass_error, Store) result" where
  "revoked_audit_loop e bs tenant [] st = Inr st"
| "revoked_audit_loop e bs tenant (s # ss) st =
     (case call e ''EmitAuditEvent'' [bs_BindingID bs, sub_ID s]
        (Inr (st\<lparr>st_audit := st_audit st @ [BindingRevoked (bs_BindingID bs) s (bs_Scope bs) (bs_RoleID bs) tenant]\<rparr>)) of
        Inl err \<Rightarrow> Inl err
      | Inr st1 \<Rightarrow> revoked_audit_loop e bs tenant ss st1)"

definition emitRevokedAuditOfExpiry :: "PassEnv \<Rightarrow> BindingScope \<Rightarrow> Store \<Rightarrow> (pass_error, Store) result" where
  "emitRevokedAuditOfExpiry e bs =
     revoked_audit_loop e bs (if anchor_Type (bs_Scope bs) = ''account'' then anchor_ID (bs_Scope bs) else []) (bs_Subjects bs)"

fun delete_members :: "PassEnv \<Rightarrow> string \<Rightarrow> TargetMember list \<Rightarrow> Store \<Rightarrow> (pass_error, Store) result" where
  "delete_members e b [] st = Inr st"
| "delete_members e b (m # ms) st =
     (case DeleteMember e b (tm_RuleFP m) (tm_ObjectType m) (tm_ObjectID m) st of
        Inl err \<Rightarrow> Inl err
      | Inr st1 \<Rightarrow> delete_members e b ms st1)"

definition close_binding :: "PassEnv \<Rightarrow> BindingScope \<Rightarrow> string \<Rightarrow> Pass \<Rightarrow> (pass_error, Pass) result" where
  \<comment> \<open>after the transition to REVOKED\<close>
  "close_binding e bs b p =
     (case on_store (emitSubjectChangeOfExpiry e (bs_Subjects bs)) p of
        Inl err \<Rightarrow> Inl err
      | Inr p1 \<Rightarrow>
     (case on_store (emitRevokedAuditOfExpiry e bs) p1 of
        Inl err \<Rightarrow> Inl err
      | Inr p2 \<Rightarrow>
     (case revokeWholeLedger e b p2 of
        Inl err \<Rightarrow> Inl err
      | Inr p3 \<Rightarrow>
     (case CurrentMembers e b (ps_store p3) of
        Inl err \<Rightarrow> Inl err
      | Inr members \<Rightarrow> on_store (delete_members e b members) p3))))"

definition expire_pass :: "PassEnv \<Rightarrow> string \<Rightarrow> Pass \<Rightarrow> (pass_error, Pass) result" where
  "expire_pass e b p0 =
     (case lock_call e ''AcquireBindingLock'' [b] p0 of
        Inl err \<Rightarrow> Inl err
      | Inr p1 \<Rightarrow>
     (case lock_call e ''LockBindingForDeactivation'' [b] p1 of
        Inl err \<Rightarrow> Inl err
      | Inr p \<Rightarrow>
     (case LoadBinding e b (ps_store p) of
        Inl err \<Rightarrow> Inl err
      | Inr None \<Rightarrow> Inr p
      | Inr (Some bs) \<Rightarrow> if \<not> bs_Active bs then Inr p else
     (case RevokeExpiredBinding e b (ps_store p) of
        Inl err \<Rightarrow> Inl err
      | Inr (revoked, st) \<Rightarrow> if \<not> revoked then Inr p else close_binding e bs b (p\<lparr>ps_store := st\<rparr>)))))"

definition ExpireBinding :: "PassEnv \<Rightarrow> string \<Rightarrow> Store \<Rightarrow> pass_error option \<times> Store" where
  "ExpireBinding e b = WithTx e (run_pass e (expire_pass e b))"

subsection \<open>The additive forward passes\<close>

record forwardWriteSet =
  ws_members :: "TargetMember list"
  ws_fresh :: "MembershipTuple list"
  ws_ledger :: "EmittedTupleRef list"

definition no_writes :: forwardWriteSet where
  "no_writes = \<lparr>ws_members = [], ws_fresh = [], ws_ledger = []\<rparr>"

definition materializeForwardMember :: "BindingScope \<Rightarrow> DesiredMember \<Rightarrow> Pass \<times> forwardWriteSet \<Rightarrow> Pass \<times> forwardWriteSet" where
  "materializeForwardMember bs d pw =
     (let (p, w) = pw; (fresh, p1) = collectNew (dm_Tuples d) p
      in (p1, \<lparr>ws_members = ws_members w @ [(member_of bs d)\<lparr>tm_Status := VerificationActive\<rparr>],
               ws_fresh = ws_fresh w @ fresh,
               ws_ledger = ws_ledger w @ map (\<lambda>t. \<lparr>et_BindingID = bs_BindingID bs, et_Member = desiredCoord d, et_Tuple = t\<rparr>) (dm_Tuples d)\<rparr>))"

definition materialize_active :: "BindingScope \<Rightarrow> DesiredMember list \<Rightarrow> Pass \<times> forwardWriteSet \<Rightarrow> Pass \<times> forwardWriteSet" where
  "materialize_active bs ds pw = foldl (\<lambda>pw d. materializeForwardMember bs d pw) pw (filter (\<lambda>d. dm_Status d = VerificationActive) ds)"

definition keepLive :: "PassEnv \<Rightarrow> forwardWriteSet \<Rightarrow> (pass_error, forwardWriteSet) result" where
  "keepLive e w =
     (if ws_members w = [] then Inr w
      else (case query (liveObjects (pe_src e) (map coordOf (ws_members w))) of
              Inl err \<Rightarrow> Inl err
            | Inr live \<Rightarrow>
                let members = filter (\<lambda>m. live (coordOf m)) (ws_members w) in
                if length members = length (ws_members w) then Inr w
                else let ledger = filter (\<lambda>r. live (et_Member r)) (ws_ledger w)
                     in Inr \<lparr>ws_members = members, ws_fresh = filter (\<lambda>t. t \<in> et_Tuple ` set ledger) (ws_fresh w), ws_ledger = ledger\<rparr>))"

definition flush :: "PassEnv \<Rightarrow> forwardWriteSet \<Rightarrow> Store \<Rightarrow> (pass_error, Store) result" where
  "flush e w0 st =
     (case keepLive e w0 of
        Inl err \<Rightarrow> Inl err
      | Inr w \<Rightarrow>
     (case UpsertMembers e (ws_members w) st of
        Inl err \<Rightarrow> Inl err
      | Inr st1 \<Rightarrow>
     (case EmitTupleWrite e (ws_fresh w) st1 of
        Inl err \<Rightarrow> Inl err
      | Inr st2 \<Rightarrow> RecordEmittedTuplesBatch e (ws_ledger w) st2)))"

definition forward_binding :: "PassEnv \<Rightarrow> string \<Rightarrow> Store \<Rightarrow> (pass_error, Store) result" where
  "forward_binding e b st =
     (case CurrentMembers e b st of
        Inl err \<Rightarrow> Inl err
      | Inr existing \<Rightarrow> if existing \<noteq> [] then Inr st else
     (case LoadBindingForForward e b st of
        Inl err \<Rightarrow> Inl err
      | Inr None \<Rightarrow> Inr st
      | Inr (Some bs) \<Rightarrow> if \<not> bs_Active bs then Inr st else
     (case query (desiredMembers (pe_cat e) (pe_src e) bs) of
        Inl err \<Rightarrow> Inl err
      | Inr desired \<Rightarrow> flush e (snd (materialize_active bs desired (new_pass st, no_writes))) st)))"

definition binding_needs_full :: "PassEnv \<Rightarrow> string \<Rightarrow> Store \<Rightarrow> bool" where
  "binding_needs_full e b st \<longleftrightarrow> (case CurrentMembers e b st of Inl _ \<Rightarrow> False | Inr existing \<Rightarrow> existing \<noteq> [])"

definition ReconcileBindingForward :: "PassEnv \<Rightarrow> string \<Rightarrow> Store \<Rightarrow> pass_error option \<times> Store" where
  "ReconcileBindingForward e b st =
     (case WithTx e (forward_binding e b) st of
        (Some err, st1) \<Rightarrow> (Some err, st1)
      | (None, st1) \<Rightarrow> if binding_needs_full e b st then ReconcileBinding e b st1 else (None, st1))"

fun forward_loop :: "PassEnv \<Rightarrow> MemberCoord \<Rightarrow> MirrorObject \<Rightarrow> (string \<rightharpoonup> BindingScope) \<Rightarrow> string list
    \<Rightarrow> Pass \<times> forwardWriteSet \<Rightarrow> (pass_error, Pass \<times> forwardWriteSet) result" where
  "forward_loop e coord obj scopes [] pw = Inr pw"
| "forward_loop e coord obj scopes (b # bs) pw =
     (case scopes b of
        None \<Rightarrow> forward_loop e coord obj scopes bs pw
      | Some scope \<Rightarrow>
          if \<not> bs_Active scope then forward_loop e coord obj scopes bs pw
          else (case desired_on_object e scope coord (Some obj) of
                  Inl err \<Rightarrow> Inl err
                | Inr ds \<Rightarrow> forward_loop e coord obj scopes bs (materialize_active scope ds pw)))"

definition forward_candidates :: "PassEnv \<Rightarrow> MemberCoord \<Rightarrow> MirrorObject \<Rightarrow> Store \<Rightarrow> (pass_error, Store) result" where
  "forward_candidates e coord obj st =
     (case matching_bindings e (mc_ObjectType coord) (mc_ObjectID coord) st of
        Inl err \<Rightarrow> Inl err
      | Inr matching \<Rightarrow>
     (let ids = dedupSortBindingIDs [matching] in
      case LoadBindingsForForward e ids st of
        Inl err \<Rightarrow> Inl err
      | Inr scopes \<Rightarrow>
     (case (if FeedSourceForType (mc_ObjectType coord) = FeedIAMDirect then Inr (Some obj) else still_live e coord (Some obj)) of
        Inl err \<Rightarrow> Inl err
      | Inr None \<Rightarrow> Inr st
      | Inr (Some _) \<Rightarrow>
     (case forward_loop e coord obj scopes ids (new_pass st, no_writes) of
        Inl err \<Rightarrow> Inl err
      | Inr (_, w) \<Rightarrow> flush e w st))))"

definition object_needs_full :: "PassEnv \<Rightarrow> bool \<Rightarrow> string \<Rightarrow> string \<Rightarrow> Store \<Rightarrow> bool" where
  "object_needs_full e noStale objectType objectID st \<longleftrightarrow>
     \<not> noStale \<and> (case BindingsForObject e objectType objectID st of Inl _ \<Rightarrow> False | Inr existing \<Rightarrow> existing \<noteq> [])"

definition forward_object :: "PassEnv \<Rightarrow> bool \<Rightarrow> string \<Rightarrow> string \<Rightarrow> Store \<Rightarrow> (pass_error, Store) result" where
  "forward_object e noStale objectType objectID st =
     (case (if noStale then Inr [] else BindingsForObject e objectType objectID st) of
        Inl err \<Rightarrow> Inl err
      | Inr existing \<Rightarrow> if existing \<noteq> [] then Inr st else
     (case get_object e objectType objectID of
        Inl err \<Rightarrow> Inl err
      | Inr None \<Rightarrow> Inr st
      | Inr (Some obj) \<Rightarrow> forward_candidates e \<lparr>mc_ObjectType = objectType, mc_ObjectID = objectID\<rparr> obj st))"

definition reconcileObjectForward :: "PassEnv \<Rightarrow> bool \<Rightarrow> string \<Rightarrow> string \<Rightarrow> Store \<Rightarrow> pass_error option \<times> Store" where
  "reconcileObjectForward e noStale objectType objectID st =
     (case WithTx e (forward_object e noStale objectType objectID) st of
        (Some err, st1) \<Rightarrow> (Some err, st1)
      | (None, st1) \<Rightarrow>
          if object_needs_full e noStale objectType objectID st then ReconcileObject e objectType objectID st1 else (None, st1))"

definition ReconcileObjectForward :: "PassEnv \<Rightarrow> string \<Rightarrow> string \<Rightarrow> Store \<Rightarrow> pass_error option \<times> Store" where
  "ReconcileObjectForward e = reconcileObjectForward e False"

definition ReconcileObjectForwardNoStale :: "PassEnv \<Rightarrow> string \<Rightarrow> string \<Rightarrow> Store \<Rightarrow> pass_error option \<times> Store" where
  "ReconcileObjectForwardNoStale e = reconcileObjectForward e True"

subsection \<open>What an expiry leaves\<close>

lemma find_map_other:
  assumes "\<And>x. P (f x) \<longleftrightarrow> P x" "\<And>x. P x \<Longrightarrow> f x = x"
  shows "List.find P (map f xs) = List.find P xs"
  using assms by (induction xs) auto

lemma RevokeExpired_bindings:
  assumes "RevokeExpiredBinding e b st = Inr (True, st1)"
  shows "\<not> binding_active st1 b" "b' \<noteq> b \<Longrightarrow> binding_row st1 b' = binding_row st b'"
    "st_ledger st1 = st_ledger st" "st_members st1 = st_members st" "st_facts st1 = st_facts st" "st_admins st1 = st_admins st"
    "st_audit st1 = st_audit st" "st_changes st1 = st_changes st"
proof -
  define f :: "AccessBinding \<Rightarrow> AccessBinding" where "f = (\<lambda>ab. if ab_ID ab = b \<and> ab_Status ab = ''ACTIVE'' then ab\<lparr>ab_Status := ''REVOKED''\<rparr> else ab)"
  have st1: "st1 = st\<lparr>st_bindings := map f (st_bindings st)\<rparr>"
    using assms unfolding RevokeExpiredBinding_def call_def f_def by (simp split: if_split_asm)
  have ended: "ab_Status x \<noteq> ''ACTIVE''" if fnd: "List.find (\<lambda>ab. ab_ID ab = b) (map f xs) = Some x" for xs x
  proof -
    obtain y where y: "x = f y" "ab_ID x = b" using fnd by (auto simp: find_Some_iff)
    then show ?thesis by (cases "ab_ID y = b \<and> ab_Status y = ''ACTIVE''") (simp_all add: f_def split: if_splits)
  qed
  show "\<not> binding_active st1 b"
  proof (cases "binding_row st1 b")
    case (Some x)
    then have "List.find (\<lambda>ab. ab_ID ab = b) (map f (st_bindings st)) = Some x" by (simp add: binding_row_def st1)
    then show ?thesis using ended Some by (simp add: binding_active_def)
  qed (simp add: binding_active_def)
  show "binding_row st1 b' = binding_row st b'" if "b' \<noteq> b"
    unfolding binding_row_def st1 Store.select_convs by (simp, rule find_map_other) (use that in \<open>auto simp: f_def\<close>)
  show "st_ledger st1 = st_ledger st" "st_members st1 = st_members st" "st_facts st1 = st_facts st" "st_admins st1 = st_admins st"
    "st_audit st1 = st_audit st" "st_changes st1 = st_changes st"
    by (simp_all add: st1)
qed

definition quiet_tables :: "Store \<Rightarrow> Store \<Rightarrow> bool" where
  \<comment> \<open>only audit and changes differ\<close>
  "quiet_tables st st' \<longleftrightarrow> st_ledger st' = st_ledger st \<and> st_members st' = st_members st \<and> st_facts st' = st_facts st
     \<and> st_bindings st' = st_bindings st \<and> st_admins st' = st_admins st"

lemma emitSubjectChangeOfExpiry_all:
  "emitSubjectChangeOfExpiry e ss st = Inr st' \<Longrightarrow> quiet_tables st st' \<and> st_audit st' = st_audit st
    \<and> st_changes st' = st_changes st @ map (\<lambda>s. (sub_ID s, sub_Type s)) ss"
  by (induction ss arbitrary: st) (auto simp: quiet_tables_def call_def split: if_splits)

lemma revoked_audit_loop_all:
  "revoked_audit_loop e bs tenant ss st = Inr st' \<Longrightarrow> quiet_tables st st' \<and> st_changes st' = st_changes st
    \<and> st_audit st' = st_audit st @ map (\<lambda>s. BindingRevoked (bs_BindingID bs) s (bs_Scope bs) (bs_RoleID bs) tenant) ss"
  by (induction ss arbitrary: st) (auto simp: quiet_tables_def call_def split: if_splits)

lemma delete_members_all:
  "delete_members e b ms st = Inr st' \<Longrightarrow> same_rest st st' \<and> st_ledger st' = st_ledger st \<and> st_audit st' = st_audit st \<and> st_changes st' = st_changes st
    \<and> st_members st' = filter (\<lambda>r. \<forall>m \<in> set ms. \<not> (tm_BindingID r = b \<and> key_of_member r = key_of_member m \<and> coordOf r = coordOf m)) (st_members st)"
proof (induction ms arbitrary: st)
  case Nil
  then show ?case by (simp add: same_rest_def)
next
  case (Cons m ms)
  then obtain st1 where st1: "DeleteMember e b (tm_RuleFP m) (tm_ObjectType m) (tm_ObjectID m) st = Inr st1" "delete_members e b ms st1 = Inr st'"
    by (auto split: sum.splits)
  have key: "tm_RuleFP r = tm_RuleFP m \<and> tm_ObjectType r = tm_ObjectType m \<and> tm_ObjectID r = tm_ObjectID m
      \<longleftrightarrow> key_of_member r = key_of_member m \<and> coordOf r = coordOf m" for r
    by (auto simp: key_of_member_def memberRuleKey_def coordOf_def)
  have "st_members st1 = filter (\<lambda>r. \<not> (tm_BindingID r = b \<and> key_of_member r = key_of_member m \<and> coordOf r = coordOf m)) (st_members st)"
    "same_rest st st1" "st_ledger st1 = st_ledger st" "st_audit st1 = st_audit st" "st_changes st1 = st_changes st"
    using st1(1) key by (auto simp: DeleteMember_def call_def same_rest_def split: if_splits)
  then show ?case using Cons.IH [OF st1(2)] by (auto simp: same_rest_def intro!: filter_cong)
qed

lemma delete_current_members:
  assumes "CurrentMembers e b st0 = Inr ms" "st_members st = st_members st0" "delete_members e b ms st = Inr st'"
  shows "st_members st' = filter (\<lambda>r. tm_BindingID r \<noteq> b) (st_members st)"
proof -
  have "set ms = {m \<in> set (st_members st). tm_BindingID m = b}"
    using assms(1,2) by (auto simp: CurrentMembers_def order_members_def call_def split: if_splits)
  then show ?thesis using delete_members_all [OF assms(3)] by (auto intro!: filter_cong)
qed

lemma revokeWholeLedger_all:
  assumes "revokeWholeLedger e b p = Inr p'" "ps_seen p = []" "ps_pending p = []"
  shows "rows_at b' c (ps_store p') = (if b' = b then {} else rows_at b' c (ps_store p))" "same_rest (ps_store p) (ps_store p')"
    "st_members (ps_store p') = st_members (ps_store p)" "ps_seen p' = []" "pending_tuples p' = (\<Union>c. rows_at b c (ps_store p))"
    "st_audit (ps_store p') = st_audit (ps_store p)" "st_changes (ps_store p') = st_changes (ps_store p)"
proof -
  obtain rows where rows: "LedgerTuples e b (ps_store p) = Inr rows"
    using assms(1) by (auto simp: revokeWholeLedger_def split: sum.splits)
  have set: "(\<Union>c. rows_at b c (ps_store p)) = lr_Tuple ` set rows"
  proof -
    have "t \<in> (\<Union>c. rows_at b c (ps_store p)) \<longleftrightarrow> (\<exists>c. \<lparr>lr_Member = c, lr_Tuple = t\<rparr> \<in> set rows)" for t
      using LedgerTuples_set [OF rows] by simp
    also have "\<dots> t \<longleftrightarrow> t \<in> lr_Tuple ` set rows" for t
      by (metis (no_types, opaque_lifting) LedgerRow.cases LedgerRow.select_convs(2) image_iff)
    finally show ?thesis by blast
  qed
  have sub: "rows_at b c (ps_store p) \<subseteq> {lr_Tuple r |r. r \<in> set rows \<and> lr_Member r = c}" for c
    using LedgerTuples_set [OF rows, of c] by (force intro: exI [of _ "\<lparr>lr_Member = c, lr_Tuple = _\<rparr>"])
  have "(\<forall>b' c. rows_at b' c (ps_store p') = (if b' = b then {} else rows_at b' c (ps_store p))) \<and> same_rest (ps_store p) (ps_store p')
      \<and> st_members (ps_store p') = st_members (ps_store p) \<and> ps_seen p' = [] \<and> pending_tuples p' = lr_Tuple ` set rows
      \<and> st_audit (ps_store p') = st_audit (ps_store p) \<and> st_changes (ps_store p') = st_changes (ps_store p)"
  proof (cases "rows = []")
    case True
    then have "p' = p" using assms(1) rows by (simp add: revokeWholeLedger_def)
    then show ?thesis using True set assms(2,3) by (auto simp: same_rest_def pending_tuples_def)
  next
    case False
    then obtain st where st: "ForgetEmittedTuples e b rows (ps_store p) = Inr st"
        "p' = deferDelete b (first_seen (map lr_Tuple rows)) (p\<lparr>ps_store := st\<rparr>)"
      using assms(1) rows by (auto simp: revokeWholeLedger_def split: sum.splits)
    have "st_audit st = st_audit (ps_store p) \<and> st_changes st = st_changes (ps_store p)"
      using st(1) by (auto simp: ForgetEmittedTuples_def call_def split: if_splits sum.splits)
    then show ?thesis using ForgetEmittedTuples_all [OF st(1) sub] assms(2,3)
      by (simp add: st(2) deferDelete_pending) (simp add: pending_tuples_def)
  qed
  then show "rows_at b' c (ps_store p') = (if b' = b then {} else rows_at b' c (ps_store p))" "same_rest (ps_store p) (ps_store p')"
    "st_members (ps_store p') = st_members (ps_store p)" "ps_seen p' = []" "pending_tuples p' = (\<Union>c. rows_at b c (ps_store p))"
    "st_audit (ps_store p') = st_audit (ps_store p)" "st_changes (ps_store p') = st_changes (ps_store p)"
    unfolding set by blast+
qed

subsection \<open>An expired binding\<close>

lemma expired_steps:
  assumes x: "ExpireBinding e b st = (None, st')" and load: "LoadBinding e b st = Inr (Some bs)" "bs_Active bs"
  obtains p where "flushDeletes e p = Inr st'" "ps_seen p = []" "pending_tuples p = (\<Union>c. rows_at b c st)"
    "\<And>b' c. rows_at b' c (ps_store p) = (if b' = b then {} else rows_at b' c st)"
    "st_members (ps_store p) = filter (\<lambda>r. tm_BindingID r \<noteq> b) (st_members st)"
    "st_facts (ps_store p) = st_facts st" "st_admins (ps_store p) = st_admins st"
    "\<not> binding_active (ps_store p) b" "\<And>b'. b' \<noteq> b \<Longrightarrow> binding_row (ps_store p) b' = binding_row st b'"
    "st_changes (ps_store p) = st_changes st @ map (\<lambda>s. (sub_ID s, sub_Type s)) (bs_Subjects bs)"
    "st_audit (ps_store p) = st_audit st @ map (\<lambda>s. BindingRevoked b s (bs_Scope bs) (bs_RoleID bs)
       (if anchor_Type (bs_Scope bs) = ''account'' then anchor_ID (bs_Scope bs) else [])) (bs_Subjects bs)"
proof -
  have "run_pass e (expire_pass e b) st = Inr st'" using x by (auto simp: ExpireBinding_def dest: WithTx_ok)
  then obtain p where p: "expire_pass e b (new_pass st) = Inr p" "flushDeletes e p = Inr st'"
    by (auto simp: run_pass_def split: sum.splits)
  have act: "binding_active st b" using binding_active_of [OF load(1)] load(2) by simp
  then obtain st1 where st1: "RevokeExpiredBinding e b st = Inr (True, st1)" "close_binding e bs b ((new_pass st)\<lparr>ps_store := st1\<rparr>) = Inr p"
    using p(1) load by (auto simp: expire_pass_def lock_call_def call_def new_pass_def RevokeExpiredBinding_def split: sum.splits if_splits)
  note r = RevokeExpired_bindings [OF st1(1)]
  let ?p0 = "(new_pass st)\<lparr>ps_store := st1\<rparr>"
  obtain p1 p2 p3 ms where s: "on_store (emitSubjectChangeOfExpiry e (bs_Subjects bs)) ?p0 = Inr p1"
      "on_store (emitRevokedAuditOfExpiry e bs) p1 = Inr p2" "revokeWholeLedger e b p2 = Inr p3"
      "CurrentMembers e b (ps_store p3) = Inr ms" "on_store (delete_members e b ms) p3 = Inr p"
    using st1(2) by (auto simp: close_binding_def split: sum.splits)
  note s1 = on_storeD [OF s(1)] and s2 = on_storeD [OF s(2)] and s5 = on_storeD [OF s(5)]
  note c1 = emitSubjectChangeOfExpiry_all [OF conjunct1 [OF s1]]
    and c2 = revoked_audit_loop_all [OF conjunct1 [OF s2, unfolded emitRevokedAuditOfExpiry_def]]
    and c5 = delete_members_all [OF conjunct1 [OF s5]]
  have e: "ps_seen p2 = []" "ps_pending p2 = []" "ps_store ?p0 = st1"
    by (subst conjunct2 [OF s2], subst conjunct2 [OF s1], simp add: new_pass_def)+ (simp add: new_pass_def)
  note w = revokeWholeLedger_all [OF s(3) e(1,2)]
  have f: "ps_seen p = ps_seen p3" "pending_tuples p = pending_tuples p3"
    by (subst conjunct2 [OF s5], simp)+
  have rows2: "rows_at b' c (ps_store p2) = rows_at b' c st" for b' c
    using c1 c2 r(3) by (simp add: quiet_tables_def rows_at_def e(3))
  have rows3: "rows_at b' c (ps_store p) = rows_at b' c (ps_store p3)" for b' c
    using c5 by (simp add: rows_at_def)
  have tables: "st_members (ps_store p3) = st_members st" "st_facts (ps_store p) = st_facts st" "st_admins (ps_store p) = st_admins st"
      "st_bindings (ps_store p) = st_bindings st1"
    using c1 c2 c5 w r by (simp_all add: quiet_tables_def same_rest_def e(3))
  show ?thesis
  proof (rule that [OF p(2)])
    show "ps_seen p = []" "pending_tuples p = (\<Union>c. rows_at b c st)" using f w(4,5) rows2 by simp_all
    show "rows_at b' c (ps_store p) = (if b' = b then {} else rows_at b' c st)" for b' c using w(1) rows2 rows3 by simp
    show "st_members (ps_store p) = filter (\<lambda>r. tm_BindingID r \<noteq> b) (st_members st)"
      using delete_current_members [OF s(4) refl conjunct1 [OF s5]] tables(1) by simp
    show "st_facts (ps_store p) = st_facts st" "st_admins (ps_store p) = st_admins st" by (rule tables(2), rule tables(3))
    show "\<not> binding_active (ps_store p) b" using r(1) by (simp add: binding_active_def binding_row_def tables(4))
    show "binding_row (ps_store p) b' = binding_row st b'" if "b' \<noteq> b" for b' using r(2) that by (simp add: binding_row_def tables(4))
    show "st_changes (ps_store p) = st_changes st @ map (\<lambda>s. (sub_ID s, sub_Type s)) (bs_Subjects bs)"
      using c1 c2 c5 w(7) r(8) by (simp add: e(3))
    show "st_audit (ps_store p) = st_audit st @ map (\<lambda>s. BindingRevoked b s (bs_Scope bs) (bs_RoleID bs)
       (if anchor_Type (bs_Scope bs) = ''account'' then anchor_ID (bs_Scope bs) else [])) (bs_Subjects bs)"
      using c1 c2 c5 w(6) r(7) LoadBinding_ID [OF load(1)] by (simp add: e(3))
  qed
qed

lemma expired_holds:
  assumes rows: "\<And>b' c. rows_at b' c st2 = (if b' = b then {} else rows_at b' c st)" and admins: "st_admins st2 = st_admins st"
    and act: "\<not> binding_active st2 b" "\<And>b'. b' \<noteq> b \<Longrightarrow> binding_row st2 b' = binding_row st b'"
  shows "holds_tuple st2 t \<Longrightarrow> holds_tuple st t" "holds_tuple st t \<Longrightarrow> holds_tuple st2 t \<or> (\<exists>c. t \<in> rows_at b c st)"
proof -
  have "binding_active st2 b' = binding_active st b'" if "b' \<noteq> b" for b' using act(2) [OF that] by (simp add: binding_active_def)
  note b = this
  show "holds_tuple st t" if "holds_tuple st2 t"
    using that b act(1) unfolding holds_iff rows admins by (metis empty_iff)
  show "holds_tuple st2 t \<or> (\<exists>c. t \<in> rows_at b c st)" if "holds_tuple st t"
    using that b unfolding holds_iff rows admins by metis
qed

lemma expired_facts:
  assumes "ExpireBinding e b st = (None, st')" and load: "LoadBinding e b st = Inr (Some bs)" "bs_Active bs"
    and plain: "plain_ledger st" and clock: "clock_runs e st t" and t: "folds t" "mt_User t \<noteq> ''user:*''"
    and before: "holds_tuple st t \<Longrightarrow> st_facts st t \<noteq> None"
  shows "st_facts st' t \<noteq> None \<longleftrightarrow> holds_tuple st' t \<or> (st_facts st t \<noteq> None \<and> \<not> holds_tuple st t)"
proof -
  obtain p where p: "flushDeletes e p = Inr st'" "ps_seen p = []" "pending_tuples p = (\<Union>c. rows_at b c st)"
    and rows: "\<And>b' c. rows_at b' c (ps_store p) = (if b' = b then {} else rows_at b' c st)"
    and tables: "st_facts (ps_store p) = st_facts st" "st_admins (ps_store p) = st_admins st"
    and act: "\<not> binding_active (ps_store p) b" "\<And>b'. b' \<noteq> b \<Longrightarrow> binding_row (ps_store p) b' = binding_row st b'"
    by (rule expired_steps [OF assms(1) load], rule that)
  note same = same_holds [OF flushDeletes_same [OF p(1)]] and fl = p(1) [unfolded flushDeletes_def]
  have h: "holds_tuple (ps_store p) t \<Longrightarrow> holds_tuple st t" by (rule expired_holds(1) [OF rows tables(2) act(1)]) (rule act(2))
  show ?thesis
  proof (cases "holds_tuple (ps_store p) t")
    case True
    have "st_facts st' t \<noteq> None" by (rule flush_loop_keep [OF fl _ True]) (use before [OF h [OF True]] in \<open>simp add: tables(1)\<close>)
    then show ?thesis using True by (simp add: same)
  next
    case n: False
    show ?thesis
    proof (cases "holds_tuple st t")
      case True
      have "holds_tuple (ps_store p) t \<or> (\<exists>c. t \<in> rows_at b c st)"
        by (rule expired_holds(2) [OF rows tables(2) act(1) _ True]) (rule act(2))
      then have "t \<in> \<Union> (set ` snd ` set (ps_pending p)) - set (ps_seen p)" using n p(2,3) by (auto simp: pending_tuples_def)
      then have "st_facts st' t = None"
        by (rule flush_loop_gone [OF fl _ t n]) (use clock in \<open>auto simp: tables(1) clock_runs_def\<close>)
      then show ?thesis using n True by (simp add: same)
    next
      case False
      have "t \<notin> stored_tuple ` (\<Union>c. rows_at b c st)"
        using plain_rows [OF plain] False binding_active_of [OF load(1)] load(2) by (auto simp: holds_iff)
      then have "st_facts st t \<noteq> None \<Longrightarrow> st_facts st' t \<noteq> None"
        using flush_loop_stay [OF fl, of t] p(3) by (simp add: tables(1) pending_tuples_def)
      moreover have "st_facts st' t \<noteq> None \<Longrightarrow> st_facts st t \<noteq> None"
        using flush_loop_prev [OF fl, of t] by (cases "st_facts st' t") (simp_all add: tables(1))
      ultimately show ?thesis using n False unfolding same by blast
    qed
  qed
qed

text \<open>
  C7: The expiry of an active binding leaves nothing of it. After a committed expiry the binding
  is not active, it has no members and no rows of the ledger, those of the binding itself included,
  every one of its subjects is in the journal of changes and in the audit, and members, rows and
  state of all other bindings are as before. A tuple of a stored relation that was a fact if
  something held it is a fact afterwards exactly when something else holds it still, or when
  nothing had held it before; for this part the ledger has no wildcard subject and the clock of the
  database is behind neither the start of the transaction nor the version of the fact.
\<close>

theorem ExpireBinding_leaves_nothing:
  assumes "ExpireBinding e b st = (None, st')" and "LoadBinding e b st = Inr (Some bs)" and "bs_Active bs"
  shows "\<not> binding_active st' b \<and> rows_at b c st' = {} \<and> st_members st' = filter (\<lambda>m. tm_BindingID m \<noteq> b) (st_members st)
    \<and> st_changes st' = st_changes st @ map (\<lambda>s. (sub_ID s, sub_Type s)) (bs_Subjects bs)
    \<and> map (\<lambda>a. case a of BindingRevoked x s sc r tenant \<Rightarrow> Some (x, s) | _ \<Rightarrow> None) (st_audit st')
      = map (\<lambda>a. case a of BindingRevoked x s sc r tenant \<Rightarrow> Some (x, s) | _ \<Rightarrow> None) (st_audit st) @ map (\<lambda>s. Some (b, s)) (bs_Subjects bs)
    \<and> (b' \<noteq> b \<longrightarrow> rows_at b' c st' = rows_at b' c st \<and> binding_row st' b' = binding_row st b')
    \<and> (plain_ledger st \<and> clock_runs e st t \<and> folds t \<and> mt_User t \<noteq> ''user:*'' \<and> (holds_tuple st t \<longrightarrow> st_facts st t \<noteq> None)
      \<longrightarrow> (st_facts st' t \<noteq> None \<longleftrightarrow> holds_tuple st' t \<or> (st_facts st t \<noteq> None \<and> \<not> holds_tuple st t)))"
proof -
  obtain p where p: "flushDeletes e p = Inr st'" "ps_seen p = []" "pending_tuples p = (\<Union>c. rows_at b c st)"
    and rows: "\<And>b' c. rows_at b' c (ps_store p) = (if b' = b then {} else rows_at b' c st)"
    and tables: "st_members (ps_store p) = filter (\<lambda>r. tm_BindingID r \<noteq> b) (st_members st)"
      "st_facts (ps_store p) = st_facts st" "st_admins (ps_store p) = st_admins st"
    and act: "\<not> binding_active (ps_store p) b" "\<And>b'. b' \<noteq> b \<Longrightarrow> binding_row (ps_store p) b' = binding_row st b'"
    and log: "st_changes (ps_store p) = st_changes st @ map (\<lambda>s. (sub_ID s, sub_Type s)) (bs_Subjects bs)"
      "st_audit (ps_store p) = st_audit st @ map (\<lambda>s. BindingRevoked b s (bs_Scope bs) (bs_RoleID bs)
         (if anchor_Type (bs_Scope bs) = ''account'' then anchor_ID (bs_Scope bs) else [])) (bs_Subjects bs)"
    by (rule expired_steps [OF assms(1-3)], rule that)
  note same = flushDeletes_same [OF p(1)]
  have brow: "binding_row st' x = binding_row (ps_store p) x" for x
    using same unfolding same_but_facts_def binding_row_def by simp
  have "\<not> binding_active st' b" using act(1) unfolding binding_active_def brow .
  moreover have "rows_at b c st' = {}" using rows [of b c] rows_at_same [OF same] by simp
  moreover have "st_members st' = filter (\<lambda>m. tm_BindingID m \<noteq> b) (st_members st)" using same tables(1) unfolding same_but_facts_def by simp
  moreover have "st_changes st' = st_changes st @ map (\<lambda>s. (sub_ID s, sub_Type s)) (bs_Subjects bs)"
    using same log(1) unfolding same_but_facts_def by simp
  moreover have "map (\<lambda>a. case a of BindingRevoked x s sc r tenant \<Rightarrow> Some (x, s) | _ \<Rightarrow> None) (st_audit st')
      = map (\<lambda>a. case a of BindingRevoked x s sc r tenant \<Rightarrow> Some (x, s) | _ \<Rightarrow> None) (st_audit st) @ map (\<lambda>s. Some (b, s)) (bs_Subjects bs)"
  proof -
    have "st_audit st' = st_audit (ps_store p)" using same unfolding same_but_facts_def by simp
    then show ?thesis unfolding log(2) by (simp add: comp_def)
  qed
  moreover have "rows_at b' c st' = rows_at b' c st \<and> binding_row st' b' = binding_row st b'" if "b' \<noteq> b"
    using rows [of b' c] rows_at_same [OF same, of b' c] act(2) [OF that] brow [of b'] that by simp
  ultimately show ?thesis using expired_facts [OF assms] by blast
qed

lemma sample_expired: "fst (ExpireBinding sample_env ''acb1'' sample_tables) = None"
  by code_simp

lemma sample_loaded: "map_option bs_Active (binding_scope sample_env ''acb1'' sample_tables) = Some True"
  by code_simp

lemma sample_load: "\<exists>bs. LoadBinding sample_env ''acb1'' sample_tables = Inr (Some bs) \<and> bs_Active bs"
  using sample_loaded by (cases "binding_scope sample_env ''acb1'' sample_tables") (simp_all add: LoadBinding_def call_def sample_env_def)

lemma ExpireBinding_leaves_nothing_witness:
  "rows_at ''acb1'' (coordOf sample_gone) (snd (ExpireBinding sample_env ''acb1'' sample_tables)) = {}
    \<and> st_facts (snd (ExpireBinding sample_env ''acb1'' sample_tables)) sample_structure \<noteq> None"
proof -
  obtain bs where bs: "LoadBinding sample_env ''acb1'' sample_tables = Inr (Some bs)" "bs_Active bs" using sample_load by blast
  have "ExpireBinding sample_env ''acb1'' sample_tables = (None, snd (ExpireBinding sample_env ''acb1'' sample_tables))"
    using sample_expired by (metis prod.collapse)
  then show ?thesis
    using ExpireBinding_leaves_nothing [OF _ bs] sample_plain sample_clock sample_tuples(3,4) sample_holds(2) sample_facts(2) by blast
qed

subsection \<open>What a forward pass writes\<close>

definition active_claims :: "DesiredMember list \<Rightarrow> (MemberCoord \<Rightarrow> bool) \<Rightarrow> MemberCoord \<Rightarrow> MembershipTuple set" where
  "active_claims ds live c = {t. live c \<and> claimedAt ds c t}"

definition collected :: "Pass \<times> forwardWriteSet \<Rightarrow> bool" where
  \<comment> \<open>what is collected as written is written once, and it is what the ledger will hold; the members are those of the ledger\<close>
  "collected pw \<longleftrightarrow> set (ws_fresh (snd pw)) = set (ps_seen (fst pw)) \<and> et_Tuple ` set (ws_ledger (snd pw)) = set (ws_fresh (snd pw))
     \<and> et_Member ` set (ws_ledger (snd pw)) \<subseteq> coordOf ` set (ws_members (snd pw))"

lemma collected_new: "collected (new_pass st, no_writes)"
  by (simp add: collected_def new_pass_def no_writes_def)

lemma materializeForwardMember_all:
  "materializeForwardMember bs d (p, w) = (p', w') \<Longrightarrow>
    ws_ledger w' = ws_ledger w @ map (\<lambda>t. \<lparr>et_BindingID = bs_BindingID bs, et_Member = desiredCoord d, et_Tuple = t\<rparr>) (dm_Tuples d)
    \<and> ws_members w' = ws_members w @ [(member_of bs d)\<lparr>tm_Status := VerificationActive\<rparr>]
    \<and> set (ws_fresh w') = set (ws_fresh w) \<union> (set (dm_Tuples d) - set (ps_seen p)) \<and> set (ps_seen p') = set (ps_seen p) \<union> set (dm_Tuples d)"
  by (auto simp: materializeForwardMember_def collectNew_def Let_def)

lemma coordOf_member [simp]: "coordOf ((member_of bs d)\<lparr>tm_Status := s\<rparr>) = desiredCoord d"
  by (simp add: member_of_def coordOf_def desiredCoord_def)

lemma materializeForwardMember_collected:
  assumes "collected pw"
  shows "collected (materializeForwardMember bs d pw)"
proof -
  obtain p w p' w' where pw: "pw = (p, w)" "materializeForwardMember bs d (p, w) = (p', w')" by (metis prod.collapse)
  show ?thesis using assms materializeForwardMember_all [OF pw(2)] pw by (auto simp: collected_def image_Un image_image)
qed

lemma materialize_active_snoc:
  "materialize_active bs (ds @ [d]) pw = (if dm_Status d = VerificationActive then materializeForwardMember bs d (materialize_active bs ds pw)
     else materialize_active bs ds pw)"
  by (simp add: materialize_active_def)

lemma materialize_active_collected: "collected pw \<Longrightarrow> collected (materialize_active bs ds pw)"
  by (induction ds rule: rev_induct) (simp_all add: materialize_active_snoc materializeForwardMember_collected, simp add: materialize_active_def)

lemma materialize_active_ledger:
  "r \<in> set (ws_ledger (snd (materialize_active bs ds pw))) \<longleftrightarrow> r \<in> set (ws_ledger (snd pw))
     \<or> (et_BindingID r = bs_BindingID bs \<and> claimedAt ds (et_Member r) (et_Tuple r))"
proof (induction ds rule: rev_induct)
  case Nil
  then show ?case by (simp add: materialize_active_def claimedAt_def)
next
  case (snoc d ds)
  obtain p w p' w' where pw: "materialize_active bs ds pw = (p, w)" "materializeForwardMember bs d (p, w) = (p', w')" by (metis prod.collapse)
  have "r = \<lparr>et_BindingID = bs_BindingID bs, et_Member = desiredCoord d, et_Tuple = t\<rparr> \<longleftrightarrow>
      et_BindingID r = bs_BindingID bs \<and> et_Member r = desiredCoord d \<and> et_Tuple r = t" for t by auto
  then show ?case
    using snoc materializeForwardMember_all [OF pw(2)] pw by (auto simp: materialize_active_snoc claimedAt_def)
qed

lemma materialize_active_members:
  "coordOf ` set (ws_members (snd (materialize_active bs ds pw))) = coordOf ` set (ws_members (snd pw))
     \<union> desiredCoord ` {d \<in> set ds. dm_Status d = VerificationActive}"
proof (induction ds rule: rev_induct)
  case Nil
  then show ?case by (simp add: materialize_active_def)
next
  case (snoc d ds)
  obtain p w p' w' where pw: "materialize_active bs ds pw = (p, w)" "materializeForwardMember bs d (p, w) = (p', w')" by (metis prod.collapse)
  then show ?case using snoc materializeForwardMember_all [OF pw(2)] by (auto simp: materialize_active_snoc)
qed

definition live_for :: "PassEnv \<Rightarrow> forwardWriteSet \<Rightarrow> (MemberCoord \<Rightarrow> bool) \<Rightarrow> bool" where
  "live_for e w live \<longleftrightarrow> (ws_members w \<noteq> [] \<longrightarrow> liveObjects (pe_src e) (map coordOf (ws_members w)) = Inr live)"

lemma keepLive_all:
  assumes "keepLive e w = Inr w'" "collected (p, w)"
  obtains live where "live_for e w live" "set (ws_ledger w') = {r \<in> set (ws_ledger w). live (et_Member r)}"
    "set (ws_fresh w') = et_Tuple ` set (ws_ledger w')"
proof (cases "ws_members w = []")
  case True
  then have "ws_ledger w = []" "w' = w" using assms by (auto simp: collected_def keepLive_def)
  then show ?thesis using True assms(2) that [of "\<lambda>_. True"] by (auto simp: live_for_def collected_def)
next
  case False
  then obtain live where live: "liveObjects (pe_src e) (map coordOf (ws_members w)) = Inr live"
    using assms(1) by (auto simp: keepLive_def query_def split: sum.splits)
  have "set (ws_ledger w') = {r \<in> set (ws_ledger w). live (et_Member r)} \<and> set (ws_fresh w') = et_Tuple ` set (ws_ledger w')"
  proof (cases "length (filter (\<lambda>m. live (coordOf m)) (ws_members w)) = length (ws_members w)")
    case True
    then have "\<forall>m \<in> set (ws_members w). live (coordOf m)" by (metis length_filter_less linorder_neq_iff)
    then have "\<forall>r \<in> set (ws_ledger w). live (et_Member r)" using assms(2) by (auto simp: collected_def)
    moreover have "w' = w" using assms(1) False live True by (simp add: keepLive_def query_def Let_def)
    ultimately show ?thesis using assms(2) by (auto simp: collected_def)
  next
    case 2: False
    then have w': "w' = \<lparr>ws_members = filter (\<lambda>m. live (coordOf m)) (ws_members w),
        ws_fresh = filter (\<lambda>t. t \<in> et_Tuple ` set (filter (\<lambda>r. live (et_Member r)) (ws_ledger w))) (ws_fresh w),
        ws_ledger = filter (\<lambda>r. live (et_Member r)) (ws_ledger w)\<rparr>"
      using assms(1) False live by (simp add: keepLive_def query_def Let_def)
    show ?thesis using assms(2) by (auto simp: w' collected_def)
  qed
  then show ?thesis using that [of live] live by (simp add: live_for_def)
qed

lemma RecordEmittedTuplesBatch_rows:
  assumes "RecordEmittedTuplesBatch e refs st = Inr st'"
  shows "set (st_ledger st') = set (st_ledger st) \<union> set refs" "same_rest st st'"
  using assms ledger_columns_set [of "[]" refs]
  by (auto simp: RecordEmittedTuplesBatch_def call_def same_rest_def split: if_splits sum.splits)

lemma UpsertMembers_same: "UpsertMembers e ms st = Inr st' \<Longrightarrow> same_rest st st' \<and> st_ledger st' = st_ledger st"
  by (auto simp: UpsertMembers_def call_def Let_def same_rest_def split: if_splits)

text \<open>A committed forward write: its rows, its facts, and nothing else of ledger and facts.\<close>

lemma flush_all:
  assumes "flush e w st = Inr st'" "collected (p, w)"
  obtains live where "live_for e w live"
    "\<And>b c. rows_at b c st' = rows_at b c st \<union> {t. live c \<and> \<lparr>et_BindingID = b, et_Member = c, et_Tuple = t\<rparr> \<in> set (ws_ledger w)}"
    "\<And>t. st_facts st' t \<noteq> None \<longleftrightarrow> st_facts st t \<noteq> None
      \<or> (folds t \<and> (\<exists>b c. live c \<and> \<lparr>et_BindingID = b, et_Member = c, et_Tuple = t\<rparr> \<in> set (ws_ledger w)))"
    "st_bindings st' = st_bindings st" "st_admins st' = st_admins st"
proof -
  obtain w1 st1 st2 where s: "keepLive e w = Inr w1" "UpsertMembers e (ws_members w1) st = Inr st1"
      "EmitTupleWrite e (ws_fresh w1) st1 = Inr st2" "RecordEmittedTuplesBatch e (ws_ledger w1) st2 = Inr st'"
    using assms(1) by (auto simp: flush_def split: sum.splits)
  obtain live where live: "live_for e w live" "set (ws_ledger w1) = {r \<in> set (ws_ledger w). live (et_Member r)}"
      "set (ws_fresh w1) = et_Tuple ` set (ws_ledger w1)"
    by (rule keepLive_all [OF s(1) assms(2)])
  note u = UpsertMembers_same [OF s(2)] and wr = EmitTupleWrite_written [OF s(3)] and r = RecordEmittedTuplesBatch_rows [OF s(4)]
  have led: "set (st_ledger st') = set (st_ledger st) \<union> {r \<in> set (ws_ledger w). live (et_Member r)}"
    using u wr r(1) live(2) by (simp add: written_def same_but_facts_def)
  have fresh: "t \<in> set (ws_fresh w1) \<longleftrightarrow> (\<exists>b c. live c \<and> \<lparr>et_BindingID = b, et_Member = c, et_Tuple = t\<rparr> \<in> set (ws_ledger w))" for t
  proof -
    have "t \<in> set (ws_fresh w1) \<longleftrightarrow> (\<exists>x \<in> set (ws_ledger w). live (et_Member x) \<and> et_Tuple x = t)" using live(2,3) by auto
    also have "\<dots> \<longleftrightarrow> (\<exists>b c. live c \<and> \<lparr>et_BindingID = b, et_Member = c, et_Tuple = t\<rparr> \<in> set (ws_ledger w))"
      by (metis (full_types) EmittedTupleRef.cases EmittedTupleRef.select_convs(2,3))
    finally show ?thesis .
  qed
  show ?thesis
  proof (rule that [OF live(1)])
    show "rows_at b c st' = rows_at b c st \<union> {t. live c \<and> \<lparr>et_BindingID = b, et_Member = c, et_Tuple = t\<rparr> \<in> set (ws_ledger w)}" for b c
      using led by (auto simp: rows_at_iff)
    show "st_facts st' t \<noteq> None \<longleftrightarrow> st_facts st t \<noteq> None
      \<or> (folds t \<and> (\<exists>b c. live c \<and> \<lparr>et_BindingID = b, et_Member = c, et_Tuple = t\<rparr> \<in> set (ws_ledger w)))" for t
    proof -
      have "st_facts st' t = st_facts st2 t" "st_facts st1 t = st_facts st t" using u r(2) by (simp_all add: same_rest_def)
      moreover have "st_facts st2 t \<noteq> None \<longleftrightarrow> st_facts st1 t \<noteq> None \<or> t \<in> set (ws_fresh w1) \<and> folds t"
        using wr unfolding written_def by blast
      ultimately show ?thesis using fresh [of t] by (simp add: conj_commute)
    qed
    show "st_bindings st' = st_bindings st" "st_admins st' = st_admins st"
      using u wr r(2) by (simp_all add: written_def same_but_facts_def same_rest_def)
  qed
qed

lemma forward_binding_all:
  assumes "forward_binding e b st = Inr st'" and "CurrentMembers e b st = Inr []"
    and "binding_scope e b st = Some bs" "bs_Active bs" "desiredMembers (pe_cat e) (pe_src e) bs = Inr D"
  obtains live where
    "\<And>c t. claimedAt D c t \<Longrightarrow> \<exists>objs. c \<in> set objs \<and> liveObjects (pe_src e) objs = Inr live"
    "\<And>c. rows_at b c st' = rows_at b c st \<union> {t. live c \<and> claimedAt D c t}"
    "\<And>b' c. b' \<noteq> b \<Longrightarrow> rows_at b' c st' = rows_at b' c st"
    "\<And>t. st_facts st' t \<noteq> None \<longleftrightarrow> st_facts st t \<noteq> None \<or> (folds t \<and> (\<exists>c. live c \<and> claimedAt D c t))"
    "st_bindings st' = st_bindings st" "st_admins st' = st_admins st"
proof -
  let ?pw = "materialize_active bs D (new_pass st, no_writes)"
  have id: "bs_BindingID bs = b"
    using assms(3) by (auto simp: binding_scope_def binding_row_def bindingScopeFrom_def Let_def find_Some_iff split: option.splits prod.splits)
  have fl: "flush e (snd ?pw) st = Inr st'"
    using assms by (auto simp: forward_binding_def LoadBindingForForward_def call_def query_def split: if_splits)
  have col: "collected (fst ?pw, snd ?pw)" using materialize_active_collected [OF collected_new] by simp
  have led: "\<lparr>et_BindingID = b', et_Member = c, et_Tuple = t\<rparr> \<in> set (ws_ledger (snd ?pw)) \<longleftrightarrow> b' = b \<and> claimedAt D c t" for b' c t
    by (simp add: materialize_active_ledger no_writes_def id)
  obtain live where live: "live_for e (snd ?pw) live"
      "\<And>b c. rows_at b c st' = rows_at b c st \<union> {t. live c \<and> \<lparr>et_BindingID = b, et_Member = c, et_Tuple = t\<rparr> \<in> set (ws_ledger (snd ?pw))}"
      "\<And>t. st_facts st' t \<noteq> None \<longleftrightarrow> st_facts st t \<noteq> None
        \<or> (folds t \<and> (\<exists>b c. live c \<and> \<lparr>et_BindingID = b, et_Member = c, et_Tuple = t\<rparr> \<in> set (ws_ledger (snd ?pw))))"
      "st_bindings st' = st_bindings st" "st_admins st' = st_admins st"
    by (rule flush_all [OF fl col], rule that)
  have objs: "\<exists>objs. c \<in> set objs \<and> liveObjects (pe_src e) objs = Inr live" if "claimedAt D c t" for c t
  proof -
    have "c \<in> desiredCoord ` {d \<in> set D. dm_Status d = VerificationActive}"
      using that by (auto simp: claimedAt_def list_ex_iff)
    then have "c \<in> coordOf ` set (ws_members (snd ?pw))" by (simp add: materialize_active_members no_writes_def)
    then show ?thesis using live(1) by (auto simp: live_for_def intro!: exI [of _ "map coordOf (ws_members (snd ?pw))"])
  qed
  show ?thesis by (rule that [OF objs]) (use live(2-5) led in \<open>auto simp: live(2)\<close>)
qed

subsection \<open>Forward and full pass over a new binding\<close>

lemma liveObjects_exact:
  assumes "pg_ok t" "liveObjects (pg_src t) objs = Inr live" "c \<in> set objs"
  shows "live c \<longleftrightarrow> \<not> mirrorFed (mc_ObjectType c)
    \<or> ((\<exists>m \<in> pg_objects t. mirrorFed (mir_ObjectType m) \<and> c = coord_of_object m) \<and> \<not> pg_busy t c)"
proof (cases "mirrorFed (mc_ObjectType c)")
  case True
  let ?ms = "first_seen (filter (\<lambda>c. mirrorFed (mc_ObjectType c)) objs)"
  have c: "c \<in> set ?ms" using True assms(3) by simp
  then have "?ms \<noteq> []" by force
  then obtain present where p: "LockMirrorObjects (pg_src t) ?ms = Inr present" "live = (\<lambda>c. if \<not> mirrorFed (mc_ObjectType c) then True else c \<in> set present)"
    using assms(2) unfolding liveObjects_def Let_def by (auto split: sum.splits)
  show ?thesis using pg_objects.locked [OF assms(1) p(1)] c True p(2) by auto
next
  case False
  then show ?thesis using assms(2) by (auto simp: liveObjects_def Let_def split: if_splits sum.splits)
qed

lemma committed_input:
  assumes "fullPass e converge b st = (None, st')" "binding_scope e b st = Some bs" "bs_Active bs"
  obtains D ms where "pass_input e b st = Some (bs, D, ms)"
proof -
  have "run_pass e (reconcileBinding e converge b) st = Inr st'" using assms(1) by (auto simp: fullPass_def dest: WithTx_ok)
  then obtain p where "reconcileBinding e converge b (new_pass st) = Inr p" by (auto simp: run_pass_def split: sum.splits)
  then show ?thesis using that assms(2,3)
    by (auto simp: reconcileBinding_def lock_call_def call_def new_pass_def LoadBinding_def diff_whole_def query_def pass_input_def
      applyDiff_def Let_def split: sum.splits if_splits)
qed

lemma committed_idle:
  assumes "fullPass e converge b st = (None, st')" "\<And>bs. binding_scope e b st = Some bs \<Longrightarrow> \<not> bs_Active bs"
  shows "st' = st"
proof (rule ccontr)
  assume "st' \<noteq> st"
  then obtain bs D ms where "pass_input e b st = Some (bs, D, ms)" using fullPass_changes [OF assms(1)] by blast
  then have "binding_scope e b st = Some bs \<and> bs_Active bs"
    by (rule pass_inputE) (auto simp: LoadBinding_def call_def split: if_splits)
  then show False using assms(2) by blast
qed

text \<open>A plain full pass over a binding that has no members, and no rows but its own.\<close>

lemma claimed_iff: "claimed D t \<longleftrightarrow> (\<exists>c. claimedAt D c t)"
  by (auto simp: claimed_def claimedAt_def list_ex_iff)

lemma full_on_new:
  assumes c: "ReconcileBinding e b st = (None, st')" and i: "pass_input e b st = Some (bs, D, [])" and walk: "\<And>xs. set (pe_walk e xs) = set xs"
    and rows: "\<And>c. c \<noteq> binding_level \<Longrightarrow> rows_at b c st = {}"
  shows "rows_at b c st' = rows_at b c st \<union> {t. claimedAt D c t}"
    "st_facts st' t \<noteq> None \<longleftrightarrow> st_facts st t \<noteq> None \<or> (folds t \<and> claimed D t)"
proof -
  have "pass_keyed e b st" using i by (simp add: pass_keyed_def keys_ok_def)
  then obtain p where p: "pass_step e D b (new_pass st) p" "flushDeletes e p = Inr st'" "traced (touched D []) st D b p"
      "\<And>d. d \<in> set D \<Longrightarrow> row_accepted (member_of bs d) \<or> (\<exists>m \<in> set []. coordOf m = desiredCoord d)"
      "\<And>d. d \<in> set D \<Longrightarrow> done_with (BindingEmitted False) bs D (currentByKey []) d p"
    by (rule committed_pass [OF c[unfolded ReconcileBinding_def] i _ walk]) simp
  have level: "binding_level \<notin> touched D []" by (rule level_untouched [OF _ p(4)]) simp_all
  then have here: "c \<noteq> binding_level" if "claimedAt D c x" for c x
    using that by (auto simp: touched_def claimedAt_def list_ex_iff image_iff)
  have rec: "recorded b d p" if "d \<in> set D" "dm_Status d = VerificationActive" for d
    using p(5) [OF that(1)] that(2) pass_input_ID [OF i] by (simp add: done_with_def was_active_def currentByKey_def)
  have r: "rows_at b c (ps_store p) = rows_at b c st \<union> {t. claimedAt D c t}" for c
  proof (cases "c = binding_level")
    case True
    then show ?thesis using tracedD(1) [OF p(3) level] here by blast
  next
    case False
    have "rows_at b c (ps_store p) = {t. claimedAt D c t}"
      by (rule settled_recorded_rows [OF unstored_settled [OF p(1) rows [OF False]] rec])
    then show ?thesis using rows [OF False] by simp
  qed
  then show "rows_at b c st' = rows_at b c st \<union> {t. claimedAt D c t}"
    using rows_at_same [OF flushDeletes_same [OF p(2)]] by simp
  have "t \<notin> pending_tuples p" for t
  proof
    assume "t \<in> pending_tuples p"
    then obtain c where "c \<in> touched D []" "t \<in> rows_at b c st" using tracedD(3) [OF p(3)] by blast
    then show False using level rows [of c] by auto
  qed
  then have "pending_tuples p = {}" by blast
  note f = flush_nothing [OF p(2) this]
  have "t \<in> set (ps_seen p) \<longleftrightarrow> claimed D t"
  proof
    show "claimed D t" if "t \<in> set (ps_seen p)" using pass_stepD(6) [OF p(1) that] by (auto simp: new_pass_def claimed_iff)
    show "t \<in> set (ps_seen p)" if cl: "claimed D t"
    proof -
      obtain c where "claimedAt D c t" using cl by (auto simp: claimed_iff)
      then show ?thesis using pass_stepD(10) [OF p(1), of t c] r [of c] rows [OF here] by (auto simp: new_pass_def)
    qed
  qed
  then show "st_facts st' t \<noteq> None \<longleftrightarrow> st_facts st t \<noteq> None \<or> (folds t \<and> claimed D t)"
    using f [of t] pass_stepD(7) [OF p(1), of t] by (auto simp: new_pass_def)
qed

lemma keepLiveDesired_new:
  assumes "keepLiveDesired e D0 [] = Inr D"
  shows "(\<forall>c x. \<not> claimedAt D0 c x \<and> \<not> claimedAt D c x) \<or> (\<exists>objs live. liveObjects (pe_src e) objs = Inr live
    \<and> (\<forall>c x. claimedAt D0 c x \<longrightarrow> c \<in> set objs) \<and> (\<forall>c x. claimedAt D c x \<longleftrightarrow> live c \<and> claimedAt D0 c x))"
proof -
  let ?w = "written_coords [] D0"
  have w: "c \<in> set ?w \<longleftrightarrow> (\<exists>d \<in> set D0. desiredCoord d = c \<and> dm_Status d \<noteq> VerificationPending)" for c
    by (auto simp: written_coords_def)
  have coords: "c \<in> set ?w" if "claimedAt D0 c x" for c x using that by (auto simp: claimedAt_def list_ex_iff w)
  show ?thesis
  proof (cases "?w = []")
    case True
    then have "\<not> claimedAt D0 c x" for c x using coords [of c x] by auto
    moreover have "D = D0" using assms True by (simp add: keepLiveDesired_def Let_def)
    ultimately show ?thesis by simp
  next
    case False
    then obtain live where live: "liveObjects (pe_src e) ?w = Inr live"
        "D = filter (\<lambda>d. \<not> (desiredCoord d \<in> set ?w \<and> dm_Status d \<noteq> VerificationPending \<and> \<not> live (desiredCoord d))) D0"
      using assms by (auto simp: keepLiveDesired_def Let_def query_def split: sum.splits)
    have "claimedAt D c x \<longleftrightarrow> live c \<and> claimedAt D0 c x" for c x
      using w by (auto simp: live(2) claimedAt_def list_ex_iff)
    then show ?thesis using live(1) coords by blast
  qed
qed

text \<open>
  C8: Over a new binding the forward pass writes what a full pass would. When the binding has no
  members, and no rows of the ledger but those of the binding itself that its creation recorded, a
  committed forward pass and a committed plain full pass from the same state leave the same rows at
  every coordinate and the same tuples as facts; so they grant the same, although the forward pass
  takes no lock, batches its writes, filters removed objects only at its end and leaves refused
  members out.
\<close>

theorem forward_agrees_with_full_pass:
  assumes "ReconcileBindingForward e b st = (None, st1)" and "ReconcileBinding e b st = (None, st2)"
    and "pe_src e = pg_src t" and "pg_ok t" and "\<And>xs. set (pe_walk e xs) = set xs"
    and "CurrentMembers e b st = Inr []" and "\<And>c. c \<noteq> binding_level \<Longrightarrow> rows_at b c st = {}"
  shows "rows_at b c st1 = rows_at b c st2 \<and> (st_facts st1 x \<noteq> None \<longleftrightarrow> st_facts st2 x \<noteq> None)"
proof -
  have fw: "forward_binding e b st = Inr st1"
    using assms(1,6) WithTx_ok [of e "forward_binding e b" st st1]
    by (auto simp: ReconcileBindingForward_def binding_needs_full_def split: prod.splits option.splits)
  show ?thesis
  proof (cases "\<exists>bs. binding_scope e b st = Some bs \<and> bs_Active bs")
    case False
    then have "st2 = st" using committed_idle [OF assms(2)[unfolded ReconcileBinding_def]] by blast
    moreover have "st1 = st"
      using fw assms(6) False by (auto simp: forward_binding_def LoadBindingForForward_def call_def split: if_splits option.splits)
    ultimately show ?thesis by simp
  next
    case True
    then obtain bs where bs: "binding_scope e b st = Some bs" "bs_Active bs" by blast
    obtain D ms where i: "pass_input e b st = Some (bs, D, ms)" by (rule committed_input [OF assms(2)[unfolded ReconcileBinding_def] bs])
    from i obtain D0 where D0: "desiredMembers (pe_cat e) (pe_src e) bs = Inr D0" "CurrentMembers e b st = Inr ms"
        "keepLiveDesired e D0 (currentByKey ms) = Inr D" "LoadBinding e b st = Inr (Some bs)" by (rule pass_inputE)
    have ms: "ms = []" using D0(2) assms(6) by simp
    note full = full_on_new [OF assms(2) i[unfolded ms] assms(5,7)]
    obtain live where live: "\<And>c t. claimedAt D0 c t \<Longrightarrow> \<exists>objs. c \<in> set objs \<and> liveObjects (pe_src e) objs = Inr live"
        "\<And>c. rows_at b c st1 = rows_at b c st \<union> {t. live c \<and> claimedAt D0 c t}"
        "\<And>t. st_facts st1 t \<noteq> None \<longleftrightarrow> st_facts st t \<noteq> None \<or> (folds t \<and> (\<exists>c. live c \<and> claimedAt D0 c t))"
      by (rule forward_binding_all [OF fw assms(6) bs D0(1)], rule that)
    have "keepLiveDesired e D0 [] = Inr D" using D0(3) by (simp add: ms currentByKey_def)
    note k = keepLiveDesired_new [OF this]
    have same: "live c \<and> claimedAt D0 c x \<longleftrightarrow> claimedAt D c x" for c x
    proof (cases "claimedAt D0 c x")
      case True
      then obtain objs' live' where k': "liveObjects (pg_src t) objs' = Inr live'" "c \<in> set objs'" "claimedAt D c x \<longleftrightarrow> live' c"
        using k assms(3) by auto
      obtain objs where "c \<in> set objs" "liveObjects (pg_src t) objs = Inr live" using live(1) [OF True] assms(3) by auto
      then have "live c \<longleftrightarrow> live' c" using liveObjects_exact [OF assms(4)] k'(1,2) by metis
      then show ?thesis using True k'(3) by simp
    qed (use k in auto)
    show ?thesis using live(2,3) full same by (simp add: claimed_iff)
  qed
qed

subsection \<open>The lookup of the bindings that an object concerns\<close>

definition selectors_of :: "string \<Rightarrow> Store \<Rightarrow> RuleSelector set" where
  "selectors_of roleID st = {sel. (roleID, sel) \<in> set (st_selectors st)}"

lemma ReplaceRuleSelectors_other:
  assumes "r' \<noteq> r"
  shows "selectors_of r' (ReplaceRuleSelectors r sels st) = selectors_of r' st"
proof -
  let ?f = "\<lambda>rows sel. if sel_ObjectTypes sel = [] then rows
     else if list_ex (\<lambda>x. fst x = r \<and> sel_RuleFP (snd x) = sel_RuleFP sel) rows
     then map (\<lambda>x. if fst x = r \<and> sel_RuleFP (snd x) = sel_RuleFP sel then (r, sel) else x) rows else rows @ [(r, sel)]"
  have step: "(r', s) \<in> set (?f rows x) \<longleftrightarrow> (r', s) \<in> set rows" for s x and rows :: "(string \<times> RuleSelector) list"
    using assms by (auto simp: image_iff split: if_splits)
  have "(r', s) \<in> set (foldl ?f rows xs) \<longleftrightarrow> (r', s) \<in> set rows" for s xs and rows :: "(string \<times> RuleSelector) list"
    by (induction xs arbitrary: rows) (simp_all only: foldl_Nil foldl_Cons step)
  from this [of _ "filter (\<lambda>x. fst x \<noteq> r) (st_selectors st)" sels] show ?thesis
    using assms by (simp add: selectors_of_def ReplaceRuleSelectors_def)
qed

lemma ReplaceRuleSelectors_stores:
  assumes "inj_on sel_RuleFP (set sels)" "sel \<in> set sels" "sel_ObjectTypes sel \<noteq> []"
  shows "(r, sel) \<in> set (st_selectors (ReplaceRuleSelectors r sels st))"
proof -
  let ?f = "\<lambda>rows sel. if sel_ObjectTypes sel = [] then rows
     else if list_ex (\<lambda>x. fst x = r \<and> sel_RuleFP (snd x) = sel_RuleFP sel) rows
     then map (\<lambda>x. if fst x = r \<and> sel_RuleFP (snd x) = sel_RuleFP sel then (r, sel) else x) rows else rows @ [(r, sel)]"
  have "\<forall>s \<in> set xs. sel_ObjectTypes s \<noteq> [] \<longrightarrow> (r, s) \<in> set (foldl ?f rows xs)" if "inj_on sel_RuleFP (set xs)" for xs rows
    using that
  proof (induction xs rule: rev_induct)
    case (snoc x xs)
    let ?rows = "foldl ?f rows xs"
    have ih: "(r, s) \<in> set ?rows" if "s \<in> set xs" "sel_ObjectTypes s \<noteq> []" for s
      using snoc that by (simp add: inj_on_subset)
    have inj: "s = x" if "s \<in> set xs" "sel_RuleFP s = sel_RuleFP x" for s using snoc.prems that by (auto simp: inj_on_def)
    show ?case
    proof (intro ballI impI)
      fix s assume s: "s \<in> set (xs @ [x])" "sel_ObjectTypes s \<noteq> []"
      show "(r, s) \<in> set (foldl ?f rows (xs @ [x]))"
      proof (cases "sel_ObjectTypes x = []")
        case True
        then show ?thesis using s ih [of s] by auto
      next
        case types: False
        show ?thesis
        proof (cases "list_ex (\<lambda>y. fst y = r \<and> sel_RuleFP (snd y) = sel_RuleFP x) ?rows")
          case True
          then obtain y where y: "y \<in> set ?rows" "fst y = r" "sel_RuleFP (snd y) = sel_RuleFP x" by (auto simp: list_ex_iff)
          have "(r, s) \<in> (\<lambda>y. if fst y = r \<and> sel_RuleFP (snd y) = sel_RuleFP x then (r, x) else y) ` set ?rows"
          proof (cases "s = x")
            case True
            show ?thesis by (rule image_eqI [OF _ y(1)]) (simp add: y True)
          next
            case False
            then have m: "s \<in> set xs" using s(1) by simp
            then show ?thesis using inj [OF m] False ih [OF m s(2)] by (intro image_eqI [of _ _ "(r, s)"]) auto
          qed
          then show ?thesis using types True by simp
        next
          case False
          then show ?thesis using types s ih [of s] by auto
        qed
      qed
    qed
  qed simp
  from this [OF assms(1)] assms(2,3) show ?thesis by (simp add: ReplaceRuleSelectors_def)
qed

lemma stored_selector:
  assumes "Rules_Validate p modules rs = []" "sel \<in> set (MaterializingSelectorsInScope H rs scope)"
  obtains sel' where "sel' \<in> set (MaterializingSelectors H rs)" "set (sel_ObjectTypes sel) \<subseteq> set (sel_ObjectTypes sel')"
    "sel_Arm sel' = sel_Arm sel" "sel_ResourceNames sel' = sel_ResourceNames sel" "sel_MatchLabels sel' = sel_MatchLabels sel"
proof -
  obtain r where r: "r \<in> set rs" "sel = rule_selector H (scopeIsBounded scope) r \<or> sel \<in> set (nestedSelectors H r)"
    using assms(2) by (auto simp: MaterializingSelectorsInScope_def materializingSelectors_def)
  show ?thesis
  proof (cases "sel \<in> set (nestedSelectors H r)")
    case True
    then show ?thesis using that [of sel] r(1) by (auto simp: MaterializingSelectors_def materializingSelectors_def)
  next
    case False
    then have sel: "sel = rule_selector H (scopeIsBounded scope) r" using r(2) by simp
    have "Rule_Validate p modules r = []" by (rule Rules_Validate_member [OF assms(1) r(1)])
    then have "validateRuleList ''resources'' (Resources r) ruleResRe (Module r) p = []"
      by (simp add: Rule_Validate.simps validate_own_def)
    then have "wildcard \<in> set (Resources r) \<Longrightarrow> length (Resources r) = 1" by (auto simp: validateRuleList_def split: if_splits)
    then have sole: "wildcard \<in> set (Resources r) \<Longrightarrow> Resources r = [wildcard]" by (cases "Resources r") auto
    have "set (dottedTypes r (scopeIsBounded scope)) \<subseteq> set (dottedTypes r True)"
    proof (cases "scopeIsBounded scope")
      case b: False
      show ?thesis
      proof (cases "Module r = wildcard \<or> wildcard \<in> set (Resources r)")
        case True
        then have "named_types r = {}" using sole by (auto simp: named_types_def)
        then show ?thesis using b by (simp add: dottedTypes_set)
      qed (use b in \<open>simp add: dottedTypes_set\<close>)
    qed simp
    then show ?thesis using that [of "rule_selector H True r"] r(1)
      by (auto simp: sel rule_selector_def MaterializingSelectors_def materializingSelectors_def)
  qed
qed

lemma mirror_joined:
  assumes "selectorMatchesObject sel (mirrorRowToDomain tb r)" "IsContainedIn (mirrorRowToDomain tb r) (scopeAnchorFor b)"
    and "set (sel_ObjectTypes sel) \<subseteq> set (sel_ObjectTypes sel')" "sel_Arm sel' = sel_Arm sel"
      "sel_ResourceNames sel' = sel_ResourceNames sel" "sel_MatchLabels sel' = sel_MatchLabels sel"
  shows "mirror_join tb b sel' r"
  using assms by (cases "sel_Arm sel")
    (auto simp: selectorMatchesObject_def mirror_join_def IsContainedIn_def scopeAnchorFor_def mirrorRowToDomain_def singletonAccount_def
      resolved_account_def list_ex_iff split: if_splits option.splits)

lemma iam_joined:
  assumes "selectorMatchesObject sel (own_object tb x)" "IsContainedIn (own_object tb x) (scopeAnchorFor b)"
    and "set (sel_ObjectTypes sel) \<subseteq> set (sel_ObjectTypes sel')" "sel_Arm sel' = sel_Arm sel"
      "sel_ResourceNames sel' = sel_ResourceNames sel" "sel_MatchLabels sel' = sel_MatchLabels sel"
  shows "iam_join tb b sel' x"
  using assms by (cases "sel_Arm sel")
    (auto simp: selectorMatchesObject_def iam_join_def IsContainedIn_def scopeAnchorFor_def own_object_def scan_iam_def list_ex_iff split: if_splits)

lemma in_join:
  assumes "(role, sel) \<in> set A" "b \<in> set B" "x \<in> set C" "P role b x" "Q b sel x"
  shows "f b \<in> set [f b. (role, sel) \<leftarrow> A, b \<leftarrow> B, x \<leftarrow> C, P role b x \<and> Q b sel x]"
proof -
  have "f b \<in> set [f b. x \<leftarrow> C, P role b x \<and> Q b sel x]" using assms(3-5) by auto
  then have "f b \<in> set [f b. b \<leftarrow> B, x \<leftarrow> C, P role b x \<and> Q b sel x]"
    unfolding set_concat set_map image_image by (intro UN_I [OF assms(2)]) simp
  then show ?thesis unfolding set_concat set_map image_image by (intro UN_I [OF assms(1)]) (simp only: prod.case set_concat set_map image_image)
qed

lemma withPublicReaders_source:
  assumes "d \<in> set (withPublicReaders cat bs ds)" "dm_Status d = VerificationActive"
  obtains d' where "d' \<in> set ds" "dm_Status d' = VerificationActive"
proof (cases "d \<in> set ds")
  case False
  then obtain c where "c \<in> set (first_seen (map desiredCoord (filter (\<lambda>d. dm_Status d = VerificationActive \<and> class_read bs (dm_RuleFP d)) ds)))"
    using assms(1) unfolding withPublicReaders_def Let_def map_filter_def by (cases "classSubjects bs = []") auto
  then show ?thesis using that by auto
qed (use assms(2) that in blast)

lemma wanting_selector:
  assumes "d \<in> set (desiredMembersForObject cat bs m anc)" "dm_Status d = VerificationActive" "\<not> is_anchor_object bs m"
  obtains sel where "sel \<in> set (bs_Selectors bs)" "selectorMatchesObject sel m" "IsContainedIn m (bs_Scope bs)"
proof -
  obtain d' where d': "d' \<in> set (List.map_filter (\<lambda>sel. desiredMemberForObject cat (bs_Policy bs) (selectorGrantees bs sel) sel m (bs_Scope bs))
            (filter (\<lambda>sel. selectorGrantees bs sel \<noteq> [] \<and> selector_on_object bs m anc sel) (bs_Selectors bs)))"
      "dm_Status d' = VerificationActive"
    by (rule withPublicReaders_source [OF assms(1)[unfolded desiredMembersForObject_def] assms(2)]) (use assms(3) in simp)
  then obtain sel where sel: "sel \<in> set (bs_Selectors bs)" "selector_on_object bs m anc sel"
      "desiredMemberForObject cat (bs_Policy bs) (selectorGrantees bs sel) sel m (bs_Scope bs) = Some d'"
    by (auto simp: map_filter_def)
  have "selectorMatchesObject sel m"
    using sel(2) by (auto simp: selector_on_object_def nestedCoversObject_def split: option.splits if_splits)
  moreover have "IsContainedIn m (bs_Scope bs)"
    using sel(3) d'(2) by (auto simp: desiredMemberForObject_def desired_member_def Let_def split: if_splits)
  ultimately show ?thesis by (rule that [OF sel(1)])
qed

text \<open>
  C9: The lookup of bindings for a changed object misses no grant. When the stored selectors of a
  role are those that the writer of roles stores for its rules, whatever selectors of other roles
  the table holds, every active binding with that role that wants an active member on an object is
  found by the lookup for this object, although the lookup reads the stored scope-agnostic
  selectors and narrows the anchored ones by columns, and the pass derives its members from the
  rules in the scope. Left out is the object at which the binding is anchored: what a binding
  wants there for the scope itself or for a container needs no selector.
\<close>

theorem lookup_misses_no_binding:
  assumes "pg_ok t" and "pe_tables e = pg_tables t" and "m \<in> pg_objects t"
    and "selectors_of (ab_RoleID b) st = selectors_of (ab_RoleID b) (ReplaceRuleSelectors (ab_RoleID b) (MaterializingSelectors H (role_Rules role)) st0)"
    and "inj_on sel_RuleFP (set (MaterializingSelectors H (role_Rules role)))" and "Rules_Validate p modules (role_Rules role) = []"
    and "b \<in> set (st_bindings st)" and "bs_Active (bindingScopeFrom cat H b role state)"
    and "d \<in> set (desiredMembersForObject cat (bindingScopeFrom cat H b role state) m anc)" and "dm_Status d = VerificationActive"
    and "\<not> is_anchor_object (bindingScopeFrom cat H b role state) m"
    and "matching_bindings e (mir_ObjectType m) (mir_ObjectID m) st = Inr found"
  shows "ab_ID b \<in> set found"
proof -
  let ?bs = "bindingScopeFrom cat H b role state"
  obtain sel where sel: "sel \<in> set (bs_Selectors ?bs)" "selectorMatchesObject sel m" "IsContainedIn m (bs_Scope ?bs)"
    by (rule wanting_selector [OF assms(9,10,11)])
  have act: "ab_Status b = ''ACTIVE''" and scope: "bs_Scope ?bs = scopeAnchorFor b"
    using assms(8) by (simp_all add: bindingScopeFrom_def Let_def)
  have "sel \<in> set (MaterializingSelectorsInScope H (role_Rules role) (ab_Scope b))"
    using sel(1) by (auto simp: bindingScopeFrom_def Let_def no_role_def MaterializingSelectorsInScope_def materializingSelectors_def split: if_splits)
  then obtain sel' where s: "sel' \<in> set (MaterializingSelectors H (role_Rules role))" "set (sel_ObjectTypes sel) \<subseteq> set (sel_ObjectTypes sel')"
      "sel_Arm sel' = sel_Arm sel" "sel_ResourceNames sel' = sel_ResourceNames sel" "sel_MatchLabels sel' = sel_MatchLabels sel"
    by (rule stored_selector [OF assms(6)])
  have "sel_ObjectTypes sel' \<noteq> []" using sel(2) s(2) by (auto simp: selectorMatchesObject_def split: if_splits)
  then have row: "(ab_RoleID b, sel') \<in> set (st_selectors st)" using ReplaceRuleSelectors_stores [OF assms(5) s(1)] assms(4) unfolding selectors_of_def by blast
  show ?thesis
  proof (cases "mirrorFed (mir_ObjectType m)")
    case True
    then obtain r where r: "r \<in> set (tb_mirror (pg_tables t))" "m = mirrorRowToDomain (pg_tables t) r"
      using pg_objects_mirror(1) [OF assms(1), of m] assms(3) by blast
    have "mirror_join (pg_tables t) b sel' r" using mirror_joined [OF _ _ s(2-5)] sel(2,3) unfolding r(2) scope by blast
    then have "ab_ID b \<in> set [ab_ID b. (role, sel) \<leftarrow> st_selectors st, b \<leftarrow> st_bindings st, x \<leftarrow> tb_mirror (pg_tables t),
        (ab_RoleID b = role \<and> ab_Status b = ''ACTIVE'' \<and> mw_ObjectType x = mir_ObjectType m \<and> mw_ObjectID x = mir_ObjectID m)
        \<and> mirror_join (pg_tables t) b sel x]"
      by (intro in_join [OF row assms(7) r(1)]) (simp_all add: act r(2))
    then show ?thesis using assms(12) True
      by (auto simp: matching_bindings_def SelectorBindingsMatchingObject_def call_def mirrorFed_def assms(2) simp del: set_concat split: if_splits)
  next
    case False
    then obtain x where x: "x \<in> set (tb_iam (pg_tables t))" "m = own_object (pg_tables t) x"
      using pg_objects_mirror(2) [OF assms(1), of m] assms(3) by blast
    have "iam_join (pg_tables t) b sel' x" using iam_joined [OF _ _ s(2-5)] sel(2,3) unfolding x(2) scope by blast
    then have "ab_ID b \<in> set [ab_ID b. (role, sel) \<leftarrow> st_selectors st, b \<leftarrow> st_bindings st, x \<leftarrow> tb_iam (pg_tables t),
        (ab_RoleID b = role \<and> ab_Status b = ''ACTIVE'' \<and> iam_type (fst x) = mir_ObjectType m \<and> iam_id (fst x) = mir_ObjectID m)
        \<and> iam_join (pg_tables t) b sel x]"
      by (intro in_join [OF row assms(7) x(1)]) (simp_all add: act x(2))
    moreover have "mir_ObjectType m \<in> set iamDirectScanSpecs" unfolding x(2) by (cases "fst x") (simp_all add: iamDirectScanSpecs_def)
    moreover have "FeedSourceForType (mir_ObjectType m) = FeedIAMDirect"
      using False by (cases "FeedSourceForType (mir_ObjectType m)") (simp_all add: mirrorFed_def)
    ultimately show ?thesis using assms(12)
      by (auto simp: matching_bindings_def IAMDirectSelectorBindingsMatchingObject_def call_def assms(2) simp del: set_concat split: if_splits)
  qed
qed

subsection \<open>Held tuples are facts, whatever passes run\<close>

definition kept :: "Store \<Rightarrow> Pass \<Rightarrow> bool" where
  \<comment> \<open>a pass from a store has only added facts, and what it made held it has written\<close>
  "kept st p \<longleftrightarrow> (\<forall>t. (st_facts st t \<noteq> None \<longrightarrow> st_facts (ps_store p) t \<noteq> None) \<and> (t \<in> set (ps_seen p) \<and> folds t \<longrightarrow> st_facts (ps_store p) t \<noteq> None)
     \<and> (holds_tuple (ps_store p) t \<longrightarrow> holds_tuple st t \<or> t \<in> set (ps_seen p)))"

lemma kept_new: "kept st (new_pass st)"
  by (simp add: kept_def new_pass_def)

lemma kept_step: "kept st p \<Longrightarrow> pass_step e D b p p' \<Longrightarrow> kept st p'"
proof -
  assume k: "kept st p" and s: "pass_step e D b p p'"
  have "holds_tuple st t \<or> t \<in> set (ps_seen p')" if "holds_tuple (ps_store p') t" for t
    using holds_back [OF s that] k pass_stepD(4) [OF s] unfolding kept_def by blast
  moreover have "st_facts (ps_store p') t \<noteq> None" if "st_facts (ps_store p) t \<noteq> None" for t
    using pass_stepD(7) [OF s, of t] that by blast
  moreover have "st_facts (ps_store p') t \<noteq> None" if "t \<in> set (ps_seen p')" "folds t" for t
    using pass_stepD(7) [OF s, of t] k that unfolding kept_def by blast
  ultimately show ?thesis using k unfolding kept_def by blast
qed

lemma kept_diff: "kept st p \<Longrightarrow> applyDiff e v bs D ms p = Inr p' \<Longrightarrow> kept st p'"
  using applyDiff_pass kept_step by metis

lemma kept_flushed:
  assumes "kept st p" "flushDeletes e p = Inr st'" "held_are_facts st"
  shows "held_are_facts st'"
  unfolding held_are_facts_def
proof (intro allI impI, elim conjE)
  fix t assume t: "folds t" "holds_tuple st' t"
  have h: "holds_tuple (ps_store p) t" using t(2) unfolding same_holds [OF flushDeletes_same [OF assms(2)]] .
  have "st_facts (ps_store p) t \<noteq> None" using h assms(1,3) t(1) unfolding kept_def held_are_facts_def by blast
  then show "st_facts st' t \<noteq> None" by (rule flush_loop_keep [OF assms(2)[unfolded flushDeletes_def] _ h])
qed

lemma kept_object: "kept st p \<Longrightarrow> reconcileBindingForObject e b coord obj p = Inr p' \<Longrightarrow> kept st p'"
  by (auto simp: reconcileBindingForObject_def diff_whole_def query_def split: sum.splits option.splits if_splits elim: kept_diff)

lemma kept_fan_out: "kept st p \<Longrightarrow> fan_out e coord obj bs p = Inr p' \<Longrightarrow> kept st p'"
proof (induction bs arbitrary: p)
  case (Cons b bs)
  then obtain p1 where "reconcileBindingForObject e b coord obj p = Inr p1" "fan_out e coord obj bs p1 = Inr p'"
    by (auto split: sum.splits)
  then show ?case using Cons.IH kept_object [OF Cons.prems(1)] by blast
qed simp

lemma lock_calls_same: "lock_calls e name ids p = Inr p' \<Longrightarrow> p' = p"
  by (auto simp: lock_calls_def lock_call_def call_def split: if_splits)

lemma kept_object_pass:
  assumes "object_pass e ty i (new_pass st) = Inr p"
  shows "kept st p"
proof -
  obtain existing matching p1 p2 obj where s: "AcquireBindingLocks e (dedupSortBindingIDs [existing, matching]) (new_pass st) = Inr p1"
      "LockBindingsAndRoles e (dedupSortBindingIDs [existing, matching]) p1 = Inr p2"
      "fan_out e \<lparr>mc_ObjectType = ty, mc_ObjectID = i\<rparr> obj (dedupSortBindingIDs [existing, matching]) p2 = Inr p"
    using assms by (auto simp: object_pass_def Let_def split: sum.splits)
  have "p1 = new_pass st" using s(1) lock_calls_same by (auto simp: AcquireBindingLocks_def)
  moreover have "p2 = p1"
  proof -
    obtain x where "lock_calls e ''LockBindings'' (dedupSortBindingIDs [existing, matching]) p1 = Inr x"
        "lock_calls e ''LockRolesOfBindings'' (dedupSortBindingIDs [existing, matching]) x = Inr p2"
      using s(2) by (auto simp: LockBindingsAndRoles_def split: sum.splits)
    then show ?thesis using lock_calls_same by metis
  qed
  ultimately show ?thesis using kept_fan_out [OF _ s(3)] kept_new by simp
qed

text \<open>A pass run in a transaction and what it leaves of the property.\<close>

lemma held_WithTx:
  assumes "WithTx e f st = (err, st')" "\<And>st'. f st = Inr st' \<Longrightarrow> held_are_facts st'" "held_are_facts st"
  shows "held_are_facts st'"
  using assms by (auto simp: WithTx_def call_def split: sum.splits if_splits)

lemma held_run_pass:
  assumes "run_pass e f st = Inr st'" "\<And>p. f (new_pass st) = Inr p \<Longrightarrow> kept st p" "held_are_facts st"
  shows "held_are_facts st'"
  using assms kept_flushed by (auto simp: run_pass_def split: sum.splits)

lemma held_full: "held_are_facts st \<Longrightarrow> fullPass e converge b st = (err, st') \<Longrightarrow> held_are_facts st'"
proof (cases "st' = st")
  case False
  assume h: "held_are_facts st" and f: "fullPass e converge b st = (err, st')"
  obtain bs D0 ms p where p: "applyDiff e (BindingEmitted converge) bs D0 ms (new_pass st) = Inr p" "flushDeletes e p = Inr st'"
    by (rule fullPass_diff [OF f False])
  show ?thesis by (rule kept_flushed [OF kept_diff [OF kept_new p(1)] p(2) h])
qed simp

lemma held_object: "held_are_facts st \<Longrightarrow> ReconcileObject e ty i st = (err, st') \<Longrightarrow> held_are_facts st'"
  unfolding ReconcileObject_def by (erule held_WithTx) (blast intro: held_run_pass kept_object_pass)+

lemma held_flush:
  assumes "flush e w st = Inr st'" "collected (p, w)" "held_are_facts st"
  shows "held_are_facts st'"
proof -
  obtain live where l: "\<And>b c. rows_at b c st' = rows_at b c st \<union> {t. live c \<and> \<lparr>et_BindingID = b, et_Member = c, et_Tuple = t\<rparr> \<in> set (ws_ledger w)}"
      "\<And>t. st_facts st' t \<noteq> None \<longleftrightarrow> st_facts st t \<noteq> None
        \<or> (folds t \<and> (\<exists>b c. live c \<and> \<lparr>et_BindingID = b, et_Member = c, et_Tuple = t\<rparr> \<in> set (ws_ledger w)))"
      "st_bindings st' = st_bindings st" "st_admins st' = st_admins st"
    by (rule flush_all [OF assms(1,2)], rule that)
  have "holds_tuple st t \<or> (\<exists>b c. live c \<and> \<lparr>et_BindingID = b, et_Member = c, et_Tuple = t\<rparr> \<in> set (ws_ledger w))" if "holds_tuple st' t" for t
    using that unfolding holds_iff binding_active_def binding_row_def l(1,3,4) by blast
  then show ?thesis using assms(3) l(2) unfolding held_are_facts_def by blast
qed

lemma forward_loop_collected: "collected pw \<Longrightarrow> forward_loop e coord obj scopes bs pw = Inr pw' \<Longrightarrow> collected pw'"
proof (induction bs arbitrary: pw)
  case (Cons b bs)
  show ?case
  proof (cases "scopes b")
    case None
    then show ?thesis using Cons.IH [OF Cons.prems(1)] Cons.prems(2) by simp
  next
    case (Some scope)
    show ?thesis
    proof (cases "bs_Active scope")
      case False
      then show ?thesis using Some Cons.IH [OF Cons.prems(1)] Cons.prems(2) by simp
    next
      case True
      then obtain ds where "forward_loop e coord obj scopes bs (materialize_active scope ds pw) = Inr pw'"
        using Some Cons.prems(2) by (auto split: sum.splits)
      then show ?thesis by (rule Cons.IH [OF materialize_active_collected [OF Cons.prems(1)]])
    qed
  qed
qed simp

lemma held_forward_binding:
  assumes "held_are_facts st" "forward_binding e b st = Inr st'"
  shows "held_are_facts st'"
proof (cases "st' = st")
  case False
  then obtain bs ds where "flush e (snd (materialize_active bs ds (new_pass st, no_writes))) st = Inr st'"
    using assms(2) by (auto simp: forward_binding_def split: sum.splits option.splits if_splits)
  then show ?thesis
    by (rule held_flush [where p = "fst (materialize_active bs ds (new_pass st, no_writes))", OF _ _ assms(1)])
      (simp add: materialize_active_collected [OF collected_new])
qed (use assms(1) in simp)

lemma held_forward_object:
  assumes "held_are_facts st" "forward_object e noStale ty i st = Inr st'"
  shows "held_are_facts st'"
proof (cases "st' = st")
  case False
  then obtain coord obj where "forward_candidates e coord obj st = Inr st'"
    using assms(2) by (auto simp: forward_object_def split: sum.splits option.splits if_splits)
  then obtain scopes ids p w where s: "forward_loop e coord obj scopes ids (new_pass st, no_writes) = Inr (p, w)" "flush e w st = Inr st'"
    using False by (auto simp: forward_candidates_def Let_def split: sum.splits option.splits)
  show ?thesis by (rule held_flush [OF s(2) forward_loop_collected [OF collected_new s(1)] assms(1)])
qed (use assms(1) in simp)

lemma expire_early:
  assumes "expire_pass e b (new_pass st) = Inr p"
  shows "p = new_pass st \<or> (\<exists>bs. LoadBinding e b st = Inr (Some bs) \<and> bs_Active bs)"
proof -
  obtain o1 where l: "LoadBinding e b st = Inr o1"
    using assms by (auto simp: expire_pass_def lock_call_def call_def new_pass_def split: sum.splits if_splits)
  show ?thesis
  proof (cases "\<exists>bs. o1 = Some bs \<and> bs_Active bs")
    case False
    then have "p = new_pass st"
      using assms l by (auto simp: expire_pass_def lock_call_def call_def split: sum.splits if_splits option.splits) (simp_all add: new_pass_def)
    then show ?thesis ..
  qed (use l in auto)
qed

lemma held_expire:
  assumes "held_are_facts st" "ExpireBinding e b st = (err, st')"
  shows "held_are_facts st'"
proof (cases "err = None \<and> st' \<noteq> st")
  case True
  then have x: "ExpireBinding e b st = (None, st')" using assms(2) by simp
  then have "run_pass e (expire_pass e b) st = Inr st'" by (auto simp: ExpireBinding_def dest: WithTx_ok)
  then obtain p where p: "expire_pass e b (new_pass st) = Inr p" "flushDeletes e p = Inr st'"
    by (auto simp: run_pass_def split: sum.splits)
  from expire_early [OF p(1)] show ?thesis
  proof (elim disjE exE conjE)
    assume "p = new_pass st"
    then show ?thesis using kept_flushed [OF kept_new, of e st st'] p(2) assms(1) by simp
  next
    fix bs assume l: "LoadBinding e b st = Inr (Some bs)" "bs_Active bs"
    obtain p where p: "flushDeletes e p = Inr st'" "ps_seen p = []"
      and rows: "\<And>b' c. rows_at b' c (ps_store p) = (if b' = b then {} else rows_at b' c st)"
      and t: "st_facts (ps_store p) = st_facts st" "st_admins (ps_store p) = st_admins st"
      and act: "\<not> binding_active (ps_store p) b" "\<And>b'. b' \<noteq> b \<Longrightarrow> binding_row (ps_store p) b' = binding_row st b'"
      by (rule expired_steps [OF x l], rule that)
    have h: "holds_tuple st t" if "holds_tuple (ps_store p) t" for t
      by (rule expired_holds(1) [OF rows t(2) act(1) _ that]) (rule act(2))
    have "kept st p" unfolding kept_def t(1) p(2) using h by simp
    then show ?thesis using kept_flushed p(1) assms(1) by blast
  qed
next
  case False
  then have "st' = st" using assms(2) by (auto simp: ExpireBinding_def WithTx_def call_def split: sum.splits if_splits)
  then show ?thesis using assms(1) by simp
qed

subsection \<open>Any sequence of passes\<close>

inductive reconciles :: "Store \<Rightarrow> Store \<Rightarrow> bool" where
  \<comment> \<open>one entry point of the reconciler, in any environment, committed or not\<close>
  full: "ReconcileBinding e b st = (err, st') \<Longrightarrow> reconciles st st'"
| converge: "ConvergeBinding e b st = (err, st') \<Longrightarrow> reconciles st st'"
| object: "ReconcileObject e ty i st = (err, st') \<Longrightarrow> reconciles st st'"
| forward: "ReconcileBindingForward e b st = (err, st') \<Longrightarrow> reconciles st st'"
| object_forward: "ReconcileObjectForward e ty i st = (err, st') \<Longrightarrow> reconciles st st'"
| object_no_stale: "ReconcileObjectForwardNoStale e ty i st = (err, st') \<Longrightarrow> reconciles st st'"
| expire: "ExpireBinding e b st = (err, st') \<Longrightarrow> reconciles st st'"

inductive_cases reconcilesE: "reconciles st st'"

lemma held_forward:
  assumes "held_are_facts st" "ReconcileBindingForward e b st = (err, st')"
  shows "held_are_facts st'"
proof -
  obtain err1 st1 where tx: "WithTx e (forward_binding e b) st = (err1, st1)" by (cases "WithTx e (forward_binding e b) st")
  have h: "held_are_facts st1" by (rule held_WithTx [OF tx _ assms(1)]) (rule held_forward_binding [OF assms(1)])
  then show ?thesis using assms(2) tx held_full [OF h]
    by (auto simp: ReconcileBindingForward_def ReconcileBinding_def split: option.splits if_splits)
qed

lemma held_object_forward:
  assumes "held_are_facts st" "reconcileObjectForward e noStale ty i st = (err, st')"
  shows "held_are_facts st'"
proof -
  obtain err1 st1 where tx: "WithTx e (forward_object e noStale ty i) st = (err1, st1)" by (cases "WithTx e (forward_object e noStale ty i) st")
  have h: "held_are_facts st1" by (rule held_WithTx [OF tx _ assms(1)]) (rule held_forward_object [OF assms(1)])
  then show ?thesis using assms(2) tx held_object [OF h]
    by (auto simp: reconcileObjectForward_def split: option.splits if_splits)
qed

lemma held_step:
  assumes "reconciles st st'" "held_are_facts st"
  shows "held_are_facts st'"
  using assms(1)
proof cases
  case (full e b err)
  show ?thesis by (rule held_full [OF assms(2) full[unfolded ReconcileBinding_def]])
next
  case (converge e b err)
  show ?thesis by (rule held_full [OF assms(2) converge[unfolded ConvergeBinding_def]])
next
  case (object e ty i err)
  show ?thesis by (rule held_object [OF assms(2) object])
next
  case (forward e b err)
  show ?thesis by (rule held_forward [OF assms(2) forward])
next
  case (object_forward e ty i err)
  show ?thesis by (rule held_object_forward [OF assms(2) object_forward[unfolded ReconcileObjectForward_def]])
next
  case (object_no_stale e ty i err)
  show ?thesis by (rule held_object_forward [OF assms(2) object_no_stale[unfolded ReconcileObjectForwardNoStale_def]])
next
  case (expire e b err)
  show ?thesis by (rule held_expire [OF assms(2) expire])
qed

text \<open>
  C6: No sequence of passes takes away a fact that a tuple still needs. Whatever entry points of
  the reconciler run, in any order, committed, failed or refused, with any answers of the
  database and of the source: if every tuple an active binding's ledger row or an administrator
  holds is a fact before, every such tuple is a fact after.
\<close>

theorem passes_keep_held_facts:
  assumes "reconciles\<^sup>*\<^sup>* st st'" and "held_are_facts st"
  shows "held_are_facts st'"
  using assms by (induction rule: rtranclp_induct) (blast intro: held_step)+

lemma sample_held: "held_are_facts sample_tables"
  by (auto simp: held_are_facts_def sample_tables_def holds_tuple_def binding_active_def binding_row_def sample_binding_def)

lemma passes_keep_held_facts_witness:
  "held_are_facts (snd (ExpireBinding sample_env ''acb1'' (snd (ConvergeBinding sample_env ''acb1'' sample_tables))))"
proof -
  have "reconciles sample_tables (snd (ConvergeBinding sample_env ''acb1'' sample_tables))"
    by (rule reconciles.converge [where e = sample_env and b = "''acb1''"]) (rule prod.collapse [symmetric])
  moreover have "reconciles (snd (ConvergeBinding sample_env ''acb1'' sample_tables))
      (snd (ExpireBinding sample_env ''acb1'' (snd (ConvergeBinding sample_env ''acb1'' sample_tables))))"
    by (rule reconciles.expire [where e = sample_env and b = "''acb1''"]) (rule prod.collapse [symmetric])
  ultimately show ?thesis
    by (rule passes_keep_held_facts [OF rtranclp.rtrancl_into_rtrancl [OF r_into_rtranclp] sample_held])
qed

subsection \<open>Samples\<close>

definition sample_fresh :: Store where
  \<comment> \<open>the binding before its first pass, as its creation leaves it\<close>
  "sample_fresh = \<lparr>st_members = [], st_ledger = [\<lparr>et_BindingID = ''acb1'', et_Member = binding_level, et_Tuple = sample_pointer\<rparr>],
     st_journal = [], st_facts = [sample_pointer \<mapsto> \<lparr>fact_version = 4, fact_condition = []\<rparr>, sample_structure \<mapsto> \<lparr>fact_version = 3, fact_condition = []\<rparr>], st_bindings = [sample_binding],
     st_roles = [''rol1'' \<mapsto> (sample_editor, RoleLifecycleDeclared)], st_selectors = [], st_admins = [], st_audit = [], st_changes = []\<rparr>"

lemma fresh_forward: "fst (ReconcileBindingForward sample_env ''acb1'' sample_fresh) = None"
  by code_simp

lemma fresh_full: "fst (ReconcileBinding sample_env ''acb1'' sample_fresh) = None"
  by code_simp

lemma fresh_members: "CurrentMembers sample_env ''acb1'' sample_fresh = Inr []"
  by code_simp

lemma fresh_granted: "length (st_ledger (snd (ReconcileBindingForward sample_env ''acb1'' sample_fresh))) > 1"
  by code_simp

lemma forward_agrees_with_full_pass_witness:
  "rows_at ''acb1'' (coord_of_object sample_repo) (snd (ReconcileBindingForward sample_env ''acb1'' sample_fresh))
     = rows_at ''acb1'' (coord_of_object sample_repo) (snd (ReconcileBinding sample_env ''acb1'' sample_fresh))"
proof -
  have "ReconcileBindingForward sample_env ''acb1'' sample_fresh = (None, snd (ReconcileBindingForward sample_env ''acb1'' sample_fresh))"
    "ReconcileBinding sample_env ''acb1'' sample_fresh = (None, snd (ReconcileBinding sample_env ''acb1'' sample_fresh))"
    using fresh_forward fresh_full by (metis prod.collapse)+
  note fresh = this
  have "pe_src sample_env = pg_src sample_store" by (simp add: sample_env_def)
  moreover have "rows_at ''acb1'' x sample_fresh = {}" if "x \<noteq> binding_level" for x using that by (auto simp: rows_at_def sample_fresh_def)
  ultimately show ?thesis
    using forward_agrees_with_full_pass [OF fresh _ sample_pg_ok sample_walk fresh_members] by blast
qed

definition sample_selected :: Store where
  \<comment> \<open>the store after the role has been written, and another one after it\<close>
  "sample_selected = ReplaceRuleSelectors ''rol2'' (MaterializingSelectors id (role_Rules sample_editor))
     (ReplaceRuleSelectors ''rol1'' (MaterializingSelectors id (role_Rules sample_editor)) sample_fresh)"

lemma selected_role: "selectors_of ''rol1'' sample_selected
    = selectors_of ''rol1'' (ReplaceRuleSelectors ''rol1'' (MaterializingSelectors id (role_Rules sample_editor)) sample_fresh)"
  by (simp add: sample_selected_def ReplaceRuleSelectors_other)

lemma selected_distinct: "distinct (map sel_RuleFP (MaterializingSelectors id (role_Rules sample_editor)))"
  by code_simp

lemma selected_active: "bs_Active sample_bs" by code_simp

lemma selected_wanted: "list_ex (\<lambda>d. dm_Status d = VerificationActive) (desiredMembersForObject sample_catalog sample_bs sample_registry [])"
  by code_simp

lemma selected_anchor: "\<not> is_anchor_object sample_bs sample_registry"
  by code_simp

lemma selected_found: "isl (matching_bindings sample_env (mir_ObjectType sample_registry) (mir_ObjectID sample_registry) sample_selected) = False"
  by code_simp

lemma lookup_misses_no_binding_witness:
  "\<exists>found. matching_bindings sample_env (mir_ObjectType sample_registry) (mir_ObjectID sample_registry) sample_selected = Inr found
     \<and> ''acb1'' \<in> set found"
proof -
  obtain found where f: "matching_bindings sample_env (mir_ObjectType sample_registry) (mir_ObjectID sample_registry) sample_selected = Inr found"
    using selected_found by (cases "matching_bindings sample_env (mir_ObjectType sample_registry) (mir_ObjectID sample_registry) sample_selected") auto
  obtain d where d: "d \<in> set (desiredMembersForObject sample_catalog sample_bs sample_registry [])" "dm_Status d = VerificationActive"
    using selected_wanted by (auto simp: list_ex_iff)
  have i: "inj_on sel_RuleFP (set (MaterializingSelectors id (role_Rules sample_editor)))"
    using selected_distinct by (simp add: distinct_map)
  have "ab_ID sample_binding \<in> set found"
    by (rule lookup_misses_no_binding [where ?st0.0 = sample_fresh, OF sample_pg_ok _ sample_objects(2) _ i sample_accepted _ _ _ d(2) _ f])
      (use d(1) selected_active selected_anchor selected_role in \<open>simp_all add: sample_bs_def sample_env_def\<close>, simp_all add: sample_selected_def ReplaceRuleSelectors_def sample_binding_def sample_fresh_def)
  then show ?thesis using f by (simp add: sample_binding_def)
qed

end
