(* ===== verification/Authz_Model.thy ===== *)
theory Authz_Model
  imports Kaname_Prelude
begin

text \<open>
  The authorisation model: the relation declarations of the object types, their parser and
  the checks of a parsed model against itself.

  Source: \<open>internal/authzplan/compile.go\<close> (\<open>ParseModel\<close>, \<open>parseDefine\<close>, \<open>parseTerm\<close>,
  \<open>validate\<close>, \<open>PointerTargets\<close>, \<open>AssertOnePointerPerParentType\<close>, \<open>Census\<close>).

  A term of a declaration has one of three kinds; the constructors of \<open>dsl_term\<close> carry the
  fields that the code fills for the kind, and the text of the term. The maps \<open>byName\<close> of a
  type and of the model hold, for every name, the last declaration of that name.
\<close>

subsection \<open>Data\<close>

record DirectSubject =
  ds_Type :: string
  ds_Wildcard :: bool
  ds_Object :: string
  ds_Userset :: string
  ds_Condition :: string

datatype dsl_term =
    TermDirect "DirectSubject list" string
  | TermComputed string string
  | TermTTU string string string
  \<comment> \<open>relation, pointer, text\<close>

record Relation =
  rel_Name :: string
  rel_Terms :: "dsl_term list"
  rel_Raw :: string
  rel_Line :: nat

record ModelType =
  mt_Name :: string
  mt_Relations :: "Relation list"

record Model =
  mod_Types :: "ModelType list"
  mod_Conditions :: "string list"

definition last_named :: "('a \<Rightarrow> string) \<Rightarrow> 'a list \<Rightarrow> string \<Rightarrow> 'a option" where
  \<comment> \<open>the map filled by \<open>byName[x.Name] = x\<close> in order\<close>
  "last_named name xs n = List.find (\<lambda>x. name x = n) (rev xs)"

definition Rel :: "ModelType \<Rightarrow> string \<Rightarrow> Relation option" where
  "Rel t name = last_named rel_Name (mt_Relations t) name"

definition Model_Type :: "Model \<Rightarrow> string \<Rightarrow> ModelType option" where
  "Model_Type m name = last_named mt_Name (mod_Types m) name"

definition TypeNames :: "Model \<Rightarrow> string list" where
  "TypeNames m = map mt_Name (mod_Types m)"

definition DirectSubject_String :: "DirectSubject \<Rightarrow> string" where
  "DirectSubject_String d =
     ds_Type d
     @ (if ds_Wildcard d then '':*''
        else if ds_Object d \<noteq> [] then '':'' @ ds_Object d
        else if ds_Userset d \<noteq> [] then ''#'' @ ds_Userset d
        else [])
     @ (if ds_Condition d \<noteq> [] then '' with '' @ ds_Condition d else [])"

definition VerbPrefix :: string where "VerbPrefix = ''v_''"

definition IsVerb :: "string \<Rightarrow> bool" where
  "IsVerb rel \<longleftrightarrow> has_prefix rel VerbPrefix"

definition Type_Verbs :: "ModelType \<Rightarrow> string list" where
  "Type_Verbs t = filter IsVerb (map rel_Name (mt_Relations t))"

definition systemClassType :: string where "systemClassType = ''system_class''"

subsection \<open>Parsing a declaration\<close>

datatype model_error =
    TypeWithoutName nat
  | RelationsOutsideType nat
  | DefineOutsideRelations nat
  | UnrecognisedLine nat string string
  | NoTypes
  | DefineWithoutColon nat string
  | DefineEmptyPart nat string
  | IntersectionOrExclusion nat string
  | UnclosedSubjectList nat string
  | EmptySubject nat string
  | IncompleteTTU nat string
  | UnrecognisedTerm nat string
  | SubjectTypeUndeclared string string string
  | ComputedUndeclared string string string
  | PointerUndeclared string string string
  | PointerToUndeclaredType string string string
  | TargetWithoutRelation string string string string

text \<open>One entry of a direct list: the body of the loop of \<open>parseTerm\<close>.\<close>

definition parse_subject :: "string \<Rightarrow> DirectSubject" where
  "parse_subject e0 =
     (let (before, after, found) = cut_str '' with '' e0;
          cond = (if found then trim_space after else []);
          e = (if found then trim_space before else e0)
      in if has_suffix e '':*'' then
           \<lparr>ds_Type = trim_suffix e '':*'', ds_Wildcard = True, ds_Object = [], ds_Userset = [], ds_Condition = cond\<rparr>
         else if has_prefix e (systemClassType @ '':'') then
           \<lparr>ds_Type = systemClassType, ds_Wildcard = False, ds_Object = trim_prefix e (systemClassType @ '':''),
            ds_Userset = [], ds_Condition = cond\<rparr>
         else if contains_str e ''#'' then
           \<lparr>ds_Type = fst (cut_str ''#'' e), ds_Wildcard = False, ds_Object = [],
            ds_Userset = fst (snd (cut_str ''#'' e)), ds_Condition = cond\<rparr>
         else \<lparr>ds_Type = e, ds_Wildcard = False, ds_Object = [], ds_Userset = [], ds_Condition = cond\<rparr>)"

definition parseTerm :: "string \<Rightarrow> nat \<Rightarrow> (model_error, dsl_term) result" where
  "parseTerm s line =
     (if has_prefix s ''['' then
        (if \<not> has_suffix s '']'' then Inl (UnclosedSubjectList line s)
         else
           let es = map trim_space (split_str '','' (trim_suffix (trim_prefix s ''['') '']''))
           in if list_ex (\<lambda>e. e = []) es then Inl (EmptySubject line s)
              else Inr (TermDirect (map parse_subject es) s))
      else if contains_str s '' from '' then
        (let (before, after, _) = cut_str '' from '' s; rel = trim_space before; ptr = trim_space after
         in if rel = [] \<or> ptr = [] then Inl (IncompleteTTU line s) else Inr (TermTTU rel ptr s))
      else if contains_any s '' []#:'' then Inl (UnrecognisedTerm line s)
      else Inr (TermComputed s s))"

fun parse_terms :: "string list \<Rightarrow> nat \<Rightarrow> (model_error, dsl_term list) result" where
  "parse_terms [] line = Inr []"
| "parse_terms (part # parts) line = (case parseTerm (trim_space part) line of
       Inl e \<Rightarrow> Inl e
     | Inr t \<Rightarrow> (case parse_terms parts line of Inl e \<Rightarrow> Inl e | Inr ts \<Rightarrow> Inr (t # ts)))"

definition parseDefine :: "string \<Rightarrow> nat \<Rightarrow> (model_error, Relation) result" where
  "parseDefine body line = (case cut_byte (CHR '':'') body of (before, after, found) \<Rightarrow>
     if \<not> found \<or> before = [] then Inl (DefineWithoutColon line body)
     else
       let name = trim_space before; rhs = trim_space after
       in if name = [] \<or> rhs = [] then Inl (DefineEmptyPart line body)
          else if contains_str rhs '' but not '' \<or> contains_str ('' '' @ rhs @ '' '') '' and ''
          then Inl (IntersectionOrExclusion line name)
          else case parse_terms (split_str '' or '' rhs) line of
              Inl e \<Rightarrow> Inl e
            | Inr ts \<Rightarrow> Inr \<lparr>rel_Name = name, rel_Terms = ts, rel_Raw = rhs, rel_Line = line\<rparr>)"

subsection \<open>Parsing a model\<close>

text \<open>
  The state of the line loop: the types read so far, whether the last of them is still open
  (\<open>cur\<close> is not \<open>nil\<close>), the conditions and the flag \<open>inRelations\<close>.
\<close>

record parse_state =
  ps_types :: "ModelType list"
  ps_open :: bool
  ps_conditions :: "string list"
  ps_inRelations :: bool

definition add_relation :: "Relation \<Rightarrow> ModelType list \<Rightarrow> ModelType list" where
  \<comment> \<open>append to the relations of the current type, the last one\<close>
  "add_relation rel ts = butlast ts @ [(last ts)\<lparr>mt_Relations := mt_Relations (last ts) @ [rel]\<rparr>]"

definition parse_line :: "nat \<Rightarrow> string \<Rightarrow> parse_state \<Rightarrow> (model_error, parse_state) result" where
  "parse_line n raw st =
     (let line = trim_right raw [CHR '' '', CHR 0x09, CHR 0x0D]; trimmed = trim_space line
      in if trimmed = [] \<or> has_prefix trimmed ''#'' then Inr st
         else if has_prefix line ''model'' \<or> has_prefix trimmed ''schema '' then Inr st
         else if has_prefix line ''condition '' then
           Inr (st\<lparr>ps_conditions := ps_conditions st @ [trim_space (fst (cut_str ''('' (trim_prefix line ''condition '')))],
                   ps_open := False, ps_inRelations := False\<rparr>)
         else if has_prefix line ''type '' then
           (let name = trim_space (trim_prefix line ''type '')
            in if name = [] then Inl (TypeWithoutName n)
               else Inr (st\<lparr>ps_types := ps_types st @ [\<lparr>mt_Name = name, mt_Relations = []\<rparr>],
                            ps_open := True, ps_inRelations := False\<rparr>))
         else if trimmed = ''relations'' then
           (if \<not> ps_open st then Inl (RelationsOutsideType n) else Inr (st\<lparr>ps_inRelations := True\<rparr>))
         else if has_prefix trimmed ''define '' then
           (if \<not> ps_open st \<or> \<not> ps_inRelations st then Inl (DefineOutsideRelations n)
            else case parseDefine (trim_prefix trimmed ''define '') n of
                Inl e \<Rightarrow> Inl e
              | Inr rel \<Rightarrow> Inr (st\<lparr>ps_types := add_relation rel (ps_types st)\<rparr>))
         else if \<not> ps_open st then Inr st
         else Inl (UnrecognisedLine n (mt_Name (last (ps_types st))) trimmed))"

fun parse_lines :: "nat \<Rightarrow> string list \<Rightarrow> parse_state \<Rightarrow> (model_error, parse_state) result" where
  "parse_lines n [] st = Inr st"
| "parse_lines n (raw # raws) st = (case parse_line n raw st of
       Inl e \<Rightarrow> Inl e | Inr st' \<Rightarrow> parse_lines (Suc n) raws st')"

definition PointerTargets :: "Relation option \<Rightarrow> string list" where
  "PointerTargets ptr = (case ptr of None \<Rightarrow> []
     | Some r \<Rightarrow> concat (map (\<lambda>t. case t of TermDirect ds _ \<Rightarrow> map ds_Type ds | _ \<Rightarrow> []) (rel_Terms r)))"

text \<open>The pairs of the map \<open>Pointers\<close>: a type name and a pointer that one of its terms goes through.\<close>

definition Pointers :: "Model \<Rightarrow> (string \<times> string) list" where
  "Pointers m = first_seen (concat (map (\<lambda>t. concat (map (\<lambda>r. concat (map (\<lambda>tm.
     case tm of TermTTU _ ptr _ \<Rightarrow> [(mt_Name t, ptr)] | _ \<Rightarrow> []) (rel_Terms r))) (mt_Relations t))) (mod_Types m)))"

definition IsPointer :: "Model \<Rightarrow> string \<Rightarrow> string \<Rightarrow> bool" where
  "IsPointer m typeName rel \<longleftrightarrow> (typeName, rel) \<in> set (Pointers m)"

definition check_term :: "Model \<Rightarrow> ModelType \<Rightarrow> Relation \<Rightarrow> dsl_term \<Rightarrow> model_error list" where
  "check_term m t r tm = (case tm of
       TermDirect ds _ \<Rightarrow> concat (map (\<lambda>d. if Model_Type m (ds_Type d) = None
          then [SubjectTypeUndeclared (mt_Name t) (rel_Name r) (ds_Type d)] else []) ds)
     | TermComputed c _ \<Rightarrow> (if Rel t c = None then [ComputedUndeclared (mt_Name t) (rel_Name r) c] else [])
     | TermTTU rel ptr raw \<Rightarrow>
         (if Rel t ptr = None then [PointerUndeclared (mt_Name t) (rel_Name r) ptr]
          else concat (map (\<lambda>target. case Model_Type m target of
               None \<Rightarrow> [PointerToUndeclaredType (mt_Name t) (rel_Name r) target]
             | Some tt \<Rightarrow> if Rel tt rel = None then [TargetWithoutRelation (mt_Name t) (rel_Name r) target rel] else [])
             (PointerTargets (Rel t ptr)))))"

definition validate_model :: "Model \<Rightarrow> model_error option" where
  \<comment> \<open>the first error in loop order\<close>
  "validate_model m = (case concat (map (\<lambda>t. concat (map (\<lambda>r. concat (map (check_term m t r) (rel_Terms r)))
       (mt_Relations t))) (mod_Types m)) of [] \<Rightarrow> None | e # _ \<Rightarrow> Some e)"

definition ParseModel :: "string \<Rightarrow> (model_error, Model) result" where
  "ParseModel dsl = (case parse_lines 1 (split_byte (CHR 0x0A) dsl)
       \<lparr>ps_types = [], ps_open = False, ps_conditions = [], ps_inRelations = False\<rparr> of
     Inl e \<Rightarrow> Inl e
   | Inr st \<Rightarrow>
       if length (ps_types st) = 0 then Inl NoTypes
       else
         let m = \<lparr>mod_Types = ps_types st, mod_Conditions = ps_conditions st\<rparr>
         in case validate_model m of Some e \<Rightarrow> Inl e | None \<Rightarrow> Inr m)"

subsection \<open>Assertions about a model\<close>

text \<open>The inner loop of \<open>AssertOnePointerPerParentType\<close> with the map \<open>byTarget\<close>.\<close>

fun one_pointer_loop :: "(string \<times> string) list \<Rightarrow> (string \<times> string) list \<Rightarrow> bool" where
  "one_pointer_loop byTarget [] = True"
| "one_pointer_loop byTarget ((rel, target) # rest) = (case map_of byTarget target of
       Some prev \<Rightarrow> if prev \<noteq> rel then False else one_pointer_loop ((target, rel) # byTarget) rest
     | None \<Rightarrow> one_pointer_loop ((target, rel) # byTarget) rest)"

definition pointer_pairs :: "Model \<Rightarrow> ModelType \<Rightarrow> (string \<times> string) list" where
  "pointer_pairs m t = concat (map (\<lambda>(ty, rel). if ty = mt_Name t
     then map (\<lambda>target. (rel, target)) (PointerTargets (Rel t rel)) else []) (Pointers m))"

definition AssertOnePointerPerParentType :: "Model \<Rightarrow> bool" where
  "AssertOnePointerPerParentType m \<longleftrightarrow> distinct (TypeNames m)
     \<and> list_all (\<lambda>t. one_pointer_loop [] (pointer_pairs m t)) (mod_Types m)"

record Census =
  cen_Types :: nat
  cen_Declarations :: nat
  cen_VerbTypes :: nat
  cen_VerbDeclaration :: nat
  cen_Pointers :: nat
  cen_Conditions :: nat

definition Model_Census :: "Model \<Rightarrow> Census" where
  "Model_Census m =
     \<lparr>cen_Types = length (mod_Types m),
      cen_Declarations = sum_list (map (\<lambda>t. length (mt_Relations t)) (mod_Types m)),
      cen_VerbTypes = length (filter (\<lambda>t. Type_Verbs t \<noteq> []) (mod_Types m)),
      cen_VerbDeclaration = sum_list (map (\<lambda>t. length (Type_Verbs t)) (mod_Types m)),
      cen_Pointers = sum_list (map (\<lambda>t. length (filter (\<lambda>p. fst p = mt_Name t) (Pointers m))) (mod_Types m)),
      cen_Conditions = length (mod_Conditions m)\<rparr>"

subsection \<open>What an accepted model guarantees\<close>

definition all_named :: "ModelType list \<Rightarrow> bool" where
  "all_named ts \<longleftrightarrow> list_all (\<lambda>t. mt_Name t \<noteq> []) ts"

lemma all_named_add_relation: "ts \<noteq> [] \<Longrightarrow> all_named (add_relation rel ts) = all_named ts \<and> add_relation rel ts \<noteq> []"
  by (cases ts rule: rev_cases) (simp_all add: add_relation_def all_named_def)

lemma all_named_snoc: "n \<noteq> [] \<Longrightarrow> all_named (ts @ [\<lparr>mt_Name = n, mt_Relations = rs\<rparr>]) = all_named ts"
  by (simp add: all_named_def)

definition parse_inv :: "parse_state \<Rightarrow> bool" where
  "parse_inv st \<longleftrightarrow> all_named (ps_types st) \<and> (ps_open st \<longrightarrow> ps_types st \<noteq> [])"

lemma parse_line_inv: "parse_line n raw st = Inr st' \<Longrightarrow> parse_inv st \<Longrightarrow> parse_inv st'"
  by (auto simp: parse_line_def parse_inv_def Let_def all_named_add_relation all_named_snoc split: if_splits sum.splits)

lemma parse_lines_inv: "parse_lines n raws st = Inr st' \<Longrightarrow> parse_inv st \<Longrightarrow> parse_inv st'"
  by (induction n raws st rule: parse_lines.induct) (auto split: sum.splits intro: parse_line_inv)

lemma ParseModel_Inr:
  assumes "ParseModel dsl = Inr m"
  shows "[] \<notin> set (TypeNames m)" and "mod_Types m \<noteq> []" and "validate_model m = None"
proof -
  let ?start = "\<lparr>ps_types = [], ps_open = False, ps_conditions = [], ps_inRelations = False\<rparr>"
  from assms obtain st where st: "parse_lines 1 (split_byte (CHR 0x0A) dsl) ?start = Inr st"
    and m: "m = \<lparr>mod_Types = ps_types st, mod_Conditions = ps_conditions st\<rparr>" "ps_types st \<noteq> []" "validate_model m = None"
    by (auto simp: ParseModel_def Let_def split: sum.splits if_splits option.splits)
  have "parse_inv st" by (rule parse_lines_inv [OF st]) (simp add: parse_inv_def all_named_def)
  with m show "[] \<notin> set (TypeNames m)" "mod_Types m \<noteq> []" "validate_model m = None"
    by (auto simp: parse_inv_def all_named_def list_all_iff TypeNames_def)
qed

lemma validate_model_ok:
  assumes "validate_model m = None" "t \<in> set (mod_Types m)" "r \<in> set (mt_Relations t)" "tm \<in> set (rel_Terms r)"
  shows "check_term m t r tm = []"
  using assms by (auto simp: validate_model_def split: list.splits)

subsection \<open>Printing and parsing a subject\<close>

definition plain :: "string \<Rightarrow> bool" where
  "plain s \<longleftrightarrow> list_all is_ident_char s"

definition printable :: "DirectSubject \<Rightarrow> bool" where
  "printable d \<longleftrightarrow> ds_Type d \<noteq> [] \<and> plain (ds_Type d) \<and> plain (ds_Object d) \<and> plain (ds_Userset d) \<and> plain (ds_Condition d)
     \<and> (if ds_Wildcard d then ds_Object d = [] \<and> ds_Userset d = []
        else ds_Object d \<noteq> [] \<longrightarrow> ds_Type d = systemClassType \<and> ds_Userset d = [])"

lemma plain_chars:
  assumes "plain s"
  shows "CHR '' '' \<notin> set s" "CHR '':'' \<notin> set s" "CHR ''#'' \<notin> set s" "CHR ''*'' \<notin> set s" "\<forall>c \<in> set s. \<not> is_space c"
  using assms by (auto simp: plain_def list_all_iff go_string)

lemma has_prefix_set: "has_prefix s p \<Longrightarrow> set p \<subseteq> set s"
  by (metis has_prefix_def set_take_subset)

lemma cut_str_absent: "c \<in> set sep \<Longrightarrow> c \<notin> set s \<Longrightarrow> cut_str sep s = (s, [], False)"
proof (induction sep s rule: cut_str.induct)
  case (1 sep)
  then show ?case by auto
next
  case (2 sep x xs)
  have "\<not> has_prefix (x # xs) sep"
    using 2(2,3) has_prefix_set by blast
  with 2 show ?case by simp
qed

lemma cut_str_at: "sep \<noteq> [] \<Longrightarrow> hd sep \<notin> set s \<Longrightarrow> cut_str sep (s @ sep @ t) = (s, t, True)"
proof (induction s)
  case Nil
  then show ?case by (cases sep) (simp_all add: has_prefix_def)
next
  case (Cons x s)
  then have "\<not> has_prefix (x # s @ sep @ t) sep" by (cases sep) (auto simp: has_prefix_def)
  with Cons show ?case by simp
qed

lemma has_suffix_last: "has_suffix s p \<Longrightarrow> p \<noteq> [] \<Longrightarrow> last s = last p"
  by (metis append_take_drop_id has_suffix_def last_appendR)

text \<open>The body of an entry, without its condition, is read back.\<close>

definition subject_body :: "DirectSubject \<Rightarrow> string" where
  "subject_body d = ds_Type d @ (if ds_Wildcard d then '':*'' else if ds_Object d \<noteq> [] then '':'' @ ds_Object d
     else if ds_Userset d \<noteq> [] then ''#'' @ ds_Userset d else [])"

definition parse_body :: "string \<Rightarrow> string \<Rightarrow> DirectSubject" where
  "parse_body e cond =
     (if has_suffix e '':*'' then
        \<lparr>ds_Type = trim_suffix e '':*'', ds_Wildcard = True, ds_Object = [], ds_Userset = [], ds_Condition = cond\<rparr>
      else if has_prefix e (systemClassType @ '':'') then
        \<lparr>ds_Type = systemClassType, ds_Wildcard = False, ds_Object = trim_prefix e (systemClassType @ '':''),
         ds_Userset = [], ds_Condition = cond\<rparr>
      else if contains_str e ''#'' then
        \<lparr>ds_Type = fst (cut_str ''#'' e), ds_Wildcard = False, ds_Object = [],
         ds_Userset = fst (snd (cut_str ''#'' e)), ds_Condition = cond\<rparr>
      else \<lparr>ds_Type = e, ds_Wildcard = False, ds_Object = [], ds_Userset = [], ds_Condition = cond\<rparr>)"

lemma parse_body_read:
  assumes "printable d"
  shows "parse_body (subject_body d) (ds_Condition d) = d"
proof -
  note chars = plain_chars [of "ds_Type d"] plain_chars [of "ds_Object d"] plain_chars [of "ds_Userset d"]
  have p: "plain (ds_Type d)" "plain (ds_Object d)" "plain (ds_Userset d)" "ds_Type d \<noteq> []" using assms by (auto simp: printable_def)
  consider (wild) "ds_Wildcard d" "ds_Object d = []" "ds_Userset d = []"
    | (object) "\<not> ds_Wildcard d" "ds_Object d \<noteq> []" "ds_Type d = systemClassType" "ds_Userset d = []"
    | (userset) "\<not> ds_Wildcard d" "ds_Object d = []" "ds_Userset d \<noteq> []"
    | (bare) "\<not> ds_Wildcard d" "ds_Object d = []" "ds_Userset d = []"
    using assms by (auto simp: printable_def split: if_splits)
  then show ?thesis
  proof cases
    case wild
    then have "subject_body d = ds_Type d @ '':*''" by (simp add: subject_body_def)
    then show ?thesis using wild by (simp add: parse_body_def has_suffix_def trim_suffix_def)
  next
    case object
    then have e: "subject_body d = (systemClassType @ '':'') @ ds_Object d" by (simp add: subject_body_def)
    have "last (ds_Object d) \<noteq> CHR ''*''" using chars(9) p(2) object(2) last_in_set by metis
    then have "\<not> has_suffix (subject_body d) '':*''" using object has_suffix_last [of "subject_body d" "'':*''"] e by auto
    then have no_suffix: "has_suffix ((systemClassType @ '':'') @ ds_Object d) '':*'' = False" unfolding e by simp
    have prefix: "has_prefix ((systemClassType @ '':'') @ ds_Object d) (systemClassType @ '':'') = True"
      by (simp only: has_prefix_append)
    have rest: "trim_prefix ((systemClassType @ '':'') @ ds_Object d) (systemClassType @ '':'') = ds_Object d"
      unfolding trim_prefix_def prefix by simp
    show ?thesis unfolding parse_body_def e no_suffix prefix rest using object by simp
  next
    case userset
    then have e: "subject_body d = ds_Type d @ ''#'' @ ds_Userset d" by (simp add: subject_body_def)
    have "last (ds_Userset d) \<noteq> CHR ''*''" using chars(14) p(3) userset(3) last_in_set by metis
    then have s: "\<not> has_suffix (subject_body d) '':*''" using userset has_suffix_last [of "subject_body d" "'':*''"] e by auto
    have "\<not> has_prefix (subject_body d) (systemClassType @ '':'')"
      using has_prefix_set [of "subject_body d" "systemClassType @ '':''"] chars(2,12) p(1,3) e by auto
    moreover have "cut_str ''#'' (subject_body d) = (ds_Type d, ds_Userset d, True)"
      unfolding e by (rule cut_str_at) (use chars(3) p(1) in auto)
    ultimately show ?thesis using s userset by (simp add: parse_body_def contains_str_def)
  next
    case bare
    then have e: "subject_body d = ds_Type d" by (simp add: subject_body_def)
    have "last (ds_Type d) \<noteq> CHR ''*''" using chars(4) p(1,4) last_in_set by metis
    then have s: "\<not> has_suffix (subject_body d) '':*''" using has_suffix_last [of "subject_body d" "'':*''"] e by auto
    have "\<not> has_prefix (subject_body d) (systemClassType @ '':'')"
      using has_prefix_set [of "subject_body d" "systemClassType @ '':''"] chars(2) p(1) e by auto
    moreover have "cut_str ''#'' (subject_body d) = (ds_Type d, [], False)"
      unfolding e by (rule cut_str_absent [of "CHR ''#''"]) (use chars(3) p(1) in auto)
    ultimately show ?thesis using s bare by (simp add: parse_body_def contains_str_def e)
  qed
qed

text \<open>
  C38: a direct subject that is printed is read back. For a subject of the grammar (plain names,
  at most one of wildcard, named class and userset), the parser of an entry applied to the
  printed form returns the subject, condition included.
\<close>

theorem parse_subject_String:
  assumes "printable d"
  shows "parse_subject (DirectSubject_String d) = d"
proof -
  have body: "parse_subject e0 = (let (before, after, found) = cut_str '' with '' e0
      in parse_body (if found then trim_space before else e0) (if found then trim_space after else []))" for e0
    by (simp add: parse_subject_def parse_body_def Let_def split: prod.split)
  have str: "DirectSubject_String d = subject_body d @ (if ds_Condition d \<noteq> [] then '' with '' @ ds_Condition d else [])"
    by (simp add: DirectSubject_String_def subject_body_def)
  have plain: "plain (ds_Type d)" "plain (ds_Object d)" "plain (ds_Userset d)" "plain (ds_Condition d)" "ds_Type d \<noteq> []"
    using assms by (auto simp: printable_def)
  have no_space: "\<forall>c \<in> set (subject_body d). \<not> is_space c"
    using plain_chars(5) [OF plain(1)] plain_chars(5) [OF plain(2)] plain_chars(5) [OF plain(3)]
    by (auto simp: subject_body_def go_string)
  then have blank: "CHR '' '' \<notin> set (subject_body d)" by (auto simp: go_string)
  have trim: "trim_space s = s" if "\<forall>c \<in> set s. \<not> is_space c" for s
    using that by (intro trim_space_id) (cases "s = []", auto)
  show ?thesis
  proof (cases "ds_Condition d = []")
    case True
    then have "cut_str '' with '' (DirectSubject_String d) = (subject_body d, [], False)"
      unfolding str using cut_str_absent [of "CHR '' ''" "'' with ''"] blank by simp
    then show ?thesis using parse_body_read [OF assms] True by (simp add: body str)
  next
    case False
    then have "cut_str '' with '' (DirectSubject_String d) = (subject_body d, ds_Condition d, True)"
      unfolding str using cut_str_at [of "'' with ''" "subject_body d" "ds_Condition d"] blank by simp
    then show ?thesis
      using parse_body_read [OF assms] trim [OF no_space] trim [OF plain_chars(5) [OF plain(4)]] by (simp add: body)
  qed
qed

theorem parse_subject_String_witness:
  "let d = \<lparr>ds_Type = ''group'', ds_Wildcard = False, ds_Object = [], ds_Userset = ''member'', ds_Condition = ''mfa_fresh''\<rparr>
   in printable d \<and> parse_subject (DirectSubject_String d) = d"
proof -
  let ?d = "\<lparr>ds_Type = ''group'', ds_Wildcard = False, ds_Object = [], ds_Userset = ''member'', ds_Condition = ''mfa_fresh''\<rparr>"
  have ok: "printable ?d" by code_simp
  show ?thesis unfolding Let_def using ok parse_subject_String [OF ok] by (rule conjI)
qed

subsection \<open>One pointer per parent type\<close>

lemma one_pointer_loop_iff:
  "one_pointer_loop byTarget ps \<longleftrightarrow>
     (\<forall>p \<in> set ps. map_of byTarget (snd p) \<in> {None, Some (fst p)})
     \<and> (\<forall>p \<in> set ps. \<forall>q \<in> set ps. snd p = snd q \<longrightarrow> fst p = fst q)"
proof (induction byTarget ps rule: one_pointer_loop.induct)
  case (1 byTarget)
  then show ?case by simp
next
  case (2 byTarget rel target rest)
  show ?case
  proof (cases "map_of byTarget target \<in> {None, Some rel}")
    case True
    then have "one_pointer_loop byTarget ((rel, target) # rest) = one_pointer_loop ((target, rel) # byTarget) rest"
      by (cases "map_of byTarget target") simp_all
    also have "\<dots> \<longleftrightarrow> (\<forall>p \<in> set rest. map_of ((target, rel) # byTarget) (snd p) \<in> {None, Some (fst p)})
        \<and> (\<forall>p \<in> set rest. \<forall>q \<in> set rest. snd p = snd q \<longrightarrow> fst p = fst q)"
      using 2 True by (cases "map_of byTarget target") simp_all
    also have "(\<forall>p \<in> set rest. map_of ((target, rel) # byTarget) (snd p) \<in> {None, Some (fst p)}) \<longleftrightarrow>
        (\<forall>p \<in> set rest. if snd p = target then fst p = rel else map_of byTarget (snd p) \<in> {None, Some (fst p)})"
      by auto
    also have "\<dots> \<longleftrightarrow> (\<forall>p \<in> set rest. snd p = target \<longrightarrow> fst p = rel)
        \<and> (\<forall>p \<in> set rest. map_of byTarget (snd p) \<in> {None, Some (fst p)})"
      using True by (metis (no_types, lifting))
    finally have run: "one_pointer_loop byTarget ((rel, target) # rest) \<longleftrightarrow>
        ((\<forall>p \<in> set rest. snd p = target \<longrightarrow> fst p = rel) \<and> (\<forall>p \<in> set rest. map_of byTarget (snd p) \<in> {None, Some (fst p)}))
        \<and> (\<forall>p \<in> set rest. \<forall>q \<in> set rest. snd p = snd q \<longrightarrow> fst p = fst q)" .
    have pairs: "(\<forall>p \<in> set ((rel, target) # rest). \<forall>q \<in> set ((rel, target) # rest). snd p = snd q \<longrightarrow> fst p = fst q) \<longleftrightarrow>
        (\<forall>p \<in> set rest. snd p = target \<longrightarrow> fst p = rel)
        \<and> (\<forall>p \<in> set rest. \<forall>q \<in> set rest. snd p = snd q \<longrightarrow> fst p = fst q)"
      by (simp only: list.set ball_simps fst_conv snd_conv) blast
    have "(\<forall>p \<in> set ((rel, target) # rest). map_of byTarget (snd p) \<in> {None, Some (fst p)}) \<longleftrightarrow>
        (\<forall>p \<in> set rest. map_of byTarget (snd p) \<in> {None, Some (fst p)})" using True by simp
    with run pairs show ?thesis by blast
  next
    case False
    then show ?thesis by (cases "map_of byTarget target") simp_all
  qed
qed

lemma set_pointer_pairs:
  "set (pointer_pairs m t) = {(rel, target). IsPointer m (mt_Name t) rel \<and> target \<in> set (PointerTargets (Rel t rel))}"
  by (auto simp: pointer_pairs_def IsPointer_def split: if_splits)

text \<open>
  What the assertion on pointers checks. It holds exactly when no type name is declared
  twice and, within a type, two different pointers that are used never lead to the same type.
\<close>

theorem AssertOnePointerPerParentType_iff:
  "AssertOnePointerPerParentType m \<longleftrightarrow> distinct (TypeNames m) \<and>
     (\<forall>t \<in> set (mod_Types m). \<forall>p q. IsPointer m (mt_Name t) p \<and> IsPointer m (mt_Name t) q \<and> p \<noteq> q \<longrightarrow>
        set (PointerTargets (Rel t p)) \<inter> set (PointerTargets (Rel t q)) = {})"
proof -
  have "one_pointer_loop [] (pointer_pairs m t) \<longleftrightarrow>
      (\<forall>p q. IsPointer m (mt_Name t) p \<and> IsPointer m (mt_Name t) q \<and> p \<noteq> q \<longrightarrow>
        set (PointerTargets (Rel t p)) \<inter> set (PointerTargets (Rel t q)) = {})" for t
    unfolding one_pointer_loop_iff set_pointer_pairs by (simp add: disjoint_iff) blast
  then show ?thesis by (simp add: AssertOnePointerPerParentType_def list_all_iff)
qed
theorem AssertOnePointerPerParentType_iff_witness:
  "AssertOnePointerPerParentType \<lparr>mod_Types = [\<lparr>mt_Name = ''user'', mt_Relations = []\<rparr>], mod_Conditions = []\<rparr>"
  unfolding AssertOnePointerPerParentType_iff by (simp add: TypeNames_def PointerTargets_def Rel_def last_named_def)

end
