(* ===== verification/Authz_Plan.thy ===== *)
theory Authz_Plan
  imports Authz_Model
begin

text \<open>
  The compilation of a relation of the authorisation model into a verdict plan: the list of
  the sources (atoms) from which the relation can hold on an object, together with what the
  plan cannot express.

  Source: \<open>internal/authzplan/compile.go\<close> (\<open>Atom\<close>, \<open>Plan\<close>, \<open>Compile\<close>, \<open>walk\<close>).

  The texts of the findings are prose; a finding is a value of \<open>plan_finding\<close> and the prose
  is a parameter of \<open>Compile\<close>, which only uses it to sort. The recursion of \<open>walk\<close> carries
  fuel; \<open>walk_fuel\<close> is enough for every model (\<open>walk_enough_fuel\<close>), so that \<open>Compile\<close> is
  total.
\<close>

subsection \<open>Data\<close>

datatype AtomKind = AtomBinding | AtomFact

record Atom =
  atom_Kind :: AtomKind
  atom_ParentType :: string
  atom_Relation :: string
  atom_Origin :: string

definition atom_key :: "Atom \<Rightarrow> string" where
  "atom_key a = (case atom_Kind a of AtomBinding \<Rightarrow> ''0'' | AtomFact \<Rightarrow> ''1'')
     @ ''|'' @ atom_ParentType a @ ''|'' @ atom_Relation a"

datatype plan_finding =
    ChainTooDeep string string
  | RelationUndeclared string string
  | ConditionOnVerb string string "string list"
  | VerbOfAncestor string string string
  | PlanPointerUndeclared string string string
  | PointerLeadsNowhere string string string
  | PlanPointerToUndeclaredType string string string string
  | Conditioned string string DirectSubject

record Plan =
  plan_Type :: string
  plan_Relation :: string
  plan_Atoms :: "Atom list"
  plan_Conditioned :: "plan_finding list"
  plan_Unclassified :: "plan_finding list"

definition Expressible :: "Plan \<Rightarrow> bool" where
  "Expressible p \<longleftrightarrow> length (plan_Unclassified p) = 0"

datatype compile_error = ErrTypeNotDeclared string | RelationNotDeclared string string | OutOfFuel

subsection \<open>The walk\<close>

definition MaxPointerDepth :: nat where "MaxPointerDepth = 4"

text \<open>What \<open>walk\<close> updates: the plan under construction and the set of visited keys.\<close>

record walk_state =
  ws_atoms :: "Atom list"
  ws_conditioned :: "plan_finding list"
  ws_unclassified :: "plan_finding list"
  ws_seen :: "string list"

definition walk_key :: "string list \<Rightarrow> ModelType \<Rightarrow> string \<Rightarrow> string" where
  "walk_key path cur relation = join_with ''/'' path @ ''|'' @ mt_Name cur @ ''|'' @ relation"

definition arrow :: string where
  \<comment> \<open>an arrow between two spaces, in UTF-8\<close>
  "arrow = [CHR 0x20, CHR 0xE2, CHR 0x86, CHR 0x92, CHR 0x20]"

definition unclassify :: "plan_finding \<Rightarrow> walk_state \<Rightarrow> walk_state" where
  "unclassify f st = st\<lparr>ws_unclassified := ws_unclassified st @ [f]\<rparr>"

definition parent_of :: "string list \<Rightarrow> string" where
  "parent_of path = (if length path > 0 then last path else [])"

text \<open>The case of a direct list: it adds atoms and findings and does not recurse.\<close>

definition direct_atoms :: "ModelType \<Rightarrow> string \<Rightarrow> string list \<Rightarrow> DirectSubject list \<Rightarrow> string \<Rightarrow> Atom list" where
  "direct_atoms cur relation path ds raw =
     (if IsVerb relation \<and> parent_of path = [] \<and> filter (\<lambda>d. ds_Condition d \<noteq> []) ds = []
      then [\<lparr>atom_Kind = AtomBinding, atom_ParentType = [], atom_Relation = relation,
             atom_Origin = mt_Name cur @ ''.'' @ relation\<rparr>] else [])
     @ [\<lparr>atom_Kind = AtomFact, atom_ParentType = parent_of path, atom_Relation = relation,
         atom_Origin = mt_Name cur @ ''.'' @ relation @ arrow @ raw\<rparr>]"

definition direct_findings :: "ModelType \<Rightarrow> string \<Rightarrow> string list \<Rightarrow> DirectSubject list \<Rightarrow> plan_finding list" where
  "direct_findings cur relation path ds =
     (let termConditions = map ds_Condition (filter (\<lambda>d. ds_Condition d \<noteq> []) ds)
      in if IsVerb relation \<and> parent_of path = [] \<and> length termConditions > 0
         then [ConditionOnVerb (mt_Name cur) relation termConditions]
         else if IsVerb relation \<and> parent_of path = [] then []
         else if IsVerb relation \<and> parent_of path \<noteq> [] then [VerbOfAncestor (mt_Name cur) relation (parent_of path)]
         else [])"

definition walk_direct :: "ModelType \<Rightarrow> string \<Rightarrow> string list \<Rightarrow> DirectSubject list \<Rightarrow> string \<Rightarrow> walk_state \<Rightarrow> walk_state" where
  "walk_direct cur relation path ds raw st =
     st\<lparr>ws_conditioned := ws_conditioned st
          @ map (Conditioned (mt_Name cur) relation) (filter (\<lambda>d. ds_Condition d \<noteq> []) ds),
        ws_unclassified := ws_unclassified st @ direct_findings cur relation path ds,
        ws_atoms := ws_atoms st @ direct_atoms cur relation path ds raw\<rparr>"

text \<open>A loop whose body may run out of fuel.\<close>

fun loop :: "('a \<Rightarrow> 's \<Rightarrow> 's option) \<Rightarrow> 'a list \<Rightarrow> 's \<Rightarrow> 's option" where
  "loop body [] st = Some st"
| "loop body (x # xs) st = (case body x st of None \<Rightarrow> None | Some st' \<Rightarrow> loop body xs st')"

text \<open>The body of the loop over the terms; \<open>rec\<close> is the recursive call.\<close>

type_synonym walk_call = "ModelType \<Rightarrow> string \<Rightarrow> string list \<Rightarrow> walk_state \<Rightarrow> walk_state option"

definition walk_target :: "walk_call \<Rightarrow> Model \<Rightarrow> ModelType \<Rightarrow> string \<Rightarrow> string list \<Rightarrow> string \<Rightarrow> string \<Rightarrow> string \<Rightarrow> walk_state \<Rightarrow> walk_state option" where
  "walk_target rec m cur relation path ttuRel ptr target st = (case Model_Type m target of
       None \<Rightarrow> Some (unclassify (PlanPointerToUndeclaredType (mt_Name cur) relation ptr target) st)
     | Some tt \<Rightarrow> rec tt ttuRel (path @ [target]) st)"

definition walk_term :: "walk_call \<Rightarrow> Model \<Rightarrow> ModelType \<Rightarrow> string \<Rightarrow> string list \<Rightarrow> dsl_term \<Rightarrow> walk_state \<Rightarrow> walk_state option" where
  "walk_term rec m cur relation path tm st = (case tm of
       TermDirect ds raw \<Rightarrow> Some (walk_direct cur relation path ds raw st)
     | TermComputed c raw \<Rightarrow> rec cur c path st
     | TermTTU ttuRel ptr raw \<Rightarrow>
         (case Rel cur ptr of
            None \<Rightarrow> Some (unclassify (PlanPointerUndeclared (mt_Name cur) relation ptr) st)
          | Some p \<Rightarrow>
              if length (PointerTargets (Some p)) = 0
              then Some (unclassify (PointerLeadsNowhere (mt_Name cur) relation ptr) st)
              else loop (walk_target rec m cur relation path ttuRel ptr) (PointerTargets (Some p)) st))"

fun walk :: "nat \<Rightarrow> Model \<Rightarrow> walk_call" where
  "walk 0 m cur relation path st = None"
| "walk (Suc n) m cur relation path st =
     (if length path > MaxPointerDepth then Some (unclassify (ChainTooDeep (mt_Name cur) relation) st)
      else if walk_key path cur relation \<in> set (ws_seen st) then Some st
      else
        let st = st\<lparr>ws_seen := walk_key path cur relation # ws_seen st\<rparr>
        in case Rel cur relation of
             None \<Rightarrow> Some (unclassify (RelationUndeclared (mt_Name cur) relation) st)
           | Some r \<Rightarrow> loop (walk_term (walk n m) m cur relation path) (rel_Terms r) st)"

definition relation_count :: "Model \<Rightarrow> nat" where
  "relation_count m = sum_list (map (\<lambda>t. length (mt_Relations t)) (mod_Types m))"

definition walk_fuel :: "Model \<Rightarrow> nat" where
  "walk_fuel m = (MaxPointerDepth + 2) * (relation_count m + 2)"

text \<open>The loop that keeps the first atom of every key.\<close>

fun dedup_atoms :: "string list \<Rightarrow> Atom list \<Rightarrow> Atom list" where
  "dedup_atoms seenAtom [] = []"
| "dedup_atoms seenAtom (a # as) =
     (if atom_key a \<in> set seenAtom then dedup_atoms seenAtom as
      else a # dedup_atoms (atom_key a # seenAtom) as)"

definition Compile :: "(plan_finding \<Rightarrow> string) \<Rightarrow> Model \<Rightarrow> string \<Rightarrow> string \<Rightarrow> (compile_error, Plan) result" where
  "Compile txt m typeName relation = (case Model_Type m typeName of
       None \<Rightarrow> Inl (ErrTypeNotDeclared typeName)
     | Some t \<Rightarrow>
         if Rel t relation = None then Inl (RelationNotDeclared typeName relation)
         else case walk (walk_fuel m) m t relation []
                \<lparr>ws_atoms = [], ws_conditioned = [], ws_unclassified = [], ws_seen = []\<rparr> of
             None \<Rightarrow> Inl OutOfFuel
           | Some st \<Rightarrow> Inr \<lparr>plan_Type = typeName, plan_Relation = relation,
                 plan_Atoms = dedup_atoms [] (ws_atoms st),
                 plan_Conditioned = sort_key txt (ws_conditioned st),
                 plan_Unclassified = sort_key txt (ws_unclassified st)\<rparr>)"

subsection \<open>Termination: the fuel is enough\<close>

lemma loop_Some:
  assumes "\<And>x st. x \<in> set xs \<Longrightarrow> I st \<Longrightarrow> \<exists>st'. body x st = Some st' \<and> I st'" and "I st"
  shows "\<exists>st'. loop body xs st = Some st' \<and> I st'"
  using assms
proof (induction xs arbitrary: st)
  case Nil
  then show ?case by simp
next
  case (Cons x xs)
  from Cons.prems obtain st1 where "body x st = Some st1" "I st1" by (meson list.set_intros(1))
  moreover from this Cons.IH [of st1] Cons.prems(1) obtain st2 where "loop body xs st1 = Some st2" "I st2" by auto
  ultimately show ?case by simp
qed

definition unseen :: "ModelType \<Rightarrow> string list \<Rightarrow> walk_state \<Rightarrow> nat" where
  "unseen cur path st = card {r \<in> rel_Name ` set (mt_Relations cur). walk_key path cur r \<notin> set (ws_seen st)}"

lemma last_named_mem: "last_named name xs n = Some x \<Longrightarrow> x \<in> set xs \<and> name x = n"
  unfolding last_named_def by (auto simp: find_Some_iff) (metis nth_mem set_rev length_rev)

lemma Rel_mem: "Rel cur r = Some d \<Longrightarrow> d \<in> set (mt_Relations cur) \<and> rel_Name d = r"
  by (simp add: Rel_def last_named_mem)

lemma Model_Type_mem: "Model_Type m n = Some t \<Longrightarrow> t \<in> set (mod_Types m) \<and> mt_Name t = n"
  by (simp add: Model_Type_def last_named_mem)

lemma unseen_mono: "set (ws_seen st) \<subseteq> set (ws_seen st') \<Longrightarrow> unseen cur path st' \<le> unseen cur path st"
  unfolding unseen_def by (intro card_mono) auto

lemma unseen_mark:
  assumes "Rel cur r = Some d" "walk_key path cur r \<notin> set (ws_seen st)"
  shows "unseen cur path (st\<lparr>ws_seen := walk_key path cur r # ws_seen st\<rparr>) < unseen cur path st"
  unfolding unseen_def
  using assms(2) Rel_mem [OF assms(1)] by (intro psubset_card_mono) auto

lemma unseen_le: "cur \<in> set (mod_Types m) \<Longrightarrow> unseen cur path st \<le> relation_count m"
proof -
  assume cur: "cur \<in> set (mod_Types m)"
  have "unseen cur path st \<le> card (rel_Name ` set (mt_Relations cur))" unfolding unseen_def by (intro card_mono) auto
  also have "\<dots> \<le> length (mt_Relations cur)" by (meson List.finite_set card_image_le card_length le_trans)
  also have "\<dots> \<le> relation_count m" using cur unfolding relation_count_def by (intro member_le_sum_list) auto
  finally show ?thesis .
qed

definition walk_need :: "Model \<Rightarrow> ModelType \<Rightarrow> string list \<Rightarrow> walk_state \<Rightarrow> nat" where
  "walk_need m cur path st = (MaxPointerDepth + 1 - length path) * (relation_count m + 2) + unseen cur path st"

lemma walk_need_deeper:
  assumes "tt \<in> set (mod_Types m)" "length path \<le> MaxPointerDepth"
  shows "walk_need m tt (path @ [x]) st' < walk_need m cur path st"
proof -
  obtain k where k: "MaxPointerDepth + 1 - length path = Suc k" "MaxPointerDepth + 1 - length (path @ [x]) = k"
    using assms(2) by (cases "MaxPointerDepth + 1 - length path") auto
  have "unseen tt (path @ [x]) st' < relation_count m + 2" using unseen_le [OF assms(1), of "path @ [x]" st'] by simp
  then show ?thesis unfolding walk_need_def k by simp
qed

lemma seen_unclassify [simp]: "ws_seen (unclassify f st) = ws_seen st"
  by (simp add: unclassify_def)

lemma seen_walk_direct [simp]: "ws_seen (walk_direct cur r path ds raw st) = ws_seen st"
  by (simp add: walk_direct_def)

text \<open>Enough fuel gives a result, and the visited keys only grow.\<close>

lemma walk_enough_fuel:
  assumes "cur \<in> set (mod_Types m)" and "walk_need m cur path st < n"
  shows "\<exists>st'. walk n m cur relation path st = Some st' \<and> set (ws_seen st) \<subseteq> set (ws_seen st')"
  using assms
proof (induction n arbitrary: cur relation path st)
  case 0
  then show ?case by simp
next
  case (Suc n)
  let ?marked = "st\<lparr>ws_seen := walk_key path cur relation # ws_seen st\<rparr>"
  show ?case
  proof (cases "length path > MaxPointerDepth \<or> walk_key path cur relation \<in> set (ws_seen st) \<or> Rel cur relation = None")
    case True
    then show ?thesis by (auto simp: Let_def)
  next
    case False
    then obtain r where r: "Rel cur relation = Some r" and new: "walk_key path cur relation \<notin> set (ws_seen st)"
      and short: "length path \<le> MaxPointerDepth" by auto
    let ?I = "\<lambda>s. set (ws_seen ?marked) \<subseteq> set (ws_seen s)"
    have need: "walk_need m cur path s < n" if "?I s" for s
    proof -
      have "unseen cur path s < unseen cur path st"
        using unseen_mono [OF that] unseen_mark [OF r new] by (rule le_less_trans)
      then show ?thesis using Suc.prems(2) by (simp add: walk_need_def)
    qed
    have deeper: "\<exists>s'. walk_target (walk n m) m cur relation path x p target s = Some s' \<and> ?I s'" if "?I s" for x p target s
    proof (cases "Model_Type m target")
      case None
      then show ?thesis using that by (simp add: walk_target_def)
    next
      case (Some tt)
      then have "tt \<in> set (mod_Types m)" using Model_Type_mem by blast
      moreover from this short have "walk_need m tt (path @ [target]) s < n"
        using walk_need_deeper [of tt m path target s cur st] Suc.prems(2) by simp
      ultimately show ?thesis using Suc.IH [of tt "path @ [target]" s x] that Some by (auto simp: walk_target_def)
    qed
    have "\<exists>s'. walk_term (walk n m) m cur relation path tm s = Some s' \<and> ?I s'" if "?I s" for tm s
    proof (cases tm)
      case (TermDirect ds raw)
      then show ?thesis using that by (simp add: walk_term_def)
    next
      case (TermComputed c raw)
      then show ?thesis using Suc.IH [OF Suc.prems(1) need [OF that], of c] that by (auto simp: walk_term_def)
    next
      case (TermTTU x p raw)
      show ?thesis
        using that loop_Some [of _ ?I "walk_target (walk n m) m cur relation path x p" s, OF deeper that]
        by (auto simp: TermTTU walk_term_def split: option.splits)
    qed
    then have "\<exists>s'. loop (walk_term (walk n m) m cur relation path) (rel_Terms r) ?marked = Some s' \<and> ?I s'"
      by (intro loop_Some) auto
    then show ?thesis using False r by (auto simp: Let_def)
  qed
qed

subsection \<open>Positions and their successors\<close>

text \<open>
  A position of the walk is a chain of ancestor types, the type reached and a relation. What
  a position contributes and where the walk goes from it is defined without reference to the
  walk.
\<close>

type_synonym position = "string list \<times> ModelType \<times> string"

definition terms_at :: "position \<Rightarrow> dsl_term set" where
  "terms_at q = (case q of (path, cur, rel) \<Rightarrow>
     if length path > MaxPointerDepth then {} else case Rel cur rel of None \<Rightarrow> {} | Some r \<Rightarrow> set (rel_Terms r))"

definition emits :: "position \<Rightarrow> Atom set" where
  "emits q = (case q of (path, cur, rel) \<Rightarrow>
     {a. \<exists>ds raw. TermDirect ds raw \<in> terms_at q \<and> a \<in> set (direct_atoms cur rel path ds raw)})"

definition term_findings :: "Model \<Rightarrow> position \<Rightarrow> dsl_term \<Rightarrow> plan_finding set" where
  "term_findings m q tm = (case q of (path, cur, rel) \<Rightarrow> (case tm of
       TermDirect ds raw \<Rightarrow> set (direct_findings cur rel path ds)
     | TermComputed c raw \<Rightarrow> {}
     | TermTTU x p raw \<Rightarrow>
         (if Rel cur p = None then {PlanPointerUndeclared (mt_Name cur) rel p}
          else if PointerTargets (Rel cur p) = [] then {PointerLeadsNowhere (mt_Name cur) rel p}
          else {PlanPointerToUndeclaredType (mt_Name cur) rel p target | target.
                  target \<in> set (PointerTargets (Rel cur p)) \<and> Model_Type m target = None})))"

definition finds :: "Model \<Rightarrow> position \<Rightarrow> plan_finding set" where
  "finds m q = (case q of (path, cur, rel) \<Rightarrow>
     if length path > MaxPointerDepth then {ChainTooDeep (mt_Name cur) rel}
     else if Rel cur rel = None then {RelationUndeclared (mt_Name cur) rel}
     else \<Union>tm \<in> terms_at q. term_findings m q tm)"

inductive step :: "Model \<Rightarrow> position \<Rightarrow> position \<Rightarrow> bool" for m where
  computed: "TermComputed c raw \<in> terms_at (path, cur, rel) \<Longrightarrow> step m (path, cur, rel) (path, cur, c)"
| ttu: "TermTTU x p raw \<in> terms_at (path, cur, rel) \<Longrightarrow> target \<in> set (PointerTargets (Rel cur p)) \<Longrightarrow>
    Model_Type m target = Some tt \<Longrightarrow> step m (path, cur, rel) (path @ [target], tt, x)"

inductive_cases step_cases: "step m (path, cur, rel) q"

definition pos_ok :: "Model \<Rightarrow> position \<Rightarrow> bool" where
  "pos_ok m q = (case q of (path, cur, rel) \<Rightarrow>
     set path \<subseteq> set (TypeNames m) \<and> Model_Type m (mt_Name cur) = Some cur)"

definition clean_types :: "Model \<Rightarrow> bool" where
  "clean_types m \<longleftrightarrow> list_all (\<lambda>n. n \<noteq> [] \<and> CHR ''/'' \<notin> set n \<and> CHR ''|'' \<notin> set n) (TypeNames m)"

abbreviation key_of :: "position \<Rightarrow> string" where
  "key_of q \<equiv> (case q of (path, cur, rel) \<Rightarrow> walk_key path cur rel)"

lemma Model_Type_ok: "Model_Type m n = Some t \<Longrightarrow> n \<in> set (TypeNames m) \<and> mt_Name t = n \<and> Model_Type m (mt_Name t) = Some t"
  by (auto simp: TypeNames_def dest: Model_Type_mem)

lemma pos_ok_step: "step m q q' \<Longrightarrow> pos_ok m q \<Longrightarrow> pos_ok m q'"
  by (elim step.cases) (use Model_Type_ok in \<open>fastforce simp: pos_ok_def\<close>)+

lemma bar_split:
  assumes "CHR ''|'' \<notin> set a" "CHR ''|'' \<notin> set b" "a @ CHR ''|'' # s = b @ CHR ''|'' # t"
  shows "a = b \<and> s = t"
  using arg_cong [OF assms(3), of "cut_byte (CHR ''|'')"] cut_byte_found [OF assms(1)] cut_byte_found [OF assms(2)]
  by (simp only: prod.inject)

lemma path_inj:
  assumes "clean_types m" "set xs \<subseteq> set (TypeNames m)" "set ys \<subseteq> set (TypeNames m)"
    and "join_with ''/'' xs = join_with ''/'' ys"
  shows "xs = ys"
proof -
  have clean: "\<forall>z \<in> set zs. CHR ''/'' \<notin> set z \<and> z \<noteq> []" if "set zs \<subseteq> set (TypeNames m)" for zs
    using assms(1) that by (auto simp: clean_types_def list_all_iff)
  have empty: "zs = []" if "set zs \<subseteq> set (TypeNames m)" "join_with ''/'' zs = []" for zs
    using clean [OF that(1)] that(2) by (cases "(''/'', zs)" rule: join_with.cases) auto
  show ?thesis
  proof (cases "xs = [] \<or> ys = []")
    case True
    then show ?thesis using empty [OF assms(2)] empty [OF assms(3)] assms(4) by auto
  next
    case False
    then show ?thesis using join_with_inj [OF _ _ _ _ assms(4)] clean [OF assms(2)] clean [OF assms(3)] by blast
  qed
qed

lemma key_inj:
  assumes "clean_types m" "pos_ok m q" "pos_ok m q'" "key_of q = key_of q'"
  shows "q = q'"
proof -
  obtain path cur rel path' cur' rel' where q: "q = (path, cur, rel)" "q' = (path', cur', rel')" by (cases q; cases q') auto
  have names: "set path \<subseteq> set (TypeNames m)" "set path' \<subseteq> set (TypeNames m)"
    "Model_Type m (mt_Name cur) = Some cur" "Model_Type m (mt_Name cur') = Some cur'"
    using assms(2,3) q by (auto simp: pos_ok_def)
  have clean: "CHR ''|'' \<notin> set n" if "n \<in> set (TypeNames m)" for n
    using assms(1) that unfolding clean_types_def list_all_iff by blast
  have bar: "CHR ''|'' \<notin> set (join_with ''/'' zs)" if "set zs \<subseteq> set (TypeNames m)" for zs
    using set_join_with [of "''/''" zs] that clean by fastforce
  have nbar: "CHR ''|'' \<notin> set (mt_Name cur)" "CHR ''|'' \<notin> set (mt_Name cur')"
    using Model_Type_ok [OF names(3)] Model_Type_ok [OF names(4)] clean by blast+
  have key: "join_with ''/'' path @ CHR ''|'' # (mt_Name cur @ CHR ''|'' # rel) = join_with ''/'' path' @ CHR ''|'' # (mt_Name cur' @ CHR ''|'' # rel')"
    using assms(4) unfolding q walk_key_def prod.case append_Cons append_Nil .
  note parts = bar_split [OF bar [OF names(1)] bar [OF names(2)] key]
  have "path = path'" by (rule path_inj [OF assms(1) names(1,2) conjunct1 [OF parts]])
  note last = bar_split [OF nbar conjunct2 [OF parts]]
  from arg_cong [OF conjunct1 [OF last], of "Model_Type m"] have "cur = cur'"
    unfolding names(3,4) by (simp only: option.inject)
  with \<open>path = path'\<close> last show ?thesis by (simp only: q prod.inject)
qed

subsection \<open>What the walk adds\<close>

definition hit :: "Model \<Rightarrow> position \<Rightarrow> walk_state \<Rightarrow> bool" where
  "hit m q st \<longleftrightarrow> (if length (fst q) > MaxPointerDepth then finds m q \<subseteq> set (ws_unclassified st)
     else key_of q \<in> set (ws_seen st))"

definition closed :: "Model \<Rightarrow> position \<Rightarrow> walk_state \<Rightarrow> bool" where
  "closed m q st \<longleftrightarrow> emits q \<subseteq> set (ws_atoms st) \<and> finds m q \<subseteq> set (ws_unclassified st)
     \<and> (\<forall>q'. step m q q' \<longrightarrow> hit m q' st)"

definition grows :: "walk_state \<Rightarrow> walk_state \<Rightarrow> bool" where
  "grows st st' \<longleftrightarrow> set (ws_seen st) \<subseteq> set (ws_seen st') \<and> set (ws_atoms st) \<subseteq> set (ws_atoms st')
     \<and> set (ws_unclassified st) \<subseteq> set (ws_unclassified st')"

text \<open>
  The extension of a state by the contributions of positions from a set \<open>R\<close>: everything that
  is new comes from \<open>R\<close>, and every newly visited position is closed.
\<close>

definition extends :: "Model \<Rightarrow> position set \<Rightarrow> walk_state \<Rightarrow> walk_state \<Rightarrow> bool" where
  "extends m R st st' \<longleftrightarrow> grows st st'
     \<and> set (ws_atoms st') \<subseteq> set (ws_atoms st) \<union> (\<Union>q \<in> R. emits q)
     \<and> set (ws_unclassified st') \<subseteq> set (ws_unclassified st) \<union> (\<Union>q \<in> R. finds m q)
     \<and> (\<forall>q. pos_ok m q \<longrightarrow> key_of q \<in> set (ws_seen st') \<longrightarrow> key_of q \<notin> set (ws_seen st) \<longrightarrow> closed m q st')"

lemma grows_refl [simp]: "grows st st"
  by (simp add: grows_def)

lemma grows_trans [trans]: "grows a b \<Longrightarrow> grows b c \<Longrightarrow> grows a c"
  by (auto simp: grows_def)

lemma hit_mono: "hit m q st \<Longrightarrow> grows st st' \<Longrightarrow> hit m q st'"
  by (auto simp: hit_def grows_def split: if_splits)

lemma closed_mono: "closed m q st \<Longrightarrow> grows st st' \<Longrightarrow> closed m q st'"
  unfolding closed_def by (meson grows_def hit_mono subset_trans)

lemma extends_refl: "extends m R st st"
  by (simp add: extends_def)

lemma extends_grows: "extends m R st st' \<Longrightarrow> grows st st'"
  by (simp add: extends_def)

lemma extends_trans:
  assumes "extends m R a b" "extends m R b c"
  shows "extends m R a c"
proof -
  have "grows b c" using assms(2) by (rule extends_grows)
  have "closed m q c" if "pos_ok m q" "key_of q \<in> set (ws_seen c)" "key_of q \<notin> set (ws_seen a)" for q
  proof (cases "key_of q \<in> set (ws_seen b)")
    case True
    then have "closed m q b" using assms(1) that unfolding extends_def by blast
    then show ?thesis using \<open>grows b c\<close> by (rule closed_mono)
  next
    case False
    then show ?thesis using assms(2) that unfolding extends_def by blast
  qed
  moreover have "grows a c" using extends_grows [OF assms(1)] \<open>grows b c\<close> by (rule grows_trans)
  moreover have "set (ws_atoms c) \<subseteq> set (ws_atoms a) \<union> (\<Union>q \<in> R. emits q)"
    "set (ws_unclassified c) \<subseteq> set (ws_unclassified a) \<union> (\<Union>q \<in> R. finds m q)"
    using assms unfolding extends_def by blast+
  ultimately show ?thesis unfolding extends_def by blast
qed

lemma extends_subset: "extends m R st st' \<Longrightarrow> R \<subseteq> R' \<Longrightarrow> extends m R' st st'"
  unfolding extends_def by blast

lemma extends_unclassify:
  assumes "q \<in> R" "f \<in> finds m q"
  shows "extends m R st (unclassify f st)"
  using assms by (auto simp: extends_def grows_def unclassify_def)

text \<open>A loop extends the state when its body does; what every round establishes holds at the end.\<close>

lemma loop_extends:
  assumes "\<And>x s s'. x \<in> set xs \<Longrightarrow> body x s = Some s' \<Longrightarrow> extends m R s s' \<and> Q x s'"
    and "\<And>x s s'. Q x s \<Longrightarrow> grows s s' \<Longrightarrow> Q x s'"
    and "loop body xs st = Some st'"
  shows "extends m R st st' \<and> (\<forall>x \<in> set xs. Q x st')"
  using assms(1,3)
proof (induction xs arbitrary: st)
  case Nil
  then show ?case by (simp add: extends_refl)
next
  case (Cons x xs)
  from Cons.prems(2) obtain s where s: "body x st = Some s" "loop body xs s = Some st'" by (auto split: option.splits)
  have first: "extends m R st s \<and> Q x s" using Cons.prems(1) [OF _ s(1)] by simp
  have rest: "extends m R s st' \<and> (\<forall>y \<in> set xs. Q y st')"
    using Cons.IH [OF _ s(2)] Cons.prems(1) by (meson list.set_intros(2))
  show ?case using first rest assms(2) extends_trans extends_grows by (metis set_ConsD)
qed

definition handled :: "Model \<Rightarrow> position \<Rightarrow> dsl_term \<Rightarrow> walk_state \<Rightarrow> bool" where
  "handled m q tm st \<longleftrightarrow> (case q of (path, cur, rel) \<Rightarrow>
     term_findings m q tm \<subseteq> set (ws_unclassified st) \<and> (case tm of
       TermDirect ds raw \<Rightarrow> set (direct_atoms cur rel path ds raw) \<subseteq> set (ws_atoms st)
     | TermComputed c raw \<Rightarrow> hit m (path, cur, c) st
     | TermTTU x p raw \<Rightarrow> (\<forall>target \<in> set (PointerTargets (Rel cur p)). \<forall>tt. Model_Type m target = Some tt \<longrightarrow>
         hit m (path @ [target], tt, x) st)))"

lemma handled_mono: "handled m q tm st \<Longrightarrow> grows st st' \<Longrightarrow> handled m q tm st'"
  unfolding handled_def
  by (cases q; cases tm) (auto simp: grows_def intro: hit_mono [unfolded grows_def])

lemma handled_closed:
  assumes "length path \<le> MaxPointerDepth" "Rel cur rel = Some r" "\<forall>tm \<in> set (rel_Terms r). handled m (path, cur, rel) tm st"
  shows "closed m (path, cur, rel) st"
proof -
  have terms: "terms_at (path, cur, rel) = set (rel_Terms r)" using assms(1,2) by (simp add: terms_at_def)
  have "emits (path, cur, rel) \<subseteq> set (ws_atoms st)"
    using assms(3) unfolding emits_def terms handled_def by fastforce
  moreover have "finds m (path, cur, rel) \<subseteq> set (ws_unclassified st)"
    using assms unfolding finds_def terms handled_def by (auto simp: terms)
  moreover have "hit m q' st" if "step m (path, cur, rel) q'" for q'
    using that by (elim step_cases) (use assms(3) in \<open>fastforce simp: terms handled_def\<close>)+
  ultimately show ?thesis by (simp add: closed_def)
qed

abbreviation reach :: "Model \<Rightarrow> position \<Rightarrow> position set" where
  "reach m q \<equiv> {q'. (step m)\<^sup>*\<^sup>* q q'}"

lemma reach_step: "step m q q' \<Longrightarrow> reach m q' \<subseteq> reach m q"
  by (auto intro: converse_rtranclp_into_rtranclp)

text \<open>The round of one term.\<close>

lemma walk_term_extends:
  assumes IH: "\<And>cur rel path s s'. pos_ok m (path, cur, rel) \<Longrightarrow> rec cur rel path s = Some s' \<Longrightarrow>
      extends m (reach m (path, cur, rel)) s s' \<and> hit m (path, cur, rel) s'"
    and ok: "pos_ok m (path, cur, rel)" and tm: "tm \<in> terms_at (path, cur, rel)"
    and short: "length path \<le> MaxPointerDepth" "Rel cur rel = Some r"
    and run: "walk_term rec m cur rel path tm s = Some s'"
  shows "extends m (reach m (path, cur, rel)) s s' \<and> handled m (path, cur, rel) tm s'"
proof -
  let ?q = "(path, cur, rel)"
  have self: "?q \<in> reach m ?q" by simp
  have find: "term_findings m ?q tm \<subseteq> finds m ?q" using tm short by (auto simp: finds_def)
  have next_pos: "extends m (reach m ?q) a b \<and> hit m q' b"
    if "step m ?q q'" "rec (fst (snd q')) (snd (snd q')) (fst q') a = Some b" for q' a b
    using IH [of "fst q'" "fst (snd q')" "snd (snd q')" a b] pos_ok_step [OF that(1) ok] that
      extends_subset [OF _ reach_step [OF that(1)]] by auto
  show ?thesis
  proof (cases tm)
    case (TermDirect ds raw)
    then have "s' = walk_direct cur rel path ds raw s" using run by (simp add: walk_term_def)
    moreover have "set (direct_atoms cur rel path ds raw) \<subseteq> emits ?q" using tm TermDirect by (auto simp: emits_def)
    moreover have "set (direct_findings cur rel path ds) \<subseteq> finds m ?q" using find TermDirect by (simp add: term_findings_def)
    ultimately show ?thesis using self
      by (fastforce simp: extends_def grows_def handled_def term_findings_def walk_direct_def TermDirect)
  next
    case (TermComputed c raw)
    then have "step m ?q (path, cur, c)" using tm by (auto intro: step.computed)
    with run TermComputed next_pos [of "(path, cur, c)" s s'] show ?thesis
      by (simp add: walk_term_def handled_def term_findings_def)
  next
    case (TermTTU x p raw)
    show ?thesis
    proof (cases "PointerTargets (Rel cur p) = []")
      case True
      then have "\<exists>f. term_findings m ?q tm = {f} \<and> s' = unclassify f s"
        using run TermTTU by (auto simp: walk_term_def term_findings_def split: option.splits)
      then obtain f where f: "term_findings m ?q tm = {f}" "s' = unclassify f s" by blast
      then have "extends m (reach m ?q) s s'" using find self by (auto intro: extends_unclassify)
      with f True TermTTU show ?thesis by (simp add: handled_def unclassify_def)
    next
      case False
      let ?Q = "\<lambda>target b. (case Model_Type m target of
          None \<Rightarrow> PlanPointerToUndeclaredType (mt_Name cur) rel p target \<in> set (ws_unclassified b)
        | Some tt \<Rightarrow> hit m (path @ [target], tt, x) b)"
      have ptr: "Rel cur p \<noteq> None" using False by (cases "Rel cur p") (auto simp: PointerTargets_def)
      have round: "extends m (reach m ?q) a b \<and> ?Q target b"
        if "target \<in> set (PointerTargets (Rel cur p))" "walk_target rec m cur rel path x p target a = Some b" for target a b
      proof (cases "Model_Type m target")
        case None
        then have "PlanPointerToUndeclaredType (mt_Name cur) rel p target \<in> finds m ?q"
          using find that(1) ptr False TermTTU by (auto simp: term_findings_def)
        then show ?thesis using that(2) None self
          by (auto simp: walk_target_def unclassify_def [abs_def] intro: extends_unclassify [unfolded unclassify_def])
      next
        case (Some tt)
        then have "step m ?q (path @ [target], tt, x)" using tm TermTTU that(1) by (auto intro: step.ttu)
        then show ?thesis using next_pos [of "(path @ [target], tt, x)" a b] that(2) Some by (simp add: walk_target_def)
      qed
      have "loop (walk_target rec m cur rel path x p) (PointerTargets (Rel cur p)) s = Some s'"
        using run TermTTU False ptr by (auto simp: walk_term_def split: option.splits)
      moreover have "?Q target c" if "?Q target b" "grows b c" for target b c
        using that by (cases "Model_Type m target") (auto intro: hit_mono simp: grows_def subset_iff)
      ultimately have "extends m (reach m ?q) s s' \<and> (\<forall>target \<in> set (PointerTargets (Rel cur p)). ?Q target s')"
        by (intro loop_extends [where Q = ?Q] round)
      then show ?thesis using False ptr TermTTU
        by (fastforce simp: handled_def term_findings_def)
    qed
  qed
qed

lemma walk_extends:
  assumes "clean_types m" "pos_ok m (path, cur, rel)" "walk n m cur rel path st = Some st'"
  shows "extends m (reach m (path, cur, rel)) st st' \<and> hit m (path, cur, rel) st'"
  using assms(2,3)
proof (induction n arbitrary: cur rel path st st')
  case 0
  then show ?case by simp
next
  case (Suc n)
  let ?q = "(path, cur, rel)"
  let ?marked = "st\<lparr>ws_seen := walk_key path cur rel # ws_seen st\<rparr>"
  have self: "?q \<in> reach m ?q" by simp
  show ?case
  proof (cases "length path > MaxPointerDepth")
    case True
    then have st': "st' = unclassify (ChainTooDeep (mt_Name cur) rel) st" using Suc.prems(2) by simp
    have find: "finds m ?q = {ChainTooDeep (mt_Name cur) rel}" using True by (simp add: finds_def)
    show ?thesis unfolding st' using extends_unclassify [OF self, of _ m st] find True
      by (simp add: hit_def unclassify_def)
  next
    case short: False
    show ?thesis
    proof (cases "walk_key path cur rel \<in> set (ws_seen st)")
      case True
      then show ?thesis using Suc.prems(2) short by (simp add: extends_refl hit_def)
    next
      case new: False
      have run: "extends m (reach m ?q) ?marked st' \<and> closed m ?q st'"
      proof (cases "Rel cur rel")
        case None
        have find: "finds m ?q = {RelationUndeclared (mt_Name cur) rel}" using None short by (simp add: finds_def)
        have no_terms: "terms_at ?q = {}" using None short by (simp add: terms_at_def)
        then have no_step: "\<not> step m ?q q'" for q' by (auto elim: step_cases)
        have "st' = unclassify (RelationUndeclared (mt_Name cur) rel) ?marked"
          using Suc.prems(2) None short new by simp
        then show ?thesis using extends_unclassify [OF self, of _ m ?marked] find no_terms no_step
          by (simp add: closed_def emits_def unclassify_def)
      next
        case (Some r)
        have terms: "terms_at ?q = set (rel_Terms r)" using Some short by (simp add: terms_at_def)
        have body: "loop (walk_term (walk n m) m cur rel path) (rel_Terms r) ?marked = Some st'"
          using Suc.prems(2) Some short new by simp
        have round: "extends m (reach m ?q) s s' \<and> handled m ?q tm s'"
          if "tm \<in> set (rel_Terms r)" "walk_term (walk n m) m cur rel path tm s = Some s'" for tm s s'
          using walk_term_extends [OF Suc.IH Suc.prems(1) _ _ Some that(2)] that(1) terms short by simp
        have "extends m (reach m ?q) ?marked st' \<and> (\<forall>tm \<in> set (rel_Terms r). handled m ?q tm st')"
          using round handled_mono body by (rule loop_extends)
        then show ?thesis using handled_closed [of path cur rel r m st'] Some short by simp
      qed
      have key: "walk_key path cur rel \<in> set (ws_seen st')"
        using run by (auto simp: extends_def grows_def)
      have "closed m q st'" if "pos_ok m q" "key_of q \<in> set (ws_seen st')" "key_of q \<notin> set (ws_seen st)" for q
      proof (cases "key_of q = walk_key path cur rel")
        case True
        then have "q = ?q" using key_inj [OF assms(1) that(1) Suc.prems(1)] by simp
        then show ?thesis using run by simp
      next
        case False
        then show ?thesis using run that unfolding extends_def by (cases q) simp
      qed
      then have "extends m (reach m ?q) st st'" using run unfolding extends_def grows_def by simp
      then show ?thesis using key short by (simp add: hit_def)
    qed
  qed
qed

text \<open>From an empty state, the walk visits everything that is reachable and records all of it.\<close>

lemma walk_complete:
  assumes "clean_types m" "pos_ok m q0" "q0 = (path, cur, rel)" "walk n m cur rel path st = Some st'" "ws_seen st = []"
    and "(step m)\<^sup>*\<^sup>* q0 q"
  shows "pos_ok m q \<and> hit m q st' \<and> emits q \<subseteq> set (ws_atoms st') \<and> finds m q \<subseteq> set (ws_unclassified st')"
proof -
  have ext: "extends m (reach m q0) st st' \<and> hit m q0 st'" using walk_extends assms(1-4) by blast
  have visited: "closed m p st'" if "pos_ok m p" "hit m p st'" "length (fst p) \<le> MaxPointerDepth" for p
    using ext that assms(5) by (cases p) (auto simp: extends_def hit_def)
  have deep: "emits p = {} \<and> (\<forall>p'. \<not> step m p p')" if "length (fst p) > MaxPointerDepth" for p
    using that by (cases p) (auto simp: emits_def terms_at_def elim: step_cases)
  have "pos_ok m q \<and> hit m q st'"
    using assms(6)
  proof (induction rule: rtranclp_induct)
    case base
    then show ?case using ext assms(2) by simp
  next
    case (step p p')
    then have "length (fst p) \<le> MaxPointerDepth" using deep not_le by blast
    with step visited have "closed m p st'" by blast
    with step show ?case using pos_ok_step unfolding closed_def by blast
  qed
  then show ?thesis
    using visited [of q] deep [of q] by (cases "length (fst q) > MaxPointerDepth") (auto simp: closed_def hit_def)
qed

subsection \<open>The plan is exact\<close>

lemma dedup_atoms_keys: "atom_key ` set (dedup_atoms seen as) = atom_key ` set as - set seen"
  by (induction as arbitrary: seen) auto

lemma dedup_atoms_subset: "set (dedup_atoms seen as) \<subseteq> set as"
  by (induction as arbitrary: seen) auto

lemma dedup_atoms_distinct: "distinct (map atom_key (dedup_atoms seen as))"
  by (induction as arbitrary: seen) (auto simp: dedup_atoms_keys)

lemma start_ok: "Model_Type m ty = Some t \<Longrightarrow> pos_ok m ([], t, rel)"
  by (auto simp: pos_ok_def dest: Model_Type_ok)

lemma Compile_walk:
  assumes "Compile txt m ty rel = Inr p"
  obtains t st where "Model_Type m ty = Some t" and "Rel t rel \<noteq> None"
    and "walk (walk_fuel m) m t rel [] \<lparr>ws_atoms = [], ws_conditioned = [], ws_unclassified = [], ws_seen = []\<rparr> = Some st"
    and "plan_Atoms p = dedup_atoms [] (ws_atoms st)" and "set (plan_Unclassified p) = set (ws_unclassified st)"
  using assms by (auto simp: Compile_def split: option.splits if_splits)

lemma Compile_ok:
  assumes "Model_Type m ty = Some t" and "Rel t rel \<noteq> None"
  shows "\<exists>p. Compile txt m ty rel = Inr p \<and> plan_Type p = ty \<and> plan_Relation p = rel"
proof -
  let ?st = "\<lparr>ws_atoms = [], ws_conditioned = [], ws_unclassified = [], ws_seen = []\<rparr>"
  have mem: "t \<in> set (mod_Types m)" using assms(1) Model_Type_mem by blast
  then have "walk_need m t [] ?st < walk_fuel m"
    using unseen_le [OF mem, of "[]" ?st] by (simp add: walk_need_def walk_fuel_def)
  from walk_enough_fuel [OF mem this, of rel] obtain st' where "walk (walk_fuel m) m t rel [] ?st = Some st'" by blast
  with assms show ?thesis by (auto simp: Compile_def)
qed

text \<open>
  C33: compilation always ends with an answer. For every model, a declared type and a declared
  relation of it give a plan, an undeclared type gives the dedicated refusal and an undeclared
  relation the other one; the fuel of the walk is never exhausted.
\<close>

theorem Compile_total:
  "case Model_Type m ty of
       None \<Rightarrow> Compile txt m ty rel = Inl (ErrTypeNotDeclared ty)
     | Some t \<Rightarrow>
         if Rel t rel = None then Compile txt m ty rel = Inl (RelationNotDeclared ty rel)
         else \<exists>p. Compile txt m ty rel = Inr p \<and> plan_Type p = ty \<and> plan_Relation p = rel"
  using Compile_ok by (auto simp: Compile_def split: option.split)

text \<open>
  C27: the plan is exact. On a model whose type names are not empty and contain neither a slash
  nor a bar, the keys of the atoms of a compiled plan are exactly the keys of what the
  positions reachable from the asked relation contribute, each once, and the findings are
  exactly the findings at these positions, the chains that are too deep included.
\<close>

theorem Compile_exact:
  assumes "clean_types m" and "Compile txt m ty rel = Inr p" and "Model_Type m ty = Some t"
  shows "atom_key ` set (plan_Atoms p) = atom_key ` (\<Union>q \<in> reach m ([], t, rel). emits q)
    \<and> distinct (map atom_key (plan_Atoms p))
    \<and> set (plan_Unclassified p) = (\<Union>q \<in> reach m ([], t, rel). finds m q)"
proof -
  from assms(2,3) obtain st where run: "walk (walk_fuel m) m t rel []
      \<lparr>ws_atoms = [], ws_conditioned = [], ws_unclassified = [], ws_seen = []\<rparr> = Some st"
    and p: "plan_Atoms p = dedup_atoms [] (ws_atoms st)" "set (plan_Unclassified p) = set (ws_unclassified st)"
    by (auto elim: Compile_walk)
  note ok = start_ok [OF assms(3), of rel]
  have "extends m (reach m ([], t, rel)) \<lparr>ws_atoms = [], ws_conditioned = [], ws_unclassified = [], ws_seen = []\<rparr> st"
    using walk_extends [OF assms(1) ok run] by blast
  then have sound: "set (ws_atoms st) \<subseteq> (\<Union>q \<in> reach m ([], t, rel). emits q)"
    "set (ws_unclassified st) \<subseteq> (\<Union>q \<in> reach m ([], t, rel). finds m q)"
    by (simp_all add: extends_def)
  have "emits q \<subseteq> set (ws_atoms st) \<and> finds m q \<subseteq> set (ws_unclassified st)" if "q \<in> reach m ([], t, rel)" for q
    using walk_complete [OF assms(1) ok refl run] that by simp
  with sound have "set (ws_atoms st) = (\<Union>q \<in> reach m ([], t, rel). emits q)"
    "set (ws_unclassified st) = (\<Union>q \<in> reach m ([], t, rel). finds m q)" by blast+
  then show ?thesis by (simp add: p dedup_atoms_keys dedup_atoms_distinct)
qed

definition sample_subject :: "string \<Rightarrow> DirectSubject" where
  "sample_subject t = \<lparr>ds_Type = t, ds_Wildcard = False, ds_Object = [], ds_Userset = [], ds_Condition = []\<rparr>"

definition sample_account :: ModelType where
  "sample_account = \<lparr>mt_Name = ''account'', mt_Relations =
     [\<lparr>rel_Name = ''owner'', rel_Terms = [TermDirect [sample_subject ''user''] ''[user]''], rel_Raw = ''[user]'', rel_Line = 3\<rparr>]\<rparr>"

definition sample_project :: ModelType where
  "sample_project = \<lparr>mt_Name = ''project'', mt_Relations =
     [\<lparr>rel_Name = ''account'', rel_Terms = [TermDirect [sample_subject ''account''] ''[account]''], rel_Raw = ''[account]'', rel_Line = 6\<rparr>,
      \<lparr>rel_Name = ''owner'', rel_Terms = [TermTTU ''owner'' ''account'' ''owner from account''], rel_Raw = ''owner from account'', rel_Line = 7\<rparr>]\<rparr>"

definition sample_model :: Model where
  "sample_model = \<lparr>mod_Types = [\<lparr>mt_Name = ''user'', mt_Relations = []\<rparr>, sample_account, sample_project], mod_Conditions = []\<rparr>"

lemma sample_model_facts:
  "clean_types sample_model" "Model_Type sample_model ''project'' = Some sample_project"
  "Model_Type sample_model ''account'' = Some sample_account" "Rel sample_project ''owner'' \<noteq> None"
  "is_ok (Compile (\<lambda>_. []) sample_model ''project'' ''owner'')"
  "Expressible (projr (Compile (\<lambda>_. []) sample_model ''project'' ''owner''))"
  by code_simp+

lemma sample_plan: "Compile (\<lambda>_. []) sample_model ''project'' ''owner'' = Inr (projr (Compile (\<lambda>_. []) sample_model ''project'' ''owner''))"
  using sample_model_facts(5) by (rule is_ok_projr)

theorem Compile_exact_witness:
  "set (plan_Unclassified (projr (Compile (\<lambda>_. []) sample_model ''project'' ''owner'')))
   = (\<Union>q \<in> reach sample_model ([], sample_project, ''owner''). finds sample_model q)"
  using Compile_exact [OF sample_model_facts(1) sample_plan sample_model_facts(2)] by blast

subsection \<open>A plan without findings misses no source\<close>

text \<open>
  The meaning of the model, independent of compilation: a relation holds on an object when it
  can be derived from a direct fact, through relations of the same object and through
  pointers to other objects. \<open>points obj p obj'\<close> are the pointer facts of a store; the last
  two arguments of \<open>derives\<close> are the object and the relation of the direct fact, the number
  counts the pointers followed.
\<close>

type_synonym object = "string \<times> string"

inductive derives :: "Model \<Rightarrow> (object \<Rightarrow> string \<Rightarrow> object \<Rightarrow> bool) \<Rightarrow> nat \<Rightarrow> object \<Rightarrow> string \<Rightarrow> object \<Rightarrow> string \<Rightarrow> bool"
  for m points where
  direct: "Model_Type m (fst obj) = Some t \<Longrightarrow> Rel t rel = Some r \<Longrightarrow> TermDirect ds raw \<in> set (rel_Terms r) \<Longrightarrow>
    derives m points 0 obj rel obj rel"
| computed: "Model_Type m (fst obj) = Some t \<Longrightarrow> Rel t rel = Some r \<Longrightarrow> TermComputed c raw \<in> set (rel_Terms r) \<Longrightarrow>
    derives m points k obj c src rel0 \<Longrightarrow> derives m points k obj rel src rel0"
| pointer: "Model_Type m (fst obj) = Some t \<Longrightarrow> Rel t rel = Some r \<Longrightarrow> TermTTU x p raw \<in> set (rel_Terms r) \<Longrightarrow>
    points obj p obj' \<Longrightarrow> fst obj' \<in> set (PointerTargets (Rel t p)) \<Longrightarrow>
    derives m points k obj' x src rel0 \<Longrightarrow> derives m points (Suc k) obj rel src rel0"

lemma no_finding_short: "finds m (path, t, rel) = {} \<Longrightarrow> length path \<le> MaxPointerDepth"
  by (auto simp: finds_def split: if_splits)

text \<open>Every derivation follows a path of positions, as long as no chain is too deep.\<close>

lemma derives_reach:
  assumes "derives m points k obj rel src rel0" and "Model_Type m (fst obj) = Some t"
    and "(step m)\<^sup>*\<^sup>* q0 (path, t, rel)" and "path \<noteq> [] \<longrightarrow> last path = fst obj"
    and "\<forall>q \<in> reach m q0. finds m q = {}"
  shows "\<exists>path' t' raw ds. (step m)\<^sup>*\<^sup>* q0 (path', t', rel0) \<and> TermDirect ds raw \<in> terms_at (path', t', rel0)
    \<and> length path' = length path + k \<and> (path' \<noteq> [] \<longrightarrow> last path' = fst src)"
  using assms(1-4)
proof (induction arbitrary: t path rule: derives.induct)
  case (direct obj t' rel r ds raw)
  have short: "length path \<le> MaxPointerDepth" using direct.prems(2) assms(5) by (blast intro: no_finding_short)
  have "TermDirect ds raw \<in> terms_at (path, t, rel)" using short direct.hyps direct.prems(1) by (simp add: terms_at_def)
  with direct.prems(2,3) show ?case by (intro exI [of _ path] exI [of _ t]) auto
next
  case (computed obj t' rel r c raw k src rel0)
  have short: "length path \<le> MaxPointerDepth" using computed.prems(2) assms(5) by (blast intro: no_finding_short)
  then have "TermComputed c raw \<in> terms_at (path, t, rel)"
    using computed.hyps(1-3) computed.prems(1) by (simp add: terms_at_def)
  from computed.prems(2) step.computed [OF this] have "(step m)\<^sup>*\<^sup>* q0 (path, t, c)" by (rule rtranclp.rtrancl_into_rtrancl)
  from computed.IH [OF computed.prems(1) this computed.prems(3)] show ?case .
next
  case (pointer obj t' rel r x p raw obj' k src rel0)
  have short: "length path \<le> MaxPointerDepth" using pointer.prems(2) assms(5) by (blast intro: no_finding_short)
  then have tm: "TermTTU x p raw \<in> terms_at (path, t, rel)"
    using pointer.hyps(1-3) pointer.prems(1) by (simp add: terms_at_def)
  have target: "fst obj' \<in> set (PointerTargets (Rel t p))" using pointer.hyps(1,5) pointer.prems(1) by simp
  obtain t2 where t2: "Model_Type m (fst obj') = Some t2"
    using pointer.hyps(6) by (cases rule: derives.cases) auto
  have "(step m)\<^sup>*\<^sup>* q0 (path @ [fst obj'], t2, x)"
    using pointer.prems(2) step.ttu [OF tm target t2] by (rule rtranclp.rtrancl_into_rtrancl)
  from pointer.IH [OF t2 this] show ?case by auto
qed

lemma emits_parent_clean:
  assumes "clean_types m" "pos_ok m q" "a \<in> emits q"
  shows "CHR ''|'' \<notin> set (atom_ParentType a)"
proof -
  obtain path cur rel where q: "q = (path, cur, rel)" by (cases q)
  with assms(3) have "atom_ParentType a = [] \<or> path \<noteq> [] \<and> atom_ParentType a = last path"
    by (auto simp: emits_def direct_atoms_def parent_of_def split: if_splits)
  moreover have "last path \<in> set (TypeNames m)" if "path \<noteq> []"
    using assms(2) that last_in_set q by (auto simp: pos_ok_def)
  ultimately show ?thesis using assms(1) by (auto simp: clean_types_def list_all_iff)
qed

lemma atom_key_inj:
  assumes "CHR ''|'' \<notin> set (atom_ParentType a)" "CHR ''|'' \<notin> set (atom_ParentType b)" "atom_key a = atom_key b"
  shows "atom_Kind a = atom_Kind b \<and> atom_ParentType a = atom_ParentType b \<and> atom_Relation a = atom_Relation b"
proof -
  have "atom_Kind a = atom_Kind b
      \<and> atom_ParentType a @ CHR ''|'' # atom_Relation a = atom_ParentType b @ CHR ''|'' # atom_Relation b"
    using assms(3) by (cases "atom_Kind a"; cases "atom_Kind b") (simp_all add: atom_key_def)
  then show ?thesis using bar_split [OF assms(1,2)] by blast
qed

text \<open>
  C26: a plan without findings misses no source. Whatever the store of pointers, if a relation
  on an object can be derived from a direct fact, then the expressible plan of that relation
  has a fact atom for it: on the object itself when no pointer is followed, and on the type of
  the object that carries the fact otherwise. No right that the model grants is lost.
\<close>

theorem expressible_plan_misses_nothing:
  assumes "clean_types m" and "Compile txt m ty rel = Inr p" and "Expressible p"
    and "derives m points k (ty, i) rel src rel0"
  shows "\<exists>a \<in> set (plan_Atoms p). atom_Kind a = AtomFact \<and> atom_Relation a = rel0
    \<and> atom_ParentType a = (if k = 0 then [] else fst src)"
proof -
  from assms(2) obtain t st where t: "Model_Type m ty = Some t"
    and run: "walk (walk_fuel m) m t rel [] \<lparr>ws_atoms = [], ws_conditioned = [], ws_unclassified = [], ws_seen = []\<rparr> = Some st"
    and p: "plan_Atoms p = dedup_atoms [] (ws_atoms st)" "set (plan_Unclassified p) = set (ws_unclassified st)"
    by (rule Compile_walk)
  note complete = walk_complete [OF assms(1) start_ok [OF t, of rel] refl run]
  have "ws_unclassified st = []" using assms(3) p(2) by (simp add: Expressible_def)
  then have none: "\<forall>q \<in> reach m ([], t, rel). finds m q = {}" using complete by fastforce
  obtain path cur ds raw where pos: "(step m)\<^sup>*\<^sup>* ([], t, rel) (path, cur, rel0)"
    and tm: "TermDirect ds raw \<in> terms_at (path, cur, rel0)" and len: "length path = k"
    and parent: "path \<noteq> [] \<longrightarrow> last path = fst src"
    using derives_reach [OF assms(4), of t "([], t, rel)" "[]"] t none by auto
  let ?a = "\<lparr>atom_Kind = AtomFact, atom_ParentType = parent_of path, atom_Relation = rel0,
      atom_Origin = mt_Name cur @ ''.'' @ rel0 @ arrow @ raw\<rparr>"
  have emitted: "?a \<in> emits (path, cur, rel0)" using tm by (force simp: emits_def direct_atoms_def)
  then have "?a \<in> set (ws_atoms st)" using complete [OF _ pos] by auto
  then have "atom_key ?a \<in> atom_key ` set (plan_Atoms p)" by (auto simp: p dedup_atoms_keys)
  then obtain a where a: "a \<in> set (plan_Atoms p)" "atom_key a = atom_key ?a" by auto
  have "a \<in> set (ws_atoms st)" using a(1) dedup_atoms_subset unfolding p by blast
  moreover have "set (ws_atoms st) \<subseteq> (\<Union>q \<in> reach m ([], t, rel). emits q)"
    using walk_extends [OF assms(1) start_ok [OF t] run] by (simp add: extends_def)
  ultimately obtain q where q: "(step m)\<^sup>*\<^sup>* ([], t, rel) q" "a \<in> emits q" by blast
  have "CHR ''|'' \<notin> set (atom_ParentType a)"
    using emits_parent_clean [OF assms(1) _ q(2)] complete [OF _ q(1)] by simp
  moreover have "CHR ''|'' \<notin> set (atom_ParentType ?a)"
    using emits_parent_clean [OF assms(1) _ emitted] complete [OF _ pos] by simp
  ultimately have "atom_Kind a = AtomFact \<and> atom_ParentType a = parent_of path \<and> atom_Relation a = rel0"
    using atom_key_inj [OF _ _ a(2)] by simp
  moreover have "parent_of path = (if k = 0 then [] else fst src)" using len parent by (auto simp: parent_of_def)
  ultimately have "atom_Kind a = AtomFact \<and> atom_Relation a = rel0 \<and> atom_ParentType a = (if k = 0 then [] else fst src)"
    by (simp only: simp_thms)
  with a(1) show ?thesis by (rule bexI [rotated])
qed

theorem expressible_plan_misses_nothing_witness:
  "\<exists>a. a \<in> set (plan_Atoms (projr (Compile (\<lambda>_. []) sample_model ''project'' ''owner'')))
     \<and> atom_Kind a = AtomFact \<and> atom_Relation a = ''owner'' \<and> atom_ParentType a = ''account''"
proof -
  let ?points = "\<lambda>obj p obj'. obj = (''project'', ''prj1'') \<and> p = ''account'' \<and> obj' = (''account'', ''acc1'')"
  have rels: "Rel sample_account ''owner'' = Some (hd (mt_Relations sample_account))"
    "Rel sample_project ''owner'' = Some (last (mt_Relations sample_project))"
    "PointerTargets (Rel sample_project ''account'') = [''account'']" by code_simp+
  have tms: "TermDirect [sample_subject ''user''] ''[user]'' \<in> set (rel_Terms (hd (mt_Relations sample_account)))"
    "TermTTU ''owner'' ''account'' ''owner from account'' \<in> set (rel_Terms (last (mt_Relations sample_project)))" by code_simp+
  have "derives sample_model ?points 0 (''account'', ''acc1'') ''owner'' (''account'', ''acc1'') ''owner''"
    by (rule derives.direct [OF _ rels(1) tms(1)]) (simp add: sample_model_facts(3))
  then have holds: "derives sample_model ?points (Suc 0) (''project'', ''prj1'') ''owner'' (''account'', ''acc1'') ''owner''"
    by (rule derives.pointer [OF _ rels(2) tms(2), rotated 3]) (simp_all add: sample_model_facts(2) rels(3))
  show ?thesis
    using expressible_plan_misses_nothing [OF sample_model_facts(1) sample_plan sample_model_facts(6) holds] by auto
qed

subsection \<open>Plans of accepted models\<close>

lemma accepted_term:
  assumes "ParseModel dsl = Inr m" "cur \<in> set (mod_Types m)" "tm \<in> terms_at (path, cur, rel)"
  shows "\<exists>r. check_term m cur r tm = []"
proof -
  obtain r where "Rel cur rel = Some r" "tm \<in> set (rel_Terms r)"
    using assms(3) by (auto simp: terms_at_def split: if_splits option.splits)
  then show ?thesis using validate_model_ok [OF ParseModel_Inr(3) [OF assms(1)] assms(2)] Rel_mem by blast
qed

lemma check_term_TTU:
  "check_term m t r (TermTTU x p raw) = [] \<longleftrightarrow> Rel t p \<noteq> None
     \<and> (\<forall>target \<in> set (PointerTargets (Rel t p)). \<exists>tt. Model_Type m target = Some tt \<and> Rel tt x \<noteq> None)"
  by (auto simp: check_term_def split: option.splits if_splits) (metis not_None_eq)

text \<open>The relations the walk asks for are declared.\<close>

definition asked_declared :: "Model \<Rightarrow> position \<Rightarrow> bool" where
  "asked_declared m q = (case q of (path, cur, rel) \<Rightarrow> cur \<in> set (mod_Types m) \<and> Rel cur rel \<noteq> None)"

lemma asked_declared_step:
  assumes "ParseModel dsl = Inr m" "step m q q'" "asked_declared m q"
  shows "asked_declared m q'"
  using assms(2,3)
proof (cases rule: step.cases)
  case (computed c raw path cur rel)
  with assms(3) accepted_term [OF assms(1), of cur "TermComputed c raw" path rel] show ?thesis
    by (auto simp: asked_declared_def check_term_def split: if_splits)
next
  case (ttu x p raw path cur rel target tt)
  then obtain r where "check_term m cur r (TermTTU x p raw) = []"
    using assms(3) accepted_term [OF assms(1), of cur "TermTTU x p raw" path rel] by (auto simp: asked_declared_def)
  then have "\<forall>target \<in> set (PointerTargets (Rel cur p)). \<forall>tt. Model_Type m target = Some tt \<longrightarrow> Rel tt x \<noteq> None"
    by (fastforce simp: check_term_TTU)
  with ttu show ?thesis using Model_Type_mem by (auto simp: asked_declared_def)
qed

lemma accepted_position_findings:
  assumes "ParseModel dsl = Inr m" "asked_declared m q" "f \<in> finds m q"
  shows "(\<exists>t r. f = ChainTooDeep t r) \<or> (\<exists>t r cs. f = ConditionOnVerb t r cs) \<or> (\<exists>t r a. f = VerbOfAncestor t r a)
    \<or> (\<exists>t r p. f = PointerLeadsNowhere t r p)"
proof -
  obtain path cur rel where q: "q = (path, cur, rel)" by (cases q)
  consider "f = ChainTooDeep (mt_Name cur) rel" | tm where "tm \<in> terms_at q" "f \<in> term_findings m q tm"
    using assms(2,3) by (auto simp: q finds_def asked_declared_def split: if_splits)
  then show ?thesis
  proof cases
    case 2
    then obtain r where ok: "check_term m cur r tm = []"
      using assms(2) accepted_term [OF assms(1), of cur tm path rel] by (auto simp: q asked_declared_def)
    show ?thesis
    proof (cases tm)
      case (TermDirect ds raw)
      then show ?thesis using 2 by (auto simp: q term_findings_def direct_findings_def Let_def split: if_splits)
    next
      case (TermComputed c raw)
      then show ?thesis using 2 by (simp add: q term_findings_def)
    next
      case (TermTTU x p raw)
      then have "Rel cur p \<noteq> None" "\<forall>target \<in> set (PointerTargets (Rel cur p)). Model_Type m target \<noteq> None"
        using ok by (fastforce simp: check_term_TTU)+
      then show ?thesis using 2 TermTTU by (auto simp: q term_findings_def split: if_splits)
    qed
  qed blast
qed

text \<open>
  what an accepted model can leave unexpressed. For a model that the parser accepts, a plan
  never meets an undeclared relation, pointer or type: its only findings are a chain of
  pointers deeper than the limit, a condition on the direct list of a verb, a verb derived
  from the verb of an ancestor, and a pointer relation without direct targets.
\<close>

theorem accepted_model_findings:
  assumes "ParseModel dsl = Inr m" and "clean_types m" and "Compile txt m ty rel = Inr p" and "f \<in> set (plan_Unclassified p)"
  shows "(\<exists>t r. f = ChainTooDeep t r) \<or> (\<exists>t r cs. f = ConditionOnVerb t r cs) \<or> (\<exists>t r a. f = VerbOfAncestor t r a)
    \<or> (\<exists>t r q. f = PointerLeadsNowhere t r q)"
proof -
  from assms(3) obtain t st where t: "Model_Type m ty = Some t" "Rel t rel \<noteq> None"
    and run: "walk (walk_fuel m) m t rel [] \<lparr>ws_atoms = [], ws_conditioned = [], ws_unclassified = [], ws_seen = []\<rparr> = Some st"
    and p: "set (plan_Unclassified p) = set (ws_unclassified st)"
    by (rule Compile_walk)
  have "set (ws_unclassified st) \<subseteq> (\<Union>q \<in> reach m ([], t, rel). finds m q)"
    using walk_extends [OF assms(2) start_ok [OF t(1)] run] by (simp add: extends_def)
  then obtain q where q: "(step m)\<^sup>*\<^sup>* ([], t, rel) q" "f \<in> finds m q" using assms(4) p by blast
  have "asked_declared m q"
    using q(1)
  proof (induction rule: rtranclp_induct)
    case base
    then show ?case using t Model_Type_mem by (auto simp: asked_declared_def)
  next
    case (step y z)
    then show ?case using asked_declared_step [OF assms(1)] by blast
  qed
  then show ?thesis by (rule accepted_position_findings [OF assms(1) _ q(2)])
qed

definition sample_dsl :: string where
  "sample_dsl = ''type user'' @ [CHR 0x0A] @ ''type account'' @ [CHR 0x0A] @ ''relations'' @ [CHR 0x0A]
     @ ''define v_get: [user with mfa]''"

theorem accepted_model_findings_witness:
  "\<exists>f t r cs. f \<in> set (plan_Unclassified (projr (Compile (\<lambda>_. []) (projr (ParseModel sample_dsl)) ''account'' ''v_get'')))
     \<and> f = ConditionOnVerb t r cs"
proof -
  let ?m = "projr (ParseModel sample_dsl)"
  let ?p = "projr (Compile (\<lambda>_. []) ?m ''account'' ''v_get'')"
  have "is_ok (ParseModel sample_dsl)" "is_ok (Compile (\<lambda>_. []) ?m ''account'' ''v_get'')" by code_simp+
  note ok = this [THEN is_ok_projr]
  have clean: "clean_types ?m" by code_simp
  have f: "ConditionOnVerb ''account'' ''v_get'' [''mfa''] \<in> set (plan_Unclassified ?p)" by code_simp
  show ?thesis using f accepted_model_findings [OF ok(1) clean ok(2) f] by blast
qed

end
