(* ===== verification/Signing_Keys.thy ===== *)
theory Signing_Keys
  imports Kaname_Prelude "HOL-Library.Word" "HOL-Library.Product_Lexorder"
begin

text \<open>
  The signing keys of the platform: the stored record and its states, the ports of the key
  store with the table that implements them, and the keystore that drives a key through its
  life.

  Sources: \<open>internal/domain/signing_key.go\<close>, \<open>internal/apps/kaname/api/signingkeys/keystore.go\<close>
  and \<open>internal/repo/kaname/pg/signing_key_repo.go\<close> (with the table and its constraints in
  \<open>internal/migrations/0001_initial.sql\<close>).

  The two Go interfaces \<open>KeyReader\<close> and \<open>KeyWriter\<close> are the record \<open>key_port\<close> of functions on a
  store of any type. The keystore runs in an environment that gives, for every call to the
  store, the clock, what other replicas did before the call, and whether the call fails:
  without effect, or after its effect was committed. Key material, key identifiers and the
  wrapping of the private half come from the environment too. The end of a call by its
  context shows as failing calls and as the answer \<open>e_ended\<close>. Log lines are left out.
\<close>

subsection \<open>Keys\<close>

datatype SigningKeyState =
  SigningKeyPublished | SigningKeyActive | SigningKeyRetired | SigningKeyRemoved | SigningKeyCompromised

definition InKeySet :: "SigningKeyState \<Rightarrow> bool" where
  "InKeySet s \<longleftrightarrow> s \<in> {SigningKeyPublished, SigningKeyActive, SigningKeyRetired}"

definition CanActivate :: "SigningKeyState \<Rightarrow> bool" where
  "CanActivate s \<longleftrightarrow> s = SigningKeyPublished \<or> s = SigningKeyActive"

definition kidPattern :: "nat \<Rightarrow> string \<Rightarrow> bool" where
  \<comment> \<open>\<open>^[A-Za-z0-9._:-]{1,n}$\<close>; the limit is declared by the token policy package\<close>
  "kidPattern n s \<longleftrightarrow> 1 \<le> length s \<and> length s \<le> n
     \<and> list_all (\<lambda>c. is_lower c \<or> is_upper c \<or> is_digit c \<or> c \<in> set ''._:-'') s"

definition KeyID_Validate :: "nat \<Rightarrow> string \<Rightarrow> bool" where
  "KeyID_Validate n k = kidPattern n k"

definition ParseSigningAlgorithm :: "string list \<Rightarrow> string \<Rightarrow> string option" where
  \<comment> \<open>the closed vocabulary is declared by the token policy package\<close>
  "ParseSigningAlgorithm vocabulary raw = List.find (\<lambda>a. a = raw) vocabulary"

record SigningKeyRecord =
  KID :: string
  Algorithm :: string
  key_State :: SigningKeyState
  PublicKeyPEM :: string
  PrivateKeyWrapped :: string
  CreatedAt :: instant
  NotAfter :: instant
  ActivatedAt :: "instant option"
  RetiredAt :: "instant option"
  RemovedAt :: "instant option"
  CompromisedAt :: "instant option"

record PublishedKey =
  pub_KID :: string
  pub_Algorithm :: string
  pub_PublicKeyPEM :: string

definition Published :: "SigningKeyRecord \<Rightarrow> PublishedKey" where
  "Published r = \<lparr>pub_KID = KID r, pub_Algorithm = Algorithm r, pub_PublicKeyPEM = PublicKeyPEM r\<rparr>"

subsection \<open>The ports\<close>

datatype store_error = ErrNotFound | ErrFailedPrecondition | ErrInvalidArg | ErrConstraint | ErrStorage

record 's key_port =
  p_Get :: "string \<Rightarrow> 's \<Rightarrow> (store_error, SigningKeyRecord) result"
  p_Active :: "'s \<Rightarrow> (store_error, SigningKeyRecord) result"
  p_KeySet :: "'s \<Rightarrow> SigningKeyRecord list"
  p_Insert :: "SigningKeyRecord \<Rightarrow> 's \<Rightarrow> store_error option \<times> 's"
  p_Activate :: "string \<Rightarrow> instant \<Rightarrow> 's \<Rightarrow> store_error option \<times> 's"
  p_ReplaceActive :: "string \<Rightarrow> string \<Rightarrow> instant \<Rightarrow> 's \<Rightarrow> store_error option \<times> 's"
  p_Retire :: "string \<Rightarrow> instant \<Rightarrow> 's \<Rightarrow> store_error option \<times> 's"
  p_Remove :: "string \<Rightarrow> instant \<Rightarrow> 's \<Rightarrow> store_error option \<times> 's"
  p_Compromise :: "string \<Rightarrow> instant \<Rightarrow> 's \<Rightarrow> store_error option \<times> 's"

subsection \<open>The table\<close>

type_synonym key_table = "SigningKeyRecord list"

text \<open>The check constraints of a row.\<close>

definition values_ok :: "SigningKeyRecord \<Rightarrow> bool" where
  "values_ok r \<longleftrightarrow> Algorithm r \<in> {''RS256'', ''ES256'', ''EdDSA''} \<and> kidPattern 128 (KID r) \<and> NotAfter r > CreatedAt r
     \<and> 1 \<le> length (PrivateKeyWrapped r) \<and> length (PrivateKeyWrapped r) \<le> 32768
     \<and> 1 \<le> length (PublicKeyPEM r) \<and> length (PublicKeyPEM r) \<le> 16384"

definition row_ok :: "SigningKeyRecord \<Rightarrow> bool" where
  "row_ok r \<longleftrightarrow> values_ok r
     \<and> (case key_State r of
          SigningKeyPublished \<Rightarrow> ActivatedAt r = None \<and> RetiredAt r = None \<and> RemovedAt r = None \<and> CompromisedAt r = None
        | SigningKeyActive \<Rightarrow> ActivatedAt r \<noteq> None \<and> RetiredAt r = None \<and> RemovedAt r = None \<and> CompromisedAt r = None
        | SigningKeyRetired \<Rightarrow> RetiredAt r \<noteq> None \<and> RemovedAt r = None \<and> CompromisedAt r = None
        | SigningKeyRemoved \<Rightarrow> RemovedAt r \<noteq> None \<and> CompromisedAt r = None
        | SigningKeyCompromised \<Rightarrow> CompromisedAt r \<noteq> None)"

text \<open>The constraints of the table: check constraints, primary key and the partial unique index.\<close>

definition table_ok :: "key_table \<Rightarrow> bool" where
  "table_ok rows \<longleftrightarrow> list_all row_ok rows \<and> distinct (map KID rows)
     \<and> length (filter (\<lambda>r. key_State r = SigningKeyActive) rows) \<le> 1"

definition commit :: "key_table \<Rightarrow> key_table \<Rightarrow> store_error option \<times> key_table" where
  "commit rows rows' = (if table_ok rows' then (None, rows') else (Some ErrConstraint, rows))"

definition update_where :: "(SigningKeyRecord \<Rightarrow> bool) \<Rightarrow> (SigningKeyRecord \<Rightarrow> SigningKeyRecord) \<Rightarrow> key_table \<Rightarrow> key_table" where
  "update_where P f rows = map (\<lambda>r. if P r then f r else r) rows"

definition pg_Insert :: "nat \<Rightarrow> SigningKeyRecord \<Rightarrow> key_table \<Rightarrow> store_error option \<times> key_table" where
  "pg_Insert maxLen rec rows =
     (if \<not> KeyID_Validate maxLen (KID rec) then (Some ErrInvalidArg, rows) else commit rows (rows @ [rec]))"

definition pg_Get :: "string \<Rightarrow> key_table \<Rightarrow> (store_error, SigningKeyRecord) result" where
  "pg_Get kid rows = (case List.find (\<lambda>r. KID r = kid) rows of None \<Rightarrow> Inl ErrNotFound | Some r \<Rightarrow> Inr r)"

definition pg_Active :: "key_table \<Rightarrow> (store_error, SigningKeyRecord) result" where
  "pg_Active rows = (case List.find (\<lambda>r. key_State r = SigningKeyActive) rows of
     None \<Rightarrow> Inl ErrFailedPrecondition | Some r \<Rightarrow> Inr r)"

definition pg_KeySet :: "key_table \<Rightarrow> SigningKeyRecord list" where
  "pg_KeySet rows = sort_key (\<lambda>r. (CreatedAt r, KID r)) (filter (\<lambda>r. InKeySet (key_State r)) rows)"

definition demote :: "instant \<Rightarrow> SigningKeyRecord \<Rightarrow> SigningKeyRecord" where
  "demote at r = r\<lparr>key_State := SigningKeyRetired, RetiredAt := Some at\<rparr>"

definition take_over :: "instant \<Rightarrow> SigningKeyRecord \<Rightarrow> SigningKeyRecord" where
  "take_over at r = r\<lparr>key_State := SigningKeyActive, ActivatedAt := Some at\<rparr>"

definition mark_removed :: "instant \<Rightarrow> SigningKeyRecord \<Rightarrow> SigningKeyRecord" where
  "mark_removed at r = r\<lparr>key_State := SigningKeyRemoved, RemovedAt := Some at\<rparr>"

definition mark_compromised :: "instant \<Rightarrow> SigningKeyRecord \<Rightarrow> SigningKeyRecord" where
  "mark_compromised at r = r\<lparr>key_State := SigningKeyCompromised, CompromisedAt := Some at\<rparr>"

definition promote :: "instant \<Rightarrow> SigningKeyRecord \<Rightarrow> SigningKeyRecord" where
  \<comment> \<open>\<open>activated_at = COALESCE(activated_at, $1)\<close>\<close>
  "promote at r = r\<lparr>key_State := SigningKeyActive,
     ActivatedAt := (case ActivatedAt r of None \<Rightarrow> Some at | Some t \<Rightarrow> Some t)\<rparr>"

definition pg_Activate :: "string \<Rightarrow> instant \<Rightarrow> key_table \<Rightarrow> store_error option \<times> key_table" where
  "pg_Activate kid at rows =
     (let demoted = update_where (\<lambda>r. key_State r = SigningKeyActive \<and> KID r \<noteq> kid) (demote at) rows;
          named = (\<lambda>r. KID r = kid \<and> (key_State r = SigningKeyPublished \<or> key_State r = SigningKeyActive))
      in if \<not> list_ex named demoted then (Some ErrFailedPrecondition, rows)
         else commit rows (update_where named (promote at) demoted))"

definition pg_ReplaceActive :: "string \<Rightarrow> string \<Rightarrow> instant \<Rightarrow> key_table \<Rightarrow> store_error option \<times> key_table" where
  "pg_ReplaceActive nxt expected at rows =
     (let signing = (\<lambda>r. KID r = expected \<and> key_State r = SigningKeyActive);
          demoted = update_where signing (demote at) rows;
          named = (\<lambda>r. KID r = nxt \<and> key_State r = SigningKeyPublished)
      in if \<not> list_ex signing rows then (Some ErrFailedPrecondition, rows)
         else if \<not> list_ex named demoted then (Some ErrFailedPrecondition, rows)
         else commit rows (update_where named (take_over at) demoted))"

definition pg_transition ::
  "(SigningKeyRecord \<Rightarrow> bool) \<Rightarrow> (SigningKeyRecord \<Rightarrow> SigningKeyRecord) \<Rightarrow> string \<Rightarrow> key_table \<Rightarrow> store_error option \<times> key_table" where
  "pg_transition allowed f kid rows =
     (let named = (\<lambda>r. KID r = kid \<and> allowed r)
      in if \<not> list_ex named rows then (Some ErrFailedPrecondition, rows) else commit rows (update_where named f rows))"

definition pg_Retire :: "string \<Rightarrow> instant \<Rightarrow> key_table \<Rightarrow> store_error option \<times> key_table" where
  "pg_Retire kid at = pg_transition (\<lambda>r. key_State r = SigningKeyPublished) (demote at) kid"

definition pg_Remove :: "string \<Rightarrow> instant \<Rightarrow> key_table \<Rightarrow> store_error option \<times> key_table" where
  "pg_Remove kid at = pg_transition (\<lambda>r. key_State r = SigningKeyRetired) (mark_removed at) kid"

definition pg_Compromise :: "string \<Rightarrow> instant \<Rightarrow> key_table \<Rightarrow> store_error option \<times> key_table" where
  "pg_Compromise kid at = pg_transition (\<lambda>r. key_State r \<noteq> SigningKeyCompromised) (mark_compromised at) kid"

definition pg_port :: "nat \<Rightarrow> key_table key_port" where
  "pg_port maxLen = \<lparr>p_Get = pg_Get, p_Active = pg_Active, p_KeySet = pg_KeySet, p_Insert = pg_Insert maxLen,
     p_Activate = pg_Activate, p_ReplaceActive = pg_ReplaceActive, p_Retire = pg_Retire, p_Remove = pg_Remove,
     p_Compromise = pg_Compromise\<rparr>"

subsection \<open>The contract of the ports\<close>

text \<open>
  A conditional transition of one key: when the row is in an allowed state the call answers
  no error and rewrites exactly that row, otherwise it answers the unmet precondition and
  changes nothing.
\<close>

definition conditional_transition ::
  "('s \<Rightarrow> bool) \<Rightarrow> ('s \<Rightarrow> string \<Rightarrow> SigningKeyRecord option) \<Rightarrow> (string \<Rightarrow> instant \<Rightarrow> 's \<Rightarrow> store_error option \<times> 's)
     \<Rightarrow> (SigningKeyRecord \<Rightarrow> bool) \<Rightarrow> (instant \<Rightarrow> SigningKeyRecord \<Rightarrow> SigningKeyRecord) \<Rightarrow> bool" where
  "conditional_transition good row operation allowed f \<longleftrightarrow> (\<forall>s kid at. good s \<longrightarrow>
     (if \<exists>r. row s kid = Some r \<and> allowed r
      then fst (operation kid at s) = None \<and> good (snd (operation kid at s))
        \<and> row (snd (operation kid at s)) = (row s)(kid := map_option (f at) (row s kid))
      else operation kid at s = (Some ErrFailedPrecondition, s)))"

definition signs :: "SigningKeyRecord option \<Rightarrow> bool" where
  "signs x \<longleftrightarrow> (\<exists>r. x = Some r \<and> key_State r = SigningKeyActive)"

locale key_store =
  fixes port :: "'s key_port"
    and inv :: "'s \<Rightarrow> bool"
    and row :: "'s \<Rightarrow> string \<Rightarrow> SigningKeyRecord option"
  assumes row_KID: "inv s \<Longrightarrow> row s kid = Some r \<Longrightarrow> KID r = kid"
    and row_valid: "inv s \<Longrightarrow> row s kid = Some r \<Longrightarrow> row_ok r"
    and one_signer: "inv s \<Longrightarrow> signs (row s a) \<Longrightarrow> signs (row s b) \<Longrightarrow> a = b"
    and Get_row: "inv s \<Longrightarrow> p_Get port kid s = (case row s kid of None \<Rightarrow> Inl ErrNotFound | Some r \<Rightarrow> Inr r)"
    and Active_row: "inv s \<Longrightarrow> p_Active port s = Inr r \<Longrightarrow> row s (KID r) = Some r \<and> key_State r = SigningKeyActive"
    and Active_none: "inv s \<Longrightarrow> p_Active port s = Inl e \<Longrightarrow> e = ErrFailedPrecondition \<and> (\<forall>kid. \<not> signs (row s kid))"
    and KeySet_rows: "inv s \<Longrightarrow> set (p_KeySet port s) = {r. row s (KID r) = Some r \<and> InKeySet (key_State r)}"
    and KeySet_distinct: "inv s \<Longrightarrow> distinct (map KID (p_KeySet port s))"
    and Insert_err: "fst (p_Insert port rec s) \<noteq> None \<Longrightarrow> snd (p_Insert port rec s) = s"
    and Insert_ok: "inv s \<Longrightarrow> fst (p_Insert port rec s) = None \<Longrightarrow>
          inv (snd (p_Insert port rec s)) \<and> row s (KID rec) = None
          \<and> row (snd (p_Insert port rec s)) = (row s)(KID rec \<mapsto> rec)"
    and Activate_err: "inv s \<Longrightarrow> \<nexists>r. row s kid = Some r \<and> CanActivate (key_State r) \<Longrightarrow>
          p_Activate port kid at s = (Some ErrFailedPrecondition, s)"
    and Activate_ok: "inv s \<Longrightarrow> row s kid = Some r \<Longrightarrow> CanActivate (key_State r) \<Longrightarrow>
          fst (p_Activate port kid at s) = None \<and> inv (snd (p_Activate port kid at s))
          \<and> row (snd (p_Activate port kid at s)) = (\<lambda>j. if j = kid then Some (promote at r)
               else map_option (\<lambda>q. if key_State q = SigningKeyActive then demote at q else q) (row s j))"
    and ReplaceActive_err: "inv s \<Longrightarrow>
          \<not> (signs (row s expected) \<and> (\<exists>r. row s nxt = Some r \<and> key_State r = SigningKeyPublished)) \<Longrightarrow>
          p_ReplaceActive port nxt expected at s = (Some ErrFailedPrecondition, s)"
    and ReplaceActive_ok: "inv s \<Longrightarrow> signs (row s expected) \<Longrightarrow> row s nxt = Some r \<Longrightarrow> key_State r = SigningKeyPublished \<Longrightarrow>
          fst (p_ReplaceActive port nxt expected at s) = None \<and> inv (snd (p_ReplaceActive port nxt expected at s))
          \<and> row (snd (p_ReplaceActive port nxt expected at s))
            = (row s)(expected := map_option (demote at) (row s expected), nxt \<mapsto> take_over at r)"
    and Retire_law: "conditional_transition inv row (p_Retire port) (\<lambda>r. key_State r = SigningKeyPublished) demote"
    and Remove_law: "conditional_transition inv row (p_Remove port) (\<lambda>r. key_State r = SigningKeyRetired) mark_removed"
    and Compromise_law:
      "conditional_transition inv row (p_Compromise port) (\<lambda>r. key_State r \<noteq> SigningKeyCompromised) mark_compromised"

subsection \<open>The table keeps the contract\<close>

definition pg_row :: "key_table \<Rightarrow> string \<Rightarrow> SigningKeyRecord option" where
  "pg_row rows kid = List.find (\<lambda>r. KID r = kid) rows"

lemmas row_updates = demote_def promote_def take_over_def mark_removed_def mark_compromised_def

lemma KID_updates [simp]:
  "KID (demote at r) = KID r" "KID (promote at r) = KID r" "KID (take_over at r) = KID r"
  "KID (mark_removed at r) = KID r" "KID (mark_compromised at r) = KID r"
  by (simp_all add: row_updates)

lemma key_State_updates [simp]:
  "key_State (demote at r) = SigningKeyRetired" "key_State (promote at r) = SigningKeyActive"
  "key_State (take_over at r) = SigningKeyActive" "key_State (mark_removed at r) = SigningKeyRemoved"
  "key_State (mark_compromised at r) = SigningKeyCompromised"
  by (simp_all add: row_updates)

lemma pg_row_iff:
  assumes "distinct (map KID rows)"
  shows "pg_row rows kid = Some r \<longleftrightarrow> r \<in> set rows \<and> KID r = kid"
  using assms by (induction rows) (auto simp: pg_row_def)

lemma pg_row_None: "pg_row rows kid = None \<longleftrightarrow> kid \<notin> KID ` set rows"
  by (auto simp: pg_row_def find_None_iff)

lemma pg_row_map:
  assumes "\<And>r. KID (g r) = KID r"
  shows "pg_row (map g rows) kid = map_option g (pg_row rows kid)"
  by (induction rows) (simp_all add: pg_row_def assms)

lemma pg_row_append: "pg_row (rows @ [rec]) = (pg_row rows)(KID rec := (case pg_row rows (KID rec) of None \<Rightarrow> Some rec | Some r \<Rightarrow> Some r))"
  by (rule ext) (induction rows, simp_all add: pg_row_def)

lemma at_most_one_iff:
  assumes "distinct (map KID rows)"
  shows "length (filter P rows) \<le> 1 \<longleftrightarrow> (\<forall>r \<in> set rows. \<forall>q \<in> set rows. P r \<longrightarrow> P q \<longrightarrow> KID r = KID q)"
proof -
  have "length (filter P rows) = card (KID ` {r \<in> set rows. P r})"
    using assms distinct_card [of "map KID (filter P rows)"] by (simp add: distinct_map_filter)
  moreover have "card (KID ` {r \<in> set rows. P r}) \<le> 1
      \<longleftrightarrow> (\<forall>a \<in> KID ` {r \<in> set rows. P r}. \<forall>b \<in> KID ` {r \<in> set rows. P r}. a = b)"
    unfolding One_nat_def by (rule card_le_Suc0_iff_eq) simp
  moreover have "(\<forall>a \<in> KID ` {r \<in> set rows. P r}. \<forall>b \<in> KID ` {r \<in> set rows. P r}. a = b)
      \<longleftrightarrow> (\<forall>r \<in> set rows. \<forall>q \<in> set rows. P r \<longrightarrow> P q \<longrightarrow> KID r = KID q)" by blast
  ultimately show ?thesis by (simp only:)
qed

lemma table_ok_iff:
  "table_ok rows \<longleftrightarrow> (\<forall>r \<in> set rows. row_ok r) \<and> distinct (map KID rows)
     \<and> (\<forall>r \<in> set rows. \<forall>q \<in> set rows. key_State r = SigningKeyActive \<longrightarrow> key_State q = SigningKeyActive \<longrightarrow> KID r = KID q)"
  unfolding table_ok_def list_all_iff
  by (cases "distinct (map KID rows)") (simp_all only: at_most_one_iff simp_thms)

lemma table_ok_map:
  assumes "table_ok rows" and same: "\<And>r. KID (g r) = KID r"
    and rows: "\<And>r. r \<in> set rows \<Longrightarrow> row_ok r \<Longrightarrow> row_ok (g r)"
    and one: "\<And>r q. r \<in> set rows \<Longrightarrow> q \<in> set rows \<Longrightarrow>
      key_State (g r) = SigningKeyActive \<Longrightarrow> key_State (g q) = SigningKeyActive \<Longrightarrow> KID r = KID q"
  shows "table_ok (map g rows)"
proof -
  have "map KID (map g rows) = map KID rows" by (simp add: same)
  moreover have "\<forall>r \<in> set (map g rows). row_ok r" using assms(1) rows by (auto simp: table_ok_iff)
  moreover have "\<forall>r \<in> set (map g rows). \<forall>q \<in> set (map g rows).
      key_State r = SigningKeyActive \<longrightarrow> key_State q = SigningKeyActive \<longrightarrow> KID r = KID q"
    unfolding set_map ball_simps same using one by blast
  ultimately show ?thesis using assms(1) by (simp only: table_ok_iff)
qed

lemma commit_map:
  assumes "table_ok rows" "\<And>r. KID (g r) = KID r" "\<And>r. r \<in> set rows \<Longrightarrow> row_ok r \<Longrightarrow> row_ok (g r)"
    and "\<And>r q. r \<in> set rows \<Longrightarrow> q \<in> set rows \<Longrightarrow>
      key_State (g r) = SigningKeyActive \<Longrightarrow> key_State (g q) = SigningKeyActive \<Longrightarrow> KID r = KID q"
  shows "commit rows (map g rows) = (None, map g rows) \<and> table_ok (map g rows)"
proof -
  have "table_ok (map g rows)" using assms(1)
  proof (rule table_ok_map)
    show "KID (g r) = KID r" for r by (rule assms(2))
    show "row_ok (g r)" if "r \<in> set rows" "row_ok r" for r using that by (rule assms(3))
    show "KID r = KID q" if "r \<in> set rows" "q \<in> set rows" "key_State (g r) = SigningKeyActive" "key_State (g q) = SigningKeyActive"
      for r q using that by (rule assms(4))
  qed
  then show ?thesis by (simp only: commit_def if_True simp_thms)
qed

lemma table_row_iff: "table_ok rows \<Longrightarrow> pg_row rows kid = Some r \<longleftrightarrow> r \<in> set rows \<and> KID r = kid"
  by (rule pg_row_iff) (simp add: table_ok_iff)

lemma table_row_KID: "table_ok rows \<Longrightarrow> pg_row rows kid = Some r \<Longrightarrow> KID r = kid"
  using table_row_iff by blast

lemma one_active: "table_ok rows \<Longrightarrow> r \<in> set rows \<Longrightarrow> q \<in> set rows \<Longrightarrow>
    key_State r = SigningKeyActive \<Longrightarrow> key_State q = SigningKeyActive \<Longrightarrow> KID r = KID q"
  unfolding table_ok_iff by blast

text \<open>Each rewriting of a row keeps the constraints of the row from the states it is used in.\<close>

lemma values_ok_updates [simp]:
  "values_ok (demote at r) = values_ok r" "values_ok (promote at r) = values_ok r" "values_ok (take_over at r) = values_ok r"
  "values_ok (mark_removed at r) = values_ok r" "values_ok (mark_compromised at r) = values_ok r"
  by (simp_all add: values_ok_def row_updates)

lemma row_ok_updates:
  "row_ok r \<Longrightarrow> key_State r = SigningKeyPublished \<or> key_State r = SigningKeyActive \<Longrightarrow> row_ok (demote at r)"
  "row_ok r \<Longrightarrow> CanActivate (key_State r) \<Longrightarrow> row_ok (promote at r)"
  "row_ok r \<Longrightarrow> key_State r = SigningKeyPublished \<Longrightarrow> row_ok (take_over at r)"
  "row_ok r \<Longrightarrow> key_State r = SigningKeyRetired \<Longrightarrow> row_ok (mark_removed at r)"
  "row_ok r \<Longrightarrow> row_ok (mark_compromised at r)"
  unfolding row_ok_def values_ok_updates
  by (auto simp: row_updates CanActivate_def split: option.split SigningKeyState.splits)

lemma pg_row_update:
  assumes "\<And>r. KID (f r) = KID r"
  shows "pg_row (update_where P f rows) kid = map_option (\<lambda>r. if P r then f r else r) (pg_row rows kid)"
  unfolding update_where_def by (rule pg_row_map) (simp add: assms)

lemma pg_transition_law:
  assumes same: "\<And>at r. KID (f at r) = KID r"
    and ok: "\<And>at r. row_ok r \<Longrightarrow> allowed r \<Longrightarrow> row_ok (f at r)"
    and idle: "\<And>at r. key_State (f at r) \<noteq> SigningKeyActive"
  shows "conditional_transition table_ok pg_row (\<lambda>kid at. pg_transition allowed (f at) kid) allowed f"
  unfolding conditional_transition_def
proof (intro allI impI)
  fix rows :: key_table and kid :: string and at :: instant
  assume t: "table_ok rows"
  let ?P = "\<lambda>r. KID r = kid \<and> allowed r"
  have ex: "(\<exists>r. pg_row rows kid = Some r \<and> allowed r) \<longleftrightarrow> list_ex ?P rows"
    using table_row_iff [OF t] by (auto simp: list_ex_iff)
  have "commit rows (update_where ?P (f at) rows) = (None, update_where ?P (f at) rows) \<and> table_ok (update_where ?P (f at) rows)"
    unfolding update_where_def
  proof (rule commit_map [OF t])
    show "KID (if ?P r then f at r else r) = KID r" for r by (simp add: same)
    show "row_ok (if ?P r then f at r else r)" if "row_ok r" for r using that ok by simp
    show "KID r = KID q" if "r \<in> set rows" "q \<in> set rows" "key_State (if ?P r then f at r else r) = SigningKeyActive"
        "key_State (if ?P q then f at q else q) = SigningKeyActive" for r q
      using that idle by (intro one_active [OF t]) (metis, metis, metis, metis)
  qed
  moreover have "pg_row (update_where ?P (f at) rows) = (pg_row rows)(kid := map_option (f at) (pg_row rows kid))"
    if present: "list_ex ?P rows"
  proof
    fix j
    obtain r where "pg_row rows kid = Some r" "allowed r" using present ex by blast
    then have r: "pg_row rows kid = Some r" "allowed r" "KID r = kid" using table_row_iff [OF t] by auto
    show "pg_row (update_where ?P (f at) rows) j = ((pg_row rows)(kid := map_option (f at) (pg_row rows kid))) j"
    proof (cases "j = kid")
      case True
      then show ?thesis using r by (simp add: pg_row_update [OF same])
    next
      case False
      then have "map_option (\<lambda>q. if ?P q then f at q else q) (pg_row rows j) = pg_row rows j"
        using table_row_KID [OF t, of j] by (cases "pg_row rows j") auto
      then show ?thesis using False by (simp add: pg_row_update [OF same])
    qed
  qed
  ultimately show "if \<exists>r. pg_row rows kid = Some r \<and> allowed r
     then fst (pg_transition allowed (f at) kid rows) = None \<and> table_ok (snd (pg_transition allowed (f at) kid rows))
       \<and> pg_row (snd (pg_transition allowed (f at) kid rows)) = (pg_row rows)(kid := map_option (f at) (pg_row rows kid))
     else pg_transition allowed (f at) kid rows = (Some ErrFailedPrecondition, rows)"
    by (simp add: ex pg_transition_def Let_def)
qed

text \<open>The two statements of a hand-over, as one rewriting of the rows.\<close>

definition activate_row :: "string \<Rightarrow> instant \<Rightarrow> SigningKeyRecord \<Rightarrow> SigningKeyRecord" where
  "activate_row kid at r = (if KID r = kid then (if CanActivate (key_State r) then promote at r else r)
     else if key_State r = SigningKeyActive then demote at r else r)"

definition replace_row :: "string \<Rightarrow> string \<Rightarrow> instant \<Rightarrow> SigningKeyRecord \<Rightarrow> SigningKeyRecord" where
  "replace_row nxt expected at r = (if KID r = expected \<and> key_State r = SigningKeyActive then demote at r
     else if KID r = nxt \<and> key_State r = SigningKeyPublished then take_over at r else r)"

lemma handover_rows_KID [simp]:
  "KID (activate_row kid at r) = KID r" "KID (replace_row nxt expected at r) = KID r"
  by (simp_all add: activate_row_def replace_row_def)

lemma handover_rows_ok:
  "row_ok r \<Longrightarrow> row_ok (activate_row kid at r)" "row_ok r \<Longrightarrow> row_ok (replace_row nxt expected at r)"
  by (simp_all add: activate_row_def replace_row_def row_ok_updates)

lemma present_iff:
  "table_ok rows \<Longrightarrow> (\<exists>r. pg_row rows kid = Some r \<and> P r) \<longleftrightarrow> (\<exists>r \<in> set rows. KID r = kid \<and> P r)"
  using table_row_iff by blast

lemma pg_Activate_eq:
  "pg_Activate kid at rows =
     (if \<exists>r \<in> set rows. KID r = kid \<and> CanActivate (key_State r) then commit rows (map (activate_row kid at) rows)
      else (Some ErrFailedPrecondition, rows))"
proof -
  let ?demoted = "update_where (\<lambda>r. key_State r = SigningKeyActive \<and> KID r \<noteq> kid) (demote at) rows"
  let ?named = "\<lambda>r. KID r = kid \<and> (key_State r = SigningKeyPublished \<or> key_State r = SigningKeyActive)"
  have "list_ex ?named ?demoted \<longleftrightarrow> (\<exists>r \<in> set rows. KID r = kid \<and> CanActivate (key_State r))"
    by (auto simp: list_ex_iff update_where_def CanActivate_def)
  moreover have "update_where ?named (promote at) ?demoted = map (activate_row kid at) rows"
    by (auto simp: update_where_def activate_row_def CanActivate_def)
  ultimately show ?thesis unfolding pg_Activate_def Let_def by argo
qed

lemma pg_ReplaceActive_eq:
  "pg_ReplaceActive nxt expected at rows =
     (if (\<exists>r \<in> set rows. KID r = expected \<and> key_State r = SigningKeyActive)
        \<and> (\<exists>r \<in> set rows. KID r = nxt \<and> key_State r = SigningKeyPublished)
      then commit rows (map (replace_row nxt expected at) rows)
      else (Some ErrFailedPrecondition, rows))"
proof -
  let ?signing = "\<lambda>r. KID r = expected \<and> key_State r = SigningKeyActive"
  let ?named = "\<lambda>r. KID r = nxt \<and> key_State r = SigningKeyPublished"
  let ?demoted = "update_where ?signing (demote at) rows"
  have "list_ex ?named ?demoted \<longleftrightarrow> (\<exists>r \<in> set rows. KID r = nxt \<and> key_State r = SigningKeyPublished)"
    by (force simp: list_ex_iff update_where_def)
  moreover have "update_where ?named (take_over at) ?demoted = map (replace_row nxt expected at) rows"
    by (auto simp: update_where_def replace_row_def)
  moreover have "list_ex ?signing rows \<longleftrightarrow> (\<exists>r \<in> set rows. KID r = expected \<and> key_State r = SigningKeyActive)"
    by (auto simp: list_ex_iff)
  ultimately show ?thesis unfolding pg_ReplaceActive_def Let_def by argo
qed

lemma activate_commits:
  assumes "table_ok rows"
  shows "commit rows (map (activate_row kid at) rows) = (None, map (activate_row kid at) rows)
    \<and> table_ok (map (activate_row kid at) rows)"
proof (rule commit_map [OF assms])
  show "KID r = KID q" if "key_State (activate_row kid at r) = SigningKeyActive" "key_State (activate_row kid at q) = SigningKeyActive" for r q
    using that by (auto simp: activate_row_def split: if_splits)
qed (simp_all add: handover_rows_ok)

lemma replace_commits:
  assumes "table_ok rows" and "\<exists>r \<in> set rows. KID r = expected \<and> key_State r = SigningKeyActive"
  shows "commit rows (map (replace_row nxt expected at) rows) = (None, map (replace_row nxt expected at) rows)
    \<and> table_ok (map (replace_row nxt expected at) rows)"
proof (rule commit_map [OF assms(1)])
  obtain x where x: "x \<in> set rows" "KID x = expected" "key_State x = SigningKeyActive" using assms(2) by blast
  have to_next: "KID r = nxt" if "r \<in> set rows" "key_State (replace_row nxt expected at r) = SigningKeyActive" for r
  proof (cases "key_State r = SigningKeyActive")
    case True
    then have "KID r = expected" using one_active [OF assms(1) that(1) x(1)] x by simp
    then show ?thesis using that True by (simp add: replace_row_def)
  next
    case False
    then show ?thesis using that by (simp add: replace_row_def split: if_splits)
  qed
  show "KID r = KID q" if "r \<in> set rows" "q \<in> set rows" "key_State (replace_row nxt expected at r) = SigningKeyActive"
      "key_State (replace_row nxt expected at q) = SigningKeyActive" for r q
    using to_next [OF that(1,3)] to_next [OF that(2,4)] by simp
qed (simp_all add: handover_rows_ok)

lemma commit_Insert:
  assumes "table_ok rows" and "fst (pg_Insert maxLen rec rows) = None"
  shows "table_ok (snd (pg_Insert maxLen rec rows)) \<and> pg_row rows (KID rec) = None
    \<and> pg_row (snd (pg_Insert maxLen rec rows)) = (pg_row rows)(KID rec \<mapsto> rec)"
proof -
  have new: "table_ok (rows @ [rec])" "snd (pg_Insert maxLen rec rows) = rows @ [rec]"
    using assms(2) by (simp_all add: pg_Insert_def commit_def split: if_splits)
  then have "pg_row rows (KID rec) = None" by (auto simp: table_ok_def pg_row_None)
  then show ?thesis using new by (simp add: pg_row_append)
qed

lemma signs_pg_row: "table_ok rows \<Longrightarrow> signs (pg_row rows kid) \<longleftrightarrow> (\<exists>r \<in> set rows. KID r = kid \<and> key_State r = SigningKeyActive)"
  using present_iff by (simp add: signs_def)

lemma pg_Activate_law:
  assumes "table_ok rows" "pg_row rows kid = Some r" "CanActivate (key_State r)"
  shows "fst (pg_Activate kid at rows) = None \<and> table_ok (snd (pg_Activate kid at rows))
    \<and> pg_row (snd (pg_Activate kid at rows)) = (\<lambda>j. if j = kid then Some (promote at r)
         else map_option (\<lambda>q. if key_State q = SigningKeyActive then demote at q else q) (pg_row rows j))"
proof -
  have "\<exists>r \<in> set rows. KID r = kid \<and> CanActivate (key_State r)" using assms table_row_iff [OF assms(1)] by blast
  then have eq: "pg_Activate kid at rows = (None, map (activate_row kid at) rows)" "table_ok (map (activate_row kid at) rows)"
    using activate_commits [OF assms(1)] unfolding pg_Activate_eq by simp_all
  have "pg_row (map (activate_row kid at) rows) j = (if j = kid then Some (promote at r)
      else map_option (\<lambda>q. if key_State q = SigningKeyActive then demote at q else q) (pg_row rows j))" for j
  proof (cases "pg_row rows j")
    case (Some q)
    then have "KID q = j" using table_row_KID [OF assms(1)] by blast
    then show ?thesis using assms(2,3) Some by (auto simp: pg_row_map activate_row_def)
  qed (use assms(2) in \<open>auto simp: pg_row_map\<close>)
  then show ?thesis using eq by auto
qed

lemma pg_ReplaceActive_law:
  assumes "table_ok rows" "signs (pg_row rows expected)" "pg_row rows nxt = Some r" "key_State r = SigningKeyPublished"
  shows "fst (pg_ReplaceActive nxt expected at rows) = None \<and> table_ok (snd (pg_ReplaceActive nxt expected at rows))
    \<and> pg_row (snd (pg_ReplaceActive nxt expected at rows))
      = (pg_row rows)(expected := map_option (demote at) (pg_row rows expected), nxt \<mapsto> take_over at r)"
proof -
  note * = assms(2) [unfolded signs_pg_row [OF assms(1)]]
  have "\<exists>r \<in> set rows. KID r = nxt \<and> key_State r = SigningKeyPublished"
    using assms(3,4) table_row_iff [OF assms(1)] by blast
  then have eq: "pg_ReplaceActive nxt expected at rows = (None, map (replace_row nxt expected at) rows)"
    "table_ok (map (replace_row nxt expected at) rows)"
    using * replace_commits [OF assms(1) *] unfolding pg_ReplaceActive_eq by simp_all
  obtain x where x: "pg_row rows expected = Some x" "key_State x = SigningKeyActive" using assms(2) by (auto simp: signs_def)
  have "pg_row (map (replace_row nxt expected at) rows) j
      = ((pg_row rows)(expected := map_option (demote at) (pg_row rows expected), nxt \<mapsto> take_over at r)) j" for j
  proof (cases "pg_row rows j")
    case (Some q)
    then have "KID q = j" using table_row_KID [OF assms(1)] by blast
    then show ?thesis using assms(3,4) x Some by (auto simp: pg_row_map replace_row_def)
  qed (use assms(3) x in \<open>auto simp: pg_row_map\<close>)
  then show ?thesis using eq by auto
qed

interpretation pg: key_store "pg_port maxLen" table_ok pg_row for maxLen
proof (unfold_locales, unfold pg_port_def key_port.simps)
  fix rows :: key_table and kid a b nxt expected :: string and at :: instant and r rec :: SigningKeyRecord and e :: store_error
  show "table_ok rows \<Longrightarrow> pg_row rows kid = Some r \<Longrightarrow> KID r = kid" by (rule table_row_KID)
  show "row_ok r" if "table_ok rows" "pg_row rows kid = Some r"
    using that(2) that(1) [unfolded table_ok_iff] unfolding table_row_iff [OF that(1)] by blast
  show "a = b" if "table_ok rows" "signs (pg_row rows a)" "signs (pg_row rows b)"
    using that one_active [OF that(1)] unfolding signs_pg_row [OF that(1)] by blast
  show "pg_Get kid rows = (case pg_row rows kid of None \<Rightarrow> Inl ErrNotFound | Some r \<Rightarrow> Inr r)"
    by (simp add: pg_Get_def pg_row_def)
  show "pg_row rows (KID r) = Some r \<and> key_State r = SigningKeyActive" if "table_ok rows" "pg_Active rows = Inr r"
    using that table_row_iff [OF that(1)] by (auto simp: pg_Active_def find_Some_iff in_set_conv_nth split: option.splits)
  show "e = ErrFailedPrecondition \<and> (\<forall>kid. \<not> signs (pg_row rows kid))" if "table_ok rows" "pg_Active rows = Inl e"
    using that signs_pg_row [OF that(1)] by (auto simp: pg_Active_def find_None_iff split: option.splits)
  show "set (pg_KeySet rows) = {r. pg_row rows (KID r) = Some r \<and> InKeySet (key_State r)}" if "table_ok rows"
    by (auto simp: pg_KeySet_def table_row_iff [OF that])
  show "distinct (map KID (pg_KeySet rows))" if "table_ok rows"
    using that by (auto simp: pg_KeySet_def table_ok_def distinct_map intro: inj_on_subset)
  show "snd (pg_Insert maxLen rec rows) = rows" if "fst (pg_Insert maxLen rec rows) \<noteq> None"
    using that by (simp add: pg_Insert_def commit_def split: if_splits)
  show "table_ok (snd (pg_Insert maxLen rec rows)) \<and> pg_row rows (KID rec) = None
      \<and> pg_row (snd (pg_Insert maxLen rec rows)) = (pg_row rows)(KID rec \<mapsto> rec)"
    if "table_ok rows" "fst (pg_Insert maxLen rec rows) = None" using that by (rule commit_Insert)
  show "pg_Activate kid at rows = (Some ErrFailedPrecondition, rows)"
    if "table_ok rows" "\<nexists>r. pg_row rows kid = Some r \<and> CanActivate (key_State r)"
    using that unfolding pg_Activate_eq present_iff [OF that(1)] by argo
  show "fst (pg_Activate kid at rows) = None \<and> table_ok (snd (pg_Activate kid at rows))
      \<and> pg_row (snd (pg_Activate kid at rows)) = (\<lambda>j. if j = kid then Some (promote at r)
           else map_option (\<lambda>q. if key_State q = SigningKeyActive then demote at q else q) (pg_row rows j))"
    if "table_ok rows" "pg_row rows kid = Some r" "CanActivate (key_State r)"
    using that by (rule pg_Activate_law)
  show "pg_ReplaceActive nxt expected at rows = (Some ErrFailedPrecondition, rows)"
    if "table_ok rows" "\<not> (signs (pg_row rows expected) \<and> (\<exists>r. pg_row rows nxt = Some r \<and> key_State r = SigningKeyPublished))"
    using that unfolding pg_ReplaceActive_eq signs_pg_row [OF that(1)] present_iff [OF that(1)] by argo
  show "fst (pg_ReplaceActive nxt expected at rows) = None \<and> table_ok (snd (pg_ReplaceActive nxt expected at rows))
      \<and> pg_row (snd (pg_ReplaceActive nxt expected at rows))
        = (pg_row rows)(expected := map_option (demote at) (pg_row rows expected), nxt \<mapsto> take_over at r)"
    if "table_ok rows" "signs (pg_row rows expected)" "pg_row rows nxt = Some r" "key_State r = SigningKeyPublished"
    using that by (rule pg_ReplaceActive_law)
  show "conditional_transition table_ok pg_row pg_Retire (\<lambda>r. key_State r = SigningKeyPublished) demote"
    unfolding pg_Retire_def by (rule pg_transition_law) (simp_all add: row_ok_updates)
  show "conditional_transition table_ok pg_row pg_Remove (\<lambda>r. key_State r = SigningKeyRetired) mark_removed"
    unfolding pg_Remove_def by (rule pg_transition_law) (simp_all add: row_ok_updates)
  show "conditional_transition table_ok pg_row pg_Compromise (\<lambda>r. key_State r \<noteq> SigningKeyCompromised) mark_compromised"
    unfolding pg_Compromise_def by (rule pg_transition_law) (simp_all add: row_ok_updates)
qed

end
