(* ===== verification/Key_Store.thy ===== *)
theory Key_Store
  imports Signing_Keys
begin

text \<open>
  The keystore: generation of a key, its hand-over into signing, the two operator verbs
  (retire and compromise), the sweeper, the start-up check and the reader of the signing
  material.

  Sources: \<open>internal/apps/kaname/api/signingkeys/keystore.go\<close> and
  \<open>internal/signingkeygen/generate.go\<close>.

  A run of an operation threads a \<open>world\<close>: the store, the number of store calls made so far
  and the counters. Everything the operation cannot decide is in the record \<open>env\<close>, indexed by
  that number: the clock, what other replicas did to the store before the call, whether the
  call fails (before or after its effect is committed), the key pair and the entropy drawn
  from the crypto library, the end of the caller's context and of the hand-over limit. The
  code reads the clock at most once between two store calls. Log lines are left out.
\<close>

subsection \<open>Errors\<close>

datatype key_error =
    Store store_error
  | ErrUnknownAlgorithm string
  | CryptoFailed
  | WeakKey
  | WrapFailed
  | EntropyFailed
  | KeyIdForm
  | NoDecider
  | NotReadable string
  | ErrWrappingKeyMismatch "string list" nat
  | ErrSignerChanged
  | ErrNoSignerAfterCompromise
  | ErrSignerUnknownAfterCompromise
  | HandoverLimitExpired
  | Chain key_error key_error

fun errors_Is :: "key_error \<Rightarrow> key_error \<Rightarrow> bool" where
  "errors_Is (Chain a b) e \<longleftrightarrow> errors_Is a e \<or> errors_Is b e"
| "errors_Is a e \<longleftrightarrow> a = e"

subsection \<open>Configuration, environment and world\<close>

record Config =
  cfg_Algorithm :: string
  KeyLifetime :: duration
  RemovalGrace :: duration
  RotationLead :: duration
  HandoverLimit :: duration
  StrandedAfter :: duration

datatype config_error = BadAlgorithm | BadKeyLifetime | BadRemovalGrace | BadRotationLead | LifetimeWithinLead
  | BadHandoverLimit | StrandedWithinHandover | NoClock | NoPorts

definition New_keystore :: "string list \<Rightarrow> Config \<Rightarrow> bool \<Rightarrow> bool \<Rightarrow> config_error option" where
  "New_keystore vocabulary cfg clock ports =
     (if ParseSigningAlgorithm vocabulary (cfg_Algorithm cfg) = None then Some BadAlgorithm
      else if KeyLifetime cfg \<le> 0 then Some BadKeyLifetime
      else if RemovalGrace cfg \<le> 0 then Some BadRemovalGrace
      else if RotationLead cfg \<le> 0 then Some BadRotationLead
      else if KeyLifetime cfg \<le> RotationLead cfg then Some LifetimeWithinLead
      else if HandoverLimit cfg \<le> 0 then Some BadHandoverLimit
      else if StrandedAfter cfg \<le> HandoverLimit cfg then Some StrandedWithinHandover
      else if \<not> clock then Some NoClock
      else if \<not> ports then Some NoPorts
      else None)"

datatype fault = FaultBefore | FaultAfter

record 's env =
  e_clock :: "nat \<Rightarrow> instant"
  e_others :: "nat \<Rightarrow> 's \<Rightarrow> 's"
  e_fault :: "nat \<Rightarrow> fault option"
  e_ended :: "nat \<Rightarrow> bool"
  e_expired :: "nat \<Rightarrow> bool"
  e_pair :: "nat \<Rightarrow> string \<Rightarrow> (string \<times> string) option"
  e_strength :: "string \<Rightarrow> (string \<times> nat) option"
  e_entropy :: "nat \<Rightarrow> string option"
  e_wrap :: "string \<Rightarrow> string option"
  e_unwrap :: "string \<Rightarrow> string option"

record Stats =
  Generated :: "64 word"
  Activated :: "64 word"
  Retired :: "64 word"
  Removed :: "64 word"
  Compromised :: "64 word"
  Failures :: "64 word"
  Sweeps :: "64 word"

record 's world =
  w_store :: 's
  w_tick :: nat
  w_stats :: Stats

record 's Keystore =
  ks_cfg :: Config
  ks_port :: "'s key_port"
  ks_env :: "'s env"
  ks_kidMaxLen :: nat

definition add_Generated :: "'s world \<Rightarrow> 's world" where
  "add_Generated w = w\<lparr>w_stats := (w_stats w)\<lparr>Generated := Generated (w_stats w) + 1\<rparr>\<rparr>"

definition add_Activated :: "'s world \<Rightarrow> 's world" where
  "add_Activated w = w\<lparr>w_stats := (w_stats w)\<lparr>Activated := Activated (w_stats w) + 1\<rparr>\<rparr>"

definition add_Retired :: "'s world \<Rightarrow> 's world" where
  "add_Retired w = w\<lparr>w_stats := (w_stats w)\<lparr>Retired := Retired (w_stats w) + 1\<rparr>\<rparr>"

definition add_Removed :: "'s world \<Rightarrow> 's world" where
  "add_Removed w = w\<lparr>w_stats := (w_stats w)\<lparr>Removed := Removed (w_stats w) + 1\<rparr>\<rparr>"

definition add_Compromised :: "'s world \<Rightarrow> 's world" where
  "add_Compromised w = w\<lparr>w_stats := (w_stats w)\<lparr>Compromised := Compromised (w_stats w) + 1\<rparr>\<rparr>"

definition add_Failures :: "'s world \<Rightarrow> 's world" where
  "add_Failures w = w\<lparr>w_stats := (w_stats w)\<lparr>Failures := Failures (w_stats w) + 1\<rparr>\<rparr>"

definition add_Sweeps :: "'s world \<Rightarrow> 's world" where
  "add_Sweeps w = w\<lparr>w_stats := (w_stats w)\<lparr>Sweeps := Sweeps (w_stats w) + 1\<rparr>\<rparr>"

definition now_of :: "'s Keystore \<Rightarrow> 's world \<Rightarrow> instant" where
  \<comment> \<open>\<open>Clock().UTC().Truncate(time.Second)\<close>\<close>
  "now_of k w = 1000000000 * (e_clock (ks_env k) (w_tick w) div 1000000000)"

text \<open>One call to a reading and one to a writing method of the store.\<close>

definition read_call :: "'s Keystore \<Rightarrow> ('s \<Rightarrow> (store_error, 'a) result) \<Rightarrow> 's world \<Rightarrow> (key_error, 'a) result \<times> 's world" where
  "read_call k f w =
     (let n = w_tick w; s = e_others (ks_env k) n (w_store w)
      in (case e_fault (ks_env k) n of
            Some _ \<Rightarrow> Inl (Store ErrStorage)
          | None \<Rightarrow> (case f s of Inl e \<Rightarrow> Inl (Store e) | Inr x \<Rightarrow> Inr x),
          w\<lparr>w_store := s, w_tick := Suc n\<rparr>))"

definition write_call :: "'s Keystore \<Rightarrow> ('s \<Rightarrow> store_error option \<times> 's) \<Rightarrow> 's world \<Rightarrow> key_error option \<times> 's world" where
  "write_call k f w =
     (let n = w_tick w; s = e_others (ks_env k) n (w_store w)
      in case e_fault (ks_env k) n of
           Some FaultBefore \<Rightarrow> (Some (Store ErrStorage), w\<lparr>w_store := s, w_tick := Suc n\<rparr>)
         | Some FaultAfter \<Rightarrow> (Some (Store ErrStorage), w\<lparr>w_store := snd (f s), w_tick := Suc n\<rparr>)
         | None \<Rightarrow> (map_option Store (fst (f s)), w\<lparr>w_store := snd (f s), w_tick := Suc n\<rparr>))"

subsection \<open>Generation\<close>

definition MinBits :: "string \<Rightarrow> nat" where
  "MinBits alg = (if alg = ''RS256'' then 2048 else if alg = ''ES256'' then 256 else if alg = ''EdDSA'' then 256 else 0)"

definition signingkeygen_Generate :: "'s env \<Rightarrow> nat \<Rightarrow> string \<Rightarrow> (key_error, string \<times> string) result" where
  \<comment> \<open>the pair of PEM texts is drawn from the crypto library\<close>
  "signingkeygen_Generate e n alg =
     (if alg \<in> {''RS256'', ''ES256'', ''EdDSA''}
      then (case e_pair e n alg of None \<Rightarrow> Inl CryptoFailed | Some m \<Rightarrow> Inr m)
      else Inl (ErrUnknownAlgorithm alg))"

definition CheckStrength :: "'s env \<Rightarrow> string \<Rightarrow> string \<Rightarrow> bool" where
  \<comment> \<open>\<open>StrengthOf\<close> reads the algorithm and the size of a PEM key through the crypto library\<close>
  "CheckStrength e alg pem = (case e_strength e pem of None \<Rightarrow> False | Some (got, bits) \<Rightarrow> got = alg \<and> MinBits alg \<le> bits)"

definition base32_alphabet :: string where
  "base32_alphabet = ''ABCDEFGHIJKLMNOPQRSTUVWXYZ234567''"

definition base32_group :: "string \<Rightarrow> string" where
  \<comment> \<open>five bytes, big-endian, as eight digits of five bits\<close>
  "base32_group bs = (let n = foldl (\<lambda>acc c. 256 * acc + byte c) 0 bs
     in map (\<lambda>i. base32_alphabet ! (n div 32 ^ (7 - i) mod 32)) [0..<8])"

definition newKeyID :: "'s Keystore \<Rightarrow> nat \<Rightarrow> (key_error, string) result" where
  "newKeyID k n =
     (case e_entropy (ks_env k) n of
        None \<Rightarrow> Inl EntropyFailed
      | Some raw \<Rightarrow>
          (let kid = ''kaname-'' @ to_lower (base32_group (take 5 raw) @ base32_group (take 5 (drop 5 raw)))
           in if KeyID_Validate (ks_kidMaxLen k) kid then Inr kid else Inl KeyIdForm))"

text \<open>The steps of \<open>Generate\<close> before the record is stored; every failure of them is counted alike.\<close>

definition prepare :: "'s Keystore \<Rightarrow> 's world \<Rightarrow> (key_error, SigningKeyRecord) result" where
  "prepare k w =
     (let e = ks_env k; alg = cfg_Algorithm (ks_cfg k)
      in case signingkeygen_Generate e (w_tick w) alg of
           Inl err \<Rightarrow> Inl err
         | Inr (pub, priv) \<Rightarrow>
             if \<not> CheckStrength e alg pub then Inl WeakKey
             else (case e_wrap e priv of
                     None \<Rightarrow> Inl WrapFailed
                   | Some wrapped \<Rightarrow>
                       (case newKeyID k (w_tick w) of
                          Inl err \<Rightarrow> Inl err
                        | Inr kid \<Rightarrow>
                            Inr \<lparr>KID = kid, Algorithm = alg, key_State = SigningKeyPublished, PublicKeyPEM = pub,
                              PrivateKeyWrapped = wrapped, CreatedAt = now_of k w, NotAfter = now_of k w + KeyLifetime (ks_cfg k),
                              ActivatedAt = None, RetiredAt = None, RemovedAt = None, CompromisedAt = None\<rparr>)))"

definition Generate :: "'s Keystore \<Rightarrow> 's world \<Rightarrow> (key_error, PublishedKey) result \<times> 's world" where
  "Generate k w =
     (case prepare k w of
        Inl err \<Rightarrow> (Inl err, add_Failures w)
      | Inr rec \<Rightarrow>
          (case write_call k (p_Insert (ks_port k) rec) w of
             (Some err, w1) \<Rightarrow> (Inl err, add_Failures w1)
           | (None, w1) \<Rightarrow> (Inr (Published rec), add_Generated w1)))"

subsection \<open>The hand-over\<close>

definition Activate :: "'s Keystore \<Rightarrow> string \<Rightarrow> 's world \<Rightarrow> key_error option \<times> 's world" where
  "Activate k kid w =
     (case write_call k (p_Activate (ks_port k) kid (now_of k w)) w of
        (Some err, w1) \<Rightarrow> (Some err, add_Failures w1)
      | (None, w1) \<Rightarrow> (None, add_Activated w1))"

definition underHandoverLimit :: "'s Keystore \<Rightarrow> 's world \<Rightarrow> key_error \<Rightarrow> key_error" where
  "underHandoverLimit k w err = (if e_expired (ks_env k) (w_tick w) then Chain HandoverLimitExpired err else err)"

definition abandon :: "'s Keystore \<Rightarrow> string \<Rightarrow> 's world \<Rightarrow> 's world" where
  "abandon k kid w =
     (case write_call k (p_Retire (ks_port k) kid (now_of k w)) w of
        (None, w1) \<Rightarrow> add_Retired w1
      | (Some err, w1) \<Rightarrow> if errors_Is err (Store ErrFailedPrecondition) then w1 else add_Failures w1)"

definition Rotate :: "'s Keystore \<Rightarrow> 's world \<Rightarrow> (key_error, PublishedKey) result \<times> 's world" where
  "Rotate k w =
     (case Generate k w of
        (Inl err, w1) \<Rightarrow> (Inl (underHandoverLimit k w1 err), w1)
      | (Inr pub, w1) \<Rightarrow>
          (case Activate k (pub_KID pub) w1 of
             (Some err, w2) \<Rightarrow> (let w3 = abandon k (pub_KID pub) w2 in (Inl (underHandoverLimit k w3 err), w3))
           | (None, w2) \<Rightarrow> (Inr pub, w2)))"

definition rotateReplacing :: "'s Keystore \<Rightarrow> string \<Rightarrow> 's world \<Rightarrow> (key_error, PublishedKey) result \<times> 's world" where
  "rotateReplacing k expected w =
     (case Generate k w of
        (Inl err, w1) \<Rightarrow> (Inl (underHandoverLimit k w1 err), w1)
      | (Inr pub, w1) \<Rightarrow>
          (case write_call k (p_ReplaceActive (ks_port k) (pub_KID pub) expected (now_of k w1)) w1 of
             (Some err, w2) \<Rightarrow>
               (let w3 = abandon k (pub_KID pub) w2
                in if errors_Is err (Store ErrFailedPrecondition) then (Inl (Chain ErrSignerChanged err), w3)
                   else (let w4 = add_Failures w3 in (Inl (underHandoverLimit k w4 err), w4)))
           | (None, w2) \<Rightarrow> (Inr pub, add_Retired (add_Activated w2))))"

subsection \<open>The verbs of the operator\<close>

record LifecycleOutcome =
  out_KID :: string
  Replacement :: string
  Signer :: string
  AlreadyDone :: bool

definition outcome_of :: "string \<Rightarrow> LifecycleOutcome" where
  "outcome_of kid = \<lparr>out_KID = kid, Replacement = [], Signer = [], AlreadyDone = False\<rparr>"

definition requireDecider :: "string \<Rightarrow> bool" where
  "requireDecider decidedBy \<longleftrightarrow> trim_space decidedBy \<noteq> []"

definition retireOutcomeAfterRace ::
  "'s Keystore \<Rightarrow> string \<Rightarrow> 's world \<Rightarrow> (LifecycleOutcome \<times> key_error option) \<times> 's world" where
  "retireOutcomeAfterRace k kid w =
     (case read_call k (p_Get (ks_port k) kid) w of
        (Inl err, w1) \<Rightarrow> ((outcome_of kid, Some err), w1)
      | (Inr rec, w1) \<Rightarrow>
          if key_State rec \<noteq> SigningKeyRetired then ((outcome_of kid, Some (Store ErrFailedPrecondition)), w1)
          else (((outcome_of kid)\<lparr>AlreadyDone := True\<rparr>, None), w1))"

definition Retire :: "'s Keystore \<Rightarrow> string \<Rightarrow> string \<Rightarrow> 's world \<Rightarrow> (LifecycleOutcome \<times> key_error option) \<times> 's world" where
  "Retire k kid decidedBy w =
     (let out = outcome_of kid in
      if \<not> requireDecider decidedBy then ((out, Some NoDecider), w)
      else case read_call k (p_Get (ks_port k) kid) w of
        (Inl err, w1) \<Rightarrow> ((out, Some err), w1)
      | (Inr rec, w1) \<Rightarrow>
          (case key_State rec of
             SigningKeyActive \<Rightarrow>
               (case rotateReplacing k kid w1 of
                  (Inl rerr, w2) \<Rightarrow>
                    if errors_Is rerr ErrSignerChanged then retireOutcomeAfterRace k kid w2 else ((out, Some rerr), w2)
                | (Inr pub, w2) \<Rightarrow> ((out\<lparr>Replacement := pub_KID pub\<rparr>, None), w2))
           | SigningKeyPublished \<Rightarrow>
               (case write_call k (p_Retire (ks_port k) kid (now_of k w1)) w1 of
                  (Some werr, w2) \<Rightarrow> ((out, Some werr), add_Failures w2)
                | (None, w2) \<Rightarrow> ((out, None), add_Retired w2))
           | SigningKeyRetired \<Rightarrow> ((out\<lparr>AlreadyDone := True\<rparr>, None), w1)
           | _ \<Rightarrow> ((out, Some (Store ErrFailedPrecondition)), w1)))"

definition compromiseOutcomeAfterFailedReplacement ::
  "'s Keystore \<Rightarrow> LifecycleOutcome \<Rightarrow> key_error \<Rightarrow> 's world \<Rightarrow> (LifecycleOutcome \<times> key_error option) \<times> 's world" where
  "compromiseOutcomeAfterFailedReplacement k out replaceErr w =
     (case read_call k (p_Active (ks_port k)) w of
        (Inr rec, w1) \<Rightarrow> ((out\<lparr>Signer := KID rec\<rparr>, None), w1)
      | (Inl aerr, w1) \<Rightarrow>
          if errors_Is aerr (Store ErrFailedPrecondition) then ((out, Some (Chain ErrNoSignerAfterCompromise replaceErr)), w1)
          else ((out, Some (Chain ErrSignerUnknownAfterCompromise (Chain aerr replaceErr))), add_Failures w1))"

text \<open>The first half of \<open>Compromise\<close>, the withdrawal, and the second, the replacement.\<close>

definition withdraw ::
  "'s Keystore \<Rightarrow> string \<Rightarrow> 's world \<Rightarrow> (key_error, LifecycleOutcome) result \<times> 's world" where
  "withdraw k kid w =
     (let out = outcome_of kid
      in case write_call k (p_Compromise (ks_port k) kid (now_of k w)) w of
           (None, w1) \<Rightarrow> (Inr out, add_Compromised w1)
         | (Some err, w1) \<Rightarrow>
             if \<not> errors_Is err (Store ErrFailedPrecondition) then (Inl err, add_Failures w1)
             else (case read_call k (p_Get (ks_port k) kid) w1 of
                     (Inl gerr, w2) \<Rightarrow> (Inl gerr, w2)
                   | (Inr rec, w2) \<Rightarrow>
                       if key_State rec \<noteq> SigningKeyCompromised then (Inl err, w2)
                       else (Inr (out\<lparr>AlreadyDone := True\<rparr>), w2)))"

definition replace_signer ::
  "'s Keystore \<Rightarrow> LifecycleOutcome \<Rightarrow> 's world \<Rightarrow> (LifecycleOutcome \<times> key_error option) \<times> 's world" where
  "replace_signer k out w =
     (case read_call k (p_Active (ks_port k)) w of
        (Inr _, w1) \<Rightarrow> ((out, None), w1)
      | (Inl aerr, w1) \<Rightarrow>
          if \<not> errors_Is aerr (Store ErrFailedPrecondition)
          then ((out, Some (Chain ErrSignerUnknownAfterCompromise aerr)), add_Failures w1)
          else (case Rotate k w1 of
                  (Inl rerr, w2) \<Rightarrow>
                    if e_ended (ks_env k) (w_tick w2) then ((out, Some (Chain ErrSignerUnknownAfterCompromise rerr)), w2)
                    else compromiseOutcomeAfterFailedReplacement k out rerr w2
                | (Inr pub, w2) \<Rightarrow> ((out\<lparr>Replacement := pub_KID pub\<rparr>, None), w2)))"

definition Compromise :: "'s Keystore \<Rightarrow> string \<Rightarrow> string \<Rightarrow> 's world \<Rightarrow> (LifecycleOutcome \<times> key_error option) \<times> 's world" where
  "Compromise k kid decidedBy w =
     (if \<not> requireDecider decidedBy then ((outcome_of kid, Some NoDecider), w)
      else case withdraw k kid w of
        (Inl err, w1) \<Rightarrow> ((outcome_of kid, Some err), w1)
      | (Inr out, w1) \<Rightarrow> replace_signer k out w1)"

subsection \<open>Rotation by the calendar and the sweeper\<close>

definition RotateIfDue :: "'s Keystore \<Rightarrow> 's world \<Rightarrow> (bool \<times> key_error option) \<times> 's world" where
  "RotateIfDue k w =
     (case read_call k (p_Active (ks_port k)) w of
        (Inl err, w1) \<Rightarrow> ((False, Some err), add_Failures w1)
      | (Inr rec, w1) \<Rightarrow>
          if now_of k w1 < NotAfter rec - RotationLead (ks_cfg k) then ((False, None), w1)
          else (case rotateReplacing k (KID rec) w1 of
                  (Inl err, w2) \<Rightarrow> if errors_Is err ErrSignerChanged then ((False, None), w2) else ((False, Some err), w2)
                | (Inr _, w2) \<Rightarrow> ((True, None), w2)))"

definition retireStranded :: "'s Keystore \<Rightarrow> SigningKeyRecord \<Rightarrow> instant \<Rightarrow> 's world \<Rightarrow> key_error option \<times> 's world" where
  "retireStranded k rec at w =
     (if at < CreatedAt rec + StrandedAfter (ks_cfg k) then (None, w)
      else case write_call k (p_Retire (ks_port k) (KID rec) at) w of
        (None, w1) \<Rightarrow> (None, add_Retired w1)
      | (Some err, w1) \<Rightarrow>
          if errors_Is err (Store ErrFailedPrecondition) then (None, w1) else (Some err, add_Failures w1))"

fun sweep_loop ::
  "'s Keystore \<Rightarrow> instant \<Rightarrow> SigningKeyRecord list \<Rightarrow> nat \<Rightarrow> 's world \<Rightarrow> (nat \<times> key_error option) \<times> 's world" where
  "sweep_loop k at [] n w = ((n, None), add_Sweeps w)"
| "sweep_loop k at (rec # recs) n w =
     (if key_State rec = SigningKeyPublished
      then (case retireStranded k rec at w of
              (Some err, w1) \<Rightarrow> ((n, Some err), w1)
            | (None, w1) \<Rightarrow> sweep_loop k at recs n w1)
      else if key_State rec \<noteq> SigningKeyRetired then sweep_loop k at recs n w
      else case RetiredAt rec of
        None \<Rightarrow> sweep_loop k at recs n w
      | Some t \<Rightarrow>
          if at < t + RemovalGrace (ks_cfg k) then sweep_loop k at recs n w
          else case write_call k (p_Remove (ks_port k) (KID rec) at) w of
            (Some err, w1) \<Rightarrow>
              if errors_Is err (Store ErrFailedPrecondition) then sweep_loop k at recs n w1
              else ((n, Some err), add_Failures w1)
          | (None, w1) \<Rightarrow> sweep_loop k at recs (Suc n) (add_Removed w1))"

definition SweepRemovable :: "'s Keystore \<Rightarrow> 's world \<Rightarrow> (nat \<times> key_error option) \<times> 's world" where
  "SweepRemovable k w =
     (case read_call k (\<lambda>s. Inr (p_KeySet (ks_port k) s)) w of
        (Inl err, w1) \<Rightarrow> ((0, Some err), add_Failures w1)
      | (Inr recs, w1) \<Rightarrow> sweep_loop k (now_of k w1) recs 0 w1)"

subsection \<open>Start-up and readers\<close>

definition assertWrappingKeyOpens :: "'s Keystore \<Rightarrow> SigningKeyRecord list \<Rightarrow> 's world \<Rightarrow> key_error option \<times> 's world" where
  "assertWrappingKeyOpens k recs w =
     (let unreadable = map KID (filter (\<lambda>rec. e_unwrap (ks_env k) (PrivateKeyWrapped rec) = None) recs)
      in if unreadable = [] then (None, w)
         else (Some (ErrWrappingKeyMismatch unreadable (length recs)), add_Failures w))"

definition VerifyWrappingKey :: "'s Keystore \<Rightarrow> 's world \<Rightarrow> key_error option \<times> 's world" where
  "VerifyWrappingKey k w =
     (case read_call k (\<lambda>s. Inr (p_KeySet (ks_port k) s)) w of
        (Inl err, w1) \<Rightarrow> (Some err, add_Failures w1)
      | (Inr recs, w1) \<Rightarrow> assertWrappingKeyOpens k recs w1)"

definition EnsureSigningKey :: "'s Keystore \<Rightarrow> 's world \<Rightarrow> key_error option \<times> 's world" where
  "EnsureSigningKey k w =
     (case VerifyWrappingKey k w of
        (Some err, w1) \<Rightarrow> (Some err, w1)
      | (None, w1) \<Rightarrow>
          (case read_call k (p_Active (ks_port k)) w1 of
             (Inr _, w2) \<Rightarrow> (None, w2)
           | (Inl _, w2) \<Rightarrow>
               (case Rotate k w2 of
                  (Inl gerr, w3) \<Rightarrow> (Some gerr, w3)
                | (Inr _, w3) \<Rightarrow> (None, w3))))"

definition PublishedSet :: "'s Keystore \<Rightarrow> 's world \<Rightarrow> (key_error, PublishedKey list) result \<times> 's world" where
  "PublishedSet k w =
     (case read_call k (\<lambda>s. Inr (p_KeySet (ks_port k) s)) w of
        (Inl err, w1) \<Rightarrow> (Inl err, w1)
      | (Inr recs, w1) \<Rightarrow> (Inr (map Published recs), w1))"

record SigningMaterial =
  mat_KID :: string
  mat_Algorithm :: string
  mat_PrivateKeyPEM :: string
  mat_PublicKeyPEM :: string

definition ActiveSigningKey :: "'s Keystore \<Rightarrow> 's world \<Rightarrow> (key_error, SigningMaterial) result \<times> 's world" where
  "ActiveSigningKey k w =
     (case read_call k (p_Active (ks_port k)) w of
        (Inl err, w1) \<Rightarrow> (Inl err, add_Failures w1)
      | (Inr rec, w1) \<Rightarrow>
          (case e_unwrap (ks_env k) (PrivateKeyWrapped rec) of
             None \<Rightarrow> (Inl (NotReadable (KID rec)), add_Failures w1)
           | Some plain \<Rightarrow> (Inr \<lparr>mat_KID = KID rec, mat_Algorithm = Algorithm rec, mat_PrivateKeyPEM = plain,
               mat_PublicKeyPEM = PublicKeyPEM rec\<rparr>, w1)))"

subsection \<open>What a run may do to the store\<close>

text \<open>A run of commands, as the process issues them.\<close>

datatype command = CmdGenerate | CmdActivate string | CmdRotate | CmdRetire string string | CmdCompromise string string
  | CmdRotateIfDue | CmdSweep | CmdEnsure | CmdVerify | CmdPublishedSet | CmdActiveKey

fun exec :: "'s Keystore \<Rightarrow> command \<Rightarrow> 's world \<Rightarrow> 's world" where
  "exec k CmdGenerate w = snd (Generate k w)"
| "exec k (CmdActivate kid) w = snd (Activate k kid w)"
| "exec k CmdRotate w = snd (Rotate k w)"
| "exec k (CmdRetire kid decidedBy) w = snd (Retire k kid decidedBy w)"
| "exec k (CmdCompromise kid decidedBy) w = snd (Compromise k kid decidedBy w)"
| "exec k CmdRotateIfDue w = snd (RotateIfDue k w)"
| "exec k CmdSweep w = snd (SweepRemovable k w)"
| "exec k CmdEnsure w = snd (EnsureSigningKey k w)"
| "exec k CmdVerify w = snd (VerifyWrappingKey k w)"
| "exec k CmdPublishedSet w = snd (PublishedSet k w)"
| "exec k CmdActiveKey w = snd (ActiveSigningKey k w)"

definition run_commands :: "'s Keystore \<Rightarrow> command list \<Rightarrow> 's world \<Rightarrow> 's world" where
  "run_commands k cmds w = fold (exec k) cmds w"

text \<open>
  One write to the store, by this process or by another replica. Only \<open>Generate\<close> inserts, and
  it inserts published keys.
\<close>

inductive port_step :: "'s key_port \<Rightarrow> 's \<Rightarrow> 's \<Rightarrow> bool" for port where
  step_Insert: "key_State rec = SigningKeyPublished \<Longrightarrow> port_step port s (snd (p_Insert port rec s))"
| step_Activate: "port_step port s (snd (p_Activate port kid at s))"
| step_ReplaceActive: "port_step port s (snd (p_ReplaceActive port nxt expected at s))"
| step_Retire: "port_step port s (snd (p_Retire port kid at s))"
| step_Remove: "port_step port s (snd (p_Remove port kid at s))"
| step_Compromise: "port_step port s (snd (p_Compromise port kid at s))"

text \<open>The other replicas change the store through the same port.\<close>

definition neighbours :: "'s Keystore \<Rightarrow> bool" where
  "neighbours k \<longleftrightarrow> (\<forall>n s. (port_step (ks_port k))\<^sup>*\<^sup>* s (e_others (ks_env k) n s))"

definition leads :: "'s Keystore \<Rightarrow> 's world \<Rightarrow> 's world \<Rightarrow> bool" where
  "leads k w w' \<longleftrightarrow> (port_step (ks_port k))\<^sup>*\<^sup>* (w_store w) (w_store w')"

lemmas counters = add_Generated_def add_Activated_def add_Retired_def add_Removed_def add_Compromised_def
  add_Failures_def add_Sweeps_def

lemma counters_frame [simp]:
  "w_store (add_Generated w) = w_store w" "w_tick (add_Generated w) = w_tick w"
  "w_store (add_Activated w) = w_store w" "w_tick (add_Activated w) = w_tick w"
  "w_store (add_Retired w) = w_store w" "w_tick (add_Retired w) = w_tick w"
  "w_store (add_Removed w) = w_store w" "w_tick (add_Removed w) = w_tick w"
  "w_store (add_Compromised w) = w_store w" "w_tick (add_Compromised w) = w_tick w"
  "w_store (add_Failures w) = w_store w" "w_tick (add_Failures w) = w_tick w"
  "w_store (add_Sweeps w) = w_store w" "w_tick (add_Sweeps w) = w_tick w"
  by (simp_all add: counters)

lemma leads_refl [simp]: "leads k w w"
  by (simp add: leads_def)

lemma leads_trans: "leads k a b \<Longrightarrow> leads k b c \<Longrightarrow> leads k a c"
  by (simp add: leads_def)

lemma leads_counters [simp]:
  "leads k w (add_Generated v) = leads k w v" "leads k w (add_Activated v) = leads k w v"
  "leads k w (add_Retired v) = leads k w v" "leads k w (add_Removed v) = leads k w v"
  "leads k w (add_Compromised v) = leads k w v" "leads k w (add_Failures v) = leads k w v"
  "leads k w (add_Sweeps v) = leads k w v" "leads k (add_Removed w) v = leads k w v"
  by (simp_all add: leads_def)

text \<open>Calls, and then every operation: what is done to the store is a sequence of port steps.\<close>

lemma read_call_leads: "neighbours k \<Longrightarrow> read_call k f w = (r, w') \<Longrightarrow> leads k w w'"
  by (auto simp: read_call_def leads_def neighbours_def Let_def)

lemma write_call_leads:
  assumes "neighbours k" "write_call k f w = (r, w')" "\<And>s. port_step (ks_port k) s (snd (f s))"
  shows "leads k w w'"
proof -
  have "(port_step (ks_port k))\<^sup>*\<^sup>* (w_store w) (e_others (ks_env k) (w_tick w) (w_store w))"
    using assms(1) by (simp add: neighbours_def)
  moreover from this have "(port_step (ks_port k))\<^sup>*\<^sup>* (w_store w) (snd (f (e_others (ks_env k) (w_tick w) (w_store w))))"
    using assms(3) by (rule rtranclp.rtrancl_into_rtrancl)
  ultimately show ?thesis using assms(2)
    by (auto simp: write_call_def leads_def Let_def split: option.splits fault.splits)
qed

lemma prepare_published: "prepare k w = Inr rec \<Longrightarrow> key_State rec = SigningKeyPublished"
  by (auto simp: prepare_def Let_def split: sum.splits prod.splits if_splits option.splits)

lemma Generate_leads: "neighbours k \<Longrightarrow> Generate k w = (r, w') \<Longrightarrow> leads k w w'"
  by (auto simp: Generate_def split: sum.splits prod.splits option.splits
      dest!: prepare_published write_call_leads intro: step_Insert)

lemma Activate_leads: "neighbours k \<Longrightarrow> Activate k kid w = (r, w') \<Longrightarrow> leads k w w'"
  by (auto simp: Activate_def split: prod.splits option.splits dest!: write_call_leads intro: step_Activate)

lemma abandon_leads: "neighbours k \<Longrightarrow> leads k w (abandon k kid w)"
  by (auto simp: abandon_def split: prod.splits option.splits dest!: write_call_leads intro: step_Retire)

lemma Rotate_leads:
  assumes "neighbours k" "Rotate k w = (r, w')"
  shows "leads k w w'"
proof -
  obtain g w1 where g: "Generate k w = (g, w1)" by fastforce
  then have 1: "leads k w w1" using assms(1) Generate_leads by blast
  show ?thesis
  proof (cases g)
    case (Inr pub)
    obtain a w2 where a: "Activate k (pub_KID pub) w1 = (a, w2)" by fastforce
    have 2: "leads k w w2" using 1 Activate_leads [OF assms(1) a] by (rule leads_trans)
    have "w' = w2 \<or> w' = abandon k (pub_KID pub) w2"
      using assms(2) g a Inr by (auto simp: Rotate_def Let_def split: option.splits)
    then show ?thesis using 2 abandon_leads [OF assms(1)] leads_trans by blast
  qed (use assms(2) g 1 in \<open>auto simp: Rotate_def\<close>)
qed

lemma rotateReplacing_leads:
  assumes "neighbours k" "rotateReplacing k expected w = (r, w')"
  shows "leads k w w'"
proof -
  obtain g w1 where g: "Generate k w = (g, w1)" by fastforce
  then have 1: "leads k w w1" using assms(1) Generate_leads by blast
  show ?thesis
  proof (cases g)
    case (Inr pub)
    obtain a w2 where a: "write_call k (p_ReplaceActive (ks_port k) (pub_KID pub) expected (now_of k w1)) w1 = (a, w2)" by fastforce
    have 2: "leads k w w2" using 1 write_call_leads [OF assms(1) a step_ReplaceActive] by (rule leads_trans)
    have "w' \<in> {add_Retired (add_Activated w2), abandon k (pub_KID pub) w2, add_Failures (abandon k (pub_KID pub) w2)}"
      using assms(2) g a Inr by (auto simp: rotateReplacing_def Let_def split: option.splits if_splits)
    moreover have "leads k w (abandon k (pub_KID pub) w2)" using 2 abandon_leads [OF assms(1)] leads_trans by blast
    ultimately show ?thesis using 2 by auto
  qed (use assms(2) g 1 in \<open>auto simp: rotateReplacing_def\<close>)
qed

lemma retireOutcomeAfterRace_leads:
  "neighbours k \<Longrightarrow> retireOutcomeAfterRace k kid w = (r, w') \<Longrightarrow> leads k w w'"
  by (auto simp: retireOutcomeAfterRace_def split: prod.splits sum.splits if_splits dest: read_call_leads)

lemma Retire_leads:
  assumes "neighbours k" "Retire k kid decidedBy w = (r, w')"
  shows "leads k w w'"
proof (cases "requireDecider decidedBy")
  case True
  obtain g w1 where g: "read_call k (p_Get (ks_port k) kid) w = (g, w1)" by fastforce
  then have 1: "leads k w w1" using assms(1) read_call_leads by blast
  have "leads k w1 w'"
    using assms(2) g True
    by (auto simp: Retire_def Let_def split: prod.splits sum.splits if_splits SigningKeyState.splits option.splits
        dest!: retireOutcomeAfterRace_leads [OF assms(1)] rotateReplacing_leads [OF assms(1)]
          write_call_leads [OF assms(1) _ step_Retire] intro: leads_trans)
  then show ?thesis using 1 leads_trans by blast
qed (use assms(2) in \<open>simp add: Retire_def Let_def\<close>)

lemma withdraw_leads:
  assumes "neighbours k" "withdraw k kid w = (r, w')"
  shows "leads k w w'"
  using assms(2)
  by (auto simp: withdraw_def Let_def split: prod.splits sum.splits if_splits option.splits
      dest!: write_call_leads [OF assms(1) _ step_Compromise] read_call_leads [OF assms(1)] intro: leads_trans)

lemma replace_signer_leads:
  assumes "neighbours k" "replace_signer k out w = (r, w')"
  shows "leads k w w'"
proof -
  obtain g w1 where g: "read_call k (p_Active (ks_port k)) w = (g, w1)" by fastforce
  then have 1: "leads k w w1" using assms(1) read_call_leads by blast
  obtain q w2 where q: "Rotate k w1 = (q, w2)" by fastforce
  then have 2: "leads k w w2" using 1 Rotate_leads [OF assms(1)] leads_trans by blast
  have 3: "compromiseOutcomeAfterFailedReplacement k out e w2 = (z, w3) \<Longrightarrow> leads k w w3" for e z w3
    using 2 by (auto simp: compromiseOutcomeAfterFailedReplacement_def split: prod.splits sum.splits if_splits
        dest!: read_call_leads [OF assms(1)] intro: leads_trans)
  show ?thesis using assms(2) g q 1 2 3
    by (auto simp: replace_signer_def split: sum.splits if_splits)
qed

lemma Compromise_leads:
  assumes "neighbours k" "Compromise k kid decidedBy w = (r, w')"
  shows "leads k w w'"
  using assms(2)
  by (auto simp: Compromise_def split: prod.splits sum.splits if_splits
      dest!: withdraw_leads [OF assms(1)] replace_signer_leads [OF assms(1)] intro: leads_trans)

lemma RotateIfDue_leads:
  assumes "neighbours k" "RotateIfDue k w = (r, w')"
  shows "leads k w w'"
  using assms(2)
  by (auto simp: RotateIfDue_def split: prod.splits sum.splits if_splits
      dest!: read_call_leads [OF assms(1)] rotateReplacing_leads [OF assms(1)] intro: leads_trans)

lemma retireStranded_leads:
  "neighbours k \<Longrightarrow> retireStranded k rec at w = (r, w') \<Longrightarrow> leads k w w'"
  by (auto simp: retireStranded_def split: prod.splits option.splits if_splits dest!: write_call_leads intro: step_Retire)

lemma sweep_loop_leads: "neighbours k \<Longrightarrow> sweep_loop k at recs n w = (r, w') \<Longrightarrow> leads k w w'"
proof (induction recs arbitrary: n w)
  case (Cons rec recs)
  note IH = Cons.IH [OF Cons.prems(1)]
  have 1: "leads k w w1" if "retireStranded k rec at w = (z, w1)" for z w1
    using that Cons.prems(1) retireStranded_leads by blast
  have 2: "leads k w w1" if "write_call k (p_Remove (ks_port k) (KID rec) at) w = (z, w1)" for z w1
    using write_call_leads [OF Cons.prems(1) that step_Remove] .
  show ?case using Cons.prems(2)
    by (auto split: if_splits prod.splits option.splits dest!: 1 2 IH intro: leads_trans)
qed auto

lemma SweepRemovable_leads:
  assumes "neighbours k" "SweepRemovable k w = (r, w')"
  shows "leads k w w'"
  using assms(2)
  by (auto simp: SweepRemovable_def split: prod.splits sum.splits
      dest!: read_call_leads [OF assms(1)] sweep_loop_leads [OF assms(1)] intro: leads_trans)

lemma VerifyWrappingKey_leads: "neighbours k \<Longrightarrow> VerifyWrappingKey k w = (r, w') \<Longrightarrow> leads k w w'"
  by (auto simp: VerifyWrappingKey_def assertWrappingKeyOpens_def Let_def split: prod.splits sum.splits if_splits dest!: read_call_leads)

lemma EnsureSigningKey_leads:
  assumes "neighbours k" "EnsureSigningKey k w = (r, w')"
  shows "leads k w w'"
  using assms(2)
  by (auto simp: EnsureSigningKey_def split: prod.splits sum.splits option.splits
      dest!: read_call_leads [OF assms(1)] VerifyWrappingKey_leads [OF assms(1)] Rotate_leads [OF assms(1)] intro: leads_trans)

lemma PublishedSet_leads: "neighbours k \<Longrightarrow> PublishedSet k w = (r, w') \<Longrightarrow> leads k w w'"
  by (auto simp: PublishedSet_def split: prod.splits sum.splits dest!: read_call_leads)

lemma ActiveSigningKey_leads: "neighbours k \<Longrightarrow> ActiveSigningKey k w = (r, w') \<Longrightarrow> leads k w w'"
  by (auto simp: ActiveSigningKey_def split: prod.splits sum.splits option.splits dest!: read_call_leads)

lemmas operations_lead = Generate_leads Activate_leads Rotate_leads Retire_leads Compromise_leads RotateIfDue_leads
  SweepRemovable_leads EnsureSigningKey_leads VerifyWrappingKey_leads PublishedSet_leads ActiveSigningKey_leads

lemma exec_leads: "neighbours k \<Longrightarrow> leads k w (exec k c w)"
  by (cases c) (auto intro: operations_lead prod.collapse [symmetric])

lemma run_commands_leads: "neighbours k \<Longrightarrow> leads k w (run_commands k cmds w)"
  unfolding run_commands_def by (induction cmds arbitrary: w) (auto intro: exec_leads leads_trans)

subsection \<open>The life of a key\<close>

text \<open>
  A key only moves forward: its states are ordered, its material and its declared term never
  change, and a stamp that is set is never rewritten.
\<close>

fun rank :: "SigningKeyState \<Rightarrow> nat" where
  "rank SigningKeyPublished = 0"
| "rank SigningKeyActive = 1"
| "rank SigningKeyRetired = 2"
| "rank SigningKeyRemoved = 3"
| "rank SigningKeyCompromised = 4"

definition keeps :: "'a option \<Rightarrow> 'a option \<Rightarrow> bool" where
  "keeps x y \<longleftrightarrow> x = None \<or> y = x"

definition advances :: "SigningKeyRecord \<Rightarrow> SigningKeyRecord \<Rightarrow> bool" where
  "advances r r' \<longleftrightarrow> KID r' = KID r \<and> Algorithm r' = Algorithm r \<and> PublicKeyPEM r' = PublicKeyPEM r
     \<and> PrivateKeyWrapped r' = PrivateKeyWrapped r \<and> CreatedAt r' = CreatedAt r \<and> NotAfter r' = NotAfter r
     \<and> rank (key_State r) \<le> rank (key_State r')
     \<and> keeps (ActivatedAt r) (ActivatedAt r') \<and> keeps (RetiredAt r) (RetiredAt r')
     \<and> keeps (RemovedAt r) (RemovedAt r') \<and> keeps (CompromisedAt r) (CompromisedAt r')"

definition all_advance :: "(string \<Rightarrow> SigningKeyRecord option) \<Rightarrow> (string \<Rightarrow> SigningKeyRecord option) \<Rightarrow> bool" where
  "all_advance m m' \<longleftrightarrow> (\<forall>kid r. m kid = Some r \<longrightarrow> (\<exists>r'. m' kid = Some r' \<and> advances r r'))"

lemma advances_refl [simp]: "advances r r"
  by (simp add: advances_def keeps_def)

lemma all_advanceE:
  assumes "all_advance m m'" "m kid = Some r"
  obtains r' where "m' kid = Some r'" "advances r r'"
  using assms unfolding all_advance_def by blast

lemma keeps_trans: "keeps x y \<Longrightarrow> keeps y z \<Longrightarrow> keeps x z"
  by (auto simp: keeps_def)

lemma advances_trans: "advances a b \<Longrightarrow> advances b c \<Longrightarrow> advances a c"
  unfolding advances_def by (elim conjE, intro conjI) (erule keeps_trans order_trans trans [rotated], assumption)+

lemma all_advance_refl [simp]: "all_advance m m"
  by (auto simp: all_advance_def)

lemma all_advance_trans: "all_advance a b \<Longrightarrow> all_advance b c \<Longrightarrow> all_advance a c"
  unfolding all_advance_def using advances_trans by blast

lemma stamps_of_row:
  assumes "row_ok r"
  shows "key_State r \<noteq> SigningKeyCompromised \<Longrightarrow> CompromisedAt r = None"
    "key_State r \<in> {SigningKeyPublished, SigningKeyActive, SigningKeyRetired} \<Longrightarrow> RemovedAt r = None"
    "key_State r \<in> {SigningKeyPublished, SigningKeyActive} \<Longrightarrow> RetiredAt r = None"
    "key_State r = SigningKeyPublished \<Longrightarrow> ActivatedAt r = None"
  using assms unfolding row_ok_def by (cases "key_State r"; simp)+

lemma advances_updates:
  "row_ok r \<Longrightarrow> key_State r = SigningKeyPublished \<or> key_State r = SigningKeyActive \<Longrightarrow> advances r (demote at r)"
  "row_ok r \<Longrightarrow> CanActivate (key_State r) \<Longrightarrow> advances r (promote at r)"
  "row_ok r \<Longrightarrow> key_State r = SigningKeyPublished \<Longrightarrow> advances r (take_over at r)"
  "row_ok r \<Longrightarrow> key_State r = SigningKeyRetired \<Longrightarrow> advances r (mark_removed at r)"
  "row_ok r \<Longrightarrow> key_State r \<noteq> SigningKeyCompromised \<Longrightarrow> advances r (mark_compromised at r)"
proof -
  show "row_ok r \<Longrightarrow> key_State r = SigningKeyPublished \<or> key_State r = SigningKeyActive \<Longrightarrow> advances r (demote at r)"
    using stamps_of_row(3) [of r] by (auto simp: advances_def keeps_def demote_def)
  show "row_ok r \<Longrightarrow> CanActivate (key_State r) \<Longrightarrow> advances r (promote at r)"
    by (cases "ActivatedAt r") (auto simp: advances_def keeps_def promote_def CanActivate_def)
  show "row_ok r \<Longrightarrow> key_State r = SigningKeyPublished \<Longrightarrow> advances r (take_over at r)"
    using stamps_of_row(4) [of r] by (auto simp: advances_def keeps_def take_over_def)
  show "row_ok r \<Longrightarrow> key_State r = SigningKeyRetired \<Longrightarrow> advances r (mark_removed at r)"
    using stamps_of_row(2) [of r] by (auto simp: advances_def keeps_def mark_removed_def)
  show "row_ok r \<Longrightarrow> key_State r \<noteq> SigningKeyCompromised \<Longrightarrow> advances r (mark_compromised at r)"
    using stamps_of_row(1) [of r] by (cases "key_State r") (auto simp: advances_def keeps_def mark_compromised_def)
qed

context key_store
begin

lemma transition_advances:
  assumes "conditional_transition inv row operation allowed f" "inv s"
    and "\<And>at r. row_ok r \<Longrightarrow> allowed r \<Longrightarrow> advances r (f at r)"
  shows "inv (snd (operation kid at s)) \<and> all_advance (row s) (row (snd (operation kid at s)))"
proof (cases "\<exists>r. row s kid = Some r \<and> allowed r")
  case True
  then obtain r where "row s kid = Some r" "allowed r" by blast
  then show ?thesis using assms row_valid [OF assms(2)]
    by (auto simp: conditional_transition_def all_advance_def)
next
  case False
  then have "operation kid at s = (Some ErrFailedPrecondition, s)"
    using assms(1,2) unfolding conditional_transition_def by meson
  then show ?thesis using assms(2) by simp
qed

lemma Insert_advances:
  assumes "inv s"
  shows "inv (snd (p_Insert port rec s)) \<and> all_advance (row s) (row (snd (p_Insert port rec s)))"
proof (cases "fst (p_Insert port rec s) = None")
  case True
  then show ?thesis using Insert_ok [OF assms True] by (auto simp: all_advance_def)
next
  case False
  then show ?thesis using Insert_err [OF False] assms by simp
qed

lemma Activate_advances:
  assumes "inv s"
  shows "inv (snd (p_Activate port kid at s)) \<and> all_advance (row s) (row (snd (p_Activate port kid at s)))"
proof (cases "\<exists>r. row s kid = Some r \<and> CanActivate (key_State r)")
  case True
  then obtain r where r: "row s kid = Some r" "CanActivate (key_State r)" by blast
  show ?thesis using Activate_ok [OF assms r] r row_valid [OF assms] advances_updates(1,2)
    by (auto simp: all_advance_def)
next
  case False
  then show ?thesis using Activate_err [OF assms False] assms by simp
qed

lemma ReplaceActive_advances:
  assumes "inv s"
  shows "inv (snd (p_ReplaceActive port nxt expected at s))
    \<and> all_advance (row s) (row (snd (p_ReplaceActive port nxt expected at s)))"
proof (cases "signs (row s expected) \<and> (\<exists>r. row s nxt = Some r \<and> key_State r = SigningKeyPublished)")
  case True
  then obtain r where r: "signs (row s expected)" "row s nxt = Some r" "key_State r = SigningKeyPublished" by blast
  show ?thesis using ReplaceActive_ok [OF assms r] r row_valid [OF assms] advances_updates(1,3)
    by (auto simp: all_advance_def signs_def)
next
  case False
  then show ?thesis using ReplaceActive_err [OF assms False] assms by simp
qed

lemma step_advances: "port_step port s s' \<Longrightarrow> inv s \<Longrightarrow> inv s' \<and> all_advance (row s) (row s')"
  by (induction rule: port_step.induct)
    (simp_all add: Insert_advances Activate_advances ReplaceActive_advances advances_updates
      transition_advances [OF Retire_law] transition_advances [OF Remove_law] transition_advances [OF Compromise_law])

lemma steps_advance: "(port_step port)\<^sup>*\<^sup>* s s' \<Longrightarrow> inv s \<Longrightarrow> inv s' \<and> all_advance (row s) (row s')"
proof (induction rule: rtranclp_induct)
  case (step s' s'')
  then show ?case using step_advances [of s' s''] all_advance_trans by blast
qed simp

lemma leads_advance:
  assumes "leads k w w'" "ks_port k = port" "inv (w_store w)"
  shows "inv (w_store w') \<and> all_advance (row (w_store w)) (row (w_store w'))"
  using assms steps_advance by (simp add: leads_def)

end

subsection \<open>What answers mean\<close>

lemma read_call_Inr: "read_call k f w = (Inr x, w') \<Longrightarrow> f (w_store w') = Inr x"
  by (auto simp: read_call_def Let_def split: option.splits sum.splits)

lemma read_call_Inl:
  "read_call k f w = (Inl e, w') \<Longrightarrow> e = Store ErrStorage \<or> (\<exists>e'. e = Store e' \<and> f (w_store w') = Inl e')"
  by (auto simp: read_call_def Let_def split: option.splits sum.splits)

lemma read_call_error: "read_call k f w = (Inl e, w') \<Longrightarrow> \<not> errors_Is e ErrNoSignerAfterCompromise"
  by (auto simp: read_call_def Let_def split: option.splits sum.splits)

lemma write_call_None:
  assumes "neighbours k" "write_call k f w = (None, w')"
  obtains s where "(port_step (ks_port k))\<^sup>*\<^sup>* (w_store w) s" "fst (f s) = None" "w_store w' = snd (f s)"
proof
  show "(port_step (ks_port k))\<^sup>*\<^sup>* (w_store w) (e_others (ks_env k) (w_tick w) (w_store w))"
    using assms(1) by (simp add: neighbours_def)
  show "fst (f (e_others (ks_env k) (w_tick w) (w_store w))) = None"
    "w_store w' = snd (f (e_others (ks_env k) (w_tick w) (w_store w)))"
    using assms(2) by (auto simp: write_call_def Let_def split: option.splits fault.splits)
qed

lemma write_call_Some: "write_call k f w = (Some e, w') \<Longrightarrow> \<exists>e'. e = Store e'"
  by (auto simp: write_call_def Let_def split: option.splits fault.splits)

context key_store
begin

lemma PublishedSet_rows:
  assumes "ks_port k = port" "neighbours k" "inv (w_store w)" "PublishedSet k w = (Inr ps, w')"
  shows "inv (w_store w') \<and> all_advance (row (w_store w)) (row (w_store w'))
    \<and> set ps = Published ` {r. row (w_store w') (KID r) = Some r \<and> InKeySet (key_State r)}"
proof -
  obtain recs where recs: "read_call k (\<lambda>s. Inr (p_KeySet port s)) w = (Inr recs, w')" "ps = map Published recs"
    using assms(1,4) by (auto simp: PublishedSet_def split: prod.splits sum.splits)
  have "inv (w_store w') \<and> all_advance (row (w_store w)) (row (w_store w'))"
    using leads_advance [OF PublishedSet_leads [OF assms(2,4)] assms(1,3)] .
  moreover have "p_KeySet port (w_store w') = recs" using read_call_Inr [OF recs(1)] by simp
  ultimately show ?thesis using KeySet_rows [of "w_store w'"] recs(2) by auto
qed

lemma withdrawn_not_published:
  assumes "ks_port k = port" "neighbours k" "inv (w_store w)" "PublishedSet k w = (Inr ps, w')"
    and "row (w_store w) kid = Some r" "rank (key_State r) \<ge> 3"
  shows "kid \<notin> pub_KID ` set ps"
proof
  assume "kid \<in> pub_KID ` set ps"
  then obtain q where q: "row (w_store w') kid = Some q" "InKeySet (key_State q)"
    using PublishedSet_rows [OF assms(1-4)] by (auto simp: Published_def)
  obtain r' where "row (w_store w') kid = Some r'" "advances r r'"
    using PublishedSet_rows [OF assms(1-4)] assms(5) by (blast elim: all_advanceE)
  then have "rank (key_State q) \<ge> 3" using q assms(6) by (simp add: advances_def)
  then show False using q(2) by (auto simp: InKeySet_def)
qed

end

subsection \<open>Properties\<close>

text \<open>
  C10: the life of a signing key goes forward only. Whatever commands the keystore runs, with
  failing calls and other replicas in between, the constraints of the table hold at the end
  (so at most one key signs), every key that was stored is still there with its material and
  term unchanged, no state is left backwards and no stamp is rewritten; and a key that was
  removed or declared compromised is in no key set published later.
\<close>

theorem signing_keys_only_advance:
  assumes "ks_port k = pg_port maxLen" and "neighbours k" and "table_ok (w_store w)"
    and "w' = run_commands k cmds w"
  shows "table_ok (w_store w') \<and> all_advance (pg_row (w_store w)) (pg_row (w_store w'))
    \<and> (\<forall>kid r ps w''. pg_row (w_store w) kid = Some r \<and> rank (key_State r) \<ge> 3 \<and> PublishedSet k w' = (Inr ps, w'')
         \<longrightarrow> kid \<notin> pub_KID ` set ps)"
proof -
  have adv: "table_ok (w_store w')" "all_advance (pg_row (w_store w)) (pg_row (w_store w'))"
    using pg.leads_advance [OF run_commands_leads [OF assms(2)] assms(1,3)] assms(4) by simp_all
  have "kid \<notin> pub_KID ` set ps"
    if row: "pg_row (w_store w) kid = Some r" and out: "rank (key_State r) \<ge> 3" and ps: "PublishedSet k w' = (Inr ps, w'')"
    for kid r ps w''
  proof -
    obtain r' where "pg_row (w_store w') kid = Some r'" "advances r r'" using adv(2) row by (rule all_advanceE)
    then show ?thesis using out pg.withdrawn_not_published [OF assms(1,2) adv(1) ps] by (simp add: advances_def)
  qed
  then show ?thesis using adv by blast
qed

subsection \<open>The answers of the leak verb\<close>

definition compromised :: "SigningKeyRecord option \<Rightarrow> bool" where
  "compromised x \<longleftrightarrow> (\<exists>r. x = Some r \<and> key_State r = SigningKeyCompromised)"

lemma rank_top: "4 \<le> rank s \<longleftrightarrow> s = SigningKeyCompromised"
  by (cases s) simp_all

lemma compromised_stays: "all_advance m m' \<Longrightarrow> compromised (m kid) \<Longrightarrow> compromised (m' kid)"
  unfolding compromised_def by (metis all_advanceE advances_def rank_top rank.simps(5))

lemma Generate_error:
  "Generate k w = (Inl e, w') \<Longrightarrow> \<not> errors_Is e ErrNoSignerAfterCompromise \<and> \<not> errors_Is e ErrSignerUnknownAfterCompromise"
  by (auto simp: Generate_def prepare_def signingkeygen_Generate_def newKeyID_def Let_def dest!: write_call_Some
      split: sum.splits prod.splits option.splits if_splits)

lemma Activate_error: "Activate k kid w = (Some e, w') \<Longrightarrow> \<exists>e'. e = Store e'"
  by (auto simp: Activate_def split: prod.splits option.splits dest: write_call_Some)

lemma Rotate_error:
  assumes "Rotate k w = (Inl e, w')"
  shows "\<not> errors_Is e ErrNoSignerAfterCompromise \<and> \<not> errors_Is e ErrSignerUnknownAfterCompromise"
  using assms
  by (auto simp: Rotate_def underHandoverLimit_def Let_def split: sum.splits prod.splits option.splits if_splits
      dest: Generate_error dest!: Activate_error)

context key_store
begin

lemma Active_reads:
  assumes "inv (w_store w')"
  shows "read_call k (p_Active port) w = (Inr rec, w') \<Longrightarrow> signs (row (w_store w') (KID rec))"
    and "read_call k (p_Active port) w = (Inl e, w') \<Longrightarrow> errors_Is e (Store ErrFailedPrecondition) \<Longrightarrow> \<not> signs (row (w_store w') a)"
proof -
  show "signs (row (w_store w') (KID rec))" if "read_call k (p_Active port) w = (Inr rec, w')"
    using Active_row [OF assms read_call_Inr [OF that]] by (simp add: signs_def)
  show "\<not> signs (row (w_store w') a)"
    if "read_call k (p_Active port) w = (Inl e, w')" "errors_Is e (Store ErrFailedPrecondition)"
    using read_call_Inl [OF that(1)] that(2) Active_none [OF assms] by auto
qed

lemma Activate_signs:
  assumes "ks_port k = port" "neighbours k" "inv (w_store w)" "Activate k kid w = (None, w')"
  shows "signs (row (w_store w') kid)"
proof -
  obtain v where v: "write_call k (p_Activate port kid (now_of k w)) w = (None, v)" "w_store w' = w_store v"
    using assms(1,4) by (auto simp: Activate_def split: prod.splits option.splits)
  obtain s where s: "(port_step port)\<^sup>*\<^sup>* (w_store w) s" "fst (p_Activate port kid (now_of k w) s) = None"
      "w_store v = snd (p_Activate port kid (now_of k w) s)"
    using write_call_None [OF assms(2) v(1)] assms(1) by metis
  have "inv s" using steps_advance [OF s(1) assms(3)] by blast
  then obtain r where "row s kid = Some r" "CanActivate (key_State r)" using Activate_err [of s kid] s(2) by fastforce
  then show ?thesis using Activate_ok [OF \<open>inv s\<close>] s(3) v(2) by (auto simp: signs_def)
qed

lemma Rotate_signs:
  assumes "ks_port k = port" "neighbours k" "inv (w_store w)" "Rotate k w = (Inr pub, w')"
  shows "signs (row (w_store w') (pub_KID pub))"
proof -
  obtain w1 where g: "Generate k w = (Inr pub, w1)" and a: "Activate k (pub_KID pub) w1 = (None, w')"
    using assms(4) by (auto simp: Rotate_def Let_def split: prod.splits sum.splits option.splits)
  have "inv (w_store w1)" using leads_advance [OF Generate_leads [OF assms(2) g] assms(1,3)] by blast
  then show ?thesis using Activate_signs [OF assms(1,2) _ a] by blast
qed

lemma withdraw_compromised:
  assumes "ks_port k = port" "neighbours k" "inv (w_store w)" "withdraw k kid w = (Inr out, w')"
  shows "compromised (row (w_store w') kid) \<and> Replacement out = [] \<and> Signer out = []"
proof (cases "AlreadyDone out")
  case True
  then obtain v rec where "read_call k (p_Get port kid) v = (Inr rec, w')" "key_State rec = SigningKeyCompromised"
      "out = (outcome_of kid)\<lparr>AlreadyDone := True\<rparr>"
    using assms(1,4) by (auto simp: withdraw_def outcome_of_def Let_def split: prod.splits option.splits if_splits sum.splits)
  moreover have "inv (w_store w')" using leads_advance [OF withdraw_leads [OF assms(2,4)] assms(1,3)] by blast
  ultimately show ?thesis using Get_row [of "w_store w'" kid] read_call_Inr
    by (fastforce simp: compromised_def outcome_of_def split: option.splits)
next
  case False
  then obtain v where v: "write_call k (p_Compromise port kid (now_of k w)) w = (None, v)" "w_store w' = w_store v" "out = outcome_of kid"
    using assms(1,4) by (auto simp: withdraw_def outcome_of_def Let_def split: prod.splits option.splits if_splits sum.splits)
  obtain s where s: "(port_step port)\<^sup>*\<^sup>* (w_store w) s" "fst (p_Compromise port kid (now_of k w) s) = None"
      "w_store v = snd (p_Compromise port kid (now_of k w) s)"
    using write_call_None [OF assms(2) v(1)] assms(1) by metis
  have "inv s" using steps_advance [OF s(1) assms(3)] by blast
  then have "row (w_store v) kid = map_option (mark_compromised (now_of k w)) (row s kid) \<and> row s kid \<noteq> None"
    using Compromise_law [unfolded conditional_transition_def, rule_format, of s kid "now_of k w"] s(2,3) by (auto split: if_splits)
  then show ?thesis using v by (auto simp: compromised_def outcome_of_def)
qed

lemma replace_signer_answers:
  assumes "ks_port k = port" "neighbours k" "inv (w_store w)" "replace_signer k out w = ((out', err), w')"
    and "Replacement out = []" "Signer out = []"
  shows "(err = None \<longrightarrow> (\<exists>a. signs (row (w_store w') a))
       \<and> (Replacement out' \<noteq> [] \<longrightarrow> signs (row (w_store w') (Replacement out')))
       \<and> (Signer out' \<noteq> [] \<longrightarrow> signs (row (w_store w') (Signer out'))))
    \<and> (\<forall>e. err = Some e \<and> errors_Is e ErrNoSignerAfterCompromise \<longrightarrow> (\<forall>a. \<not> signs (row (w_store w') a)))"
proof -
  obtain g w1 where g: "read_call k (p_Active port) w = (g, w1)" by fastforce
  have 1: "inv (w_store w1)" using leads_advance [OF read_call_leads [OF assms(2) g] assms(1,3)] by blast
  obtain q w2 where q: "Rotate k w1 = (q, w2)" by fastforce
  have 2: "inv (w_store w2)" using leads_advance [OF Rotate_leads [OF assms(2) q] assms(1) 1] by blast
  have 3: "inv (w_store w')" using leads_advance [OF replace_signer_leads [OF assms(2,4)] assms(1,3)] by blast
  have pub: "signs (row (w_store w2) (pub_KID pub))" if "q = Inr pub" for pub
    using Rotate_signs [OF assms(1,2) 1] q that by blast
  have rerr: "\<not> errors_Is e ErrNoSignerAfterCompromise" if "q = Inl e" for e
    using Rotate_error q that by blast
  have aerr: "\<not> errors_Is e ErrNoSignerAfterCompromise" if "g = Inl e" for e
    using g that by (auto dest!: read_call_Inl)
  have last: ?thesis if "compromiseOutcomeAfterFailedReplacement k out e w2 = ((out', err), w')" "q = Inl e" for e
    using that(1) assms(1,5,6) Active_reads [OF 3] rerr [OF that(2)]
    by (auto simp: compromiseOutcomeAfterFailedReplacement_def split: prod.splits sum.splits if_splits
        dest: read_call_error)
  show ?thesis
  proof (cases g)
    case (Inr rec)
    then have "out' = out \<and> err = None \<and> w' = w1" using assms(1,4) g by (simp add: replace_signer_def)
    then show ?thesis using Active_reads(1) [OF 1] g Inr assms(5,6) by auto
  next
    case (Inl e)
    show ?thesis
    proof (cases "errors_Is e (Store ErrFailedPrecondition)")
      case False
      then have "err = Some (Chain ErrSignerUnknownAfterCompromise e)"
        using assms(1,4) g Inl by (simp add: replace_signer_def)
      then show ?thesis using aerr [OF Inl] by simp
    next
      case True
      then show ?thesis using assms(1,4-6) g q Inl pub rerr last
        by (cases q) (auto simp: replace_signer_def split: if_splits)
    qed
  qed
qed

end

text \<open>
  C11: the answer to a declared leak is truthful. With failing calls and other replicas in
  between: an answer without error means that the key is compromised and that a key signs,
  the one named as the replacement or read as the signer where the answer names one; the
  answer "no signer" means that the key is compromised and that no key signs; the answer
  "signer unknown" means that the key is compromised.
\<close>

theorem Compromise_truthful:
  assumes "ks_port k = pg_port maxLen" and "neighbours k" and "table_ok (w_store w)"
    and "Compromise k kid decidedBy w = ((out, err), w')"
  shows "(err = None \<longrightarrow> compromised (pg_row (w_store w') kid) \<and> (\<exists>a. signs (pg_row (w_store w') a))
       \<and> (Replacement out \<noteq> [] \<longrightarrow> signs (pg_row (w_store w') (Replacement out)))
       \<and> (Signer out \<noteq> [] \<longrightarrow> signs (pg_row (w_store w') (Signer out))))
    \<and> (\<forall>e. err = Some e \<and> errors_Is e ErrNoSignerAfterCompromise \<longrightarrow>
         compromised (pg_row (w_store w') kid) \<and> (\<forall>a. \<not> signs (pg_row (w_store w') a)))
    \<and> (\<forall>e. err = Some e \<and> errors_Is e ErrSignerUnknownAfterCompromise \<longrightarrow> compromised (pg_row (w_store w') kid))"
proof (cases "\<exists>o1 w1. requireDecider decidedBy \<and> withdraw k kid w = (Inr o1, w1)")
  case True
  then obtain o1 w1 where o1: "withdraw k kid w = (Inr o1, w1)" and "requireDecider decidedBy" by blast
  then have rest: "replace_signer k o1 w1 = ((out, err), w')" using assms(4) by (simp add: Compromise_def)
  have ok1: "table_ok (w_store w1)" using pg.leads_advance [OF withdraw_leads [OF assms(2) o1] assms(1,3)] by blast
  have c1: "compromised (pg_row (w_store w1) kid)" "Replacement o1 = []" "Signer o1 = []"
    using pg.withdraw_compromised [OF assms(1-3) o1] by auto
  have "compromised (pg_row (w_store w') kid)"
    using pg.leads_advance [OF replace_signer_leads [OF assms(2) rest] assms(1) ok1] compromised_stays c1(1) by blast
  then show ?thesis using pg.replace_signer_answers [OF assms(1,2) ok1 rest c1(2,3)] by auto
next
  case False
  then obtain e where "err = Some e" "e = NoDecider \<or> (\<exists>w1. withdraw k kid w = (Inl e, w1))"
    using assms(4) by (auto simp: Compromise_def split: prod.splits sum.splits if_splits)
  moreover have "\<exists>e'. e = Store e'" if "withdraw k kid w = (Inl e, w1)" for w1
    using that by (auto simp: withdraw_def Let_def split: prod.splits sum.splits if_splits option.splits
        dest!: write_call_Some read_call_Inl)
  ultimately show ?thesis by auto
qed

subsection \<open>In a quiet environment\<close>

definition calm :: "'s Keystore \<Rightarrow> nat \<Rightarrow> bool" where
  "calm k n \<longleftrightarrow> e_fault (ks_env k) n = None \<and> (\<forall>s. e_others (ks_env k) n s = s)"

definition quiet :: "'s Keystore \<Rightarrow> bool" where
  "quiet k \<longleftrightarrow> (\<forall>n. calm k n)"

lemma calm_calls:
  assumes "calm k (w_tick w)"
  shows "read_call k f w = (case f (w_store w) of Inl e \<Rightarrow> Inl (Store e) | Inr x \<Rightarrow> Inr x, w\<lparr>w_tick := Suc (w_tick w)\<rparr>)"
    and "write_call k g w = (map_option Store (fst (g (w_store w))), w\<lparr>w_store := snd (g (w_store w)), w_tick := Suc (w_tick w)\<rparr>)"
  using assms by (simp_all add: calm_def read_call_def write_call_def Let_def)

lemma quiet_calls:
  assumes "quiet k"
  shows "read_call k f w = (case f (w_store w) of Inl e \<Rightarrow> Inl (Store e) | Inr x \<Rightarrow> Inr x, w\<lparr>w_tick := Suc (w_tick w)\<rparr>)"
    and "write_call k g w = (map_option Store (fst (g (w_store w))), w\<lparr>w_store := snd (g (w_store w)), w_tick := Suc (w_tick w)\<rparr>)"
  using assms calm_calls unfolding quiet_def by blast+

lemma pg_Insert_accepts:
  assumes "table_ok rows" "pg_row rows (KID rec) = None" "values_ok rec" "KeyID_Validate maxLen (KID rec)"
    and "key_State rec = SigningKeyPublished" "ActivatedAt rec = None" "RetiredAt rec = None" "RemovedAt rec = None" "CompromisedAt rec = None"
  shows "fst (pg_Insert maxLen rec rows) = None"
proof -
  have "table_ok (rows @ [rec])"
    using assms by (auto simp: table_ok_def row_ok_def pg_row_None)
  then show ?thesis using assms(4) by (simp add: pg_Insert_def commit_def)
qed

lemma prepare_fresh:
  "prepare k w = Inr rec \<Longrightarrow> key_State rec = SigningKeyPublished \<and> ActivatedAt rec = None \<and> RetiredAt rec = None
     \<and> RemovedAt rec = None \<and> CompromisedAt rec = None"
  by (auto simp: prepare_def Let_def split: sum.splits prod.splits if_splits option.splits)

text \<open>Generation with a calm store call stores the prepared key and nothing else.\<close>

lemma Generate_calm:
  assumes "ks_port k = pg_port maxLen" "calm k (w_tick w)" "table_ok (w_store w)" "prepare k w = Inr rec"
    and "pg_row (w_store w) (KID rec) = None" "values_ok rec" "KeyID_Validate maxLen (KID rec)"
  obtains w' where "Generate k w = (Inr (Published rec), w')" "table_ok (w_store w')" "w_tick w' = Suc (w_tick w)"
    "pg_row (w_store w') = (pg_row (w_store w))(KID rec \<mapsto> rec)"
proof -
  have ok: "fst (pg_Insert maxLen rec (w_store w)) = None"
    using pg_Insert_accepts [OF assms(3,5-7)] prepare_fresh [OF assms(4)] by simp
  then have "Generate k w = (Inr (Published rec),
      add_Generated (w\<lparr>w_store := snd (pg_Insert maxLen rec (w_store w)), w_tick := Suc (w_tick w)\<rparr>))"
    using assms(1,4) by (simp add: Generate_def calm_calls [OF assms(2)] pg_port_def)
  then show thesis using that commit_Insert [OF assms(3) ok] by force
qed

text \<open>
  C29: retiring the signing key hands signing over. In a quiet environment, when a fresh key
  can be generated and fits the table, retiring the signing key answers without error and
  names the new key; that key signs, the old one is retired at the same instant, and no other
  row changes.
\<close>

theorem Retire_hands_over:
  assumes "ks_port k = pg_port maxLen" and "quiet k" and "table_ok (w_store w)" and "requireDecider decidedBy"
    and "pg_row (w_store w) kid = Some r" and "key_State r = SigningKeyActive"
    and "prepare k (w\<lparr>w_tick := Suc (w_tick w)\<rparr>) = Inr rec" and "pg_row (w_store w) (KID rec) = None"
    and "values_ok rec" and "KeyID_Validate maxLen (KID rec)"
  shows "\<exists>w' at. Retire k kid decidedBy w = (((outcome_of kid)\<lparr>Replacement := KID rec\<rparr>, None), w')
    \<and> table_ok (w_store w') \<and> pg_row (w_store w') = (pg_row (w_store w))(kid \<mapsto> demote at r, KID rec \<mapsto> take_over at rec)"
proof -
  let ?w = "w\<lparr>w_tick := Suc (w_tick w)\<rparr>"
  obtain w1 where g: "Generate k ?w = (Inr (Published rec), w1)" and ok1: "table_ok (w_store w1)"
    and rows: "pg_row (w_store w1) = (pg_row (w_store w))(KID rec \<mapsto> rec)"
    using Generate_calm [OF assms(1), of ?w rec] assms(2,3,7-10) by (auto simp: quiet_def)
  have "kid \<noteq> KID rec" using assms(5,8) by auto
  let ?at = "now_of k w1"
  have *: "signs (pg_row (w_store w1) kid)" "pg_row (w_store w1) (KID rec) = Some rec" "key_State rec = SigningKeyPublished"
    using rows assms(5,6) \<open>kid \<noteq> KID rec\<close> prepare_published [OF assms(7)] by (simp_all add: signs_def)
  note law = pg_ReplaceActive_law [OF ok1 *, of ?at]
  obtain w2 where r: "rotateReplacing k kid ?w = (Inr (Published rec), w2)"
      "w_store w2 = snd (pg_ReplaceActive (KID rec) kid ?at (w_store w1))"
    using g law assms(1) by (simp add: rotateReplacing_def quiet_calls [OF assms(2)] Published_def pg_port_def)
  have "Retire k kid decidedBy w = (((outcome_of kid)\<lparr>Replacement := KID rec\<rparr>, None), w2)"
    using assms(1,4-6) r(1) pg.Get_row [OF assms(3), of maxLen kid]
    by (simp add: Retire_def Let_def quiet_calls [OF assms(2)] Published_def)
  moreover have "pg_row (w_store w2) = (pg_row (w_store w))(kid \<mapsto> demote ?at r, KID rec \<mapsto> take_over ?at rec)"
    using law r(2) rows assms(5) \<open>kid \<noteq> KID rec\<close> by (auto simp: fun_eq_iff)
  moreover have "table_ok (w_store w2)" using law r(2) by simp
  ultimately show ?thesis by blast
qed

text \<open>What a sweep makes of one row, and which rows it counts.\<close>

definition removable :: "Config \<Rightarrow> instant \<Rightarrow> SigningKeyRecord \<Rightarrow> bool" where
  "removable cfg at r \<longleftrightarrow> key_State r = SigningKeyRetired \<and> (\<exists>t. RetiredAt r = Some t \<and> t + RemovalGrace cfg \<le> at)"

definition swept :: "Config \<Rightarrow> instant \<Rightarrow> SigningKeyRecord \<Rightarrow> SigningKeyRecord" where
  "swept cfg at r = (if key_State r = SigningKeyPublished \<and> CreatedAt r + StrandedAfter cfg \<le> at then demote at r
     else if removable cfg at r then mark_removed at r else r)"

context key_store
begin

lemma transition_taken:
  assumes "conditional_transition inv row operation allowed f" "inv s" "row s kid = Some r" "allowed r"
  shows "fst (operation kid at s) = None \<and> inv (snd (operation kid at s))
    \<and> row (snd (operation kid at s)) = (row s)(kid \<mapsto> f at r)"
  using assms unfolding conditional_transition_def by (metis option.map(2))

text \<open>One record of the sweep, in a quiet environment.\<close>

lemma sweep_one:
  assumes "ks_port k = port" "quiet k" "inv (w_store w)" "row (w_store w) (KID rec) = Some rec" "InKeySet (key_State rec)"
  obtains w' where "inv (w_store w')" "row (w_store w') = (row (w_store w))(KID rec \<mapsto> swept (ks_cfg k) at rec)"
    "\<And>recs n. sweep_loop k at (rec # recs) n w = sweep_loop k at recs (if removable (ks_cfg k) at rec then Suc n else n) w'"
proof -
  note q = quiet_calls [OF assms(2)]
  have same: "row (w_store w) = (row (w_store w))(KID rec \<mapsto> rec)" using assms(4) by (auto simp: fun_eq_iff)
  consider (pub) "key_State rec = SigningKeyPublished" | (act) "key_State rec = SigningKeyActive" | (ret) "key_State rec = SigningKeyRetired"
    using assms(5) by (auto simp: InKeySet_def)
  then show thesis
  proof cases
    case pub
    note taken = transition_taken [OF Retire_law assms(3,4) pub, of at]
    show ?thesis
    proof (cases "at < CreatedAt rec + StrandedAfter (ks_cfg k)")
      case True
      then show ?thesis using that [of w] pub assms(3) same by (simp add: swept_def removable_def retireStranded_def)
    next
      case False
      then show ?thesis
        using that [of "add_Retired (w\<lparr>w_store := snd (p_Retire port (KID rec) at (w_store w)), w_tick := Suc (w_tick w)\<rparr>)"] pub assms(1) taken
        by (simp add: swept_def removable_def retireStranded_def q)
    qed
  next
    case act
    then show ?thesis using that [of w] assms(3) same by (simp add: swept_def removable_def)
  next
    case ret
    note taken = transition_taken [OF Remove_law assms(3,4) ret, of at]
    obtain t where t: "RetiredAt rec = Some t" using row_valid [OF assms(3,4)] ret by (auto simp: row_ok_def)
    show ?thesis
    proof (cases "at < t + RemovalGrace (ks_cfg k)")
      case True
      then show ?thesis using that [of w] ret t assms(3) same by (simp add: swept_def removable_def)
    next
      case False
      then show ?thesis
        using that [of "add_Removed (w\<lparr>w_store := snd (p_Remove port (KID rec) at (w_store w)), w_tick := Suc (w_tick w)\<rparr>)"] ret t assms(1) taken
        by (simp add: swept_def removable_def q)
    qed
  qed
qed

lemma sweep_loop_quiet:
  assumes "ks_port k = port" "quiet k" "inv (w_store w)" "distinct (map KID recs)"
    and "\<forall>rec \<in> set recs. row (w_store w) (KID rec) = Some rec \<and> InKeySet (key_State rec)"
  shows "\<exists>w'. sweep_loop k at recs n w = ((n + length (filter (removable (ks_cfg k) at) recs), None), w') \<and> inv (w_store w')
    \<and> row (w_store w') = (\<lambda>kid. if kid \<in> KID ` set recs then map_option (swept (ks_cfg k) at) (row (w_store w) kid) else row (w_store w) kid)"
  using assms(3-5)
proof (induction recs arbitrary: n w)
  case (Cons rec recs)
  from Cons.prems have rec: "row (w_store w) (KID rec) = Some rec" "InKeySet (key_State rec)" "KID rec \<notin> KID ` set recs"
    and recs: "distinct (map KID recs)" "\<forall>q \<in> set recs. row (w_store w) (KID q) = Some q \<and> InKeySet (key_State q)"
    by simp_all
  obtain w1 where 1: "inv (w_store w1)" "row (w_store w1) = (row (w_store w))(KID rec \<mapsto> swept (ks_cfg k) at rec)"
      "\<And>recs n. sweep_loop k at (rec # recs) n w = sweep_loop k at recs (if removable (ks_cfg k) at rec then Suc n else n) w1"
    using sweep_one [OF assms(1,2) Cons.prems(1) rec(1,2)] by metis
  have "\<forall>q \<in> set recs. row (w_store w1) (KID q) = Some q \<and> InKeySet (key_State q)"
    using recs(2) rec(3) unfolding 1(2) by (metis fun_upd_other imageI)
  from Cons.IH [OF 1(1) recs(1) this, of "if removable (ks_cfg k) at rec then Suc n else n"]
  obtain w' where w': "sweep_loop k at recs (if removable (ks_cfg k) at rec then Suc n else n) w1
      = (((if removable (ks_cfg k) at rec then Suc n else n) + length (filter (removable (ks_cfg k) at) recs), None), w')"
    "inv (w_store w')" "row (w_store w') = (\<lambda>kid. if kid \<in> KID ` set recs then map_option (swept (ks_cfg k) at) (row (w_store w1) kid) else row (w_store w1) kid)"
    by blast
  have "row (w_store w') kid = (if kid \<in> KID ` set (rec # recs) then map_option (swept (ks_cfg k) at) (row (w_store w) kid)
      else row (w_store w) kid)" for kid
    using rec(1,3) by (cases "kid = KID rec") (simp_all add: w'(3) 1(2))
  then show ?case unfolding 1(3) using w'(1,2) by (intro exI [of _ w']) auto
qed simp

lemma SweepRemovable_quiet:
  assumes "ks_port k = port" "quiet k" "inv (w_store w)" "at = now_of k (w\<lparr>w_tick := Suc (w_tick w)\<rparr>)"
  shows "\<exists>w'. SweepRemovable k w = ((length (filter (removable (ks_cfg k) at) (p_KeySet port (w_store w))), None), w')
    \<and> inv (w_store w') \<and> row (w_store w') = (\<lambda>kid. map_option (swept (ks_cfg k) at) (row (w_store w) kid))"
proof -
  let ?w = "w\<lparr>w_tick := Suc (w_tick w)\<rparr>" and ?recs = "p_KeySet port (w_store w)"
  note ks = KeySet_rows [OF assms(3)]
  have rest: "map_option (swept (ks_cfg k) at) (row (w_store w) kid) = row (w_store w) kid" if "kid \<notin> KID ` set ?recs" for kid
  proof (cases "row (w_store w) kid")
    case (Some r)
    then have "\<not> InKeySet (key_State r)" using that ks row_KID [OF assms(3) Some] by auto
    then show ?thesis using Some by (auto simp: swept_def removable_def InKeySet_def)
  qed simp
  have stored: "w_store ?w = w_store w" by simp
  obtain w' where "sweep_loop k at ?recs 0 ?w = ((length (filter (removable (ks_cfg k) at) ?recs), None), w')" "inv (w_store w')"
      "row (w_store w') = (\<lambda>kid. if kid \<in> KID ` set ?recs then map_option (swept (ks_cfg k) at) (row (w_store w) kid) else row (w_store w) kid)"
    using sweep_loop_quiet [OF assms(1,2), of ?w ?recs at 0, unfolded stored] assms(3) ks KeySet_distinct [OF assms(3)] by auto
  then show ?thesis using rest assms(1,4) by (auto simp: SweepRemovable_def quiet_calls [OF assms(2)] fun_eq_iff)
qed

end

text \<open>
  C30: what a sweep does. In a quiet environment it ends without error, it retires exactly the
  published keys older than the declared age, it removes exactly the retired keys whose grace
  has passed and answers their number, and it leaves every other row, the signing key included,
  as it was.
\<close>

theorem SweepRemovable_exact:
  assumes "ks_port k = pg_port maxLen" and "quiet k" and "table_ok (w_store w)"
    and "at = now_of k (w\<lparr>w_tick := Suc (w_tick w)\<rparr>)"
  shows "\<exists>w'. SweepRemovable k w = ((length (filter (removable (ks_cfg k) at) (w_store w)), None), w')
    \<and> table_ok (w_store w') \<and> (\<forall>kid. pg_row (w_store w') kid = map_option (swept (ks_cfg k) at) (pg_row (w_store w) kid))"
proof -
  have "length (filter (removable (ks_cfg k) at) (pg_KeySet rows)) = length (filter (removable (ks_cfg k) at) rows)" for rows
  proof -
    have "filter (removable (ks_cfg k) at) (filter (\<lambda>r. InKeySet (key_State r)) rows) = filter (removable (ks_cfg k) at) rows"
      by (rule filter_cong [OF refl, THEN trans, rotated]) (auto simp: filter_filter removable_def InKeySet_def intro!: filter_cong)
    then show ?thesis unfolding pg_KeySet_def by (simp add: filter_sort)
  qed
  then show ?thesis using pg.SweepRemovable_quiet [OF assms] by (auto simp: pg_port_def fun_eq_iff)
qed

text \<open>
  C31: a storage failure at start-up is answered by generation. The start-up check reads the key
  set, opens every key of it, and then reads the signing key; when that second read fails for
  a reason of the storage, although a key signs, the check generates a key, hands signing over
  to it, retires the key that signed, and answers without error.
\<close>

theorem EnsureSigningKey_replaces_on_read_failure:
  assumes "ks_port k = pg_port maxLen" and "table_ok (w_store w)"
    and "pg_row (w_store w) old = Some r" and "key_State r = SigningKeyActive"
    and "list_all (\<lambda>x. e_unwrap (ks_env k) (PrivateKeyWrapped x) \<noteq> None) (w_store w)"
    and "calm k (w_tick w)" and "e_fault (ks_env k) (Suc (w_tick w)) = Some FaultBefore"
    and "\<forall>s. e_others (ks_env k) (Suc (w_tick w)) s = s"
    and "calm k (w_tick w + 2)" and "calm k (w_tick w + 3)"
    and "prepare k (w\<lparr>w_tick := w_tick w + 2\<rparr>) = Inr rec" and "pg_row (w_store w) (KID rec) = None"
    and "values_ok rec" and "KeyID_Validate maxLen (KID rec)"
  shows "\<exists>w' at. EnsureSigningKey k w = (None, w')
    \<and> pg_row (w_store w') = (pg_row (w_store w))(old \<mapsto> demote at r, KID rec \<mapsto> promote at rec)"
proof -
  let ?w = "w\<lparr>w_tick := w_tick w + 2\<rparr>"
  have st: "w_store ?w = w_store w" "w_tick ?w = w_tick w + 2" by simp_all
  obtain w1 where g: "Generate k ?w = (Inr (Published rec), w1)" and ok1: "table_ok (w_store w1)" "w_tick w1 = Suc (w_tick w + 2)"
    and rows: "pg_row (w_store w1) = (pg_row (w_store w))(KID rec \<mapsto> rec)"
    by (rule Generate_calm [OF assms(1), of ?w rec, unfolded st, OF assms(9,2,11-14)])
  have third: "calm k (w_tick w1)" using ok1(2) assms(10) by (simp add: eval_nat_numeral)
  have new: "pg_row (w_store w1) (KID rec) = Some rec" "CanActivate (key_State rec)"
    using rows prepare_published [OF assms(11)] by (simp_all add: CanActivate_def)
  note law = pg_Activate_law [OF ok1(1) new, of "now_of k w1"]
  obtain w2 where r: "Rotate k ?w = (Inr (Published rec), w2)"
      "w_store w2 = snd (pg_Activate (KID rec) (now_of k w1) (w_store w1))"
    using g law assms(1) by (simp add: Rotate_def Activate_def calm_calls [OF third] Published_def pg_port_def)
  have opens: "filter (\<lambda>x. e_unwrap (ks_env k) (PrivateKeyWrapped x) = None) (pg_KeySet (w_store w)) = []"
    using assms(5) by (auto simp: pg_KeySet_def filter_empty_conv list_all_iff)
  have "VerifyWrappingKey k w = (None, w\<lparr>w_tick := Suc (w_tick w)\<rparr>)"
    using assms(1) opens by (simp add: VerifyWrappingKey_def assertWrappingKeyOpens_def calm_calls [OF assms(6)] pg_port_def)
  moreover have "read_call k (p_Active (ks_port k)) (w\<lparr>w_tick := Suc (w_tick w)\<rparr>) = (Inl (Store ErrStorage), ?w)"
    using assms(7,8) by (simp add: read_call_def Let_def)
  ultimately have "EnsureSigningKey k w = (None, w2)" using r(1) by (simp add: EnsureSigningKey_def)
  moreover have "pg_row (w_store w2) = (pg_row (w_store w))(old \<mapsto> demote (now_of k w1) r, KID rec \<mapsto> promote (now_of k w1) rec)"
  proof
    fix j
    have "\<not> signs (pg_row (w_store w) j)" if "j \<noteq> old"
      using that pg.one_signer [OF assms(2), of j old] assms(3,4) by (auto simp: signs_def)
    then show "pg_row (w_store w2) j = ((pg_row (w_store w))(old \<mapsto> demote (now_of k w1) r, KID rec \<mapsto> promote (now_of k w1) rec)) j"
      using law r(2) rows assms(3,4,12) by (cases "pg_row (w_store w) j") (auto simp: signs_def)
  qed
  ultimately show ?thesis by blast
qed

subsection \<open>Witnesses\<close>

definition sample_row :: "string \<Rightarrow> SigningKeyState \<Rightarrow> instant option \<Rightarrow> instant option \<Rightarrow> SigningKeyRecord" where
  "sample_row kid st activated retired = \<lparr>KID = kid, Algorithm = ''RS256'', key_State = st, PublicKeyPEM = ''pub'',
     PrivateKeyWrapped = ''wrapped'', CreatedAt = 0, NotAfter = 9000000000, ActivatedAt = activated, RetiredAt = retired,
     RemovedAt = None, CompromisedAt = None\<rparr>"

definition sample_table :: key_table where
  "sample_table = [sample_row ''a'' SigningKeyActive (Some 0) None, sample_row ''b'' SigningKeyRetired (Some 0) (Some 0)]"

definition sample_keystore :: "(nat \<Rightarrow> fault option) \<Rightarrow> key_table Keystore" where
  "sample_keystore faults = \<lparr>
     ks_cfg = \<lparr>cfg_Algorithm = ''RS256'', KeyLifetime = 9000000000, RemovalGrace = 1000000000, RotationLead = 1000000000,
       HandoverLimit = 1000000000, StrandedAfter = 2000000000\<rparr>,
     ks_port = pg_port 128,
     ks_env = \<lparr>e_clock = (\<lambda>_. 5000000000), e_others = (\<lambda>_ s. s), e_fault = faults, e_ended = (\<lambda>_. False), e_expired = (\<lambda>_. False),
       e_pair = (\<lambda>_ _. Some (''pub'', ''priv'')), e_strength = (\<lambda>_. Some (''RS256'', 2048)),
       e_entropy = (\<lambda>_. Some [CHR 0x00, CHR 0x00, CHR 0x00, CHR 0x00, CHR 0x00, CHR 0x00, CHR 0x00, CHR 0x00, CHR 0x00, CHR 0x00]), e_wrap = Some, e_unwrap = Some\<rparr>,
     ks_kidMaxLen = 128\<rparr>"

definition sample_world :: "key_table world" where
  "sample_world = \<lparr>w_store = sample_table, w_tick = 0, w_stats = \<lparr>Generated = 0, Activated = 0, Retired = 0, Removed = 0,
     Compromised = 0, Failures = 0, Sweeps = 0\<rparr>\<rparr>"

lemma sample_port [simp]: "ks_port (sample_keystore faults) = pg_port 128"
  by (simp add: sample_keystore_def)

lemma sample_neighbours [simp]: "neighbours (sample_keystore faults)"
  by (simp add: neighbours_def sample_keystore_def)

lemma sample_calm [simp]: "calm (sample_keystore faults) n \<longleftrightarrow> faults n = None"
  by (simp add: calm_def sample_keystore_def)

lemma sample_quiet [simp]: "quiet (sample_keystore (\<lambda>_. None))"
  by (simp add: quiet_def)

lemma kidPattern_sample: "kidPattern 128 ''a''" "kidPattern 128 ''b''" "kidPattern 128 ''kaname-aaaaaaaaaaaaaaaa''"
  by (simp_all add: kidPattern_def is_lower_def is_upper_def is_digit_def byte_def)

lemma sample_table_ok [simp]: "table_ok (w_store sample_world)"
  by (simp add: sample_world_def sample_table_def sample_row_def table_ok_def row_ok_def values_ok_def kidPattern_sample)

lemma sample_rows [simp]:
  "pg_row (w_store sample_world) ''a'' = Some (sample_row ''a'' SigningKeyActive (Some 0) None)"
  "pg_row (w_store sample_world) ''b'' = Some (sample_row ''b'' SigningKeyRetired (Some 0) (Some 0))"
  "pg_row (w_store sample_world) ''kaname-aaaaaaaaaaaaaaaa'' = None"
  by (simp_all add: pg_row_def sample_world_def sample_table_def sample_row_def)

lemma base32_zeros: "base32_group [CHR 0x00, CHR 0x00, CHR 0x00, CHR 0x00, CHR 0x00] = ''AAAAAAAA''"
proof -
  have "[0..<8] = [0, 1, 2, 3, 4, 5, 6, 7::nat]" by (simp add: upt_rec)
  then show ?thesis by (simp add: base32_group_def base32_alphabet_def byte_def)
qed

lemma to_lower_A: "to_lower_char (CHR ''A'') = CHR ''a''"
  by code_simp

lemma sample_newKeyID: "newKeyID (sample_keystore faults) n = Inr ''kaname-aaaaaaaaaaaaaaaa''"
  using kidPattern_sample(3)
  by (simp add: newKeyID_def sample_keystore_def base32_zeros to_lower_def to_lower_A KeyID_Validate_def)

definition sample_fresh :: SigningKeyRecord where
  "sample_fresh = \<lparr>KID = ''kaname-aaaaaaaaaaaaaaaa'', Algorithm = ''RS256'', key_State = SigningKeyPublished,
     PublicKeyPEM = ''pub'', PrivateKeyWrapped = ''priv'', CreatedAt = 5000000000, NotAfter = 14000000000, ActivatedAt = None,
     RetiredAt = None, RemovedAt = None, CompromisedAt = None\<rparr>"

lemma sample_prepare: "prepare (sample_keystore faults) w = Inr sample_fresh"
  unfolding prepare_def sample_newKeyID Let_def
  by (simp add: sample_keystore_def signingkeygen_Generate_def CheckStrength_def MinBits_def now_of_def sample_fresh_def)

lemma sample_fresh_ok: "values_ok sample_fresh" "KeyID_Validate 128 (KID sample_fresh)" "KID sample_fresh = ''kaname-aaaaaaaaaaaaaaaa''"
  by (simp_all add: values_ok_def sample_fresh_def KeyID_Validate_def kidPattern_sample)

theorem signing_keys_only_advance_witness:
  "table_ok (w_store (run_commands (sample_keystore (\<lambda>n. if n = 2 then Some FaultAfter else None))
       [CmdCompromise ''b'' ''operator'', CmdRotate, CmdSweep] sample_world))
    \<and> all_advance (pg_row (w_store sample_world))
        (pg_row (w_store (run_commands (sample_keystore (\<lambda>n. if n = 2 then Some FaultAfter else None))
           [CmdCompromise ''b'' ''operator'', CmdRotate, CmdSweep] sample_world)))"
  using signing_keys_only_advance [OF sample_port sample_neighbours sample_table_ok refl] by blast

lemma sample_decider: "requireDecider ''operator''"
  by code_simp

theorem Compromise_truthful_witness:
  "\<exists>out w'. Compromise (sample_keystore (\<lambda>_. None)) ''b'' ''operator'' sample_world = ((out, None), w')
     \<and> compromised (pg_row (w_store w') ''b'') \<and> (\<exists>a. signs (pg_row (w_store w') a))"
proof -
  have "fst (pg_Compromise ''b'' at sample_table) = None \<and>
      snd (pg_Compromise ''b'' at sample_table) = [sample_row ''a'' SigningKeyActive (Some 0) None,
        mark_compromised at (sample_row ''b'' SigningKeyRetired (Some 0) (Some 0))]" for at
    by (simp add: pg_Compromise_def pg_transition_def Let_def sample_table_def commit_def update_where_def table_ok_def
        row_ok_def sample_row_def mark_compromised_def values_ok_def kidPattern_sample)
  then have "\<exists>out w'. Compromise (sample_keystore (\<lambda>_. None)) ''b'' ''operator'' sample_world = ((out, None), w')"
    by (simp add: Compromise_def sample_decider withdraw_def quiet_calls [OF sample_quiet] pg_port_def replace_signer_def
        sample_world_def Let_def pg_Active_def sample_row_def add_Compromised_def)
  then show ?thesis using Compromise_truthful [OF sample_port sample_neighbours sample_table_ok] by blast
qed

theorem Retire_hands_over_witness:
  "\<exists>w' at. Retire (sample_keystore (\<lambda>_. None)) ''a'' ''operator'' sample_world
      = (((outcome_of ''a'')\<lparr>Replacement := ''kaname-aaaaaaaaaaaaaaaa''\<rparr>, None), w')
    \<and> pg_row (w_store w') ''kaname-aaaaaaaaaaaaaaaa'' = Some (take_over at sample_fresh)
    \<and> pg_row (w_store w') ''a'' = Some (demote at (sample_row ''a'' SigningKeyActive (Some 0) None))"
proof -
  have "key_State (sample_row ''a'' SigningKeyActive (Some 0) None) = SigningKeyActive" by (simp add: sample_row_def)
  from Retire_hands_over [OF sample_port sample_quiet sample_table_ok sample_decider sample_rows(1) this sample_prepare
      _ sample_fresh_ok(1,2)]
  show ?thesis unfolding sample_fresh_ok(3) by fastforce
qed

theorem SweepRemovable_exact_witness:
  "\<exists>w'. fst (SweepRemovable (sample_keystore (\<lambda>_. None)) sample_world) = (1, None)
     \<and> snd (SweepRemovable (sample_keystore (\<lambda>_. None)) sample_world) = w'
     \<and> map_option key_State (pg_row (w_store w') ''b'') = Some SigningKeyRemoved
     \<and> map_option key_State (pg_row (w_store w') ''a'') = Some SigningKeyActive"
proof -
  obtain w' where w': "SweepRemovable (sample_keystore (\<lambda>_. None)) sample_world
      = ((length (filter (removable (ks_cfg (sample_keystore (\<lambda>_. None)))
            (now_of (sample_keystore (\<lambda>_. None)) (sample_world\<lparr>w_tick := Suc (w_tick sample_world)\<rparr>))) (w_store sample_world)), None), w')"
    "\<forall>kid. pg_row (w_store w') kid = map_option (swept (ks_cfg (sample_keystore (\<lambda>_. None)))
       (now_of (sample_keystore (\<lambda>_. None)) (sample_world\<lparr>w_tick := Suc (w_tick sample_world)\<rparr>))) (pg_row (w_store sample_world) kid)"
    using SweepRemovable_exact [OF sample_port sample_quiet sample_table_ok refl] by blast
  have now: "now_of (sample_keystore (\<lambda>_. None)) v = 5000000000" for v by (simp add: now_of_def sample_keystore_def)
  have "length (filter (removable (ks_cfg (sample_keystore (\<lambda>_. None))) 5000000000) (w_store sample_world)) = 1"
    by (simp add: sample_world_def sample_table_def sample_row_def removable_def sample_keystore_def)
  moreover have "RemovalGrace (ks_cfg (sample_keystore (\<lambda>_. None))) = 1000000000" by (simp add: sample_keystore_def)
  ultimately show ?thesis using w' [unfolded now] by (simp add: swept_def removable_def sample_row_def)
qed

theorem EnsureSigningKey_replaces_on_read_failure_witness:
  "\<exists>w' at. EnsureSigningKey (sample_keystore (\<lambda>n. if n = 1 then Some FaultBefore else None)) sample_world = (None, w')
     \<and> pg_row (w_store w') ''a'' = Some (demote at (sample_row ''a'' SigningKeyActive (Some 0) None))
     \<and> pg_row (w_store w') ''kaname-aaaaaaaaaaaaaaaa'' = Some (promote at sample_fresh)"
proof -
  let ?k = "sample_keystore (\<lambda>n. if n = 1 then Some FaultBefore else None)"
  have tick: "w_tick sample_world = 0" by (simp add: sample_world_def)
  have "key_State (sample_row ''a'' SigningKeyActive (Some 0) None) = SigningKeyActive" by (simp add: sample_row_def)
  moreover have "list_all (\<lambda>x. e_unwrap (ks_env ?k) (PrivateKeyWrapped x) \<noteq> None) (w_store sample_world)"
    by (simp add: sample_keystore_def list_all_iff)
  moreover have "calm ?k (w_tick sample_world)" "calm ?k (w_tick sample_world + 2)" "calm ?k (w_tick sample_world + 3)"
    by (simp_all add: tick)
  moreover have "e_fault (ks_env ?k) (Suc (w_tick sample_world)) = Some FaultBefore"
    "\<forall>s. e_others (ks_env ?k) (Suc (w_tick sample_world)) s = s"
    by (simp_all add: sample_keystore_def tick)
  moreover have "pg_row (w_store sample_world) (KID sample_fresh) = None" by (simp add: sample_fresh_ok)
  ultimately show ?thesis
    using EnsureSigningKey_replaces_on_read_failure [OF sample_port sample_table_ok sample_rows(1) _ _ _ _ _ _ _ sample_prepare
      _ sample_fresh_ok(1,2), of "\<lambda>n. if n = 1 then Some FaultBefore else None"] unfolding sample_fresh_ok(3) by fastforce
qed

end
