(* ===== verification/Failure_Window.thy ===== *)
theory Failure_Window
  imports Kaname_Prelude "HOL-Library.AList"
begin

text \<open>
  The window of counted failures per key: admission by the count inside a sliding window,
  recording of a failure, pruning, sweeping and the eviction that keeps the table within its
  budget.

  Source: \<open>internal/failurewindow/window.go\<close>.

  The table is an association list with distinct keys. The runtime visits the keys of a Go map
  in an order of its own; the order of each loop is an argument of the operation, and keys of
  it that are not in the table at their turn are skipped. The mutex makes an operation atomic,
  so a run is a sequence of operations, each with the reading of the clock it makes. Slices of
  one key are not shared, so they are lists; the capacity they keep is not modelled. Instants
  and durations are unbounded integers of nanoseconds.
\<close>

subsection \<open>The window\<close>

definition minSweepSize :: int where
  "minSweepSize = 64"

definition MaxStoredFailures :: int where
  "MaxStoredFailures = 2 ^ 18"

definition evictionProbes :: nat where
  "evictionProbes = 16"

record Window =
  limit :: int
  window :: duration
  keys :: "(string \<times> instant list) list"
  budget :: int
  stored :: int
  sweepAt :: int
  sweptAt :: instant

datatype window_error = BadLimit | BadWindow | ClockRequired | BudgetBelowLimit

definition newWindow :: "int \<Rightarrow> duration \<Rightarrow> (unit \<Rightarrow> instant) option \<Rightarrow> int \<Rightarrow> (window_error, Window) result" where
  "newWindow lim win clock bud =
     (if lim \<le> 0 then Inl BadLimit
      else if win \<le> 0 then Inl BadWindow
      else case clock of
        None \<Rightarrow> Inl ClockRequired
      | Some now \<Rightarrow>
          if bud < lim then Inl BudgetBelowLimit
          else Inr \<lparr>limit = lim, window = win, keys = [], budget = bud, stored = 0, sweepAt = minSweepSize, sweptAt = now ()\<rparr>)"

definition New_window :: "int \<Rightarrow> duration \<Rightarrow> (unit \<Rightarrow> instant) option \<Rightarrow> (window_error, Window) result" where
  "New_window lim win clock = newWindow lim win clock MaxStoredFailures"

definition failures :: "Window \<Rightarrow> string \<Rightarrow> instant list" where
  \<comment> \<open>\<open>w.keys[key]\<close>: the nil slice for a key that is not there\<close>
  "failures w key = (case map_of (keys w) key of None \<Rightarrow> [] | Some at \<Rightarrow> at)"

definition expired :: "Window \<Rightarrow> instant \<Rightarrow> instant \<Rightarrow> bool" where
  "expired w now t \<longleftrightarrow> now - t \<ge> window w"

definition pruneLocked :: "string \<Rightarrow> instant \<Rightarrow> Window \<Rightarrow> instant list \<times> Window" where
  "pruneLocked key now w =
     (let at = failures w key;
          i = length (takeWhile (expired w now) at)
      in if i = 0 then (at, w)
         else let w1 = w\<lparr>stored := stored w - int i\<rparr>
              in if i = length at then ([], w1\<lparr>keys := AList.delete key (keys w)\<rparr>)
                 else (drop i at, w1\<lparr>keys := AList.update key (drop i at) (keys w)\<rparr>))"

definition maybeSweepLocked :: "string list \<Rightarrow> instant \<Rightarrow> Window \<Rightarrow> Window" where
  "maybeSweepLocked order now w =
     (let grown = int (length (keys w)) \<ge> sweepAt w;
          aged = now - sweptAt w \<ge> window w \<and> length (keys w) > 0
      in if \<not> grown \<and> \<not> aged then w
         else let w1 = fold (\<lambda>k v. snd (pruneLocked k now v)) order w
              in w1\<lparr>sweptAt := now, sweepAt := max minSweepSize (2 * int (length (keys w1)))\<rparr>)"

fun room_loop :: "string list \<Rightarrow> nat \<Rightarrow> string \<Rightarrow> instant \<Rightarrow> Window \<Rightarrow> Window" where
  "room_loop [] probes exc now w = w"
| "room_loop (k # ks) probes exc now w =
     (if map_of (keys w) k = None then room_loop ks probes exc now w
      else if stored w < budget w \<or> probes = evictionProbes then w
      else if k = exc then room_loop ks probes exc now w
      else let (at, w1) = pruneLocked k now w
           in room_loop ks (Suc probes) exc now
                (if at \<noteq> [] \<and> int (length at) < limit w1
                 then w1\<lparr>keys := AList.delete k (keys w1), stored := stored w1 - int (length at)\<rparr> else w1))"

definition makeRoomLocked :: "string list \<Rightarrow> string \<Rightarrow> instant \<Rightarrow> Window \<Rightarrow> bool \<times> Window" where
  "makeRoomLocked order exc now w = (let w1 = room_loop order 0 exc now w in (stored w1 < budget w1, w1))"

definition Admit :: "string list \<Rightarrow> string \<Rightarrow> instant \<Rightarrow> Window \<Rightarrow> (duration \<times> bool) \<times> Window" where
  "Admit order key now w =
     (let w1 = maybeSweepLocked order now w;
          (at, w2) = pruneLocked key now w1
      in if int (length at) < limit w2 then ((0, True), w2)
         else let retryAfter = at ! (length at - nat (limit w2)) + window w2 - now
              in ((if retryAfter \<le> 0 then 1 else retryAfter, False), w2))"

definition Record :: "string list \<Rightarrow> string list \<Rightarrow> string \<Rightarrow> instant \<Rightarrow> Window \<Rightarrow> Window" where
  "Record order order' key now w =
     (let w1 = maybeSweepLocked order now w;
          (at, w2) = pruneLocked key now w1;
          put = (\<lambda>xs v. v\<lparr>keys := AList.update key (xs @ [now]) (keys v), stored := stored v + 1\<rparr>)
      in if int (length at) \<ge> limit w2
         then let d = length at - nat (limit w2 - 1)
              in put (drop d at) (w2\<lparr>stored := stored w2 - int d\<rparr>)
         else if stored w2 \<ge> budget w2
         then (let (room, w3) = makeRoomLocked order' key now w2 in if room then put at w3 else w3)
         else put at w2)"

text \<open>Runs of operations.\<close>

datatype window_op = OpAdmit "string list" string instant | OpRecord "string list" "string list" string instant

fun window_step :: "window_op \<Rightarrow> Window \<Rightarrow> Window" where
  "window_step (OpAdmit order key now) w = snd (Admit order key now w)"
| "window_step (OpRecord order order' key now) w = Record order order' key now w"

definition window_run :: "window_op list \<Rightarrow> Window \<Rightarrow> Window" where
  "window_run ops w = fold window_step ops w"

subsection \<open>The invariant\<close>

definition total :: "(string \<times> instant list) list \<Rightarrow> int" where
  "total al = (\<Sum>p\<leftarrow>al. int (length (snd p)))"

definition window_ok :: "Window \<Rightarrow> bool" where
  "window_ok w \<longleftrightarrow> 0 < limit w \<and> 0 < window w \<and> limit w \<le> budget w \<and> distinct (map fst (keys w))
     \<and> list_all (\<lambda>p. snd p \<noteq> [] \<and> int (length (snd p)) \<le> limit w) (keys w)
     \<and> stored w = total (keys w) \<and> stored w \<le> budget w"

definition same_limits :: "Window \<Rightarrow> Window \<Rightarrow> bool" where
  "same_limits w w' \<longleftrightarrow> limit w' = limit w \<and> window w' = window w \<and> budget w' = budget w"

lemma same_limits_refl [simp]: "same_limits w w"
  by (simp add: same_limits_def)

lemma same_limits_trans: "same_limits a b \<Longrightarrow> same_limits b c \<Longrightarrow> same_limits a c"
  by (simp add: same_limits_def)

lemma total_simps [simp]: "total [] = 0" "total (p # ps) = int (length (snd p)) + total ps"
  by (simp_all add: total_def)

definition entry :: "(string \<times> instant list) list \<Rightarrow> string \<Rightarrow> instant list" where
  "entry al key = (case map_of al key of None \<Rightarrow> [] | Some at \<Rightarrow> at)"

lemma failures_entry: "failures w = entry (keys w)"
  by (rule ext) (simp add: failures_def entry_def)

lemma entry_update: "entry (AList.update key xs al) = (entry al)(key := xs)"
  by (simp add: entry_def fun_eq_iff update_conv')

lemma entry_delete: "entry (AList.delete key al) = (entry al)(key := [])"
  by (simp add: entry_def fun_eq_iff delete_conv')

lemma total_update: "distinct (map fst al) \<Longrightarrow> total (AList.update key xs al) = total al - int (length (entry al key)) + int (length xs)"
  by (induction al) (auto simp: entry_def split: option.split dest: map_of_SomeD)

lemma delete_absent: "key \<notin> fst ` set al \<Longrightarrow> AList.delete key al = al"
  by (induction al) (auto simp: AList.delete_eq)

lemma total_delete: "distinct (map fst al) \<Longrightarrow> total (AList.delete key al) = total al - int (length (entry al key))"
  by (induction al) (auto simp: entry_def delete_absent split: option.split)

lemma list_all_update:
  "list_all P al \<Longrightarrow> P (key, xs) \<Longrightarrow> list_all P (AList.update key xs al)"
  by (induction al) (auto split: if_splits)

lemma list_all_delete: "list_all P al \<Longrightarrow> list_all P (AList.delete key al)"
  by (simp add: AList.delete_eq list_all_iff)

lemma entry_bounds:
  assumes "window_ok w"
  shows "int (length (failures w key)) \<le> limit w"
    and "map_of (keys w) key \<noteq> None \<longleftrightarrow> failures w key \<noteq> []"
proof -
  show "int (length (failures w key)) \<le> limit w"
    using assms by (auto simp: window_ok_def failures_def list_all_iff split: option.split dest!: map_of_SomeD)
  show "map_of (keys w) key \<noteq> None \<longleftrightarrow> failures w key \<noteq> []"
    using assms by (auto simp: window_ok_def failures_def list_all_iff split: option.split dest!: map_of_SomeD)
qed

lemma total_nonneg: "0 \<le> total al"
  by (induction al) auto

lemma drop_takeWhile_length: "drop (length (takeWhile P xs)) xs = dropWhile P xs"
  by (simp add: dropWhile_eq_drop)

text \<open>The two ways an operation writes one entry.\<close>

lemma put_ok:
  assumes "window_ok w" "xs \<noteq> []" "int (length xs) \<le> limit w" "s = stored w - int (length (failures w key)) + int (length xs)"
    and "s \<le> budget w"
  shows "window_ok (w\<lparr>keys := AList.update key xs (keys w), stored := s\<rparr>)
    \<and> failures (w\<lparr>keys := AList.update key xs (keys w), stored := s\<rparr>) = (failures w)(key := xs)"
  using assms
  by (simp add: window_ok_def failures_entry entry_update total_update distinct_update list_all_update)

lemma delete_ok:
  assumes "window_ok w" "s = stored w - int (length (failures w key))"
  shows "window_ok (w\<lparr>keys := AList.delete key (keys w), stored := s\<rparr>)
    \<and> failures (w\<lparr>keys := AList.delete key (keys w), stored := s\<rparr>) = (failures w)(key := [])"
  using assms
  by (simp add: window_ok_def failures_entry entry_delete total_delete distinct_delete list_all_delete)

lemma pruneLocked_ok:
  assumes "window_ok w" "pruneLocked key now w = (at, w')"
  shows "window_ok w' \<and> same_limits w w' \<and> stored w' \<le> stored w \<and> at = dropWhile (expired w now) (failures w key)
    \<and> failures w' = (failures w)(key := at)"
proof -
  let ?f = "failures w key"
  let ?i = "length (takeWhile (expired w now) ?f)"
  have at: "drop ?i ?f = dropWhile (expired w now) ?f" by (rule drop_takeWhile_length)
  have len: "length (dropWhile (expired w now) ?f) = length ?f - ?i" "?i \<le> length ?f"
    using at by (metis length_drop) (rule length_takeWhile_le)
  consider (none) "?i = 0" | (all) "?i \<noteq> 0" "?i = length ?f" | (some) "?i \<noteq> 0" "?i < length ?f"
    using len(2) by linarith
  then show ?thesis
  proof cases
    case none
    then have "dropWhile (expired w now) ?f = ?f" using at by simp
    then show ?thesis using assms none by (auto simp: pruneLocked_def Let_def)
  next
    case all
    have "takeWhile (expired w now) ?f \<noteq> []" using all(1) by auto
    then have *: "at = []" "w' = w\<lparr>keys := AList.delete key (keys w), stored := stored w - int (length ?f)\<rparr>"
      using assms(2) all(2) by (auto simp: pruneLocked_def Let_def)
    have d: "dropWhile (expired w now) ?f = []" using all(2) at by (metis drop_all order_refl)
    show ?thesis unfolding d * using delete_ok [OF assms(1) refl, of key] by (simp add: same_limits_def)
  next
    case some
    have "takeWhile (expired w now) ?f \<noteq> []" using some(1) by auto
    then have *: "at = dropWhile (expired w now) ?f"
        "w' = w\<lparr>keys := AList.update key at (keys w), stored := stored w - int ?i\<rparr>"
      using assms(2) at some(2) by (auto simp: pruneLocked_def Let_def)
    have l: "length at = length ?f - ?i" using *(1) len(1) by (simp only:)
    then have "0 < length at" using some(2) by linarith
    then have ne: "at \<noteq> []" by (rule length_greater_0_conv [THEN iffD1])
    have il: "int (length at) = int (length ?f) - int ?i" using l len(2) by linarith
    have "window_ok w' \<and> failures w' = (failures w)(key := at)"
      unfolding *(2) using assms(1) entry_bounds(1) [OF assms(1), of key] il
      by (intro put_ok [OF assms(1) ne]) (simp_all add: window_ok_def)
    then show ?thesis using *(1) by (simp add: *(2) same_limits_def)
  qed
qed

subsection \<open>What an operation does to the failures of each key\<close>

definition aged :: "Window \<Rightarrow> instant \<Rightarrow> string \<Rightarrow> instant list" where
  "aged w now k = dropWhile (expired w now) (failures w k)"

text \<open>
  A change of the table between two writes: every key keeps its failures, or loses the expired
  ones, or, below its limit, not the key that is served and only when the table is full, is
  forgotten.
\<close>

definition settles :: "instant \<Rightarrow> string \<Rightarrow> Window \<Rightarrow> Window \<Rightarrow> bool" where
  "settles now served w w' \<longleftrightarrow> window_ok w' \<and> same_limits w w' \<and> stored w' \<le> stored w
     \<and> (\<forall>k. failures w' k = failures w k \<or> failures w' k = aged w now k
          \<or> (k \<noteq> served \<and> budget w \<le> stored w \<and> failures w' k = [] \<and> int (length (aged w now k)) < limit w))"

lemma expired_same: "same_limits w w' \<Longrightarrow> expired w' = expired w"
  by (simp add: same_limits_def expired_def fun_eq_iff)

lemma dropWhile_twice: "dropWhile P (dropWhile P xs) = dropWhile P xs"
  by (induction xs) auto

lemma aged_settled:
  assumes "settles now served w w'"
  shows "aged w' now k = aged w now k \<or> (k \<noteq> served \<and> budget w \<le> stored w \<and> aged w' now k = [] \<and> int (length (aged w now k)) < limit w)"
proof -
  have e: "expired w' = expired w" using assms expired_same by (simp add: settles_def)
  have "failures w' k = failures w k \<or> failures w' k = aged w now k
      \<or> (k \<noteq> served \<and> budget w \<le> stored w \<and> failures w' k = [] \<and> int (length (aged w now k)) < limit w)" using assms by (simp add: settles_def)
  then show ?thesis unfolding aged_def e using dropWhile_twice [of "expired w now" "failures w k"] by (metis dropWhile.simps(1))
qed

lemma settles_refl: "window_ok w \<Longrightarrow> settles now served w w"
  by (simp add: settles_def)

lemma settles_trans:
  assumes "settles now served a b" "settles now served b c"
  shows "settles now served a c"
proof -
  have "failures c k = failures a k \<or> failures c k = aged a now k
      \<or> (k \<noteq> served \<and> budget a \<le> stored a \<and> failures c k = [] \<and> int (length (aged a now k)) < limit a)" for k
  proof -
    have lim: "limit b = limit a" "budget b = budget a" "stored b \<le> stored a" using assms(1) by (simp_all add: settles_def same_limits_def)
    have "failures b k = failures a k \<or> failures b k = aged a now k
        \<or> (k \<noteq> served \<and> budget a \<le> stored a \<and> failures b k = [] \<and> int (length (aged a now k)) < limit a)" using assms(1) by (simp add: settles_def)
    moreover have "failures c k = failures b k \<or> failures c k = aged b now k
        \<or> (k \<noteq> served \<and> budget b \<le> stored b \<and> failures c k = [] \<and> int (length (aged b now k)) < limit b)" using assms(2) by (simp add: settles_def)
    ultimately show ?thesis using aged_settled [OF assms(1), of k] lim by (metis order_trans)
  qed
  then show ?thesis using assms same_limits_trans unfolding settles_def by fastforce
qed

lemma prune_settles:
  assumes "window_ok w" "pruneLocked key now w = (at, w')"
  shows "settles now served w w'" and "at = aged w now key" and "failures w' = (failures w)(key := at)"
  using pruneLocked_ok [OF assms] by (auto simp: settles_def aged_def)

lemma fold_prune_settles: "window_ok w \<Longrightarrow> settles now served w (fold (\<lambda>k v. snd (pruneLocked k now v)) order w)"
proof (induction order arbitrary: w)
  case (Cons k order)
  have 1: "settles now served w (snd (pruneLocked k now w))"
    using Cons.prems prune_settles(1) by (metis prod.collapse)
  then have "window_ok (snd (pruneLocked k now w))" by (simp add: settles_def)
  then show ?case using settles_trans [OF 1 Cons.IH] by simp
qed (simp add: settles_refl)

lemma settles_frame: "settles now served w (v\<lparr>sweptAt := x, sweepAt := y\<rparr>) = settles now served w v"
  by (simp add: settles_def window_ok_def same_limits_def failures_def)

lemma maybeSweep_settles: "window_ok w \<Longrightarrow> settles now served w (maybeSweepLocked order now w)"
  by (simp add: maybeSweepLocked_def Let_def settles_frame fold_prune_settles settles_refl)

lemma forget_settles:
  assumes "window_ok w" "k \<noteq> served" "pruneLocked k now w = (at, w1)" "int (length at) < limit w1" "budget w \<le> stored w"
  shows "settles now served w (w1\<lparr>keys := AList.delete k (keys w1), stored := stored w1 - int (length at)\<rparr>)"
proof -
  note p = prune_settles [OF assms(1,3)]
  have ok1: "window_ok w1" "same_limits w w1" "stored w1 \<le> stored w" using p(1) by (auto simp: settles_def)
  have "failures w1 k = at" using p(3) by simp
  then have d: "window_ok (w1\<lparr>keys := AList.delete k (keys w1), stored := stored w1 - int (length at)\<rparr>)"
    "failures (w1\<lparr>keys := AList.delete k (keys w1), stored := stored w1 - int (length at)\<rparr>) = (failures w)(k := [])"
    using delete_ok [OF ok1(1), of "stored w1 - int (length at)" k] p(3) by auto
  show ?thesis using d ok1 assms(2,4,5) p(2) by (auto simp: settles_def same_limits_def)
qed

lemma room_loop_settles: "window_ok w \<Longrightarrow> settles now served w (room_loop order probes served now w)"
proof (induction order arbitrary: probes w)
  case (Cons k order)
  obtain at w1 where p: "pruneLocked k now w = (at, w1)" by fastforce
  let ?w = "if at \<noteq> [] \<and> int (length at) < limit w1
    then w1\<lparr>keys := AList.delete k (keys w1), stored := stored w1 - int (length at)\<rparr> else w1"
  have 1: "settles now served w ?w" if "k \<noteq> served" "budget w \<le> stored w"
    using prune_settles(1) [OF Cons.prems p] forget_settles [OF Cons.prems that(1) p _ that(2)] by simp
  then have "settles now served w (room_loop order (Suc probes) served now ?w)" if "k \<noteq> served" "budget w \<le> stored w"
    using that Cons.IH settles_trans by (metis settles_def)
  then show ?case using Cons p by (auto simp: settles_refl not_less)
qed (simp add: settles_refl)

lemma aged_limit: "window_ok w \<Longrightarrow> int (length (aged w now k)) \<le> limit w"
  using entry_bounds(1) [of w k] length_dropWhile_le [of "expired w now" "failures w k"] unfolding aged_def by linarith

lemma served_prune:
  assumes "window_ok w" "settles now key w v" "pruneLocked key now v = (at, v')"
  shows "settles now key w v'" "at = aged w now key" "failures v' key = at"
proof -
  have ok: "window_ok v" using assms(2) by (simp add: settles_def)
  note p = prune_settles [OF ok assms(3)]
  show "settles now key w v'" using settles_trans [OF assms(2) p(1)] .
  show "at = aged w now key" using p(2) aged_settled [OF assms(2), of key] by simp
  show "failures v' key = at" using p(3) by simp
qed

lemma Admit_effect:
  assumes "window_ok w"
  shows "settles now key w (snd (Admit order key now w))"
    and "failures (snd (Admit order key now w)) key = aged w now key"
    and "fst (Admit order key now w) = (if int (length (aged w now key)) < limit w then (0, True)
      else let r = hd (aged w now key) + window w - now in (if r \<le> 0 then 1 else r, False))"
proof -
  obtain at v where v: "pruneLocked key now (maybeSweepLocked order now w) = (at, v)" by fastforce
  note p = served_prune [OF assms maybeSweep_settles [OF assms] v]
  have snd: "snd (Admit order key now w) = v" using v by (simp add: Admit_def Let_def)
  show "settles now key w (snd (Admit order key now w))" "failures (snd (Admit order key now w)) key = aged w now key"
    unfolding snd using p by simp_all
  have lim: "limit v = limit w" "window v = window w" "0 < limit w"
    using p(1) assms by (auto simp: settles_def same_limits_def window_ok_def)
  show "fst (Admit order key now w) = (if int (length (aged w now key)) < limit w then (0, True)
      else let r = hd (aged w now key) + window w - now in (if r \<le> 0 then 1 else r, False))"
  proof (cases "int (length at) < limit w")
    case False
    then have "int (length at) = limit w" using aged_limit [OF assms, of now key] p(2) by simp
    then have "length at - nat (limit w) = 0" "at \<noteq> []" using lim by auto
    then show ?thesis using v p(2) lim False by (simp add: Admit_def Let_def hd_conv_nth)
  qed (use v p(2) lim in \<open>simp add: Admit_def Let_def\<close>)
qed

text \<open>
  What \<open>Record\<close> writes for the served key: the failure is appended, the oldest one leaving at
  the limit, or it is not counted because the table is full and no key gave its place.
\<close>

definition counted :: "Window \<Rightarrow> string \<Rightarrow> instant \<Rightarrow> instant list" where
  "counted w key now = (let at = aged w now key
     in (if int (length at) = limit w then tl at else at) @ [now])"

lemma settled_put:
  assumes "window_ok w" "settles now key w v" "failures v key = aged w now key" "xs \<noteq> []" "int (length xs) \<le> limit w"
    and "s = stored v - int (length (aged w now key)) + int (length xs)" "s \<le> budget w"
  shows "window_ok (v\<lparr>keys := AList.update key xs (keys v), stored := s\<rparr>)
    \<and> same_limits w (v\<lparr>keys := AList.update key xs (keys v), stored := s\<rparr>)
    \<and> failures (v\<lparr>keys := AList.update key xs (keys v), stored := s\<rparr>) = (failures v)(key := xs)"
proof -
  have "window_ok v" "limit v = limit w" "budget v = budget w" "same_limits w v"
    using assms(2) by (auto simp: settles_def same_limits_def)
  then show ?thesis using put_ok [of v xs s key] assms(3-7) by (simp add: same_limits_def)
qed

lemma Record_effect:
  assumes "window_ok w" and w'_def: "w' = Record order order' key now w"
  shows "window_ok w' \<and> same_limits w w' \<and> stored w' \<le> stored w + 1
    \<and> (failures w' key = counted w key now \<or> (stored w \<ge> budget w \<and> failures w' key = aged w now key))
    \<and> (\<exists>v. settles now key w v \<and> (\<forall>k. k \<noteq> key \<longrightarrow> failures w' k = failures v k))"
proof -
  obtain at v where v: "pruneLocked key now (maybeSweepLocked order now w) = (at, v)" by fastforce
  note p = served_prune [OF assms(1) maybeSweep_settles [OF assms(1)] v]
  have lim: "limit v = limit w" "budget v = budget w" "0 < limit w" "limit w \<le> budget w"
      "stored v \<le> stored w" "stored w \<le> budget w" "stored v \<le> budget w"
    using p(1) assms(1) by (auto simp: settles_def same_limits_def window_ok_def)
  have at: "int (length at) \<le> limit w" using aged_limit [OF assms(1)] p(2) by simp
  consider (full) "int (length at) \<ge> limit w" | (free) "int (length at) < limit w" "stored v < budget w"
    | (tight) "int (length at) < limit w" "stored v \<ge> budget w" by linarith
  then show ?thesis
  proof cases
    case full
    then have len: "int (length at) = limit w" using at by simp
    then have one: "length at - nat (limit w - 1) = 1" "at \<noteq> []" using lim(3) by auto
    then have tl: "drop (length at - nat (limit w - 1)) at = tl at" by (simp add: drop_Suc)
    have "w' = v\<lparr>keys := AList.update key (tl at @ [now]) (keys v), stored := stored v\<rparr>"
      unfolding w'_def using v lim full one tl by (simp add: Record_def Let_def)
    moreover have "counted w key now = tl at @ [now]" using len p(2) by (simp add: counted_def Let_def)
    ultimately show ?thesis
      using settled_put [OF assms(1) p(1), of "tl at @ [now]" "stored v"] p one lim len by auto
  next
    case free
    then have "w' = v\<lparr>keys := AList.update key (at @ [now]) (keys v), stored := stored v + 1\<rparr>"
      unfolding w'_def using v lim by (simp add: Record_def Let_def)
    moreover have "counted w key now = at @ [now]" using free p(2) by (simp add: counted_def Let_def)
    ultimately show ?thesis
      using settled_put [OF assms(1) p(1), of "at @ [now]" "stored v + 1"] p free lim by auto
  next
    case tight
    let ?u = "room_loop order' 0 key now v"
    have "window_ok v" using p(1) by (simp add: settles_def)
    then have vu: "settles now key v ?u" by (rule room_loop_settles)
    then have u: "settles now key w ?u" using settles_trans p(1) by blast
    have "failures ?u key = failures v key \<or> failures ?u key = aged v now key" using vu by (auto simp: settles_def)
    then have key: "failures ?u key = aged w now key" using p expired_same [of w v] dropWhile_twice
      by (metis aged_def settles_def)
    have budget: "budget ?u = budget w" "stored ?u \<le> budget w" "stored ?u \<le> stored w" using u lim by (auto simp: settles_def same_limits_def)
    show ?thesis
    proof (cases "stored ?u < budget ?u")
      case True
      then have "w' = ?u\<lparr>keys := AList.update key (at @ [now]) (keys ?u), stored := stored ?u + 1\<rparr>"
        unfolding w'_def using v lim tight by (simp add: Record_def Let_def makeRoomLocked_def)
      moreover have "counted w key now = at @ [now]" using tight p(2) by (simp add: counted_def Let_def)
      ultimately show ?thesis
        using settled_put [OF assms(1) u key, of "at @ [now]" "stored ?u + 1"] p(2) tight True budget u by auto
    next
      case False
      then have "w' = ?u" unfolding w'_def using v lim tight by (simp add: Record_def Let_def makeRoomLocked_def)
      then show ?thesis using u key tight lim by (auto simp: settles_def)
    qed
  qed
qed

lemma window_step_ok: "window_ok w \<Longrightarrow> window_ok (window_step x w) \<and> same_limits w (window_step x w)"
  using Admit_effect(1) Record_effect [OF _ refl] by (cases x) (auto simp: settles_def)

lemma window_run_ok: "window_ok w \<Longrightarrow> window_ok (window_run ops w) \<and> same_limits w (window_run ops w)"
  unfolding window_run_def
proof (induction ops arbitrary: w)
  case (Cons x ops)
  then show ?case using window_step_ok [of w x] same_limits_trans by fastforce
qed simp

subsection \<open>The memory of the window\<close>

lemma newWindow_ok:
  assumes "newWindow lim win clock bud = Inr w"
  shows "window_ok w \<and> limit w = lim \<and> window w = win \<and> budget w = bud \<and> keys w = [] \<and> stored w = 0"
  using assms by (auto simp: newWindow_def window_ok_def split: if_splits option.splits)

lemma keys_le_total: "list_all (\<lambda>p. snd p \<noteq> []) al \<Longrightarrow> int (length al) \<le> total al"
proof (induction al)
  case (Cons p al)
  then have "1 \<le> length (snd p)" by (cases "snd p") simp_all
  then show ?case using Cons by simp
qed simp

text \<open>
  C22: the memory of the window is bounded. Whatever operations run on a new window, in whatever
  order its loops visit the keys, the counter of stored failures is exact and stays within the
  budget, every key of the table has at least one failure and at most the declared limit, no
  key is stored twice, and so the table has at most as many keys as the budget.
\<close>

theorem window_memory_bounded:
  assumes "newWindow lim win clock bud = Inr w0" and "w = window_run ops w0"
  shows "stored w = total (keys w) \<and> stored w \<le> bud \<and> int (length (keys w)) \<le> bud \<and> distinct (map fst (keys w))
    \<and> list_all (\<lambda>p. 1 \<le> length (snd p) \<and> int (length (snd p)) \<le> lim) (keys w)"
proof -
  note new = newWindow_ok [OF assms(1)]
  then have "window_ok w \<and> same_limits w0 w" using window_run_ok [of w0 ops] assms(2) by simp
  then have ok: "window_ok w" "limit w = lim" "budget w = bud" using new by (auto simp: same_limits_def)
  have "list_all (\<lambda>p. snd p \<noteq> []) (keys w)" using ok(1) by (auto simp: window_ok_def list_all_iff)
  then have "int (length (keys w)) \<le> total (keys w)" by (rule keys_le_total)
  then show ?thesis using ok by (auto simp: window_ok_def list_all_iff Suc_le_eq)
qed

subsection \<open>Time\<close>

fun op_time :: "window_op \<Rightarrow> instant" where
  "op_time (OpAdmit order key now) = now"
| "op_time (OpRecord order order' key now) = now"

definition timely :: "Window \<Rightarrow> instant \<Rightarrow> bool" where
  "timely w t \<longleftrightarrow> (\<forall>k. sorted (failures w k @ [t]))"

lemma sorted_suffix: "sorted (xs @ [t]) \<Longrightarrow> sorted (dropWhile P xs @ [t])"
  by (induction xs) auto

lemma timely_later: "timely w t \<Longrightarrow> t \<le> u \<Longrightarrow> timely w u"
  by (fastforce simp: timely_def sorted_append)

lemma timely_aged: "timely w t \<Longrightarrow> sorted (aged w now k @ [t])"
  unfolding timely_def aged_def by (blast intro: sorted_suffix)

lemma settles_timely:
  assumes "settles now served w v" "timely w t"
  shows "timely v t"
  unfolding timely_def
proof
  fix k
  have "sorted (failures w k @ [t])" "sorted (aged w now k @ [t])"
    using assms(2) timely_aged by (simp_all add: timely_def)
  moreover have "failures v k \<in> {failures w k, aged w now k, []}" using assms(1) by (auto simp: settles_def)
  ultimately show "sorted (failures v k @ [t])" by auto
qed

lemma counted_timely:
  assumes "timely w t" "t \<le> now"
  shows "sorted (counted w key now @ [now])"
proof -
  have "sorted (aged w now key @ [now])"
    using timely_later [OF assms] by (rule timely_aged)
  then show ?thesis by (cases "aged w now key") (auto simp: counted_def Let_def sorted_append)
qed

lemma window_step_timely:
  assumes "window_ok w" "timely w t" "t \<le> op_time x"
  shows "timely (window_step x w) (op_time x)"
proof (cases x)
  case (OpAdmit order key now)
  then show ?thesis using settles_timely [OF Admit_effect(1) [OF assms(1)] timely_later [OF assms(2,3)]] by simp
next
  case (OpRecord order order' key now)
  let ?w = "Record order order' key now w"
  have now: "t \<le> now" using assms(3) OpRecord by simp
  note r = Record_effect [OF assms(1) refl, of order order' key now]
  obtain v where v: "settles now key w v" "\<forall>k. k \<noteq> key \<longrightarrow> failures ?w k = failures v k" using r by blast
  have "sorted (failures ?w k @ [now])" for k
  proof (cases "k = key")
    case True
    have "sorted (aged w now key @ [now])"
      using timely_later [OF assms(2) now] by (rule timely_aged)
    then show ?thesis using r counted_timely [OF assms(2) now, of key] True by auto
  next
    case False
    then show ?thesis using v settles_timely [OF v(1) timely_later [OF assms(2) now]] by (simp add: timely_def)
  qed
  then show ?thesis using OpRecord by (simp add: timely_def)
qed

lemma window_run_timely:
  assumes "window_ok w" "timely w t" "sorted (t # map op_time ops @ [u])"
  shows "timely (window_run ops w) u"
  using assms
proof (induction ops arbitrary: w t)
  case Nil
  then show ?case by (simp add: window_run_def timely_later)
next
  case (Cons x ops)
  then have "timely (window_step x w) (op_time x)" using window_step_timely by simp
  then show ?case using Cons window_step_ok [of w x] by (simp add: window_run_def)
qed

subsection \<open>A key at its limit\<close>

definition locked :: "Window \<Rightarrow> string \<Rightarrow> instant \<Rightarrow> bool" where
  "locked w key a \<longleftrightarrow> int (length (failures w key)) = limit w \<and> (\<forall>t \<in> set (failures w key). a \<le> t)"

lemma unexpired_aged:
  assumes "locked w key a" "now < a + window w"
  shows "aged w now key = failures w key"
proof -
  have "\<not> expired w now (hd (failures w key))" if "failures w key \<noteq> []"
  proof -
    have "a \<le> hd (failures w key)" using that assms(1) hd_in_set by (simp add: locked_def)
    then show ?thesis using assms(2) by (simp add: expired_def)
  qed
  then show ?thesis unfolding aged_def dropWhile_eq_self_iff by blast
qed

lemma settles_locked:
  assumes "settles now served w v" "locked w key a" "now < a + window w"
  shows "locked v key a"
proof -
  have "failures v key = failures w key"
    using assms(1,2) unexpired_aged [OF assms(2,3)] by (auto simp: settles_def locked_def)
  then show ?thesis using assms(1,2) by (simp add: settles_def locked_def same_limits_def)
qed

lemma step_locked:
  assumes "window_ok w" "locked w key a" "op_time x < a + window w" "a \<le> op_time x"
  shows "locked (window_step x w) key a"
proof (cases x)
  case (OpAdmit order k now)
  then show ?thesis using settles_locked [OF Admit_effect(1) [OF assms(1)] assms(2)] assms(3) by simp
next
  case (OpRecord order order' k now)
  note r = Record_effect [OF assms(1) refl, of order order' k now]
  have now: "now < a + window w" "a \<le> now" using assms(3,4) OpRecord by simp_all
  have lim: "limit (Record order order' k now w) = limit w" using r by (simp add: same_limits_def)
  note same = unexpired_aged [OF assms(2) now(1)]
  have full: "int (length (failures w key)) = limit w" using assms(2) by (simp add: locked_def)
  show ?thesis
  proof (cases "k = key")
    case True
    have "failures w key \<noteq> []" using full assms(1) by (auto simp: window_ok_def)
    then have "int (length (counted w key now)) = limit w \<and> (\<forall>t \<in> set (counted w key now). a \<le> t)"
      using same full assms(2) now(2) by (cases "failures w key") (auto simp: counted_def Let_def locked_def)
    moreover have "failures (Record order order' k now w) key \<in> {counted w key now, failures w key}" using r True same by auto
    ultimately show ?thesis using assms(2) OpRecord lim unfolding locked_def by (elim insertE) simp_all
  next
    case False
    obtain v where v: "settles now k w v" "\<forall>j. j \<noteq> k \<longrightarrow> failures (Record order order' k now w) j = failures v j"
      using r by (elim conjE exE)
    then have "failures (Record order order' k now w) key = failures v key" using False by simp
    with v(1) show ?thesis using settles_locked [OF _ assms(2) now(1)] lim OpRecord by (auto simp: locked_def settles_def same_limits_def)
  qed
qed

lemma run_locked:
  assumes "window_ok w" "locked w key a" "sorted (t # map op_time ops @ [u])" "u < a + window w" "a \<le> t"
  shows "locked (window_run ops w) key a"
  using assms
proof (induction ops arbitrary: w t)
  case (Cons x ops)
  then have "op_time x \<le> u" "a \<le> op_time x" by auto
  then have "locked (window_step x w) key a" using step_locked [OF Cons.prems(1,2), of x] Cons.prems(4) by simp
  moreover have "window_ok (window_step x w)" "window (window_step x w) = window w"
    using window_step_ok [OF Cons.prems(1), of x] by (simp_all add: same_limits_def)
  ultimately show ?case using Cons.IH [of "window_step x w" "op_time x"] Cons.prems(3,4) \<open>a \<le> op_time x\<close>
    by (simp add: window_run_def)
qed (simp add: window_run_def)

text \<open>Without a new failure of its own, the failures of a key only shrink from the oldest side.\<close>

definition records_of :: "string \<Rightarrow> window_op list \<Rightarrow> instant list" where
  "records_of key ops = concat (map (\<lambda>x. case x of OpRecord order order' k now \<Rightarrow> (if k = key then [now] else []) | OpAdmit order k now \<Rightarrow> []) ops)"

lemma suffix_dropWhile_aged: "suffix (aged w now k) (failures w k)"
  by (simp add: aged_def suffix_dropWhile)

lemma settles_suffix: "settles now served w v \<Longrightarrow> suffix (failures v key) (failures w key)"
  using suffix_dropWhile_aged unfolding settles_def by (metis Nil_suffix suffix_order.order_refl)

lemma step_suffix:
  assumes "window_ok w" "records_of key [x] = []"
  shows "suffix (failures (window_step x w) key) (failures w key)"
proof (cases x)
  case (OpAdmit order k now)
  then show ?thesis using settles_suffix [OF Admit_effect(1) [OF assms(1)]] by simp
next
  case (OpRecord order order' k now)
  then have "key \<noteq> k" using assms(2) by (auto simp: records_of_def split: if_splits)
  then obtain v where "settles now k w v" "failures (Record order order' k now w) key = failures v key"
    using Record_effect [OF assms(1) refl, of order order' k now] by blast
  then show ?thesis using settles_suffix [of now k w v key] OpRecord by simp
qed

lemma run_suffix:
  assumes "window_ok w" "records_of key ops = []"
  shows "suffix (failures (window_run ops w) key) (failures w key)"
  using assms
proof (induction ops arbitrary: w)
  case (Cons x ops)
  then have "records_of key [x] = []" "records_of key ops = []" by (simp_all add: records_of_def)
  then show ?case using Cons.IH [of "window_step x w"] Cons.prems(1) step_suffix [OF Cons.prems(1)] window_step_ok
    by (fastforce simp: window_run_def intro: suffix_order.order_trans)
qed (simp add: window_run_def)

text \<open>
  C23: a refused key stays refused exactly as long as it was told. On a window whose clock does
  not go back, when a key is refused with a waiting time, that time is positive, and a later
  request of the key is refused as long as the time has not passed, whatever other keys and the
  key itself do in between; when the time has passed and the key has no new failure, the
  request is admitted.
\<close>

theorem lockout_lasts_exactly:
  assumes "newWindow lim win clock bud = Inr w0"
    and "sorted (map op_time ops @ t # map op_time ops' @ [u])"
    and "Admit o1 key t (window_run ops w0) = ((d, False), w1)"
    and "Admit o2 key u (window_run ops' w1) = ((r, ok), w2)"
  shows "0 < d \<and> (u < t + d \<longrightarrow> \<not> ok) \<and> (t + d \<le> u \<and> records_of key ops' = [] \<longrightarrow> ok)"
proof -
  let ?w = "window_run ops w0"
  note new = newWindow_ok [OF assms(1)]
  have okw: "window_ok ?w" using window_run_ok new by blast
  have "timely w0 t0" for t0 using new by (simp add: timely_def failures_def)
  then have tw: "timely ?w t" using window_run_timely [of w0 "if ops = [] then t else op_time (hd ops)" ops t] new assms(2)
    by (cases ops) (auto simp: sorted_append)
  define at where "at = aged ?w t key"
  have w1: "window_ok w1" "same_limits ?w w1" "failures w1 key = at"
    using Admit_effect(1,2) [OF okw, where now = t and key = key and order = o1] assms(3) by (auto simp: settles_def at_def)
  have ans: "\<not> int (length at) < limit ?w" "d = (if hd at + window ?w - t \<le> 0 then 1 else hd at + window ?w - t)"
    using Admit_effect(3) [OF okw, where now = t and key = key and order = o1] assms(3) unfolding at_def [symmetric] by (auto simp: Let_def split: if_splits)
  then have len: "int (length at) = limit ?w" using aged_limit [OF okw, of t key] at_def by simp
  then have ne: "at \<noteq> []" using okw by (auto simp: window_ok_def)
  have "\<not> expired ?w t (hd at)" using ne unfolding at_def aged_def by (rule hd_dropWhile)
  then have d: "d = hd at + window ?w - t" "0 < d" using ans(2) by (auto simp: expired_def)
  have srt: "sorted (at @ [t])" using timely_aged [OF tw] at_def by simp
  then have hd: "\<forall>x \<in> set at. hd at \<le> x" "hd at \<le> t" using ne by (cases at; auto simp: sorted_append)+
  have win: "window w1 = window ?w" "limit w1 = limit ?w" using w1(2) by (simp_all add: same_limits_def)
  have lock: "locked w1 key (hd at)" using len hd w1(3) win by (simp add: locked_def)
  let ?v = "window_run ops' w1"
  have v: "window_ok ?v" "window ?v = window ?w" "limit ?v = limit ?w"
    using window_run_ok [OF w1(1), of ops'] win by (simp_all add: same_limits_def)
  have fin: "ok \<longleftrightarrow> int (length (aged ?v u key)) < limit ?v"
    using Admit_effect(3) [OF v(1), where now = u and key = key and order = o2] assms(4) by (auto simp: Let_def split: if_splits)
  have s': "sorted (t # map op_time ops' @ [u])" using assms(2) by (simp add: sorted_append)
  have early: "\<not> ok" if "u < t + d"
  proof -
    have "locked ?v key (hd at)" using run_locked [OF w1(1) lock s' _ hd(2)] that d win by simp
    then show ?thesis using fin unexpired_aged [of ?v key "hd at" u] that d v by (simp add: locked_def)
  qed
  have late: "ok" if over: "t + d \<le> u" and none: "records_of key ops' = []"
  proof -
    obtain ys where ys: "at = ys @ failures ?v key" using run_suffix [OF w1(1) none] w1(3) by (auto simp: suffix_def)
    have "length (aged ?v u key) < length at"
    proof (cases ys)
      case Nil
      then have "failures ?v key = hd at # tl at" using ys ne by simp
      moreover have "expired ?v u (hd at)" using over d v by (simp add: expired_def)
      ultimately show ?thesis using length_dropWhile_le [of "expired ?v u" "tl at"] ne by (simp add: aged_def) (cases at; simp)
    next
      case (Cons y zs)
      then show ?thesis using ys length_dropWhile_le [of "expired ?v u" "failures ?v key"] by (simp add: aged_def)
    qed
    then show ?thesis using fin len v by simp
  qed
  show ?thesis using d early late by blast
qed

subsection \<open>The log of all failures\<close>

definition last_n :: "nat \<Rightarrow> 'a list \<Rightarrow> 'a list" where
  "last_n n xs = drop (length xs - n) xs"

lemma last_n_snoc: "1 \<le> n \<Longrightarrow> last_n n (xs @ [y]) = last_n (n - 1) xs @ [y]"
  by (simp add: last_n_def)

lemma last_n_last_n: "m \<le> n \<Longrightarrow> last_n m (last_n n xs) = last_n m xs"
  by (simp add: last_n_def) (rule arg_cong [where f = "\<lambda>i. drop i xs"], linarith)

lemma last_n_short: "length xs \<le> n \<Longrightarrow> last_n n xs = xs"
  by (simp add: last_n_def)

lemma length_last_n: "length (last_n n xs) = min n (length xs)"
  by (simp add: last_n_def)

lemma hd_last_n: "1 \<le> n \<Longrightarrow> n \<le> length xs \<Longrightarrow> hd (last_n n xs) = xs ! (length xs - n)"
  by (simp add: last_n_def hd_drop_conv_nth)

lemma filter_dropWhile_other: "(\<And>x. P x \<Longrightarrow> \<not> Q x) \<Longrightarrow> filter Q (dropWhile P xs) = filter Q xs"
  by (induction xs) auto

definition inside :: "Window \<Rightarrow> instant \<Rightarrow> instant \<Rightarrow> bool" where
  "inside w u x \<longleftrightarrow> u - x < window w"

lemma aged_inside: "now \<le> u \<Longrightarrow> filter (inside w u) (aged w now k) = filter (inside w u) (failures w k)"
  unfolding aged_def by (rule filter_dropWhile_other) (simp add: inside_def expired_def)

lemma sorted_dropWhile_expired: "sorted xs \<Longrightarrow> dropWhile (expired w u) xs = filter (inside w u) xs"
proof (induction xs)
  case (Cons x xs)
  show ?case
  proof (cases "expired w u x")
    case False
    then have "\<forall>y \<in> set (x # xs). inside w u y" using Cons.prems by (auto simp: expired_def inside_def)
    then show ?thesis using False by simp
  qed (use Cons in \<open>simp add: inside_def expired_def\<close>)
qed simp

text \<open>The stored failures of a key and its log agree, from now on, on the last failures up to the limit.\<close>

definition logged :: "Window \<Rightarrow> instant \<Rightarrow> string \<Rightarrow> instant list \<Rightarrow> bool" where
  "logged w t k log \<longleftrightarrow> (\<forall>u \<ge> t. last_n (nat (limit w)) (filter (inside w u) (failures w k))
     = last_n (nat (limit w)) (filter (inside w u) log))"

lemma logged_settles:
  assumes "settles now served w v" "stored w < budget w" "logged w t k log" "t \<le> now"
  shows "logged v now k log"
proof -
  have "failures v k = failures w k \<or> failures v k = aged w now k" using assms(1,2) by (fastforce simp: settles_def)
  then have "filter (inside w u) (failures v k) = filter (inside w u) (failures w k)" if "now \<le> u" for u
    using that aged_inside by metis
  moreover have "inside v = inside w" "limit v = limit w" using assms(1) by (auto simp: settles_def same_limits_def inside_def fun_eq_iff)
  ultimately show ?thesis using assms(3,4) by (simp add: logged_def)
qed

lemma tail_inside:
  assumes "sorted at" "length at = L"
  shows "last_n (L - 1) (filter (inside w u) (tl at)) = last_n (L - 1) (filter (inside w u) at)"
proof (cases at)
  case (Cons x ys)
  show ?thesis
  proof (cases "inside w u x")
    case True
    then have "\<forall>y \<in> set ys. inside w u y" using assms(1) Cons by (auto simp: inside_def)
    then have "filter (inside w u) ys = ys" by simp
    then show ?thesis using True Cons assms(2) by (simp add: last_n_def)
  qed (simp add: Cons)
qed simp

lemma logged_counted:
  assumes "window_ok w" "timely w t" "t \<le> now" "logged w t k log" "\<forall>x \<in> set log. x \<le> now"
    and "failures w' k = counted w k now" "same_limits w w'"
  shows "logged w' now k (log @ [now])"
  unfolding logged_def
proof (intro allI impI)
  fix u assume u: "now \<le> u"
  let ?in = "inside w u" and ?L = "nat (limit w)" and ?at = "aged w now k"
  let ?short = "if int (length ?at) = limit w then tl ?at else ?at"
  have lim: "inside w' = inside w" "limit w' = limit w" "1 \<le> ?L"
    using assms(1,7) by (auto simp: same_limits_def inside_def window_ok_def fun_eq_iff)
  have at: "sorted (?at @ [now])" using timely_later [OF assms(2,3)] by (rule timely_aged)
  have new: "failures w' k = ?short @ [now]" using assms(6) by (simp add: counted_def Let_def)
  have "last_n ?L (filter ?in (?short @ [now])) = last_n ?L (filter ?in (log @ [now]))"
  proof (cases "?in now")
    case False
    then have "filter ?in log = []" using assms(5) by (fastforce simp: filter_empty_conv inside_def)
    moreover have "filter ?in ?at = []" using at False by (fastforce simp: filter_empty_conv inside_def sorted_append)
    moreover from this have "filter ?in (tl ?at) = []" by (cases ?at) (auto split: if_splits)
    ultimately show ?thesis using False by simp
  next
    case True
    have "last_n (?L - 1) (filter ?in ?short) = last_n (?L - 1) (filter ?in ?at)"
      using tail_inside [of ?at ?L w u] at lim by (auto simp: sorted_append)
    also have "\<dots> = last_n (?L - 1) (filter ?in (failures w k))" using aged_inside [OF u] by simp
    also have "\<dots> = last_n (?L - 1) (filter ?in log)"
      using assms(3,4) u last_n_last_n [of "?L - 1" ?L] unfolding logged_def by (metis diff_le_self order_trans)
    finally show ?thesis using True lim(3) by (simp add: last_n_snoc)
  qed
  then show "last_n (nat (limit w')) (filter (inside w' u) (failures w' k)) = last_n (nat (limit w')) (filter (inside w' u) (log @ [now]))"
    unfolding lim(1,2) new .
qed

definition records :: "window_op list \<Rightarrow> nat" where
  "records ops = length (filter (\<lambda>x. case x of OpRecord order order' k now \<Rightarrow> True | OpAdmit order k now \<Rightarrow> False) ops)"

lemma step_logged:
  assumes "window_ok w" "timely w t" "t \<le> op_time x" "stored w < budget w" "logged w t k log" "\<forall>y \<in> set log. y \<le> t"
  shows "logged (window_step x w) (op_time x) k (log @ records_of k [x])
    \<and> stored (window_step x w) \<le> stored w + int (records [x])"
proof (cases x)
  case (OpAdmit order key now)
  have "settles now key w (window_step x w)" using Admit_effect(1) [OF assms(1)] OpAdmit by simp
  then show ?thesis using logged_settles [OF _ assms(4,5), of now key] assms(3) OpAdmit
    by (simp add: records_of_def records_def settles_def)
next
  case (OpRecord order order' key now)
  let ?w = "Record order order' key now w"
  have r: "same_limits w ?w" "stored ?w \<le> stored w + 1" "failures ?w key = counted w key now"
    using Record_effect [OF assms(1) refl, of order order' key now] assms(4) by auto
  obtain v where v: "settles now key w v" "\<forall>j. j \<noteq> key \<longrightarrow> failures ?w j = failures v j"
    using Record_effect [OF assms(1) refl, of order order' key now] by (elim conjE exE)
  have now: "t \<le> now" using assms(3) OpRecord by simp
  have "logged ?w now k (log @ records_of k [x])"
  proof (cases "k = key")
    case True
    then show ?thesis using logged_counted [OF assms(1,2) now assms(5) _ _ r(1)] r(3) assms(6) now OpRecord
      by (fastforce simp: records_of_def)
  next
    case False
    have "logged v now k log" by (rule logged_settles [OF v(1) assms(4,5) now])
    moreover have "limit v = limit ?w" "inside v = inside ?w"
      using v(1) r(1) by (auto simp: settles_def same_limits_def inside_def fun_eq_iff)
    ultimately show ?thesis using v(2) False OpRecord by (simp add: logged_def records_of_def)
  qed
  then show ?thesis using r(2) OpRecord by (simp add: records_def)
qed

lemma records_of_time: "y \<in> set (records_of k [x]) \<Longrightarrow> y = op_time x"
  by (cases x) (auto simp: records_of_def split: if_splits)

lemma run_logged:
  assumes "window_ok w" "timely w t" "sorted (t # map op_time ops @ [u])" "stored w + int (records ops) < budget w"
    and "logged w t k log" "\<forall>y \<in> set log. y \<le> t"
  shows "logged (window_run ops w) u k (log @ records_of k ops)"
  using assms
proof (induction ops arbitrary: w t log)
  case Nil
  then show ?case by (simp add: window_run_def records_of_def logged_def)
next
  case (Cons x ops)
  have split: "records_of k (x # ops) = records_of k [x] @ records_of k ops" "records (x # ops) = records [x] + records ops"
    by (simp_all add: records_of_def records_def)
  have x: "t \<le> op_time x" "sorted (op_time x # map op_time ops @ [u])" using Cons.prems(3) by simp_all
  have "stored w < budget w" using Cons.prems(4) by linarith
  note 1 = step_logged [OF Cons.prems(1,2) x(1) this Cons.prems(5,6)]
  have same: "window_ok (window_step x w)" "budget (window_step x w) = budget w"
    using window_step_ok [OF Cons.prems(1), of x] by (simp_all add: same_limits_def)
  have room: "stored (window_step x w) + int (records ops) < budget (window_step x w)"
    using 1 same Cons.prems(4) split(2) by simp
  have past: "\<forall>y \<in> set (log @ records_of k [x]). y \<le> op_time x"
    using Cons.prems(6) x(1) records_of_time by fastforce
  have "logged (window_run ops (window_step x w)) u k ((log @ records_of k [x]) @ records_of k ops)"
    by (rule Cons.IH [OF same(1) window_step_timely [OF Cons.prems(1,2) x(1)] x(2) room _ past]) (use 1 in blast)
  then show ?case unfolding split(1) by (simp add: window_run_def)
qed

text \<open>
  C21: the window counts exactly. Compared with a log of all failures that never forgets: if fewer
  failures than the budget were ever recorded, over all keys and counting those that were forgotten
  since, and the clock never goes back from one operation to the next, then a request of a key is
  admitted exactly when the log has fewer failures of the key inside the window than the limit, and
  a refused key is told the time until the failure that is the limit-th from the end leaves the
  window.
\<close>

theorem Admit_counts_the_log:
  assumes "newWindow lim win clock bud = Inr w0"
    and "sorted (map op_time ops @ [u])" and "int (records ops) < bud"
    and "Admit order key u (window_run ops w0) = ((d, ok), w')"
    and "inlog = filter (\<lambda>x. u - x < win) (records_of key ops)"
  shows "(ok \<longleftrightarrow> int (length inlog) < lim) \<and> (\<not> ok \<longrightarrow> d = inlog ! (length inlog - nat lim) + win - u)"
proof -
  let ?w = "window_run ops w0"
  note new = newWindow_ok [OF assms(1)]
  have w: "window_ok ?w" "limit ?w = lim" "window ?w = win"
    using window_run_ok [of w0 ops] new by (auto simp: same_limits_def)
  let ?t = "if ops = [] then u else op_time (hd ops)"
  have start: "timely w0 ?t" "logged w0 ?t key []" using new by (simp_all add: timely_def failures_def logged_def)
  have srt: "sorted (?t # map op_time ops @ [u])" using assms(2) by (cases ops) auto
  have "logged ?w u key ([] @ records_of key ops)"
    by (rule run_logged [OF _ start(1) srt _ start(2)]) (use new assms(3) in auto)
  then have eq: "last_n (nat lim) (filter (inside ?w u) (failures ?w key)) = last_n (nat lim) inlog"
    using w assms(5) unfolding logged_def by (simp add: inside_def [abs_def])
  have "sorted (failures ?w key)" using window_run_timely [OF _ start(1) srt] new by (simp add: timely_def sorted_append)
  then have aged: "aged ?w u key = filter (inside ?w u) (failures ?w key)" unfolding aged_def by (rule sorted_dropWhile_expired)
  have lim: "0 < lim" "1 \<le> nat lim" using w by (auto simp: window_ok_def)
  have "length (aged ?w u key) \<le> nat lim" using aged_limit [OF w(1), of u key] w(2) by linarith
  then have last: "aged ?w u key = last_n (nat lim) inlog" using eq aged last_n_short by metis
  then have len: "int (length (aged ?w u key)) < lim \<longleftrightarrow> int (length inlog) < lim"
    using lim by (simp add: length_last_n) linarith
  have ans: "(d, ok) = (if int (length (aged ?w u key)) < lim then (0, True)
      else let r = hd (aged ?w u key) + win - u in (if r \<le> 0 then 1 else r, False))"
    using Admit_effect(3) [OF w(1), of order key u] assms(4) w by simp
  have "d = inlog ! (length inlog - nat lim) + win - u" if "\<not> int (length inlog) < lim"
  proof -
    have "aged ?w u key \<noteq> []" using that len lim by auto
    then have "\<not> expired ?w u (hd (aged ?w u key))" unfolding aged_def by (rule hd_dropWhile)
    then have "d = hd (aged ?w u key) + win - u" using ans that len w by (simp add: Let_def expired_def split: if_splits)
    moreover have "nat lim \<le> length inlog" using that by linarith
    ultimately show ?thesis using hd_last_n [OF lim(2), of inlog] last by simp
  qed
  then show ?thesis using ans len by (auto simp: Let_def split: if_splits)
qed

subsection \<open>Witnesses of the window\<close>

definition sample_window :: Window where
  "sample_window = \<lparr>limit = 2, window = 10, keys = [], budget = 5, stored = 0, sweepAt = 64, sweptAt = 0\<rparr>"

definition sample_ops :: "window_op list" where
  "sample_ops = [OpRecord [] [] ''a'' 1, OpRecord [] [] ''a'' 2, OpRecord [] [] ''b'' 3]"

lemma sample_window_new: "newWindow 2 10 (Some (\<lambda>_. 0)) 5 = Inr sample_window"
  by (simp add: newWindow_def sample_window_def minSweepSize_def)

theorem window_memory_bounded_witness:
  "stored (window_run sample_ops sample_window) = 3 \<and> stored (window_run sample_ops sample_window) \<le> 5
    \<and> distinct (map fst (keys (window_run sample_ops sample_window)))"
proof -
  have "stored (window_run sample_ops sample_window) = 3" by code_simp
  then show ?thesis using window_memory_bounded [OF sample_window_new refl, of sample_ops] by blast
qed

theorem lockout_lasts_exactly_witness:
  "fst (Admit [] ''a'' 4 (window_run sample_ops sample_window)) = (7, False)
    \<and> \<not> snd (fst (Admit [] ''a'' 10 (window_run [OpRecord [] [] ''b'' 5] (snd (Admit [] ''a'' 4 (window_run sample_ops sample_window))))))
    \<and> snd (fst (Admit [] ''a'' 11 (window_run [OpRecord [] [] ''b'' 5] (snd (Admit [] ''a'' 4 (window_run sample_ops sample_window))))))"
proof -
  let ?w = "window_run sample_ops sample_window"
  let ?v = "window_run [OpRecord [] [] ''b'' 5] (snd (Admit [] ''a'' 4 ?w))"
  have first: "fst (Admit [] ''a'' 4 ?w) = (7, False)" by code_simp
  then have eq: "Admit [] ''a'' 4 ?w = ((7, False), snd (Admit [] ''a'' 4 ?w))" by (metis prod.collapse)
  have split: "Admit [] ''a'' u ?v = ((fst (fst (Admit [] ''a'' u ?v)), snd (fst (Admit [] ''a'' u ?v))), snd (Admit [] ''a'' u ?v))" for u
    by simp
  have "sorted (map op_time sample_ops @ 4 # map op_time [OpRecord [] [] ''b'' 5] @ [10])"
    "sorted (map op_time sample_ops @ 4 # map op_time [OpRecord [] [] ''b'' 5] @ [11])"
    "records_of ''a'' [OpRecord [] [] ''b'' 5] = []"
    by (simp_all add: sample_ops_def records_of_def)
  then show ?thesis
    using first lockout_lasts_exactly [OF sample_window_new _ eq split, of 10]
      lockout_lasts_exactly [OF sample_window_new _ eq split, of 11] by simp
qed

theorem Admit_counts_the_log_witness:
  "snd (fst (Admit [] ''a'' 11 (window_run sample_ops sample_window)))
    \<and> \<not> snd (fst (Admit [] ''a'' 10 (window_run sample_ops sample_window)))
    \<and> fst (fst (Admit [] ''a'' 10 (window_run sample_ops sample_window))) = 1"
proof -
  let ?w = "window_run sample_ops sample_window"
  have split: "Admit [] ''a'' u ?w = ((fst (fst (Admit [] ''a'' u ?w)), snd (fst (Admit [] ''a'' u ?w))), snd (Admit [] ''a'' u ?w))" for u
    by simp
  have "sorted (map op_time sample_ops @ [11])" "sorted (map op_time sample_ops @ [10])" "int (records sample_ops) < 5"
    "filter (\<lambda>x. 11 - x < 10) (records_of ''a'' sample_ops) = [2]" "filter (\<lambda>x. 10 - x < 10) (records_of ''a'' sample_ops) = [1, 2]"
    by (simp_all add: sample_ops_def records_def records_of_def)
  then show ?thesis
    using Admit_counts_the_log [OF sample_window_new _ _ split [of 11] refl]
      Admit_counts_the_log [OF sample_window_new _ _ split [of 10] refl] by simp
qed

end
