(* ===== verification/Token_Gate.thy ===== *)
theory Token_Gate
  imports Key_Store
begin

text \<open>
  Issue and presentation of a token: the rule that weighs the revoke-all cutoff of a person at
  issue, the signer that sets the instant of issue and the claims, and the rule that judges a
  presented token by its cutoffs, its family and the address mark of its subject.

  Sources: \<open>internal/revocationpolicy/revocationpolicy.go\<close>, \<open>internal/tokensigner/signer.go\<close>,
  \<open>internal/tokenrevocation/rule.go\<close>, \<open>internal/admission/admission.go\<close> and
  \<open>internal/audiencepolicy/audiencepolicy.go\<close>.

  The stores are records of functions that answer or fail. The key material comes from the
  keystore. The JWT library is a parameter: reading the issue instant from claims, parsing a
  private key, signing. Claims are a map from names to values; a numeric date is a number of
  seconds.
\<close>

subsection \<open>Answers of the stores\<close>

datatype 'e gate_error =
    ErrNoMarks
  | ErrNoLookup
  | ErrUnknownPrincipalKind string
  | ErrPrincipalWithoutID
  | LookupFailed 'e

record 'e Lookup =
  UserRevokedBefore :: "string \<Rightarrow> ('e, instant option) result"
  lk_PersonMarks :: "string list \<Rightarrow> ('e, string \<rightharpoonup> bool) result"

record 'e Reader =
  RevokedBefore :: "string \<Rightarrow> ('e, instant option) result"
  rd_FamilyRevoked :: "string \<Rightarrow> ('e, bool) result"
  rd_PersonMarks :: "string list \<Rightarrow> ('e, string \<rightharpoonup> bool) result"

subsection \<open>Admission by the address mark\<close>

definition admission_ID ::
  "(string list \<Rightarrow> ('e, string \<rightharpoonup> bool) result) option \<Rightarrow> string \<Rightarrow> ('e gate_error, bool) result" where
  "admission_ID m raw =
     (let ident = trim_space raw in
      if ident = [] then Inr True
      else case m of
        None \<Rightarrow> Inl ErrNoMarks
      | Some marks \<Rightarrow>
          (case marks [ident] of
             Inl e \<Rightarrow> Inl (LookupFailed e)
           | Inr table \<Rightarrow> (case table ident of None \<Rightarrow> Inr True | Some verified \<Rightarrow> Inr verified)))"

definition SubjectID :: "string \<Rightarrow> string option" where
  "SubjectID subject =
     (let (before, after, found) = cut_byte (CHR '':'') subject
      in if \<not> found \<or> before = [] \<or> after = [] then None
         else if before = ''system_class'' then None
         else if contains_any after ''#*'' then None
         else Some after)"

definition admission_Subject ::
  "(string list \<Rightarrow> ('e, string \<rightharpoonup> bool) result) option \<Rightarrow> string \<Rightarrow> ('e gate_error, bool) result" where
  "admission_Subject m subject = (case SubjectID subject of None \<Rightarrow> Inr True | Some ident \<Rightarrow> admission_ID m ident)"

definition admission_Subjects ::
  "(string list \<Rightarrow> ('e, string \<rightharpoonup> bool) result) option \<Rightarrow> string list \<Rightarrow> ('e gate_error, bool list) result" where
  "admission_Subjects m subjects =
     (let idents = List.map_filter SubjectID subjects in
      if idents = [] then Inr (map (\<lambda>_. True) subjects)
      else case m of
        None \<Rightarrow> Inl ErrNoMarks
      | Some marks \<Rightarrow>
          (case marks idents of
             Inl e \<Rightarrow> Inl (LookupFailed e)
           | Inr table \<Rightarrow> Inr (map (\<lambda>s. case SubjectID s of
               None \<Rightarrow> True | Some ident \<Rightarrow> table ident \<noteq> Some False) subjects)))"

subsection \<open>The rule at issue\<close>

record ResolvedPrincipal =
  pr_Kind :: string
  pr_UserID :: string
  StandingCredentialIssuedAt :: "instant option"

datatype Verdict = Allowed | Revoked_verdict | Undecidable | Unverified

definition Forbids :: "instant \<Rightarrow> instant \<Rightarrow> bool" where
  "Forbids cutoff anchor \<longleftrightarrow> is_zero_time anchor \<or> \<not> cutoff < anchor"

definition Anchor :: "ResolvedPrincipal \<Rightarrow> instant \<Rightarrow> instant" where
  "Anchor p sessionAuthTime = (case StandingCredentialIssuedAt p of Some t \<Rightarrow> t | None \<Rightarrow> sessionAuthTime)"

definition OwnerAdmission :: "'e Lookup option \<Rightarrow> string \<Rightarrow> Verdict \<times> 'e gate_error option" where
  "OwnerAdmission marks userID =
     (case marks of
        None \<Rightarrow> (Undecidable, Some ErrNoLookup)
      | Some lk \<Rightarrow>
          if userID = [] then (Undecidable, Some ErrPrincipalWithoutID)
          else (case admission_ID (Some (lk_PersonMarks lk)) userID of
                  Inl e \<Rightarrow> (Undecidable, Some e)
                | Inr admitted \<Rightarrow> if admitted then (Allowed, None) else (Unverified, None)))"

definition AtIssuance ::
  "'e Lookup option \<Rightarrow> ResolvedPrincipal \<Rightarrow> instant \<Rightarrow> Verdict \<times> instant \<times> 'e gate_error option" where
  "AtIssuance cutoffs p sessionAuthTime =
     (if pr_Kind p = ''service_account'' \<or> pr_Kind p = [] then (Allowed, zero_time, None)
      else if pr_Kind p \<noteq> ''user'' then (Undecidable, zero_time, Some (ErrUnknownPrincipalKind (pr_Kind p)))
      else case cutoffs of
        None \<Rightarrow> (Undecidable, zero_time, Some ErrNoLookup)
      | Some lk \<Rightarrow>
          if pr_UserID p = [] then (Undecidable, zero_time, Some ErrPrincipalWithoutID)
          else (case UserRevokedBefore lk (pr_UserID p) of
                  Inl e \<Rightarrow> (Undecidable, zero_time, Some (LookupFailed e))
                | Inr standing \<Rightarrow>
                    if (case standing of None \<Rightarrow> False | Some c \<Rightarrow> Forbids c (Anchor p sessionAuthTime)) then (Revoked_verdict, zero_time, None)
                    else (let (verdict, err) = OwnerAdmission cutoffs (pr_UserID p)
                          in case standing of
                               None \<Rightarrow> (verdict, zero_time, err)
                             | Some c \<Rightarrow> if verdict \<noteq> Allowed then (verdict, zero_time, err) else (Allowed, c, None))))"

subsection \<open>The signer\<close>

datatype claim = ClaimText string | ClaimTexts "string list" | ClaimNumber int | ClaimMap "(string \<times> string) list"

type_synonym claims = "string \<Rightarrow> claim option"

record Confirmation =
  JKT :: string
  X5TS256 :: string

record Request =
  rq_Subject :: string
  rq_Audience :: "string list"
  rq_TokenType :: string
  rq_TTL :: duration
  rq_NotAfter :: instant
  rq_IssuedAfter :: instant
  rq_Confirmation :: "Confirmation option"
  rq_Claims :: claims

record Token =
  tk_Token :: string
  tk_KID :: string
  tk_JTI :: string
  tk_IssuedAt :: instant
  tk_ExpiresAt :: instant

record Signer_config =
  sg_Issuer :: string
  MaxTokenTTL :: duration

datatype sign_error = ErrExpiryRequired | ErrTTLAboveCeiling | ErrSubjectRequired | ErrAudienceRequired | ErrTokenTypeRequired
  | ErrEmptyConfirmation | ErrNoSigningKey key_error | BadSigningAlgorithm string | KeyNotParsed | ErrClockUnavailable
  | ErrIssueMomentNotAfterCutoff | SigningFailed

text \<open>What the signer takes from outside: two readings of the clock, the end of the call, the JWT library.\<close>

record sign_env =
  se_clock :: "nat \<Rightarrow> instant option"
  se_done :: bool
  se_newID :: string
  se_parse :: "string \<Rightarrow> string \<Rightarrow> string option"
  se_sign :: "string \<Rightarrow> string \<Rightarrow> (string \<times> string) list \<Rightarrow> claims \<Rightarrow> string option"

definition second :: duration where
  "second = 1000000000"

definition truncate_second :: "instant \<Rightarrow> instant" where
  "truncate_second t = t - t mod second"

definition unix :: "instant \<Rightarrow> int" where
  "unix t = t div second"

definition validate_request :: "Request \<Rightarrow> duration \<Rightarrow> sign_error option" where
  "validate_request req ceiling =
     (if rq_TTL req \<le> 0 then Some ErrExpiryRequired
      else if rq_TTL req > ceiling then Some ErrTTLAboveCeiling
      else if rq_Subject req = [] then Some ErrSubjectRequired
      else if rq_Audience req = [] then Some ErrAudienceRequired
      else if list_ex (\<lambda>a. a = []) (rq_Audience req) then Some ErrAudienceRequired
      else if rq_TokenType req = [] then Some ErrTokenTypeRequired
      else case rq_Confirmation req of
        None \<Rightarrow> None
      | Some c \<Rightarrow> if JKT c = [] \<and> X5TS256 c = [] then Some ErrEmptyConfirmation else None)"

definition signingMethod :: "string \<Rightarrow> (sign_error, string) result" where
  "signingMethod alg = (if alg \<in> {''RS256'', ''ES256'', ''EdDSA''} then Inr alg else Inl (BadSigningAlgorithm alg))"

definition parsePrivateKey :: "sign_env \<Rightarrow> string \<Rightarrow> string \<Rightarrow> (sign_error, string) result" where
  "parsePrivateKey e alg pem =
     (if alg \<in> {''RS256'', ''ES256'', ''EdDSA''}
      then (case se_parse e alg pem of None \<Rightarrow> Inl KeyNotParsed | Some key \<Rightarrow> Inr key)
      else Inl (BadSigningAlgorithm alg))"

definition readClock :: "sign_env \<Rightarrow> nat \<Rightarrow> (sign_error, instant) result" where
  "readClock e n = (case se_clock e n of
     None \<Rightarrow> Inl ErrClockUnavailable
   | Some at \<Rightarrow> if is_zero_time at then Inl ErrClockUnavailable else Inr at)"

definition issueMoment :: "sign_env \<Rightarrow> instant \<Rightarrow> (sign_error, instant) result" where
  "issueMoment e after =
     (case readClock e 0 of
        Inl err \<Rightarrow> Inl err
      | Inr at \<Rightarrow>
          if is_zero_time after \<or> truncate_second at > after then Inr (truncate_second at)
          else if truncate_second after + second - at > second then Inl ErrIssueMomentNotAfterCutoff
          else if se_done e then Inl ErrIssueMomentNotAfterCutoff
          else (case readClock e 1 of
                  Inl err \<Rightarrow> Inl err
                | Inr at' \<Rightarrow> if \<not> truncate_second at' > after then Inl ErrIssueMomentNotAfterCutoff else Inr (truncate_second at')))"

definition expiry :: "Request \<Rightarrow> instant \<Rightarrow> instant" where
  "expiry req now =
     truncate_second (if \<not> is_zero_time (rq_NotAfter req) \<and> now + rq_TTL req > rq_NotAfter req
       then rq_NotAfter req else now + rq_TTL req)"

definition cnf_claim :: "Confirmation \<Rightarrow> (string \<times> string) list" where
  "cnf_claim c = (if JKT c \<noteq> [] then [(''jkt'', JKT c)] else []) @ (if X5TS256 c \<noteq> [] then [(''x5t#S256'', X5TS256 c)] else [])"

definition token_claims :: "Signer_config \<Rightarrow> Request \<Rightarrow> instant \<Rightarrow> instant \<Rightarrow> string \<Rightarrow> claims" where
  "token_claims cfg req now expires jti =
     (let base = (rq_Claims req)(''iss'' \<mapsto> ClaimText (sg_Issuer cfg), ''sub'' \<mapsto> ClaimText (rq_Subject req),
        ''aud'' \<mapsto> ClaimTexts (rq_Audience req), ''iat'' \<mapsto> ClaimNumber (unix now), ''nbf'' \<mapsto> ClaimNumber (unix now),
        ''exp'' \<mapsto> ClaimNumber (unix expires), ''jti'' \<mapsto> ClaimText jti)
      in case rq_Confirmation req of None \<Rightarrow> base | Some c \<Rightarrow> base(''cnf'' \<mapsto> ClaimMap (cnf_claim c)))"

definition Sign :: "Signer_config \<Rightarrow> sign_env \<Rightarrow> (key_error, SigningMaterial) result \<Rightarrow> Request \<Rightarrow> (sign_error, Token) result" where
  "Sign cfg e material req =
     (case validate_request req (MaxTokenTTL cfg) of
        Some err \<Rightarrow> Inl err
      | None \<Rightarrow>
     (case material of
        Inl err \<Rightarrow> Inl (ErrNoSigningKey err)
      | Inr mat \<Rightarrow>
     (case signingMethod (mat_Algorithm mat) of
        Inl err \<Rightarrow> Inl err
      | Inr meth \<Rightarrow>
     (case parsePrivateKey e (mat_Algorithm mat) (mat_PrivateKeyPEM mat) of
        Inl err \<Rightarrow> Inl err
      | Inr key \<Rightarrow>
     (case issueMoment e (rq_IssuedAfter req) of
        Inl err \<Rightarrow> Inl err
      | Inr now \<Rightarrow>
          if \<not> expiry req now > now then Inl ErrExpiryRequired
          else (case se_sign e meth key [(''kid'', mat_KID mat), (''typ'', rq_TokenType req)]
                       (token_claims cfg req now (expiry req now) (se_newID e)) of
                  None \<Rightarrow> Inl SigningFailed
                | Some raw \<Rightarrow> Inr \<lparr>tk_Token = raw, tk_KID = mat_KID mat, tk_JTI = se_newID e, tk_IssuedAt = now,
                    tk_ExpiresAt = expiry req now\<rparr>))))))"

subsection \<open>The rule at presentation\<close>

definition subjectClaims :: "string list" where
  "subjectClaims = [''kaname_user_token_id'', ''kaname_sa_key_id'']"

definition text_claim :: "claims \<Rightarrow> string \<Rightarrow> string" where
  \<comment> \<open>\<open>v, _ := claims[name].(string)\<close>\<close>
  "text_claim c name = (case c name of Some (ClaimText v) \<Rightarrow> v | _ \<Rightarrow> [])"

definition forwardKeys :: "claims \<Rightarrow> string list" where
  "forwardKeys c = filter (\<lambda>v. v \<noteq> []) (map (text_claim c) (''sub'' # subjectClaims))"

definition FamilyRevoked :: "'e Reader \<Rightarrow> string \<Rightarrow> ('e, bool) result" where
  "FamilyRevoked r jti = (if jti = [] then Inr False else rd_FamilyRevoked r jti)"

fun cutoff_loop :: "'e Reader \<Rightarrow> instant \<Rightarrow> string list \<Rightarrow> ('e, bool) result" where
  "cutoff_loop r issued [] = Inr False"
| "cutoff_loop r issued (key # ks) =
     (case RevokedBefore r key of
        Inl e \<Rightarrow> Inl e
      | Inr None \<Rightarrow> cutoff_loop r issued ks
      | Inr (Some cutoff) \<Rightarrow> if \<not> issued > cutoff then Inr True else cutoff_loop r issued ks)"

definition Revoked :: "(claims \<Rightarrow> instant option) \<Rightarrow> 'e Reader \<Rightarrow> claims \<Rightarrow> ('e gate_error, bool) result" where
  \<comment> \<open>\<open>issuedAt\<close> is \<open>GetIssuedAt\<close> of the JWT library; the caller treats no instant and an error alike\<close>
  "Revoked issuedAt r c =
     (case issuedAt c of
        None \<Rightarrow> Inr True
      | Some issued \<Rightarrow>
          if forwardKeys c = [] then Inr True
          else (case cutoff_loop r issued (forwardKeys c) of
                  Inl e \<Rightarrow> Inl (LookupFailed e)
                | Inr True \<Rightarrow> Inr True
                | Inr False \<Rightarrow>
                    (case FamilyRevoked r (text_claim c ''jti'') of
                       Inl e \<Rightarrow> Inl (LookupFailed e)
                     | Inr True \<Rightarrow> Inr True
                     | Inr False \<Rightarrow>
                         (case admission_ID (Some (rd_PersonMarks r)) (text_claim c ''sub'') of
                            Inl e \<Rightarrow> Inl e
                          | Inr admitted \<Rightarrow> Inr (\<not> admitted)))))"

subsection \<open>The audiences of a token\<close>

datatype audience_error = ErrNoLanding | ErrOutsideLanding string | ErrOutsideDeclared string | ErrNarrowingDisjoint

record audience_Scope =
  Landing :: "string list"
  scope_Default :: string
  scope_Declared :: "string list"

fun Contains :: "string list \<Rightarrow> string \<Rightarrow> bool" where
  "Contains [] want \<longleftrightarrow> False"
| "Contains (a # list) want \<longleftrightarrow> a = want \<or> Contains list want"

fun narrow :: "string list \<Rightarrow> string list \<Rightarrow> string list \<Rightarrow> string list" where
  \<comment> \<open>the loop that builds \<open>effective\<close>\<close>
  "narrow landing effective [] = effective"
| "narrow landing effective (a # as) =
     narrow landing (if Contains landing a \<and> \<not> Contains effective a then effective @ [a] else effective) as"

definition scope_of :: "audience_Scope \<Rightarrow> (audience_error, string list \<times> string) result" where
  "scope_of s =
     (if Landing s = [] then Inl ErrNoLanding
      else if scope_Declared s = [] then Inr (Landing s, scope_Default s)
      else (let effective = narrow (Landing s) [] (scope_Declared s)
            in if effective = [] then Inl ErrNarrowingDisjoint
               else if Contains effective (scope_Default s) then Inr (effective, scope_Default s)
               else Inr (effective, hd effective)))"

fun check_requested :: "string list \<Rightarrow> string list \<Rightarrow> string list \<Rightarrow> audience_error option" where
  "check_requested landing effective [] = None"
| "check_requested landing effective (a # as) =
     (if \<not> Contains landing a then Some (ErrOutsideLanding a)
      else if \<not> Contains effective a then Some (ErrOutsideDeclared a)
      else check_requested landing effective as)"

definition audience_Resolve :: "audience_Scope \<Rightarrow> string list \<Rightarrow> (audience_error, string list) result" where
  "audience_Resolve s requested =
     (case scope_of s of
        Inl e \<Rightarrow> Inl e
      | Inr (effective, fallback) \<Rightarrow>
          if requested = [] then Inr [fallback]
          else (case check_requested (Landing s) effective requested of None \<Rightarrow> Inr requested | Some e \<Rightarrow> Inl e))"

lemma Contains_iff [simp]: "Contains xs a \<longleftrightarrow> a \<in> set xs"
  by (induction xs) auto

lemma set_narrow: "set (narrow landing effective as) = set effective \<union> (set as \<inter> set landing)"
  by (induction as arbitrary: effective) auto

lemma check_requested_None:
  "check_requested landing effective as = None \<longleftrightarrow> set as \<subseteq> set landing \<inter> set effective"
  by (induction as) auto

lemma scope_of_ok:
  assumes "scope_of s = Inr (effective, fallback)" and "scope_Default s \<in> set (Landing s)"
  shows "set effective = (if scope_Declared s = [] then set (Landing s) else set (scope_Declared s) \<inter> set (Landing s))"
    and "fallback \<in> set effective"
proof -
  let ?e = "narrow (Landing s) [] (scope_Declared s)"
  have e: "set ?e = set (scope_Declared s) \<inter> set (Landing s)" by (simp add: set_narrow)
  have "(scope_Declared s = [] \<and> effective = Landing s \<and> fallback = scope_Default s) \<or>
      (scope_Declared s \<noteq> [] \<and> effective = ?e \<and> ?e \<noteq> [] \<and> (fallback = scope_Default s \<and> fallback \<in> set ?e \<or> fallback = hd ?e))"
    using assms(1) by (simp add: scope_of_def Let_def split: if_splits) blast
  then show "set effective = (if scope_Declared s = [] then set (Landing s) else set (scope_Declared s) \<inter> set (Landing s))"
    and "fallback \<in> set effective"
    using assms(2) e by (metis, metis hd_in_set)
qed

text \<open>
  an audience is granted exactly inside both declarations. Whatever the request names, a token
  is addressed only to audiences that the deployment declares and, when the key was issued with
  a narrowing, to audiences of the key; a request that names such audiences only is granted as it
  stands; and a request that names none is refused only when no audience of the key is declared
  by the deployment.
\<close>

theorem audience_granted_inside_both:
  assumes "scope_Default s \<in> set (Landing s)"
    and "allowed = (if scope_Declared s = [] then set (Landing s) else set (scope_Declared s) \<inter> set (Landing s))"
  shows "(case audience_Resolve s requested of
            Inr granted \<Rightarrow> granted \<noteq> [] \<and> set granted \<subseteq> allowed \<and> (requested = [] \<or> granted = requested)
          | Inl e \<Rightarrow> if requested = [] then allowed = {} else \<not> set requested \<subseteq> allowed)"
proof (cases "scope_of s")
  case (Inl e)
  have "Landing s \<noteq> []" using assms(1) by auto
  with Inl have n: "scope_Declared s \<noteq> []" "narrow (Landing s) [] (scope_Declared s) = []"
    by (simp_all add: scope_of_def Let_def split: if_splits)
  then have "set (scope_Declared s) \<inter> set (Landing s) = {}"
    using set_narrow [of "Landing s" "[]" "scope_Declared s"] by simp
  then have "allowed = {}" using n(1) assms(2) by simp
  then show ?thesis using Inl by (simp add: audience_Resolve_def)
next
  case (Inr r)
  obtain effective fallback where r: "r = (effective, fallback)" by (cases r)
  note ok = scope_of_ok [OF Inr [unfolded r] assms(1)]
  have e: "set effective = allowed" unfolding ok(1) assms(2) ..
  have sub: "allowed \<subseteq> set (Landing s)" by (simp add: assms(2))
  have f: "fallback \<in> allowed" using ok(2) e by blast
  have "check_requested (Landing s) effective requested = None \<longleftrightarrow> set requested \<subseteq> allowed"
    unfolding check_requested_None e using sub by blast
  then show ?thesis using f
    by (cases "check_requested (Landing s) effective requested") (simp_all add: audience_Resolve_def Inr r)
qed

theorem audience_granted_inside_both_witness:
  "audience_Resolve \<lparr>Landing = [''api'', ''registry''], scope_Default = ''api'', scope_Declared = [''hub'', ''registry'']\<rparr> [] = Inr [''registry'']
   \<and> set [''registry''] \<subseteq> {''hub'', ''registry''} \<inter> {''api'', ''registry''}"
  using audience_granted_inside_both [of "\<lparr>Landing = [''api'', ''registry''], scope_Default = ''api'', scope_Declared = [''hub'', ''registry'']\<rparr>" _ "[]"]
  by (simp add: audience_Resolve_def scope_of_def Let_def)

subsection \<open>Issue and presentation agree\<close>

lemma truncate_unix: "unix (truncate_second t) * second = truncate_second t"
  by (simp add: unix_def truncate_second_def second_def minus_mod_eq_div_mult)

lemma unix_bounds: "second \<le> t \<Longrightarrow> t < 2 ^ 53 * second \<Longrightarrow> 0 < unix (truncate_second t) \<and> unix (truncate_second t) < 2 ^ 53"
proof -
  assume t: "second \<le> t" "t < 2 ^ 53 * second"
  have "t = t div second * second + t mod second" "0 \<le> t mod second" "t mod second < second" by (simp_all add: second_def)
  then show ?thesis using t unfolding unix_def truncate_second_def by (simp add: second_def minus_mod_eq_div_mult) linarith
qed

lemma issueMoment_ok:
  assumes "issueMoment e after = Inr now"
  shows "\<exists>n t. se_clock e n = Some t \<and> now = truncate_second t \<and> (is_zero_time after \<or> now > after)"
  using assms by (auto simp: issueMoment_def readClock_def split: sum.splits option.splits if_splits)

lemma token_claims_reserved:
  "token_claims cfg req now expires jti ''sub'' = Some (ClaimText (rq_Subject req))"
  "token_claims cfg req now expires jti ''iat'' = Some (ClaimNumber (unix now))"
  "token_claims cfg req now expires jti ''jti'' = Some (ClaimText jti)"
  "name \<in> set subjectClaims \<Longrightarrow> token_claims cfg req now expires jti name = rq_Claims req name"
  by (auto simp: token_claims_def subjectClaims_def Let_def split: option.split)

lemma Sign_ok:
  assumes "Sign cfg e material req = Inr tok"
  obtains meth key hdr expires where "issueMoment e (rq_IssuedAfter req) = Inr (tk_IssuedAt tok)"
    "se_sign e meth key hdr (token_claims cfg req (tk_IssuedAt tok) expires (se_newID e)) = Some (tk_Token tok)"
  using assms by (auto simp: Sign_def split: option.splits sum.splits if_splits)

lemma forwardKeys_token:
  assumes "rq_Subject req \<noteq> []"
  shows "forwardKeys (token_claims cfg req now expires jti)
    = rq_Subject req # filter (\<lambda>v. v \<noteq> []) (map (text_claim (rq_Claims req)) subjectClaims)"
proof -
  have "text_claim (token_claims cfg req now expires jti) name = text_claim (rq_Claims req) name" if "name \<in> set subjectClaims" for name
    using token_claims_reserved(4) [OF that] by (simp add: text_claim_def)
  moreover have "text_claim (token_claims cfg req now expires jti) ''sub'' = rq_Subject req"
    by (simp add: text_claim_def token_claims_reserved)
  ultimately show ?thesis using assms by (simp add: forwardKeys_def cong: map_cong)
qed

lemma cutoff_loop_clear: "(\<And>k. k \<in> set ks \<Longrightarrow> RevokedBefore r k = Inr None) \<Longrightarrow> cutoff_loop r issued ks = Inr False"
  by (induction ks) simp_all

lemma AtIssuance_allowed:
  assumes "AtIssuance (Some lk) p st = (Allowed, cutoff, None)" "pr_Kind p = ''user''"
  shows "pr_UserID p \<noteq> []" "admission_ID (Some (lk_PersonMarks lk)) (pr_UserID p) = Inr True"
    "UserRevokedBefore lk (pr_UserID p) = Inr None \<or> UserRevokedBefore lk (pr_UserID p) = Inr (Some cutoff)"
  using assms by (auto simp: AtIssuance_def OwnerAdmission_def split: sum.splits option.splits if_splits prod.splits)

text \<open>
  C12: what issue allows, presentation accepts, and revocation then takes effect. When the rule at
  issue allows a person and the signer signs with the standing cutoff as its bound, the token it
  returns carries claims that the rule at presentation does not find revoked, against stores in
  the same state, when the client keys among its claims have no cutoff and its family is not
  revoked; and as soon as the store has a cutoff of the person not before the instant of issue,
  the rule finds the token revoked, whatever the other answers. Of the JWT library it is assumed
  that a signed token reads back as its claims, and that the issue instant of a positive numeric
  date below 2^53 seconds is this date; the clock of the signer shows such instants.
\<close>

theorem issued_token_accepted_until_revoked:
  assumes "AtIssuance (Some lk) p st = (Allowed, cutoff, None)" and "pr_Kind p = ''user''"
    and "Sign cfg e material req = Inr tok" and "rq_Subject req = pr_UserID p" and "rq_IssuedAfter req = cutoff"
    and "\<forall>meth key hdr c raw. se_sign e meth key hdr c = Some raw \<longrightarrow> read_jwt raw = Some c"
    and "\<forall>c s. c ''iat'' = Some (ClaimNumber s) \<and> 0 < s \<and> s < 2 ^ 53 \<longrightarrow> issuedAt c = Some (s * second)"
    and "\<forall>n t. se_clock e n = Some t \<longrightarrow> second \<le> t \<and> t < 2 ^ 53 * second"
    and "RevokedBefore rd (pr_UserID p) = UserRevokedBefore lk (pr_UserID p)" and "rd_PersonMarks rd = lk_PersonMarks lk"
    and "\<forall>name \<in> set subjectClaims. text_claim (rq_Claims req) name \<noteq> [] \<longrightarrow>
           RevokedBefore rd (text_claim (rq_Claims req) name) = Inr None"
    and "rd_FamilyRevoked rd (se_newID e) = Inr False"
  shows "\<exists>c. read_jwt (tk_Token tok) = Some c \<and> Revoked issuedAt rd c = Inr False
    \<and> (\<forall>rd' t. RevokedBefore rd' (pr_UserID p) = Inr (Some t) \<and> tk_IssuedAt tok \<le> t \<longrightarrow> Revoked issuedAt rd' c = Inr True)"
proof -
  obtain meth key hdr expires where s: "issueMoment e (rq_IssuedAfter req) = Inr (tk_IssuedAt tok)"
      "se_sign e meth key hdr (token_claims cfg req (tk_IssuedAt tok) expires (se_newID e)) = Some (tk_Token tok)"
    using Sign_ok [OF assms(3)] by blast
  let ?c = "token_claims cfg req (tk_IssuedAt tok) expires (se_newID e)"
  obtain n t where t: "se_clock e n = Some t" "tk_IssuedAt tok = truncate_second t" "is_zero_time cutoff \<or> tk_IssuedAt tok > cutoff"
    using issueMoment_ok [OF s(1)] assms(5) by blast
  have b: "second \<le> t" "t < 2 ^ 53 * second" using t(1) assms(8) by blast+
  then have "0 < unix (tk_IssuedAt tok)" "unix (tk_IssuedAt tok) < 2 ^ 53" using unix_bounds by (simp_all add: t(2))
  then have iat: "issuedAt ?c = Some (tk_IssuedAt tok)"
    using assms(7) token_claims_reserved(2) by (metis t(2) truncate_unix)
  have "0 \<le> tk_IssuedAt tok" using b(1) t(2) by (simp add: truncate_second_def second_def minus_mod_eq_mult_div)
  then have later: "tk_IssuedAt tok > cutoff" using t(3) by (auto simp: is_zero_time_def zero_time_def)
  note allowed = AtIssuance_allowed [OF assms(1,2)]
  have sub: "rq_Subject req \<noteq> []" using allowed(1) assms(4) by simp
  note keys = forwardKeys_token [OF sub, of cfg "tk_IssuedAt tok" expires "se_newID e"]
  have "cutoff_loop rd (tk_IssuedAt tok) (filter (\<lambda>v. v \<noteq> []) (map (text_claim (rq_Claims req)) subjectClaims)) = Inr False"
    using assms(11) by (intro cutoff_loop_clear) auto
  then have loop: "cutoff_loop rd (tk_IssuedAt tok) (forwardKeys ?c) = Inr False"
    using allowed(3) assms(4,9) later by (auto simp: keys)
  have ne: "forwardKeys ?c \<noteq> []" by (simp add: keys)
  have texts: "text_claim ?c ''sub'' = pr_UserID p" "text_claim ?c ''jti'' = se_newID e"
    using assms(4) by (simp_all add: text_claim_def token_claims_reserved)
  have fam: "FamilyRevoked rd (se_newID e) = Inr False"
    using assms(12) by (simp add: FamilyRevoked_def)
  have adm: "admission_ID (Some (rd_PersonMarks rd)) (pr_UserID p) = Inr True"
    using allowed(2) assms(10) by simp
  have "Revoked issuedAt rd ?c = Inr False"
    unfolding Revoked_def iat option.case texts by (simp add: ne loop fam adm)
  moreover have "Revoked issuedAt rd' ?c = Inr True"
    if "RevokedBefore rd' (pr_UserID p) = Inr (Some u)" "tk_IssuedAt tok \<le> u" for rd' u
    using that assms(4) by (simp add: Revoked_def iat keys)
  moreover have "read_jwt (tk_Token tok) = Some ?c" using s(2) assms(6) by blast
  ultimately show ?thesis by blast
qed

definition sample_person :: ResolvedPrincipal where
  "sample_person = \<lparr>pr_Kind = ''user'', pr_UserID = ''u1'', StandingCredentialIssuedAt = Some 10\<rparr>"

definition sample_lookup :: "unit Lookup" where
  "sample_lookup = \<lparr>UserRevokedBefore = (\<lambda>_. Inr (Some 5)), lk_PersonMarks = (\<lambda>_. Inr (\<lambda>_. None))\<rparr>"

definition sample_reader :: "unit Reader" where
  "sample_reader = \<lparr>RevokedBefore = (\<lambda>_. Inr (Some 5)), rd_FamilyRevoked = (\<lambda>_. Inr False), rd_PersonMarks = (\<lambda>_. Inr (\<lambda>_. None))\<rparr>"

definition sample_signer :: Signer_config where
  "sample_signer = \<lparr>sg_Issuer = ''iss'', MaxTokenTTL = 60000000000\<rparr>"

definition sample_request :: Request where
  "sample_request = \<lparr>rq_Subject = ''u1'', rq_Audience = [''api''], rq_TokenType = ''at+jwt'', rq_TTL = 30000000000,
     rq_NotAfter = zero_time, rq_IssuedAfter = 5, rq_Confirmation = None, rq_Claims = (\<lambda>_. None)\<rparr>"

definition sample_claims :: claims where
  "sample_claims = token_claims sample_signer sample_request 2000000000 32000000000 ''j''"

definition sample_env :: sign_env where
  "sample_env = \<lparr>se_clock = (\<lambda>_. Some 2000000007), se_done = False, se_newID = ''j'', se_parse = (\<lambda>_ _. Some ''key''),
     se_sign = (\<lambda>_ _ _ c. if c = sample_claims then Some ''raw'' else None)\<rparr>"

definition sample_issued :: "claims \<Rightarrow> instant option" where
  "sample_issued c = (case c ''iat'' of Some (ClaimNumber s) \<Rightarrow> if s > 0 then Some (s * second) else None | _ \<Rightarrow> None)"

definition sample_material :: SigningMaterial where
  "sample_material = \<lparr>mat_KID = ''k'', mat_Algorithm = ''EdDSA'', mat_PrivateKeyPEM = ''pem'', mat_PublicKeyPEM = ''pub''\<rparr>"

definition sample_token :: Token where
  "sample_token = \<lparr>tk_Token = ''raw'', tk_KID = ''k'', tk_JTI = ''j'', tk_IssuedAt = 2000000000, tk_ExpiresAt = 32000000000\<rparr>"

lemmas sample_gate_defs = sample_person_def sample_lookup_def sample_reader_def sample_signer_def sample_request_def
  sample_env_def sample_material_def sample_token_def

lemma sample_Sign: "Sign sample_signer sample_env (Inr sample_material) sample_request = Inr sample_token"
proof -
  have m: "issueMoment sample_env (rq_IssuedAfter sample_request) = Inr 2000000000"
    by (simp add: sample_env_def sample_request_def issueMoment_def readClock_def is_zero_time_def zero_time_def truncate_second_def second_def)
  have x: "expiry sample_request 2000000000 = 32000000000"
    by (simp add: sample_request_def expiry_def is_zero_time_def zero_time_def truncate_second_def second_def)
  have v: "validate_request sample_request (MaxTokenTTL sample_signer) = None"
    by (simp add: sample_request_def sample_signer_def validate_request_def)
  have e: "se_parse sample_env a b = Some ''key''" "se_newID sample_env = ''j''"
      "se_sign sample_env a b h sample_claims = Some ''raw''" for a b h
    by (simp_all add: sample_env_def)
  show ?thesis
    by (simp add: Sign_def m x v signingMethod_def parsePrivateKey_def sample_material_def sample_token_def e
      flip: sample_claims_def)
qed

theorem issued_token_accepted_until_revoked_witness:
  "\<exists>c. Revoked sample_issued sample_reader c = Inr False \<and> Revoked sample_issued (sample_reader\<lparr>RevokedBefore := \<lambda>_. Inr (Some 2000000000)\<rparr>) c = Inr True"
proof -
  have a: "AtIssuance (Some sample_lookup) sample_person zero_time = (Allowed, 5, None)"
    by (simp add: AtIssuance_def OwnerAdmission_def admission_ID_def sample_lookup_def sample_person_def Forbids_def Anchor_def
      is_zero_time_def zero_time_def trim_space_def Let_def)
  have jwt: "\<forall>meth key hdr c raw. se_sign sample_env meth key hdr c = Some raw \<longrightarrow> Some sample_claims = Some c"
    by (simp add: sample_env_def)
  have "\<exists>c. Some sample_claims = Some c \<and> Revoked sample_issued sample_reader c = Inr False
    \<and> (\<forall>rd' t. RevokedBefore rd' (pr_UserID sample_person) = Inr (Some t) \<and> tk_IssuedAt sample_token \<le> t
         \<longrightarrow> Revoked sample_issued (rd' :: unit Reader) c = Inr True)"
    by (rule issued_token_accepted_until_revoked [where read_jwt = "\<lambda>_. Some sample_claims", OF a _ sample_Sign _ _ jwt])
      (simp_all add: sample_gate_defs text_claim_def sample_issued_def second_def)
  then show ?thesis by (auto simp: sample_token_def)
qed

end
