(* ===== verification/Assurance_Levels.thy ===== *)
theory Assurance_Levels
  imports Kaname_Prelude
begin

text \<open>
  The level of assurance of a session: the closed vocabulary of presentations, the ladder of
  rules that yields the level, and the two lists of levels that a set of methods can present at
  best and guarantees at worst.

  Source: \<open>internal/assurance/level.go\<close>.

  A method is its name; only this package builds one, from the vocabulary or as the zero value.
  The map of seen levels is a set: its keys are sorted before they leave the function.
\<close>

subsection \<open>Presentations\<close>

type_synonym Level = string

definition Level1 :: Level where "Level1 = ''1''"
definition Level2 :: Level where "Level2 = ''2''"
definition Level3 :: Level where "Level3 = ''3''"

datatype Method = Method string

definition MethodPassword :: Method where "MethodPassword = Method ''password''"
definition MethodTOTP :: Method where "MethodTOTP = Method ''totp''"
definition MethodLookupSecret :: Method where "MethodLookupSecret = Method ''lookup_secret''"
definition MethodWebAuthn :: Method where "MethodWebAuthn = Method ''webauthn''"
definition MethodRecoveryCode :: Method where "MethodRecoveryCode = Method ''recovery_code''"

lemmas methods = MethodPassword_def MethodTOTP_def MethodLookupSecret_def MethodWebAuthn_def MethodRecoveryCode_def

definition Methods :: "Method list" where
  "Methods = [MethodPassword, MethodTOTP, MethodLookupSecret, MethodWebAuthn, MethodRecoveryCode]"

record Presentation =
  p_method :: Method
  userVerified :: bool
  backupEligible :: bool

definition plain_presentation :: "Method \<Rightarrow> Presentation" where
  "plain_presentation m = \<lparr>p_method = m, userVerified = False, backupEligible = False\<rparr>"

definition KeyAssertion :: "bool \<Rightarrow> bool \<Rightarrow> Presentation" where
  "KeyAssertion verified backup = \<lparr>p_method = MethodWebAuthn, userVerified = verified, backupEligible = backup\<rparr>"

subsection \<open>The ladder\<close>

definition has_method :: "Presentation list \<Rightarrow> Method \<Rightarrow> bool" where
  "has_method ps m \<longleftrightarrow> list_ex (\<lambda>p. p_method p = m) ps"

definition hasDeviceBoundVerifiedKey :: "Presentation list \<Rightarrow> bool" where
  "hasDeviceBoundVerifiedKey ps \<longleftrightarrow> list_ex (\<lambda>p. p_method p = MethodWebAuthn \<and> userVerified p \<and> \<not> backupEligible p) ps"

definition rows :: "(Level \<times> (Presentation list \<Rightarrow> bool)) list" where
  "rows = [(Level3, hasDeviceBoundVerifiedKey),
     (Level2, \<lambda>s. has_method s MethodWebAuthn),
     (Level2, \<lambda>s. has_method s MethodPassword \<and> (has_method s MethodTOTP \<or> has_method s MethodLookupSecret)),
     (Level1, \<lambda>s. has_method s MethodPassword),
     (Level1, \<lambda>s. has_method s MethodRecoveryCode)]"

fun levelOf :: "(Level \<times> (Presentation list \<Rightarrow> bool)) list \<Rightarrow> Presentation list \<Rightarrow> Level option" where
  "levelOf [] ps = None"
| "levelOf (r # rs) ps = (if snd r ps then Some (fst r) else levelOf rs ps)"

definition LevelOf :: "Presentation list \<Rightarrow> Level option" where
  "LevelOf ps = levelOf rows ps"

subsection \<open>The levels of a set of methods\<close>

definition bestPresentation :: "Method \<Rightarrow> Presentation" where
  "bestPresentation m = (if m = MethodWebAuthn then KeyAssertion True False else plain_presentation m)"

definition worstPresentation :: "Method \<Rightarrow> Presentation" where
  "worstPresentation m = (if m = MethodWebAuthn then KeyAssertion False True else plain_presentation m)"

definition chosen :: "Method list \<Rightarrow> nat \<Rightarrow> Method list" where
  \<comment> \<open>\<open>mask & (1 << i) != 0\<close>\<close>
  "chosen known bits = map (\<lambda>i. known ! i) (filter (\<lambda>i. bits div 2 ^ i mod 2 = 1) [0..<length known])"

definition levelsOver :: "Method list \<Rightarrow> (Method \<Rightarrow> Presentation) \<Rightarrow> Level list" where
  "levelsOver wired present =
     (let known = filter (\<lambda>m. m \<in> set wired) Methods;
          found = map (\<lambda>bits. LevelOf (map present (chosen known bits))) [1..<2 ^ length known]
      in sorted_list_of_set (set (concat (map (\<lambda>x. case x of None \<Rightarrow> [] | Some l \<Rightarrow> [l]) found))))"

definition PresentableLevels :: "Method list \<Rightarrow> Level list" where
  "PresentableLevels wired = levelsOver wired bestPresentation"

definition GuaranteedLevels :: "Method list \<Rightarrow> Level list" where
  "GuaranteedLevels enrolled = levelsOver enrolled worstPresentation"

subsection \<open>Lemmas on the ladder\<close>

lemma LevelOf_eq:
  "LevelOf ps = (if hasDeviceBoundVerifiedKey ps then Some Level3
     else if has_method ps MethodWebAuthn \<or> (has_method ps MethodPassword \<and> (has_method ps MethodTOTP \<or> has_method ps MethodLookupSecret)) then Some Level2
     else if has_method ps MethodPassword \<or> has_method ps MethodRecoveryCode then Some Level1
     else None)"
  by (simp add: LevelOf_def rows_def)

lemma level_order [simp]: "Level1 \<le> Level2" "Level2 \<le> Level3" "Level1 \<le> Level3" "\<not> Level2 \<le> Level1" "\<not> Level3 \<le> Level2" "\<not> Level3 \<le> Level1"
  by code_simp+

lemma has_method_mono: "set ps \<subseteq> set qs \<Longrightarrow> has_method ps m \<Longrightarrow> has_method qs m"
  by (auto simp: has_method_def list_ex_iff)

lemma key_mono: "set ps \<subseteq> set qs \<Longrightarrow> hasDeviceBoundVerifiedKey ps \<Longrightarrow> hasDeviceBoundVerifiedKey qs"
  by (auto simp: hasDeviceBoundVerifiedKey_def list_ex_iff)

text \<open>A weakening of the conditions of the rows never lowers the level.\<close>

lemma LevelOf_mono:
  assumes "hasDeviceBoundVerifiedKey ps \<Longrightarrow> hasDeviceBoundVerifiedKey qs"
    and "\<And>m. has_method ps m \<Longrightarrow> has_method qs m" and "LevelOf ps = Some l"
  shows "\<exists>l'. LevelOf qs = Some l' \<and> l \<le> l'"
  using assms(1,3) assms(2) [of MethodWebAuthn] assms(2) [of MethodPassword] assms(2) [of MethodTOTP]
    assms(2) [of MethodLookupSecret] assms(2) [of MethodRecoveryCode]
  unfolding LevelOf_eq by (auto split: if_splits)

lemma verified_key_is_key: "hasDeviceBoundVerifiedKey ps \<Longrightarrow> has_method ps MethodWebAuthn"
  by (auto simp: hasDeviceBoundVerifiedKey_def has_method_def list_ex_iff)

text \<open>Every set of positions is the set bits of one mask.\<close>

lemma bits_exist: "\<exists>bits < (2 ^ n :: nat). \<forall>i < n. (bits div 2 ^ i mod 2 = 1) = P i"
proof (induction n arbitrary: P)
  case (Suc n)
  obtain k :: nat where k: "k < 2 ^ n" "\<forall>i < n. (k div 2 ^ i mod 2 = 1) = P (Suc i)" using Suc [of "\<lambda>i. P (Suc i)"] by blast
  let ?m = "2 * k + (if P 0 then 1 else 0)"
  have "(?m div 2 ^ i mod 2 = 1) = P i" if "i < Suc n" for i
  proof (cases i)
    case (Suc j)
    have "?m div 2 ^ i = k div 2 ^ j" by (simp add: Suc div_mult2_eq)
    then show ?thesis using k(2) that Suc by simp
  qed simp
  moreover have "?m < 2 ^ Suc n" using k(1) by simp
  ultimately show ?case by blast
qed simp

lemma chosen_subset: "set (chosen known bits) \<subseteq> set known"
  by (auto simp: chosen_def)

lemma chosen_all:
  assumes "M \<subseteq> set known"
  shows "\<exists>bits < 2 ^ length known. set (chosen known bits) = M"
proof -
  obtain bits :: nat where less: "bits < 2 ^ length known" "\<forall>i < length known. (bits div 2 ^ i mod 2 = 1) = (known ! i \<in> M)"
    using bits_exist [of "length known" "\<lambda>i. known ! i \<in> M"] by blast
  moreover have "set (chosen known bits) = {known ! i | i. i < length known \<and> bits div 2 ^ i mod 2 = 1}"
    by (auto simp: chosen_def)
  ultimately have "set (chosen known bits) = {known ! i | i. i < length known \<and> known ! i \<in> M}" by auto
  also have "\<dots> = M" using assms by (auto simp: in_set_conv_nth subset_iff)
  finally have "set (chosen known bits) = M" .
  then show ?thesis using less by blast
qed

lemma LevelOf_cong: "set ps = set qs \<Longrightarrow> LevelOf ps = LevelOf qs"
proof -
  assume "set ps = set qs"
  then have "has_method ps = has_method qs" "hasDeviceBoundVerifiedKey ps = hasDeviceBoundVerifiedKey qs"
    by (simp_all add: has_method_def hasDeviceBoundVerifiedKey_def list_ex_iff fun_eq_iff)
  then show ?thesis by (simp only: LevelOf_eq)
qed

lemma LevelOf_Nil [simp]: "LevelOf [] = None"
  by (simp add: LevelOf_eq has_method_def hasDeviceBoundVerifiedKey_def)

lemma set_levelsOver:
  "set (levelsOver wired present) = {l. \<exists>ms. set ms \<subseteq> set wired \<inter> set Methods \<and> LevelOf (map present ms) = Some l}"
proof -
  let ?known = "filter (\<lambda>m. m \<in> set wired) Methods"
  have "set (levelsOver wired present) = {l. \<exists>bits. 1 \<le> bits \<and> bits < 2 ^ length ?known \<and> LevelOf (map present (chosen ?known bits)) = Some l}"
  proof -
    have "set (levelsOver wired present) = {l. Some l \<in> set (map (\<lambda>bits. LevelOf (map present (chosen ?known bits))) [1..<2 ^ length ?known])}"
      unfolding levelsOver_def Let_def set_sorted_list_of_set [OF finite_set] by (force split: option.splits)
    then show ?thesis by (force simp: image_iff)
  qed
  also have "\<dots> = {l. \<exists>ms. set ms \<subseteq> set ?known \<and> LevelOf (map present ms) = Some l}"
  proof (intro Collect_cong iffI)
    fix l assume "\<exists>ms. set ms \<subseteq> set ?known \<and> LevelOf (map present ms) = Some l"
    then obtain ms where ms: "set ms \<subseteq> set ?known" "LevelOf (map present ms) = Some l" by blast
    obtain bits where bits: "bits < 2 ^ length ?known" "set (chosen ?known bits) = set ms" using chosen_all [OF ms(1)] by blast
    have "LevelOf (map present (chosen ?known bits)) = Some l"
      using ms(2) LevelOf_cong [of "map present (chosen ?known bits)" "map present ms"] bits(2) by simp
    moreover from this have "bits \<noteq> 0" by (intro notI) (simp add: chosen_def)
    ultimately show "\<exists>bits. 1 \<le> bits \<and> bits < 2 ^ length ?known \<and> LevelOf (map present (chosen ?known bits)) = Some l"
      using bits(1) by (intro exI [of _ bits]) simp
  next
    fix l assume "\<exists>bits. 1 \<le> bits \<and> bits < 2 ^ length ?known \<and> LevelOf (map present (chosen ?known bits)) = Some l"
    then show "\<exists>ms. set ms \<subseteq> set ?known \<and> LevelOf (map present ms) = Some l" using chosen_subset by blast
  qed
  finally show ?thesis by auto
qed

lemma best_worst_method [simp]: "p_method (bestPresentation m) = m" "p_method (worstPresentation m) = m"
  by (simp_all add: bestPresentation_def worstPresentation_def KeyAssertion_def plain_presentation_def)

lemma rows_use_vocabulary:
  assumes "hasDeviceBoundVerifiedKey ps \<Longrightarrow> hasDeviceBoundVerifiedKey qs"
    and "\<And>m. m \<in> set Methods \<Longrightarrow> has_method ps m \<Longrightarrow> has_method qs m" and "LevelOf ps = Some l"
  shows "\<exists>l'. LevelOf qs = Some l' \<and> l \<le> l'"
  using assms(1,3) assms(2) [of MethodWebAuthn] assms(2) [of MethodPassword] assms(2) [of MethodTOTP]
    assms(2) [of MethodLookupSecret] assms(2) [of MethodRecoveryCode]
  unfolding LevelOf_eq by (auto simp: Methods_def split: if_splits)

text \<open>
  C24: a session is bracketed by what its methods guarantee and what they can present. Adding a
  presentation never lowers the level. When every method of a set was presented, whatever flags
  the keys reported and whatever else was presented, the session has at least every level the
  set guarantees; and a session that presented only methods of a set has at most the highest
  level that the set can present. Both lists are sorted and without repetition.
\<close>

theorem levels_bracket:
  shows "(LevelOf ps = Some l \<longrightarrow> (\<exists>l'. LevelOf (ps @ qs) = Some l' \<and> l \<le> l'))
    \<and> (set ms \<inter> set Methods \<subseteq> p_method ` set ps \<and> g \<in> set (GuaranteedLevels ms) \<longrightarrow> (\<exists>l'. LevelOf ps = Some l' \<and> g \<le> l'))
    \<and> (p_method ` set ps \<subseteq> set ms \<and> LevelOf ps = Some l \<longrightarrow> (\<exists>l' \<in> set (PresentableLevels ms). l \<le> l'))
    \<and> sorted (GuaranteedLevels ms) \<and> distinct (GuaranteedLevels ms)
    \<and> sorted (PresentableLevels ms) \<and> distinct (PresentableLevels ms)"
proof (intro conjI impI)
  show "\<exists>l'. LevelOf (ps @ qs) = Some l' \<and> l \<le> l'" if "LevelOf ps = Some l"
    using has_method_mono [of ps "ps @ qs"] key_mono [of ps "ps @ qs"] that by (intro LevelOf_mono [of ps "ps @ qs"]) auto
  show "\<exists>l'. LevelOf ps = Some l' \<and> g \<le> l'" if as: "set ms \<inter> set Methods \<subseteq> p_method ` set ps \<and> g \<in> set (GuaranteedLevels ms)"
  proof -
    obtain ns where ns: "set ns \<subseteq> set ms \<inter> set Methods" "LevelOf (map worstPresentation ns) = Some g"
      using as unfolding GuaranteedLevels_def set_levelsOver by blast
    have "\<not> hasDeviceBoundVerifiedKey (map worstPresentation ns)"
      by (auto simp: hasDeviceBoundVerifiedKey_def list_ex_iff worstPresentation_def KeyAssertion_def plain_presentation_def)
    moreover have "has_method ps m" if "has_method (map worstPresentation ns) m" for m
    proof -
      have "m \<in> set ns" using that by (auto simp: has_method_def list_ex_iff)
      then show ?thesis using ns(1) as by (auto simp: has_method_def list_ex_iff)
    qed
    ultimately show ?thesis using LevelOf_mono [of "map worstPresentation ns" ps g] ns(2) by blast
  qed
  show "\<exists>l' \<in> set (PresentableLevels ms). l \<le> l'" if as: "p_method ` set ps \<subseteq> set ms \<and> LevelOf ps = Some l"
  proof -
    let ?ns = "filter (\<lambda>m. m \<in> set Methods) (map p_method ps)"
    have "hasDeviceBoundVerifiedKey (map bestPresentation ?ns)" if "hasDeviceBoundVerifiedKey ps"
    proof -
      have "MethodWebAuthn \<in> p_method ` set ps"
        using that by (auto simp: hasDeviceBoundVerifiedKey_def list_ex_iff intro: rev_image_eqI)
      then have "bestPresentation MethodWebAuthn \<in> set (map bestPresentation ?ns)" by (auto simp: Methods_def)
      then show ?thesis unfolding hasDeviceBoundVerifiedKey_def list_ex_iff
        by (rule bexI [rotated]) (simp add: bestPresentation_def KeyAssertion_def)
    qed
    moreover have "has_method (map bestPresentation ?ns) m" if "m \<in> set Methods" "has_method ps m" for m
      using that by (auto simp: has_method_def list_ex_iff)
    ultimately obtain l' where l': "LevelOf (map bestPresentation ?ns) = Some l'" "l \<le> l'"
      using rows_use_vocabulary [of ps "map bestPresentation ?ns" l] as by blast
    have "set ?ns \<subseteq> set ms \<inter> set Methods" using as by auto
    then show ?thesis using l' unfolding PresentableLevels_def set_levelsOver by blast
  qed
qed (simp_all add: GuaranteedLevels_def PresentableLevels_def levelsOver_def Let_def)

theorem levels_bracket_witness:
  "LevelOf [plain_presentation MethodPassword, KeyAssertion False True] = Some Level2
    \<and> GuaranteedLevels [MethodWebAuthn] = [Level2] \<and> PresentableLevels [MethodWebAuthn] = [Level3]
    \<and> (\<exists>l'. LevelOf ([plain_presentation MethodPassword, KeyAssertion False True] @ [KeyAssertion True False]) = Some l' \<and> Level2 \<le> l')"
proof -
  have "LevelOf [plain_presentation MethodPassword, KeyAssertion False True] = Some Level2" by code_simp
  moreover have "GuaranteedLevels [MethodWebAuthn] = [Level2]" by code_simp
  moreover have "PresentableLevels [MethodWebAuthn] = [Level3]" by code_simp
  moreover note levels_bracket [of "[plain_presentation MethodPassword, KeyAssertion False True]" Level2 "[KeyAssertion True False]"]
  ultimately show ?thesis by blast
qed

end
