(* ===== verification/Login_Verifiers.thy ===== *)
theory Login_Verifiers
  imports Assurance_Levels "HOL-Library.Word"
begin

text \<open>
  The material of login methods and its verification: wrapping of secrets, one-time codes by
  time, hashed passwords, and sets of backup codes.

  Sources: \<open>internal/keywrap/keywrap.go\<close>, \<open>internal/totpverify/verifier.go\<close>,
  \<open>internal/domain/password_hash_format.go\<close>, and \<open>verifier.go\<close>, \<open>hasher.go\<close>, \<open>declared.go\<close>,
  \<open>outcome.go\<close> of \<open>internal/passwordverify\<close>.

  Bytes are characters. The ciphers and digests are parameters: AES-GCM is the record \<open>Aead\<close>,
  HMAC-SHA1 is \<open>mac\<close>, bcrypt and Argon2id are the record \<open>Kdf\<close>; randomness is an argument. The
  decoy computations, which level the time of an answer, return nothing and are left out, as are
  the observers. A \<open>LoginVerifier\<close> is its material, the empty string is the zero value. The letters
  of a backup code are put to upper case as those of ASCII: the minting of a set and
  \<open>second_factor.go\<close>, before it presents a code, ask \<open>IsWellFormedBackupCode\<close>, which admits only
  letters and digits of ASCII; of other presented codes the model says nothing.
\<close>

unbundle bit_operations_syntax

named_theorems login_simps

type_synonym bytes = string

subsection \<open>Numbers and base64 of the library\<close>

definition digit_char :: "nat \<Rightarrow> char" where
  "digit_char n = char_of (48 + n mod 10)"

fun decimal :: "nat \<Rightarrow> string" where
  \<comment> \<open>the verb \<open>%d\<close>\<close>
  "decimal n = (if n < 10 then [digit_char n] else decimal (n div 10) @ [digit_char n])"

declare decimal.simps [simp del]

definition padded :: "nat \<Rightarrow> nat \<Rightarrow> string" where
  \<comment> \<open>the verb \<open>%0*d\<close> of a number with at most \<open>w\<close> digits\<close>
  "padded w n = map (\<lambda>i. digit_char (n div 10 ^ i)) (rev [0..<w])"

definition digits_value :: "string \<Rightarrow> nat" where
  "digits_value s = foldl (\<lambda>n c. 10 * n + (byte c - 48)) 0 s"

definition ParseUint32 :: "string \<Rightarrow> nat option" where
  \<comment> \<open>\<open>strconv.ParseUint(s, 10, 32)\<close>\<close>
  "ParseUint32 s =
     (if s = [] \<or> \<not> list_all is_digit s \<or> digits_value s \<ge> 2 ^ 32 then None else Some (digits_value s))"

definition b64_alphabet :: string where
  "b64_alphabet = ''ABCDEFGHIJKLMNOPQRSTUVWXYZabcdefghijklmnopqrstuvwxyz0123456789+/''"

fun b64_split :: "nat list \<Rightarrow> nat list" where
  "b64_split [] = []"
| "b64_split [a] = [a div 4, a mod 4 * 16]"
| "b64_split [a, b] = [a div 4, a mod 4 * 16 + b div 16, b mod 16 * 4]"
| "b64_split (a # b # c # r) = [a div 4, a mod 4 * 16 + b div 16, b mod 16 * 4 + c div 64, c mod 64] @ b64_split r"

fun b64_merge :: "nat list \<Rightarrow> nat list option" where
  "b64_merge [] = Some []"
| "b64_merge [x] = None"
| "b64_merge [x, y] = Some [x * 4 + y div 16]"
| "b64_merge [x, y, z] = Some [x * 4 + y div 16, y mod 16 * 16 + z div 4]"
| "b64_merge (x # y # z # w # r) =
     map_option (\<lambda>bs. [x * 4 + y div 16, y mod 16 * 16 + z div 4, z mod 4 * 64 + w] @ bs) (b64_merge r)"

definition b64_encode :: "bytes \<Rightarrow> string" where
  \<comment> \<open>\<open>base64.RawStdEncoding.EncodeToString\<close>\<close>
  "b64_encode s = map (\<lambda>d. b64_alphabet ! d) (b64_split (map byte s))"

fun index_from :: "nat \<Rightarrow> 'a list \<Rightarrow> 'a \<Rightarrow> nat option" where
  "index_from i [] x = None"
| "index_from i (y # ys) x = (if x = y then Some i else index_from (Suc i) ys x)"

definition b64_digit :: "char \<Rightarrow> nat option" where
  "b64_digit c = index_from 0 b64_alphabet c"

definition b64_decode :: "string \<Rightarrow> bytes option" where
  \<comment> \<open>\<open>base64.RawStdEncoding.DecodeString\<close>: line ends are skipped, trailing bits are not checked\<close>
  "b64_decode s =
     (let cs = filter (\<lambda>c. byte c \<noteq> 10 \<and> byte c \<noteq> 13) s in
      if list_ex (\<lambda>c. b64_digit c = None) cs then None
      else map_option (map char_of) (b64_merge (map (\<lambda>c. the (b64_digit c)) cs)))"

subsection \<open>Wrapping of secrets\<close>

record Aead =
  aead_seal :: "bytes \<Rightarrow> bytes \<Rightarrow> bytes \<Rightarrow> bytes" \<comment> \<open>key, nonce, plain text\<close>
  aead_open :: "bytes \<Rightarrow> bytes \<Rightarrow> bytes \<Rightarrow> bytes option"

definition KeySize :: nat where "KeySize = 32"
definition NonceSize :: nat where "NonceSize = 12"

datatype wrap_error =
    NoWrappingKey
  | WrappingKeySize nat nat nat \<comment> \<open>position, count, size\<close>
  | NothingToWrap
  | NonceUnavailable
  | ErrNotWrapped
  | ErrUnwrap

record Wrapper =
  wr_wrap :: bytes
  wr_open :: "bytes list"

fun key_size_fault :: "nat \<Rightarrow> nat \<Rightarrow> bytes list \<Rightarrow> wrap_error option" where
  "key_size_fault i n [] = None"
| "key_size_fault i n (k # ks) =
     (if length k \<noteq> KeySize then Some (WrappingKeySize (i + 1) n (length k)) else key_size_fault (i + 1) n ks)"

definition NewWrapper :: "bytes list \<Rightarrow> (wrap_error, Wrapper) result" where
  "NewWrapper keys =
     (if keys = [] then Inl NoWrappingKey
      else (case key_size_fault 0 (length keys) keys of
              Some err \<Rightarrow> Inl err
            | None \<Rightarrow> Inr \<lparr>wr_wrap = hd keys, wr_open = keys\<rparr>))"

definition KeyCount :: "Wrapper \<Rightarrow> nat" where
  "KeyCount w = length (wr_open w)"

definition Wrap :: "Aead \<Rightarrow> Wrapper \<Rightarrow> bytes option \<Rightarrow> bytes \<Rightarrow> (wrap_error, bytes) result" where
  \<comment> \<open>the nonce is drawn by the caller of the model, \<open>None\<close> when the source fails\<close>
  "Wrap A w nonce plain =
     (if plain = [] then Inl NothingToWrap
      else (case nonce of None \<Rightarrow> Inl NonceUnavailable | Some n \<Rightarrow> Inr (n @ aead_seal A (wr_wrap w) n plain)))"

fun open_any :: "Aead \<Rightarrow> bytes list \<Rightarrow> bytes \<Rightarrow> bytes \<Rightarrow> bytes option" where
  "open_any A [] n ct = None"
| "open_any A (k # ks) n ct = (case aead_open A k n ct of Some plain \<Rightarrow> Some plain | None \<Rightarrow> open_any A ks n ct)"

definition Unwrap :: "Aead \<Rightarrow> Wrapper \<Rightarrow> bytes \<Rightarrow> (wrap_error, bytes) result" where
  "Unwrap A w wrapped =
     (if length wrapped \<le> NonceSize then Inl ErrNotWrapped
      else (case open_any A (wr_open w) (take NonceSize wrapped) (drop NonceSize wrapped) of
              None \<Rightarrow> Inl ErrUnwrap
            | Some plain \<Rightarrow> Inr plain))"

definition Rewrap :: "Aead \<Rightarrow> Wrapper \<Rightarrow> bytes option \<Rightarrow> bytes \<Rightarrow> (wrap_error, bytes option) result" where
  \<comment> \<open>\<open>Inr None\<close>: already under the first key\<close>
  "Rewrap A w nonce wrapped =
     (if length wrapped \<le> NonceSize then Inl ErrNotWrapped
      else let n = take NonceSize wrapped; ct = drop NonceSize wrapped in
           (case aead_open A (wr_wrap w) n ct of
              Some _ \<Rightarrow> Inr None
            | None \<Rightarrow>
                (case open_any A (tl (wr_open w)) n ct of
                   None \<Rightarrow> Inl ErrUnwrap
                 | Some plain \<Rightarrow> (case Wrap A w nonce plain of Inl err \<Rightarrow> Inl err | Inr out \<Rightarrow> Inr (Some out)))))"

subsection \<open>One-time codes by time\<close>

type_synonym LoginVerifier = string

definition SecretBytes :: nat where "SecretBytes = 20"
definition Digits :: nat where "Digits = 6"
definition Period :: duration where "Period = 30 * 1000000000"
definition Skew :: int where "Skew = 1"
definition digitsModulus :: nat where "digitsModulus = 1000000"

definition quot :: "int \<Rightarrow> int \<Rightarrow> int" where
  \<comment> \<open>the division of the language truncates towards zero\<close>
  "quot a b = (if a < 0 then - ((- a) div b) else a div b)"

definition StepAt :: "instant \<Rightarrow> int" where
  "StepAt at = quot (at div 1000000000) (Period div 1000000000)"

definition IsWellFormedCode :: "string \<Rightarrow> bool" where
  "IsWellFormedCode code \<longleftrightarrow> length code = Digits \<and> list_all is_digit code"

definition big_endian8 :: "nat \<Rightarrow> bytes" where
  "big_endian8 n = map (\<lambda>i. char_of (n div 256 ^ i mod 256)) (rev [0..<8])"

definition hotp :: "(bytes \<Rightarrow> bytes \<Rightarrow> bytes) \<Rightarrow> bytes \<Rightarrow> int \<Rightarrow> string" where
  "hotp mac secret step =
     (let sum = mac secret (big_endian8 (nat step));
          off = byte (last sum) mod 16;
          at = (\<lambda>i. word_of_nat (byte (sum ! i)) :: 32 word);
          bin = push_bit 24 (at off AND 127) OR push_bit 16 (at (off + 1)) OR push_bit 8 (at (off + 2)) OR at (off + 3)
      in padded Digits (unat bin mod digitsModulus))"

datatype totp_outcome = TotpMatched | TotpMismatched | TotpReplayed | TotpMaterialMissing | TotpMaterialUnreadable

record TotpResult =
  tr_Outcome :: totp_outcome
  tr_Step :: int

type_synonym LastAccepted = "int option"

definition matchWindow :: "(bytes \<Rightarrow> bytes \<Rightarrow> bytes) \<Rightarrow> bytes \<Rightarrow> string \<Rightarrow> instant \<Rightarrow> int option" where
  \<comment> \<open>every step of the window is compared, the last match stays\<close>
  "matchWindow mac secret code at =
     (let code = (if IsWellFormedCode code then code else ''------'') in
      foldl (\<lambda>found d. let step = StepAt at + d in
               if step < 0 then found
               else if hotp mac secret step = code then Some step
               else found) None [- Skew..Skew])"

definition totp_Verify ::
  "Aead \<Rightarrow> (bytes \<Rightarrow> bytes \<Rightarrow> bytes) \<Rightarrow> Wrapper \<Rightarrow> LoginVerifier \<Rightarrow> LastAccepted \<Rightarrow> string \<Rightarrow> instant \<Rightarrow> TotpResult" where
  "totp_Verify A mac w stored prev code at =
     (if stored = [] then \<lparr>tr_Outcome = TotpMaterialMissing, tr_Step = 0\<rparr>
      else case b64_decode stored of
        None \<Rightarrow> \<lparr>tr_Outcome = TotpMaterialUnreadable, tr_Step = 0\<rparr>
      | Some raw \<Rightarrow>
          (case Unwrap A w raw of
             Inl _ \<Rightarrow> \<lparr>tr_Outcome = TotpMaterialUnreadable, tr_Step = 0\<rparr>
           | Inr secret \<Rightarrow>
               (case matchWindow mac secret code at of
                  None \<Rightarrow> \<lparr>tr_Outcome = TotpMismatched, tr_Step = 0\<rparr>
                | Some step \<Rightarrow>
                    (case prev of
                       Some l \<Rightarrow> if step \<le> l then \<lparr>tr_Outcome = TotpReplayed, tr_Step = step\<rparr>
                                 else \<lparr>tr_Outcome = TotpMatched, tr_Step = step\<rparr>
                     | None \<Rightarrow> \<lparr>tr_Outcome = TotpMatched, tr_Step = step\<rparr>))))"

definition totp_Wrap :: "Aead \<Rightarrow> Wrapper \<Rightarrow> bytes option \<Rightarrow> bytes \<Rightarrow> (wrap_error, LoginVerifier) result" where
  "totp_Wrap A w nonce secret =
     (if secret = [] then Inl NothingToWrap
      else (case Wrap A w nonce secret of Inl err \<Rightarrow> Inl err | Inr wrapped \<Rightarrow> Inr (b64_encode wrapped)))"

datatype rewrap_outcome = SecretUnreadable | RewrapFailed wrap_error | NothingToRewrap | AlreadyFirst | Moved LoginVerifier

definition totp_Rewrap :: "Aead \<Rightarrow> Wrapper \<Rightarrow> bytes option \<Rightarrow> LoginVerifier \<Rightarrow> rewrap_outcome" where
  "totp_Rewrap A w nonce stored =
     (if stored = [] then NothingToRewrap
      else case b64_decode stored of
        None \<Rightarrow> SecretUnreadable
      | Some raw \<Rightarrow>
          (case Rewrap A w nonce raw of
             Inl err \<Rightarrow> if err = ErrUnwrap \<or> err = ErrNotWrapped then SecretUnreadable else RewrapFailed err
           | Inr None \<Rightarrow> AlreadyFirst
           | Inr (Some moved) \<Rightarrow> Moved (b64_encode moved)))"

subsection \<open>Base64 is read back\<close>

lemma b64_split_bound: "list_all (\<lambda>b. b < 256) bs \<Longrightarrow> list_all (\<lambda>d. d < 64) (b64_split bs)"
  by (induction bs rule: b64_split.induct) auto

lemma sixteenths: "(b :: nat) < 256 \<Longrightarrow> b div 16 div 16 = 0 \<and> b div 16 mod 16 * 16 + b mod 16 = b"
proof -
  assume "b < 256"
  then have "b div 16 < 16" by (simp add: div_less_iff_less_mult)
  then show ?thesis by simp
qed

lemma b64_merge_split: "list_all (\<lambda>b. b < 256) bs \<Longrightarrow> b64_merge (b64_split bs) = Some bs"
proof (induction bs rule: b64_split.induct)
  case (4 a b c r)
  then have "b64_merge (b64_split r) = Some r" by simp
  moreover have "a div 4 * 4 + (a mod 4 * 16 + b div 16) div 16 = a" using 4(2) by (simp add: div_mult2_eq [symmetric])
  moreover have "(a mod 4 * 16 + b div 16) mod 16 * 16 + (b mod 16 * 4 + c div 64) div 4 = b"
  proof -
    have "b div 16 < 16" "c div 64 div 4 = 0" using 4(2) by (auto simp: div_mult2_eq [symmetric])
    then show ?thesis by simp
  qed
  moreover have "(b mod 16 * 4 + c div 64) mod 4 * 64 + c mod 64 = c"
  proof -
    have "c div 64 < 4" using 4(2) by auto
    then show ?thesis by simp
  qed
  ultimately show ?case by simp
qed (simp_all add: sixteenths)

lemma index_from_nth: "distinct xs \<Longrightarrow> k < length xs \<Longrightarrow> index_from i xs (xs ! k) = Some (i + k)"
proof (induction xs arbitrary: i k)
  case (Cons x xs)
  then show ?case by (cases k) (auto simp: nth_mem)
qed simp

lemma b64_alphabet_ok: "distinct b64_alphabet" "length b64_alphabet = 64" "list_all (\<lambda>c. byte c \<noteq> 10 \<and> byte c \<noteq> 13) b64_alphabet"
  by (simp_all add: b64_alphabet_def byte_def)

lemma b64_digit_nth [simp]: "d < 64 \<Longrightarrow> b64_digit (b64_alphabet ! d) = Some d"
  by (simp add: b64_digit_def index_from_nth b64_alphabet_ok)

lemma b64_decode_encode [simp]: "b64_decode (b64_encode s) = Some s"
proof -
  have small: "list_all (\<lambda>b. b < 256) (map byte s)" by (simp add: list_all_iff byte_def)
  have ds: "d < 64" if "d \<in> set (b64_split (map byte s))" for d
    using b64_split_bound [OF small] that by (simp add: list_all_iff)
  have skip: "filter (\<lambda>c. byte c \<noteq> 10 \<and> byte c \<noteq> 13) (b64_encode s) = b64_encode s"
    unfolding filter_id_conv b64_encode_def using b64_alphabet_ok(2,3) ds by (auto simp: list_all_iff dest: nth_mem)
  have digits: "map (\<lambda>c. the (b64_digit c)) (b64_encode s) = b64_split (map byte s)"
    unfolding b64_encode_def by (simp add: ds cong: map_cong)
  have known: "\<not> list_ex (\<lambda>c. b64_digit c = None) (b64_encode s)"
    unfolding b64_encode_def using ds by (auto simp: list_ex_iff)
  have "map char_of (map byte s) = s" by (simp add: byte_def comp_def)
  then show ?thesis using skip digits known b64_merge_split [OF small] by (simp add: b64_decode_def)
qed

lemma b64_encode_Nil [simp]: "b64_encode s = [] \<longleftrightarrow> s = []"
  by (cases s rule: remdups_adj.cases) (auto simp: b64_encode_def elim: b64_split.elims)

lemma b64_encode_chars: "c \<in> set (b64_encode s) \<Longrightarrow> c \<in> set b64_alphabet"
proof -
  assume "c \<in> set (b64_encode s)"
  then obtain d where d: "d \<in> set (b64_split (map byte s))" "c = b64_alphabet ! d" by (auto simp: b64_encode_def)
  have "list_all (\<lambda>b. b < 256) (map byte s)" by (simp add: list_all_iff byte_def)
  then have "d < 64" using b64_split_bound d(1) unfolding list_all_iff by blast
  then show ?thesis using d(2) b64_alphabet_ok(2) by (metis nth_mem)
qed

subsection \<open>A wrapped secret under its keys\<close>

definition aead_laws :: "Aead \<Rightarrow> bool" where
  \<comment> \<open>an authenticated cipher opens what it sealed, and under no other key\<close>
  "aead_laws A \<longleftrightarrow> (\<forall>k n p. length k = KeySize \<and> length n = NonceSize \<longrightarrow>
     aead_open A k n (aead_seal A k n p) = Some p \<and> (\<forall>k'. length k' = KeySize \<and> k' \<noteq> k \<longrightarrow> aead_open A k' n (aead_seal A k n p) = None)
     \<and> aead_seal A k n p \<noteq> [])"

lemma key_size_fault_None: "key_size_fault i n ks = None \<longleftrightarrow> (\<forall>k \<in> set ks. length k = KeySize)"
  by (induction ks arbitrary: i) auto

lemma NewWrapperD:
  assumes "NewWrapper keys = Inr w"
  shows "keys \<noteq> []" "wr_wrap w = hd keys" "wr_open w = keys" "k \<in> set keys \<Longrightarrow> length k = KeySize"
  using assms by (auto simp: NewWrapper_def key_size_fault_None split: if_splits option.splits)

lemma open_any_sealed:
  assumes "aead_laws A" "length k = KeySize" "length n = NonceSize" "\<And>k'. k' \<in> set ks \<Longrightarrow> length k' = KeySize"
  shows "open_any A ks n (aead_seal A k n p) = (if k \<in> set ks then Some p else None)"
  using assms(4)
proof (induction ks)
  case (Cons k' ks)
  have "aead_open A k' n (aead_seal A k n p) = (if k' = k then Some p else None)"
    using assms(1-3) Cons.prems [of k'] unfolding aead_laws_def by simp
  then show ?case using Cons by auto
qed simp

lemma Wrap_shape:
  assumes "Wrap A w nonce plain = Inr wrapped"
  obtains n where "nonce = Some n" "wrapped = n @ aead_seal A (wr_wrap w) n plain" "plain \<noteq> []"
  using assms by (auto simp: Wrap_def split: if_splits option.splits)

lemma Unwrap_sealed:
  assumes "aead_laws A" "NewWrapper keys = Inr w" "length k = KeySize" "length n = NonceSize"
  shows "Unwrap A w (n @ aead_seal A k n p) = (if k \<in> set keys then Inr p else Inl ErrUnwrap)"
proof -
  have "aead_seal A k n p \<noteq> []" using assms(1,3,4) by (simp add: aead_laws_def)
  then show ?thesis
    using assms NewWrapperD [OF assms(2)] by (simp add: Unwrap_def open_any_sealed)
qed

text \<open>
  Rewrapping moves a secret and never loses it. A secret wrapped by one list of keys is
  opened by every list that still names its key; passing it through the rewrapping under such a
  list reports that it is already under the first key exactly when it is, and otherwise yields a
  value that the first key alone opens to the same secret, so every other key can be withdrawn
  from the list. The only failure is that of the source of nonces.
\<close>

theorem Rewrap_moves_secrets:
  assumes "aead_laws A" and "NewWrapper keys = Inr w" and "NewWrapper keys' = Inr w'" and "NewWrapper [hd keys'] = Inr first"
    and "Wrap A w (Some n) secret = Inr wrapped" and "length n = NonceSize" and "hd keys \<in> set keys'"
    and "\<And>n'. nonce = Some n' \<Longrightarrow> length n' = NonceSize"
  shows "Unwrap A w' wrapped = Inr secret
    \<and> (case Rewrap A w' nonce wrapped of
         Inr None \<Rightarrow> hd keys' = hd keys
       | Inr (Some moved) \<Rightarrow> hd keys' \<noteq> hd keys \<and> Unwrap A first moved = Inr secret
       | Inl err \<Rightarrow> hd keys' \<noteq> hd keys \<and> nonce = None \<and> err = NonceUnavailable)"
proof -
  note w = NewWrapperD [OF assms(2)] and w' = NewWrapperD [OF assms(3)]
  have wrapped: "wrapped = n @ aead_seal A (hd keys) n secret" "secret \<noteq> []"
    using assms(5) w(2) by (auto elim: Wrap_shape)
  have k: "length (hd keys) = KeySize" using w(1,4) by simp
  have k': "length (hd keys') = KeySize" using w'(1,4) by simp
  have ct: "aead_seal A (hd keys) n secret \<noteq> []" using assms(1,6) k by (simp add: aead_laws_def)
  have un: "Unwrap A w' wrapped = Inr secret" using Unwrap_sealed [OF assms(1,3) k assms(6)] assms(7) wrapped(1) by simp
  show ?thesis
  proof (cases "hd keys' = hd keys")
    case True
    then have "aead_open A (wr_wrap w') n (aead_seal A (hd keys) n secret) = Some secret"
      using assms(1,6) k w'(2) by (simp add: aead_laws_def)
    then show ?thesis using un True wrapped(1) assms(6) ct by (simp add: Rewrap_def)
  next
    case False
    then have no: "aead_open A (wr_wrap w') n (aead_seal A (hd keys) n secret) = None"
      using assms(1,6) k k' w'(2) by (simp add: aead_laws_def)
    have "hd keys \<in> set (tl keys')" using assms(7) False by (cases keys') auto
    moreover have "length x = KeySize" if "x \<in> set (tl keys')" for x using w'(4) that by (meson list.set_sel(2) w'(1))
    ultimately have yes: "open_any A (tl (wr_open w')) n (aead_seal A (hd keys) n secret) = Some secret"
      using open_any_sealed [OF assms(1) k assms(6), of "tl keys'"] w'(3) by simp
    have r: "Rewrap A w' nonce wrapped = (case Wrap A w' nonce secret of Inl err \<Rightarrow> Inl err | Inr out \<Rightarrow> Inr (Some out))"
      using no yes wrapped(1) assms(6) ct by (simp add: Rewrap_def)
    show ?thesis
    proof (cases nonce)
      case None
      then show ?thesis using un r False wrapped(2) by (simp add: Wrap_def)
    next
      case (Some n')
      have "Unwrap A first (n' @ aead_seal A (hd keys') n' secret) = Inr secret"
        using Unwrap_sealed [OF assms(1,4) k' assms(8) [OF Some]] by simp
      then show ?thesis using un r False wrapped(2) Some w'(2) by (simp add: Wrap_def)
    qed
  qed
qed

definition sample_cipher :: Aead where
  \<comment> \<open>a cipher in which the key stands in front\<close>
  "sample_cipher = \<lparr>aead_seal = (\<lambda>k n p. k @ n @ p),
     aead_open = (\<lambda>k n c. if take (length k + length n) c = k @ n then Some (drop (length k + length n) c) else None)\<rparr>"

lemma sample_cipher_laws: "aead_laws sample_cipher"
  by (auto simp: aead_laws_def sample_cipher_def KeySize_def NonceSize_def)

lemma Rewrap_moves_secrets_witness:
  "Unwrap sample_cipher \<lparr>wr_wrap = replicate 32 CHR ''b'', wr_open = [replicate 32 CHR ''b'', replicate 32 CHR ''a'']\<rparr>
     (replicate 12 CHR ''n'' @ aead_seal sample_cipher (replicate 32 CHR ''a'') (replicate 12 CHR ''n'') ''secret'') = Inr ''secret''"
proof -
  let ?a = "replicate 32 CHR ''a''" and ?b = "replicate 32 CHR ''b''" and ?n = "replicate 12 CHR ''n''"
  have "NewWrapper [?a] = Inr \<lparr>wr_wrap = ?a, wr_open = [?a]\<rparr>" "NewWrapper [?b, ?a] = Inr \<lparr>wr_wrap = ?b, wr_open = [?b, ?a]\<rparr>"
    "NewWrapper [hd [?b, ?a]] = Inr \<lparr>wr_wrap = ?b, wr_open = [?b]\<rparr>"
    by (simp_all add: NewWrapper_def KeySize_def)
  note w = this
  have "Wrap sample_cipher \<lparr>wr_wrap = ?a, wr_open = [?a]\<rparr> (Some ?n) ''secret'' = Inr (?n @ aead_seal sample_cipher ?a ?n ''secret'')"
    by (simp add: Wrap_def)
  then show ?thesis
    using Rewrap_moves_secrets [OF sample_cipher_laws w(1,2,3), of ?n "''secret''" _ None] by (simp add: NonceSize_def)
qed

subsection \<open>Which codes are accepted\<close>

lemma digit_char_is_digit: "is_digit (digit_char n)"
  by (simp add: is_digit_def digit_char_def byte_def)

lemma hotp_well_formed: "IsWellFormedCode (hotp mac secret step)"
  by (simp add: IsWellFormedCode_def hotp_def Let_def padded_def Digits_def list_all_iff digit_char_is_digit)

definition window_match :: "(bytes \<Rightarrow> bytes \<Rightarrow> bytes) \<Rightarrow> bytes \<Rightarrow> string \<Rightarrow> instant \<Rightarrow> int \<Rightarrow> bool" where
  "window_match mac secret code at step \<longleftrightarrow>
     0 \<le> step \<and> StepAt at - 1 \<le> step \<and> step \<le> StepAt at + 1 \<and> hotp mac secret step = code"

lemma window_fold:
  "foldl (\<lambda>found d. if t + d < 0 then found else if h (t + d) = c then Some (t + d) else found) None [-1, 0, 1 :: int]
    = (if 0 \<le> t + 1 \<and> h (t + 1) = c then Some (t + 1)
       else if 0 \<le> t \<and> h t = c then Some t
       else if 0 \<le> t - 1 \<and> h (t - 1) = c then Some (t - 1) else None)"
  by simp

lemma matchWindow_unfold:
  "matchWindow mac secret code at =
     (if window_match mac secret code at (StepAt at + 1) then Some (StepAt at + 1)
      else if window_match mac secret code at (StepAt at) then Some (StepAt at)
      else if window_match mac secret code at (StepAt at - 1) then Some (StepAt at - 1) else None)"
proof -
  have dash: "hotp mac secret s \<noteq> ''------''" for s
    using hotp_well_formed [of mac secret s] by (auto simp: IsWellFormedCode_def is_digit_def byte_def)
  obtain code' where c: "code' = (if IsWellFormedCode code then code else ''------'')" by blast
  have same: "hotp mac secret s = code' \<longleftrightarrow> hotp mac secret s = code" for s
    unfolding c using dash hotp_well_formed [of mac secret s] by auto
  have "[- Skew..Skew] = [-1, 0, 1]" by (simp add: Skew_def upto.simps)
  then have "matchWindow mac secret code at =
      foldl (\<lambda>found d. if StepAt at + d < 0 then found else if hotp mac secret (StepAt at + d) = code then Some (StepAt at + d) else found)
        None [-1, 0, 1]"
    unfolding matchWindow_def c [symmetric] Let_def same by simp
  also note window_fold
  finally show ?thesis by (simp add: window_match_def)
qed

lemma latest_of_three:
  assumes "\<And>s :: int. P s \<Longrightarrow> s = t - 1 \<or> s = t \<or> s = t + 1"
  shows "(if P (t + 1) then Some (t + 1) else if P t then Some t else if P (t - 1) then Some (t - 1) else None) = Some k
    \<longleftrightarrow> P k \<and> (\<forall>s > k. \<not> P s)"
proof -
  consider "P (t + 1)" | "\<not> P (t + 1)" "P t" | "\<not> P (t + 1)" "\<not> P t" "P (t - 1)" | "\<not> P (t + 1)" "\<not> P t" "\<not> P (t - 1)" by blast
  then show ?thesis
  proof cases
    case 1
    then show ?thesis using assms [of k] assms by (cases "k = t + 1") force+
  next
    case 2
    then show ?thesis using assms [of k] assms by (cases "k = t") force+
  next
    case 3
    then show ?thesis using assms [of k] assms by (cases "k = t - 1") force+
  next
    case 4
    then show ?thesis using assms [of k] by auto
  qed
qed

lemma matchWindow_Some:
  "matchWindow mac secret code at = Some step \<longleftrightarrow>
     window_match mac secret code at step \<and> (\<forall>s > step. \<not> window_match mac secret code at s)"
  unfolding matchWindow_unfold by (rule latest_of_three) (auto simp: window_match_def)

lemma matchWindow_None: "matchWindow mac secret code at = None \<longleftrightarrow> (\<forall>s. \<not> window_match mac secret code at s)"
proof -
  have s: "window_match mac secret code at s \<Longrightarrow> s = StepAt at - 1 \<or> s = StepAt at \<or> s = StepAt at + 1" for s
    by (auto simp: window_match_def)
  show ?thesis unfolding matchWindow_unfold using s by (auto split: if_splits)
qed

definition opened_secret :: "Aead \<Rightarrow> Wrapper \<Rightarrow> LoginVerifier \<Rightarrow> bytes option" where
  "opened_secret A w stored =
     (case b64_decode stored of None \<Rightarrow> None | Some raw \<Rightarrow> (case Unwrap A w raw of Inl _ \<Rightarrow> None | Inr secret \<Rightarrow> Some secret))"

lemma totp_Verify_opened:
  assumes "stored \<noteq> []" "opened_secret A w stored = Some secret"
  shows "totp_Verify A mac w stored prev code at =
    (case matchWindow mac secret code at of
       None \<Rightarrow> \<lparr>tr_Outcome = TotpMismatched, tr_Step = 0\<rparr>
     | Some step \<Rightarrow> \<lparr>tr_Outcome = (if (\<exists>l. prev = Some l \<and> step \<le> l) then TotpReplayed else TotpMatched), tr_Step = step\<rparr>)"
  using assms by (auto simp: totp_Verify_def opened_secret_def split: option.splits sum.splits)

text \<open>
  C16: Exactly which one-time codes are accepted. For a stored secret that its keys open, a code
  is accepted with a step exactly when the step is the latest of the steps at most one away from
  the clock whose code it is, and this step is newer than the last accepted one; it is called
  replayed exactly when that latest step is not newer; accepted codes are six digits; and the
  outcome does not change when the secret is wrapped anew.
\<close>

theorem totp_accepts_exactly:
  assumes "stored \<noteq> []" and "opened_secret A w stored = Some secret"
  shows "(totp_Verify A mac w stored prev code at = \<lparr>tr_Outcome = TotpMatched, tr_Step = step\<rparr>
      \<longleftrightarrow> window_match mac secret code at step \<and> (\<forall>s > step. \<not> window_match mac secret code at s) \<and> (\<forall>l. prev = Some l \<longrightarrow> l < step))
    \<and> (tr_Outcome (totp_Verify A mac w stored prev code at) = TotpReplayed
      \<longleftrightarrow> (\<exists>s l. window_match mac secret code at s \<and> (\<forall>s' > s. \<not> window_match mac secret code at s') \<and> prev = Some l \<and> s \<le> l))
    \<and> (tr_Outcome (totp_Verify A mac w stored prev code at) = TotpMatched \<longrightarrow> length code = 6 \<and> list_all is_digit code)
    \<and> (stored' \<noteq> [] \<and> opened_secret A w' stored' = Some secret
        \<longrightarrow> totp_Verify A mac w' stored' prev code at = totp_Verify A mac w stored prev code at)"
proof -
  have form: "length code = 6 \<and> list_all is_digit code" if "window_match mac secret code at s" for s
    using that hotp_well_formed [of mac secret s] by (auto simp: window_match_def IsWellFormedCode_def Digits_def)
  note v = totp_Verify_opened [OF assms, of mac prev code at]
  show ?thesis
  proof (cases "matchWindow mac secret code at")
    case None
    have "totp_Verify A mac w stored prev code at = \<lparr>tr_Outcome = TotpMismatched, tr_Step = 0\<rparr>" using v None by simp
    moreover have "stored' \<noteq> [] \<and> opened_secret A w' stored' = Some secret
        \<longrightarrow> totp_Verify A mac w' stored' prev code at = totp_Verify A mac w stored prev code at"
      using v totp_Verify_opened [of stored' A w' secret mac prev code at] by simp
    moreover have "\<not> window_match mac secret code at s" for s using None by (simp add: matchWindow_None)
    ultimately show ?thesis by simp
  next
    case (Some s)
    then have s: "window_match mac secret code at s" "\<And>s'. s < s' \<Longrightarrow> \<not> window_match mac secret code at s'" by (auto simp: matchWindow_Some)
    have u: "window_match mac secret code at x \<and> (\<forall>y > x. \<not> window_match mac secret code at y) \<longleftrightarrow> x = s" for x
      using s by (metis linorder_neqE_linordered_idom)
    have 1: "(totp_Verify A mac w stored prev code at = \<lparr>tr_Outcome = TotpMatched, tr_Step = step\<rparr>)
        = (step = s \<and> (\<forall>l. prev = Some l \<longrightarrow> l < step))"
      using v Some by (cases prev) auto
    have 2: "(tr_Outcome (totp_Verify A mac w stored prev code at) = TotpReplayed) = (\<exists>l. prev = Some l \<and> s \<le> l)"
      using v Some by auto
    have 3: "stored' \<noteq> [] \<and> opened_secret A w' stored' = Some secret
        \<longrightarrow> totp_Verify A mac w' stored' prev code at = totp_Verify A mac w stored prev code at"
      using v totp_Verify_opened [of stored' A w' secret mac prev code at] by simp
    have 4: "length code = 6 \<and> list_all is_digit code" by (rule form [OF s(1)])
    have 5: "(\<exists>x l. window_match mac secret code at x \<and> (\<forall>y > x. \<not> window_match mac secret code at y) \<and> prev = Some l \<and> x \<le> l)
        = (\<exists>l. prev = Some l \<and> s \<le> l)"
      using u by metis
    have 6: "window_match mac secret code at step \<and> (\<forall>y > step. \<not> window_match mac secret code at y) \<and> (\<forall>l. prev = Some l \<longrightarrow> l < step)
        \<longleftrightarrow> step = s \<and> (\<forall>l. prev = Some l \<longrightarrow> l < step)"
      using u [of step] by blast
    show ?thesis unfolding 1 2 5 6 using 3 4 by simp
  qed
qed

definition sample_mac :: "bytes \<Rightarrow> bytes \<Rightarrow> bytes" where
  "sample_mac key msg = take 20 (rev msg @ key @ replicate 20 CHR ''0'')"

lemma sample_code: "hotp sample_mac ''secret'' 2 = ''554432''" "hotp sample_mac ''secret'' 3 = ''331648''"
  by (simp_all add: hotp_def sample_mac_def big_endian8_def padded_def digit_char_def Let_def Digits_def digitsModulus_def byte_def upt_rec)
    (simp_all add: char_of_def bit_0)

lemma totp_accepts_exactly_witness:
  "totp_Verify sample_cipher sample_mac \<lparr>wr_wrap = replicate 32 CHR ''a'', wr_open = [replicate 32 CHR ''a'']\<rparr>
     (b64_encode (replicate 12 CHR ''n'' @ replicate 32 CHR ''a'' @ replicate 12 CHR ''n'' @ ''secret'')) (Some 1)
     (hotp sample_mac ''secret'' 2) (70 * 1000000000) = \<lparr>tr_Outcome = TotpMatched, tr_Step = 2\<rparr>"
proof -
  let ?a = "replicate 32 CHR ''a''" and ?n = "replicate 12 CHR ''n''"
  let ?w = "\<lparr>wr_wrap = ?a, wr_open = [?a]\<rparr>" and ?s = "b64_encode (?n @ ?a @ ?n @ ''secret'')"
  have o: "opened_secret sample_cipher ?w ?s = Some ''secret''"
    by (simp add: opened_secret_def Unwrap_def NonceSize_def sample_cipher_def)
  have at: "StepAt (70 * 1000000000) = 2" by (simp add: StepAt_def quot_def Period_def)
  have no: "hotp sample_mac ''secret'' 3 \<noteq> hotp sample_mac ''secret'' 2" by (simp add: sample_code)
  have "\<not> window_match sample_mac ''secret'' (hotp sample_mac ''secret'' 2) (70 * 1000000000) s" if "2 < s" for s
  proof (cases "s = 3")
    case True
    then show ?thesis using no by (simp add: window_match_def)
  next
    case False
    then show ?thesis using that at by (simp add: window_match_def)
  qed
  moreover have "window_match sample_mac ''secret'' (hotp sample_mac ''secret'' 2) (70 * 1000000000) 2"
    using at by (simp add: window_match_def)
  ultimately show ?thesis
    using totp_accepts_exactly [OF _ o, of sample_mac "Some 1" "hotp sample_mac ''secret'' 2" "70 * 1000000000" 2] by simp
qed

subsection \<open>Formats of hashed passwords\<close>

type_synonym PasswordHashFormat = string

definition PasswordHashFormatBcrypt :: PasswordHashFormat where "PasswordHashFormatBcrypt = ''2a''"
definition PasswordHashFormatArgon2id :: PasswordHashFormat where "PasswordHashFormatArgon2id = ''argon2id''"

datatype PasswordHashCostParam = CostParamBcryptCost | CostParamArgon2Memory | CostParamArgon2Iterations | CostParamArgon2Parallelism

definition cost_params :: "PasswordHashFormat \<Rightarrow> PasswordHashCostParam list" where
  "cost_params f =
     (if f = PasswordHashFormatBcrypt then [CostParamBcryptCost]
      else if f = PasswordHashFormatArgon2id then [CostParamArgon2Memory, CostParamArgon2Iterations, CostParamArgon2Parallelism]
      else [])"

definition Admissibility :: "PasswordHashFormat \<Rightarrow> PasswordHashCostParam \<Rightarrow> (nat \<times> nat) option" where
  "Admissibility f p =
     (if f = PasswordHashFormatBcrypt then (case p of CostParamBcryptCost \<Rightarrow> Some (4, 31) | _ \<Rightarrow> None)
      else if f = PasswordHashFormatArgon2id then
        (case p of CostParamArgon2Memory \<Rightarrow> Some (8, 2 ^ 32 - 1) | CostParamArgon2Iterations \<Rightarrow> Some (1, 2 ^ 32 - 1)
         | CostParamArgon2Parallelism \<Rightarrow> Some (1, 255) | CostParamBcryptCost \<Rightarrow> None)
      else None)"

record PasswordHashFormatRecord =
  hf_Format :: PasswordHashFormat
  hf_Writable :: bool
  hf_Ceiling :: "PasswordHashCostParam \<rightharpoonup> nat"
  hf_Floor :: "PasswordHashCostParam \<rightharpoonup> nat"

definition passwordHashFormats :: "PasswordHashFormatRecord list" where
  "passwordHashFormats =
     [\<lparr>hf_Format = PasswordHashFormatBcrypt, hf_Writable = False, hf_Ceiling = [CostParamBcryptCost \<mapsto> 14], hf_Floor = Map.empty\<rparr>,
      \<lparr>hf_Format = PasswordHashFormatArgon2id, hf_Writable = True,
        hf_Ceiling = [CostParamArgon2Memory \<mapsto> 131072, CostParamArgon2Iterations \<mapsto> 10, CostParamArgon2Parallelism \<mapsto> 8],
        hf_Floor = [CostParamArgon2Memory \<mapsto> 65536, CostParamArgon2Iterations \<mapsto> 3, CostParamArgon2Parallelism \<mapsto> 4]\<rparr>]"

definition PasswordHashFormatByMarker :: "string \<Rightarrow> PasswordHashFormatRecord option" where
  "PasswordHashFormatByMarker marker = List.find (\<lambda>r. hf_Format r = marker) passwordHashFormats"

definition param_of :: "(PasswordHashCostParam \<rightharpoonup> nat) \<Rightarrow> PasswordHashCostParam \<Rightarrow> nat" where
  \<comment> \<open>reading a key that is absent from a map yields zero\<close>
  "param_of m p = (case m p of None \<Rightarrow> 0 | Some n \<Rightarrow> n)"

definition withinAdmissibility :: "PasswordHashFormat \<Rightarrow> PasswordHashCostParam \<Rightarrow> nat \<Rightarrow> bool" where
  "withinAdmissibility f p v \<longleftrightarrow> (case Admissibility f p of None \<Rightarrow> False | Some (lo, hi) \<Rightarrow> lo \<le> v \<and> v \<le> hi)"

record Declared =
  dc_Format :: PasswordHashFormat
  dc_Params :: "PasswordHashCostParam \<rightharpoonup> nat"

datatype declared_fault = FormatUnknown | FormatOnlyReadable | ParamRequired PasswordHashCostParam
  | AboveCeiling PasswordHashCostParam | BelowFloor PasswordHashCostParam | ParamsForeign

fun declared_params_fault :: "PasswordHashFormatRecord \<Rightarrow> (PasswordHashCostParam \<rightharpoonup> nat) \<Rightarrow> PasswordHashCostParam list \<Rightarrow> declared_fault option" where
  "declared_params_fault rec ps [] = None"
| "declared_params_fault rec ps (p # rest) =
     (case ps p of
        None \<Rightarrow> Some (ParamRequired p)
      | Some v \<Rightarrow> if v > param_of (hf_Ceiling rec) p then Some (AboveCeiling p)
                  else if v < param_of (hf_Floor rec) p then Some (BelowFloor p)
                  else declared_params_fault rec ps rest)"

definition all_cost_params :: "PasswordHashCostParam list" where
  "all_cost_params = [CostParamBcryptCost, CostParamArgon2Memory, CostParamArgon2Iterations, CostParamArgon2Parallelism]"

definition Declared_Validate :: "Declared \<Rightarrow> declared_fault option" where
  "Declared_Validate d =
     (case PasswordHashFormatByMarker (dc_Format d) of
        None \<Rightarrow> Some FormatUnknown
      | Some rec \<Rightarrow>
          if \<not> hf_Writable rec then Some FormatOnlyReadable
          else (case declared_params_fault rec (dc_Params d) (cost_params (hf_Format rec)) of
                  Some f \<Rightarrow> Some f
                | None \<Rightarrow> if list_ex (\<lambda>p. dc_Params d p \<noteq> None \<and> p \<notin> set (cost_params (hf_Format rec))) all_cost_params
                           then Some ParamsForeign else None))"

subsection \<open>Verification of a password\<close>

datatype Outcome =
    OutcomeMatched | OutcomeMismatched | OutcomeFormatNotInRegistry | OutcomeBodyNotParsable
  | OutcomeParamsAboveCeiling | OutcomeMaterialMissing | OutcomeCapacityExhausted

definition IsOurError :: "Outcome \<Rightarrow> bool" where
  "IsOurError o1 \<longleftrightarrow> o1 \<in> {OutcomeFormatNotInRegistry, OutcomeBodyNotParsable, OutcomeParamsAboveCeiling}"

record VerifyResult =
  vr_Outcome :: Outcome
  vr_Format :: PasswordHashFormat
  vr_Params :: "PasswordHashCostParam \<rightharpoonup> nat"

definition outcome_only :: "Outcome \<Rightarrow> VerifyResult" where
  "outcome_only o1 = \<lparr>vr_Outcome = o1, vr_Format = [], vr_Params = Map.empty\<rparr>"

record Kdf =
  kdf_bcrypt :: "bytes \<Rightarrow> bytes \<Rightarrow> bool" \<comment> \<open>stored value, password\<close>
  kdf_argon2id :: "bytes \<Rightarrow> bytes \<Rightarrow> nat \<Rightarrow> nat \<Rightarrow> nat \<Rightarrow> nat \<Rightarrow> bytes"
    \<comment> \<open>password, salt, iterations, memory, parallelism, length of the key\<close>

definition bcryptMarkerPrefix :: string where "bcryptMarkerPrefix = ''$2a$''"
definition argon2idMarkerPrefix :: string where "argon2idMarkerPrefix = ''$argon2id$''"
definition argon2idVersionPrefix :: string where "argon2idVersionPrefix = ''v=19$''"
definition bcryptValueLen :: nat where "bcryptValueLen = 60"
definition bcryptCostDigits :: nat where "bcryptCostDigits = 2"
definition argon2idMinKeyLen :: nat where "argon2idMinKeyLen = 4"

definition bcryptBodyIsWellFormed :: "string \<Rightarrow> bool" where
  "bcryptBodyIsWellFormed body \<longleftrightarrow> length body = bcryptValueLen - length bcryptMarkerPrefix - bcryptCostDigits - 1
     \<and> list_all (\<lambda>c. is_lower c \<or> is_upper c \<or> is_digit c \<or> c = CHR ''.'' \<or> c = CHR ''/'') body"

definition compareBcrypt :: "Kdf \<Rightarrow> string \<Rightarrow> string \<Rightarrow> bool \<Rightarrow> VerifyResult" where
  "compareBcrypt K material presented compare =
     (case PasswordHashFormatByMarker PasswordHashFormatBcrypt of
        None \<Rightarrow> outcome_only OutcomeFormatNotInRegistry
      | Some rec \<Rightarrow>
     (let unreadable = \<lparr>vr_Outcome = OutcomeBodyNotParsable, vr_Format = PasswordHashFormatBcrypt, vr_Params = Map.empty\<rparr>;
          costEnd = length bcryptMarkerPrefix + bcryptCostDigits in
      if length material \<noteq> bcryptValueLen then unreadable
      else if material ! costEnd \<noteq> CHR ''$'' then unreadable
      else (case ParseUint32 (take bcryptCostDigits (drop (length bcryptMarkerPrefix) material)) of
              None \<Rightarrow> unreadable
            | Some cost \<Rightarrow>
                if \<not> bcryptBodyIsWellFormed (drop (costEnd + 1) material) then unreadable
                else if \<not> withinAdmissibility PasswordHashFormatBcrypt CostParamBcryptCost cost then unreadable
                else let done = (\<lambda>o1. \<lparr>vr_Outcome = o1, vr_Format = PasswordHashFormatBcrypt, vr_Params = [CostParamBcryptCost \<mapsto> cost]\<rparr>) in
                  if cost > param_of (hf_Ceiling rec) CostParamBcryptCost then done OutcomeParamsAboveCeiling
                  else if \<not> compare then done OutcomeMismatched
                  else if kdf_bcrypt K material presented then done OutcomeMatched else done OutcomeMismatched)))"

definition parseArgon2idParams :: "string \<Rightarrow> (nat \<times> nat \<times> nat) option" where
  "parseArgon2idParams part =
     (case split_byte CHR '','' part of
        [m, t, p] \<Rightarrow>
          if \<not> has_prefix m ''m='' \<or> \<not> has_prefix t ''t='' \<or> \<not> has_prefix p ''p='' then None
          else (case (ParseUint32 (drop 2 m), ParseUint32 (drop 2 t), ParseUint32 (drop 2 p)) of
                  (Some a, Some b, Some c) \<Rightarrow> Some (a, b, c)
                | _ \<Rightarrow> None)
      | _ \<Rightarrow> None)"

definition argon2id_parts :: "string \<Rightarrow> (string \<times> string \<times> string) option" where
  \<comment> \<open>parameters, salt and body of a value behind its marker\<close>
  "argon2id_parts rest =
     (if \<not> has_prefix rest argon2idVersionPrefix then None
      else (case cut_byte CHR ''$'' (drop (length argon2idVersionPrefix) rest) of
              (params, saltAndBody, found) \<Rightarrow>
                if \<not> found then None
                else (case cut_byte CHR ''$'' saltAndBody of
                        (salt, body, found2) \<Rightarrow> if \<not> found2 \<or> CHR ''$'' \<in> set body then None else Some (params, salt, body))))"

definition argon2id_admissible :: "nat \<Rightarrow> nat \<Rightarrow> nat \<Rightarrow> bool" where
  "argon2id_admissible memory iterations parallelism \<longleftrightarrow>
     withinAdmissibility PasswordHashFormatArgon2id CostParamArgon2Memory memory
     \<and> withinAdmissibility PasswordHashFormatArgon2id CostParamArgon2Iterations iterations
     \<and> withinAdmissibility PasswordHashFormatArgon2id CostParamArgon2Parallelism parallelism
     \<and> 8 * parallelism \<le> memory"

definition argon2id_params :: "nat \<Rightarrow> nat \<Rightarrow> nat \<Rightarrow> PasswordHashCostParam \<rightharpoonup> nat" where
  "argon2id_params memory iterations parallelism =
     [CostParamArgon2Memory \<mapsto> memory, CostParamArgon2Iterations \<mapsto> iterations, CostParamArgon2Parallelism \<mapsto> parallelism]"

definition argon2id_above_ceiling :: "PasswordHashFormatRecord \<Rightarrow> nat \<Rightarrow> nat \<Rightarrow> nat \<Rightarrow> bool" where
  "argon2id_above_ceiling rec memory iterations parallelism \<longleftrightarrow>
     memory > param_of (hf_Ceiling rec) CostParamArgon2Memory \<or> iterations > param_of (hf_Ceiling rec) CostParamArgon2Iterations
     \<or> parallelism > param_of (hf_Ceiling rec) CostParamArgon2Parallelism"

definition compareArgon2id :: "Kdf \<Rightarrow> string \<Rightarrow> string \<Rightarrow> bool \<Rightarrow> VerifyResult" where
  "compareArgon2id K material presented compare =
     (case PasswordHashFormatByMarker PasswordHashFormatArgon2id of
        None \<Rightarrow> outcome_only OutcomeFormatNotInRegistry
      | Some rec \<Rightarrow>
     (let unreadable = \<lparr>vr_Outcome = OutcomeBodyNotParsable, vr_Format = PasswordHashFormatArgon2id, vr_Params = Map.empty\<rparr> in
      case argon2id_parts (drop (length argon2idMarkerPrefix) material) of
        None \<Rightarrow> unreadable
      | Some (paramsPart, saltPart, bodyPart) \<Rightarrow>
     (case (parseArgon2idParams paramsPart, b64_decode saltPart, b64_decode bodyPart) of
        (Some (memory, iterations, parallelism), Some salt, Some body) \<Rightarrow>
          if salt = [] then unreadable
          else if \<not> argon2id_admissible memory iterations parallelism then unreadable
          else if length body < argon2idMinKeyLen then unreadable
          else let done = (\<lambda>o1. \<lparr>vr_Outcome = o1, vr_Format = PasswordHashFormatArgon2id, vr_Params = argon2id_params memory iterations parallelism\<rparr>) in
            if argon2id_above_ceiling rec memory iterations parallelism then done OutcomeParamsAboveCeiling
            else if \<not> compare then done OutcomeMismatched
            else if parallelism > 255 \<or> length body \<ge> 2 ^ 32 then unreadable
            else if kdf_argon2id K presented salt iterations memory parallelism (length body) = body then done OutcomeMatched
            else done OutcomeMismatched
      | _ \<Rightarrow> unreadable)))"

definition inspectAndCompare :: "Kdf \<Rightarrow> string \<Rightarrow> string \<Rightarrow> bool \<Rightarrow> VerifyResult" where
  "inspectAndCompare K material presented compare =
     (if has_prefix material bcryptMarkerPrefix then compareBcrypt K material presented compare
      else if has_prefix material argon2idMarkerPrefix then compareArgon2id K material presented compare
      else outcome_only OutcomeFormatNotInRegistry)"

definition password_Verify :: "Kdf \<Rightarrow> bool \<Rightarrow> bool \<Rightarrow> LoginVerifier \<Rightarrow> string \<Rightarrow> VerifyResult option" where
  \<comment> \<open>a slot of capacity is free; the call lives until a processor is free, otherwise \<open>None\<close>\<close>
  "password_Verify K slot alive stored presented =
     (if \<not> slot then Some (outcome_only OutcomeCapacityExhausted)
      else if \<not> alive then None
      else if stored = [] then Some (outcome_only OutcomeMaterialMissing)
      else Some (inspectAndCompare K stored presented True))"

definition MeetsDeclared :: "Kdf \<Rightarrow> LoginVerifier \<Rightarrow> Declared \<Rightarrow> bool option" where
  \<comment> \<open>\<open>None\<close>: an error\<close>
  "MeetsDeclared K stored d =
     (if Declared_Validate d \<noteq> None then None
      else if stored = [] then None
      else let res = inspectAndCompare K stored [] False in
        if vr_Outcome res \<noteq> OutcomeMatched \<and> vr_Outcome res \<noteq> OutcomeMismatched then None
        else if vr_Format res \<noteq> dc_Format d then Some False
        else Some (list_all (\<lambda>p. case dc_Params d p of None \<Rightarrow> True | Some want \<Rightarrow> want \<le> param_of (vr_Params res) p) all_cost_params))"

subsection \<open>Hashing\<close>

definition argon2idSaltLen :: nat where "argon2idSaltLen = 16"
definition argon2idKeyLen :: nat where "argon2idKeyLen = 32"

definition argon2id_head :: "nat \<Rightarrow> nat \<Rightarrow> nat \<Rightarrow> bytes \<Rightarrow> string" where
  "argon2id_head memory iterations parallelism salt =
     argon2idMarkerPrefix @ argon2idVersionPrefix @ ''m='' @ decimal memory @ '',t='' @ decimal iterations @ '',p='' @ decimal parallelism
       @ ''$'' @ b64_encode salt @ ''$''"

definition argon2idMaterial :: "nat \<Rightarrow> nat \<Rightarrow> nat \<Rightarrow> bytes \<Rightarrow> bytes \<Rightarrow> string" where
  "argon2idMaterial memory iterations parallelism salt body = argon2id_head memory iterations parallelism salt @ b64_encode body"

datatype hash_error = EmptyPassword | FormatNotWritable | ParallelismBeyondLibrary | SaltUnavailable | EmptySet | MalformedCode nat

definition Hash :: "Kdf \<Rightarrow> Declared \<Rightarrow> bytes option \<Rightarrow> string \<Rightarrow> (hash_error, LoginVerifier) result" where
  "Hash K d saltDrawn password =
     (if password = [] then Inl EmptyPassword
      else if dc_Format d \<noteq> PasswordHashFormatArgon2id then Inl FormatNotWritable
      else let memory = param_of (dc_Params d) CostParamArgon2Memory; iterations = param_of (dc_Params d) CostParamArgon2Iterations;
               parallelism = param_of (dc_Params d) CostParamArgon2Parallelism in
        if parallelism > 255 then Inl ParallelismBeyondLibrary
        else (case saltDrawn of
                None \<Rightarrow> Inl SaltUnavailable
              | Some salt \<Rightarrow> Inr (argon2idMaterial memory iterations parallelism salt
                  (kdf_argon2id K password salt iterations memory parallelism argon2idKeyLen))))"

subsection \<open>Sets of backup codes\<close>

definition BackupCodeCount :: nat where "BackupCodeCount = 10"
definition BackupCodeLength :: nat where "BackupCodeLength = 10"
definition backupCodeAlphabet :: string where "backupCodeAlphabet = ''0123456789ABCDEFGHJKMNPQRSTVWXYZ''"

definition to_upper_char :: "char \<Rightarrow> char" where
  "to_upper_char c = (if is_lower c then char_of (byte c - 32) else c)"

definition IsWellFormedBackupCode :: "string \<Rightarrow> bool" where
  "IsWellFormedBackupCode code \<longleftrightarrow> length code = BackupCodeLength \<and> list_all (\<lambda>c. to_upper_char c \<in> set backupCodeAlphabet) code"

definition normalizeBackupCode :: "string \<Rightarrow> string" where
  \<comment> \<open>\<open>strings.ToUpper\<close> on ASCII: the callers ask \<open>IsWellFormedBackupCode\<close> first\<close>
  "normalizeBackupCode code = map to_upper_char code"

definition code_of_draw :: "bytes \<Rightarrow> string" where
  "code_of_draw raw = map (\<lambda>c. backupCodeAlphabet ! (byte c mod 32)) raw"

fun NewBackupCodes_from :: "bytes list \<Rightarrow> string list \<Rightarrow> string list option" where
  \<comment> \<open>the draws of ten bytes each, until the source fails; an equal code is drawn again\<close>
  "NewBackupCodes_from draws codes =
     (if length codes \<ge> BackupCodeCount then Some codes
      else (case draws of
              [] \<Rightarrow> None
            | raw # rest \<Rightarrow> NewBackupCodes_from rest (if code_of_draw raw \<in> set codes then codes else codes @ [code_of_draw raw])))"

declare NewBackupCodes_from.simps [simp del]

definition NewBackupCodes :: "bytes list \<Rightarrow> string list option" where
  "NewBackupCodes draws = NewBackupCodes_from draws []"

fun malformed_code :: "nat \<Rightarrow> string list \<Rightarrow> nat option" where
  "malformed_code i [] = None"
| "malformed_code i (c # cs) = (if \<not> IsWellFormedBackupCode c then Some (i + 1) else malformed_code (i + 1) cs)"

definition HashSet :: "Kdf \<Rightarrow> Declared \<Rightarrow> bytes option \<Rightarrow> string list \<Rightarrow> (hash_error, LoginVerifier) result" where
  "HashSet K d saltDrawn codes =
     (if codes = [] then Inl EmptySet
      else (case malformed_code 0 codes of
        Some i \<Rightarrow> Inl (MalformedCode i)
      | None \<Rightarrow>
      if dc_Format d \<noteq> PasswordHashFormatArgon2id then Inl FormatNotWritable
      else let memory = param_of (dc_Params d) CostParamArgon2Memory; iterations = param_of (dc_Params d) CostParamArgon2Iterations;
               parallelism = param_of (dc_Params d) CostParamArgon2Parallelism in
        if parallelism > 255 then Inl ParallelismBeyondLibrary
        else (case saltDrawn of
                None \<Rightarrow> Inl SaltUnavailable
              | Some salt \<Rightarrow> Inr (argon2id_head memory iterations parallelism salt @ '',''
                  @ concat (map (\<lambda>c. b64_encode (kdf_argon2id K (normalizeBackupCode c) salt iterations memory parallelism argon2idKeyLen) @ '','') codes)))))"

record setHeader =
  sh_salt :: bytes
  sh_memory :: nat
  sh_iterations :: nat
  sh_parallelism :: nat
  sh_elements :: "string list"

definition inspectSet :: "string \<Rightarrow> (Outcome, setHeader) result" where
  \<comment> \<open>\<open>Inr\<close> where the code answers with the outcome of a mismatch\<close>
  "inspectSet material =
     (if \<not> has_prefix material argon2idMarkerPrefix then Inl OutcomeFormatNotInRegistry
      else (case PasswordHashFormatByMarker PasswordHashFormatArgon2id of
        None \<Rightarrow> Inl OutcomeFormatNotInRegistry
      | Some rec \<Rightarrow>
     (case argon2id_parts (drop (length argon2idMarkerPrefix) material) of
        None \<Rightarrow> Inl OutcomeBodyNotParsable
      | Some (paramsPart, saltPart, bodyPart) \<Rightarrow>
          if \<not> has_prefix bodyPart '','' \<or> \<not> has_suffix bodyPart '','' then Inl OutcomeBodyNotParsable
          else (case (parseArgon2idParams paramsPart, b64_decode saltPart) of
             (Some (memory, iterations, parallelism), Some salt) \<Rightarrow>
               if salt = [] then Inl OutcomeBodyNotParsable
               else if \<not> argon2id_admissible memory iterations parallelism \<or> parallelism > 255 then Inl OutcomeBodyNotParsable
               else if argon2id_above_ceiling rec memory iterations parallelism then Inl OutcomeParamsAboveCeiling
               else let inner = trim_suffix (trim_prefix bodyPart '','') '','';
                        elements = (if inner = [] then [] else split_byte CHR '','' inner) in
                 if [] \<in> set elements then Inl OutcomeBodyNotParsable
                 else Inr \<lparr>sh_salt = salt, sh_memory = memory, sh_iterations = iterations, sh_parallelism = parallelism, sh_elements = elements\<rparr>
           | _ \<Rightarrow> Inl OutcomeBodyNotParsable))))"

type_synonym SetCandidate = "(Outcome, string) result" \<comment> \<open>the refusal, or the element\<close>

definition SetCandidate :: "Kdf \<Rightarrow> bool \<Rightarrow> bool \<Rightarrow> LoginVerifier \<Rightarrow> string \<Rightarrow> SetCandidate option" where
  "SetCandidate K slot alive stored presented =
     (if \<not> slot then Some (Inl OutcomeCapacityExhausted)
      else if \<not> alive then None
      else if stored = [] then Some (Inl OutcomeMaterialMissing)
      else (case inspectSet stored of
              Inl o1 \<Rightarrow> Some (Inl o1)
            | Inr hdr \<Rightarrow> Some (Inr (b64_encode (kdf_argon2id K (normalizeBackupCode presented) (sh_salt hdr) (sh_iterations hdr)
                (sh_memory hdr) (sh_parallelism hdr) argon2idKeyLen)))))"

definition MatchSet :: "LoginVerifier \<Rightarrow> SetCandidate \<Rightarrow> Outcome \<times> nat" where
  \<comment> \<open>the outcome and the number of elements\<close>
  "MatchSet stored cand =
     (case cand of
        Inl refusal \<Rightarrow> (refusal, 0)
      | Inr element \<Rightarrow>
          if stored = [] then (OutcomeMaterialMissing, 0)
          else (case inspectSet stored of
                  Inl o1 \<Rightarrow> (o1, 0)
                | Inr hdr \<Rightarrow> (if element \<in> set (sh_elements hdr) then OutcomeMatched else OutcomeMismatched, length (sh_elements hdr))))"

definition SetSize :: "LoginVerifier \<Rightarrow> nat option" where
  "SetSize stored =
     (if stored = [] then None else (case inspectSet stored of Inl _ \<Rightarrow> None | Inr hdr \<Rightarrow> Some (length (sh_elements hdr))))"

subsection \<open>Numbers are read back\<close>

lemma digits_value_snoc: "digits_value (s @ [c]) = 10 * digits_value s + (byte c - 48)"
  by (simp add: digits_value_def)

lemma byte_digit_char [simp]: "byte (digit_char n) = 48 + n mod 10"
  by (simp add: digit_char_def byte_def)

lemma digits_value_decimal: "digits_value (decimal n) = n \<and> list_all is_digit (decimal n) \<and> decimal n \<noteq> []"
proof (induction n rule: decimal.induct)
  case (1 n)
  show ?case
  proof (cases "n < 10")
    case True
    then show ?thesis by (subst (1 2 3) decimal.simps) (simp add: digits_value_def digit_char_is_digit)
  next
    case False
    then show ?thesis using 1 by (subst (1 2 3) decimal.simps) (simp add: digits_value_snoc digit_char_is_digit)
  qed
qed

lemma ParseUint32_decimal [simp]: "n < 2 ^ 32 \<Longrightarrow> ParseUint32 (decimal n) = Some n"
  using digits_value_decimal [of n] by (simp add: ParseUint32_def)

lemma decimal_no: "c \<in> set (decimal n) \<Longrightarrow> is_digit c"
  using digits_value_decimal [of n] by (simp add: list_all_iff)

subsection \<open>A set is read back\<close>

definition set_body :: "string list \<Rightarrow> string" where
  "set_body es = '','' @ concat (map (\<lambda>e. e @ '','') es)"

definition element_ok :: "string \<Rightarrow> bool" where
  \<comment> \<open>what base64 prints of a key: no separator, and not empty\<close>
  "element_ok e \<longleftrightarrow> e \<noteq> [] \<and> set e \<subseteq> set b64_alphabet"

lemma element_ok_no: "element_ok e \<Longrightarrow> c \<in> set e \<Longrightarrow> c \<noteq> CHR '','' \<and> c \<noteq> CHR ''$'' \<and> c \<noteq> CHR ''=''"
  unfolding element_ok_def b64_alphabet_def by auto

lemma element_ok_b64: "s \<noteq> [] \<Longrightarrow> element_ok (b64_encode s)"
  using b64_encode_chars by (auto simp: element_ok_def)

lemma split_set_body: "(\<And>e. e \<in> set es \<Longrightarrow> element_ok e) \<Longrightarrow> es \<noteq> [] \<Longrightarrow>
  concat (map (\<lambda>e. e @ '','') es) = join_with '','' es @ '','' \<and> split_byte CHR '','' (join_with '','' es) = es"
proof (induction es)
  case (Cons e es)
  have e: "CHR '','' \<notin> set e" using Cons.prems(1) [of e] element_ok_no by auto
  show ?case
  proof (cases es)
    case Nil
    then show ?thesis using e by (simp add: split_byte_no_sep)
  next
    case (Cons f fs)
    then show ?thesis using Cons.IH Cons.prems(1) e split_byte_append [OF e] by simp
  qed
qed simp

lemma join_nonempty: "es \<noteq> [] \<Longrightarrow> [] \<notin> set es \<Longrightarrow> join_with sep es \<noteq> []"
proof (cases es)
  case (Cons e fs)
  then show "[] \<notin> set es \<Longrightarrow> join_with sep es \<noteq> []" by (cases fs) auto
qed simp

lemma set_body_parts:
  assumes "\<And>e. e \<in> set es \<Longrightarrow> element_ok e"
  shows "has_prefix (set_body es) '',''" "has_suffix (set_body es) '',''"
    "CHR ''$'' \<notin> set (set_body es)"
    "(let inner = trim_suffix (trim_prefix (set_body es) '','') '','' in if inner = [] then [] else split_byte CHR '','' inner) = es"
proof -
  show "has_prefix (set_body es) '',''" by (simp add: set_body_def has_prefix_def)
  show "CHR ''$'' \<notin> set (set_body es)" using assms element_ok_no by (auto simp: set_body_def)
  have tp: "trim_prefix (set_body es) '','' = concat (map (\<lambda>e. e @ '','') es)"
    by (simp add: trim_prefix_def set_body_def has_prefix_def)
  show "has_suffix (set_body es) '',''"
  proof (cases "es = []")
    case False
    then show ?thesis using split_set_body [OF assms] by (simp add: set_body_def has_suffix_def)
  qed (simp add: set_body_def has_suffix_def)
  show "(let inner = trim_suffix (trim_prefix (set_body es) '','') '','' in if inner = [] then [] else split_byte CHR '','' inner) = es"
  proof (cases "es = []")
    case False
    have "[] \<notin> set es" using assms by (auto simp: element_ok_def)
    then have "join_with '','' es \<noteq> []" using join_nonempty False by blast
    moreover have "trim_suffix (join_with '','' es @ '','') '','' = join_with '','' es"
      by (simp add: trim_suffix_def has_suffix_def)
    ultimately show ?thesis using split_set_body [OF assms False] by (simp add: tp Let_def)
  next
    case True
    then show ?thesis by (simp add: set_body_def trim_prefix_def trim_suffix_def has_prefix_def has_suffix_def)
  qed
qed

definition head_ok :: "nat \<Rightarrow> nat \<Rightarrow> nat \<Rightarrow> bytes \<Rightarrow> bool" where
  \<comment> \<open>parameters that the registry admits\<close>
  "head_ok memory iterations parallelism salt \<longleftrightarrow> salt \<noteq> [] \<and> argon2id_admissible memory iterations parallelism
     \<and> memory \<le> 131072 \<and> iterations \<le> 10 \<and> parallelism \<le> 8"

lemma argon2id_parts_head:
  assumes "CHR ''$'' \<notin> set body"
  shows "argon2id_parts (drop (length argon2idMarkerPrefix) (argon2id_head memory iterations parallelism salt @ body))
    = Some (''m='' @ decimal memory @ '',t='' @ decimal iterations @ '',p='' @ decimal parallelism, b64_encode salt, body)"
proof -
  let ?ps = "''m='' @ decimal memory @ '',t='' @ decimal iterations @ '',p='' @ decimal parallelism"
  have "CHR ''$'' \<notin> set (decimal n)" for n using decimal_no [of "CHR ''$''" n] by (auto simp: is_digit_def byte_def)
  then have ps: "CHR ''$'' \<notin> set ?ps" by simp
  have sa: "CHR ''$'' \<notin> set (b64_encode salt)" using b64_encode_chars [of "CHR ''$''" salt] by (auto simp: b64_alphabet_def)
  have c1: "cut_byte CHR ''$'' (?ps @ CHR ''$'' # b64_encode salt @ CHR ''$'' # body) = (?ps, b64_encode salt @ CHR ''$'' # body, True)"
    by (rule cut_byte_found [OF ps])
  have c2: "cut_byte CHR ''$'' (b64_encode salt @ CHR ''$'' # body) = (b64_encode salt, body, True)" by (rule cut_byte_found [OF sa])
  have "drop (length argon2idMarkerPrefix) (argon2id_head memory iterations parallelism salt @ body)
      = argon2idVersionPrefix @ ?ps @ CHR ''$'' # b64_encode salt @ CHR ''$'' # body"
    by (simp add: argon2id_head_def)
  then show ?thesis using c1 c2 assms by (simp add: argon2id_parts_def)
qed

lemma parseArgon2idParams_printed:
  assumes "memory < 2 ^ 32" "iterations < 2 ^ 32" "parallelism < 2 ^ 32"
  shows "parseArgon2idParams (''m='' @ decimal memory @ '',t='' @ decimal iterations @ '',p='' @ decimal parallelism)
    = Some (memory, iterations, parallelism)"
proof -
  have no: "CHR '','' \<notin> set (x # CHR ''='' # decimal n)" if "x \<noteq> CHR '',''" for x n
    using decimal_no [of "CHR '',''" n] that by (auto simp: is_digit_def byte_def)
  have "split_byte CHR '','' ((CHR ''m'' # CHR ''='' # decimal memory) @ CHR '','' # (CHR ''t'' # CHR ''='' # decimal iterations) @ CHR '','' # (CHR ''p'' # CHR ''='' # decimal parallelism))
    = [''m='' @ decimal memory, ''t='' @ decimal iterations, ''p='' @ decimal parallelism]"
    using split_byte_append [OF no] split_byte_no_sep [OF no] by simp
  then show ?thesis using assms by (simp add: parseArgon2idParams_def has_prefix_def)
qed

lemma inspectSet_built:
  assumes "head_ok memory iterations parallelism salt" "\<And>e. e \<in> set es \<Longrightarrow> element_ok e"
  shows "inspectSet (argon2id_head memory iterations parallelism salt @ set_body es)
    = Inr \<lparr>sh_salt = salt, sh_memory = memory, sh_iterations = iterations, sh_parallelism = parallelism, sh_elements = es\<rparr>"
proof -
  have mark: "has_prefix (argon2id_head memory iterations parallelism salt @ set_body es) argon2idMarkerPrefix"
    by (simp add: argon2id_head_def)
  have rec: "PasswordHashFormatByMarker PasswordHashFormatArgon2id
      = Some \<lparr>hf_Format = PasswordHashFormatArgon2id, hf_Writable = True,
        hf_Ceiling = [CostParamArgon2Memory \<mapsto> 131072, CostParamArgon2Iterations \<mapsto> 10, CostParamArgon2Parallelism \<mapsto> 8],
        hf_Floor = [CostParamArgon2Memory \<mapsto> 65536, CostParamArgon2Iterations \<mapsto> 3, CostParamArgon2Parallelism \<mapsto> 4]\<rparr>"
    by (simp add: PasswordHashFormatByMarker_def passwordHashFormats_def PasswordHashFormatBcrypt_def PasswordHashFormatArgon2id_def)
  have ps: "memory < 2 ^ 32" "iterations < 2 ^ 32" "parallelism < 2 ^ 32" using assms(1) by (auto simp: head_ok_def)
  have es: "[] \<notin> set es" using assms(2) by (auto simp: element_ok_def)
  note sb = set_body_parts [of es, OF assms(2), unfolded Let_def]
  note parts = argon2id_parts_head [OF sb(3), of memory iterations parallelism salt]
  have set: "[] \<notin> set (if trim_suffix (trim_prefix (set_body es) '','') '','' = [] then []
      else split_byte CHR '','' (trim_suffix (trim_prefix (set_body es) '','') '',''))"
    using es sb(4) by simp
  note pp = parseArgon2idParams_printed [OF ps]
  show ?thesis
    unfolding inspectSet_def rec parts
    using mark sb(1,2) assms(1) set sb(4) pp
    by (simp add: rec parts Let_def head_ok_def argon2id_above_ceiling_def param_of_def del: drop_append)
qed

lemma declared_head_ok:
  assumes "Declared_Validate d = None" "salt \<noteq> []"
  shows "dc_Format d = PasswordHashFormatArgon2id"
    and "head_ok (param_of (dc_Params d) CostParamArgon2Memory) (param_of (dc_Params d) CostParamArgon2Iterations)
      (param_of (dc_Params d) CostParamArgon2Parallelism) salt"
proof -
  have recs: "PasswordHashFormatByMarker f = Some rec \<Longrightarrow> hf_Writable rec \<Longrightarrow> f = PasswordHashFormatArgon2id \<and> rec = passwordHashFormats ! 1" for f rec
    by (auto simp: PasswordHashFormatByMarker_def passwordHashFormats_def split: if_splits)
  obtain rec where rec: "PasswordHashFormatByMarker (dc_Format d) = Some rec" "hf_Writable rec"
      "declared_params_fault rec (dc_Params d) (cost_params (hf_Format rec)) = None"
    using assms(1) by (auto simp: Declared_Validate_def split: option.splits if_splits)
  from recs [OF rec(1,2)] show f: "dc_Format d = PasswordHashFormatArgon2id" by simp
  have r: "rec = passwordHashFormats ! 1" using recs [OF rec(1,2)] by simp
  have c: "cost_params (hf_Format rec) = [CostParamArgon2Memory, CostParamArgon2Iterations, CostParamArgon2Parallelism]"
    unfolding r by (simp add: passwordHashFormats_def cost_params_def PasswordHashFormatArgon2id_def PasswordHashFormatBcrypt_def)
  have "65536 \<le> param_of (dc_Params d) CostParamArgon2Memory \<and> param_of (dc_Params d) CostParamArgon2Memory \<le> 131072
    \<and> 3 \<le> param_of (dc_Params d) CostParamArgon2Iterations \<and> param_of (dc_Params d) CostParamArgon2Iterations \<le> 10
    \<and> 4 \<le> param_of (dc_Params d) CostParamArgon2Parallelism \<and> param_of (dc_Params d) CostParamArgon2Parallelism \<le> 8"
    using rec(3) unfolding c unfolding r by (auto simp: passwordHashFormats_def param_of_def split: option.splits if_splits)
  then show "head_ok (param_of (dc_Params d) CostParamArgon2Memory) (param_of (dc_Params d) CostParamArgon2Iterations)
      (param_of (dc_Params d) CostParamArgon2Parallelism) salt"
    using assms(2) by (simp add: head_ok_def argon2id_admissible_def withinAdmissibility_def Admissibility_def
      PasswordHashFormatArgon2id_def PasswordHashFormatBcrypt_def)
qed

definition kdf_length :: "Kdf \<Rightarrow> bool" where
  \<comment> \<open>a derived key has the length asked for\<close>
  "kdf_length K \<longleftrightarrow> (\<forall>p s i m par n. length (kdf_argon2id K p s i m par n) = n)"

lemma argon2id_record:
  "PasswordHashFormatByMarker PasswordHashFormatArgon2id
    = Some \<lparr>hf_Format = PasswordHashFormatArgon2id, hf_Writable = True,
        hf_Ceiling = [CostParamArgon2Memory \<mapsto> 131072, CostParamArgon2Iterations \<mapsto> 10, CostParamArgon2Parallelism \<mapsto> 8],
        hf_Floor = [CostParamArgon2Memory \<mapsto> 65536, CostParamArgon2Iterations \<mapsto> 3, CostParamArgon2Parallelism \<mapsto> 4]\<rparr>"
  by (simp add: PasswordHashFormatByMarker_def passwordHashFormats_def PasswordHashFormatBcrypt_def PasswordHashFormatArgon2id_def)

lemma compareArgon2id_built:
  assumes "head_ok memory iterations parallelism salt" "argon2idMinKeyLen \<le> length body" "length body < 2 ^ 32"
  shows "compareArgon2id K (argon2id_head memory iterations parallelism salt @ b64_encode body) presented compare
    = \<lparr>vr_Outcome = (if compare \<and> kdf_argon2id K presented salt iterations memory parallelism (length body) = body
          then OutcomeMatched else OutcomeMismatched),
       vr_Format = PasswordHashFormatArgon2id, vr_Params = argon2id_params memory iterations parallelism\<rparr>"
proof -
  have ps: "memory < 2 ^ 32" "iterations < 2 ^ 32" "parallelism < 2 ^ 32" using assms(1) by (auto simp: head_ok_def)
  have "CHR ''$'' \<notin> set (b64_encode body)" using b64_encode_chars [of "CHR ''$''" body] by (auto simp: b64_alphabet_def)
  note parts = argon2id_parts_head [OF this, of memory iterations parallelism salt]
  note pp = parseArgon2idParams_printed [OF ps]
  show ?thesis
    unfolding compareArgon2id_def argon2id_record parts
    using assms pp by (simp add: argon2id_record parts Let_def head_ok_def argon2id_above_ceiling_def param_of_def del: drop_append)
qed

lemma Hash_built:
  assumes "Hash K d saltDrawn password = Inr v"
  obtains salt where "saltDrawn = Some salt"
    "v = argon2id_head (param_of (dc_Params d) CostParamArgon2Memory) (param_of (dc_Params d) CostParamArgon2Iterations)
        (param_of (dc_Params d) CostParamArgon2Parallelism) salt
      @ b64_encode (kdf_argon2id K password salt (param_of (dc_Params d) CostParamArgon2Iterations)
          (param_of (dc_Params d) CostParamArgon2Memory) (param_of (dc_Params d) CostParamArgon2Parallelism) argon2idKeyLen)"
  using assms by (auto simp: Hash_def Let_def argon2idMaterial_def split: if_splits option.splits)

text \<open>
  C18: A hashed password is read back. Under a declaration that passes its validation, what the
  hasher writes for a password is verified as matched exactly for the passwords with the same
  derived key, so always for the password itself; it is never called unreadable or beyond the
  ceiling; and it meets the declaration it was written under, so no login hashes it again.
\<close>

theorem Hash_reads_back:
  assumes "kdf_length K" and "Declared_Validate d = None" and "Hash K d (Some salt) password = Inr v" and "salt \<noteq> []"
  shows "password_Verify K True True v presented
      = Some \<lparr>vr_Outcome = (if kdf_argon2id K presented salt (param_of (dc_Params d) CostParamArgon2Iterations)
              (param_of (dc_Params d) CostParamArgon2Memory) (param_of (dc_Params d) CostParamArgon2Parallelism) 32
            = kdf_argon2id K password salt (param_of (dc_Params d) CostParamArgon2Iterations)
              (param_of (dc_Params d) CostParamArgon2Memory) (param_of (dc_Params d) CostParamArgon2Parallelism) 32
            then OutcomeMatched else OutcomeMismatched),
          vr_Format = dc_Format d,
          vr_Params = argon2id_params (param_of (dc_Params d) CostParamArgon2Memory) (param_of (dc_Params d) CostParamArgon2Iterations)
            (param_of (dc_Params d) CostParamArgon2Parallelism)\<rparr>
    \<and> MeetsDeclared K v d = Some True"
proof -
  let ?m = "param_of (dc_Params d) CostParamArgon2Memory" and ?i = "param_of (dc_Params d) CostParamArgon2Iterations"
    and ?p = "param_of (dc_Params d) CostParamArgon2Parallelism"
  let ?key = "kdf_argon2id K password salt ?i ?m ?p argon2idKeyLen"
  have v: "v = argon2id_head ?m ?i ?p salt @ b64_encode ?key" using Hash_built [OF assms(3)] by auto
  have f: "dc_Format d = PasswordHashFormatArgon2id" and h: "head_ok ?m ?i ?p salt"
    using declared_head_ok [OF assms(2,4)] by auto
  have len: "length ?key = argon2idKeyLen" using assms(1) by (simp add: kdf_length_def)
  have c: "inspectAndCompare K v presented compare
    = \<lparr>vr_Outcome = (if compare \<and> kdf_argon2id K presented salt ?i ?m ?p (length ?key) = ?key then OutcomeMatched else OutcomeMismatched),
       vr_Format = PasswordHashFormatArgon2id, vr_Params = argon2id_params ?m ?i ?p\<rparr>" for presented compare
  proof -
    have "has_prefix v argon2idMarkerPrefix" "\<not> has_prefix v bcryptMarkerPrefix"
      unfolding v by (simp_all add: argon2id_head_def argon2idMarkerPrefix_def bcryptMarkerPrefix_def has_prefix_def)
    then have "inspectAndCompare K v presented compare = compareArgon2id K v presented compare" by (simp add: inspectAndCompare_def)
    also have "\<dots> = \<lparr>vr_Outcome = (if compare \<and> kdf_argon2id K presented salt ?i ?m ?p (length ?key) = ?key then OutcomeMatched else OutcomeMismatched),
       vr_Format = PasswordHashFormatArgon2id, vr_Params = argon2id_params ?m ?i ?p\<rparr>"
      unfolding v using len by (intro compareArgon2id_built [OF h]) (simp_all add: argon2idMinKeyLen_def argon2idKeyLen_def)
    finally show ?thesis .
  qed
  have "v \<noteq> []" by (simp add: v argon2id_head_def argon2idMarkerPrefix_def)
  moreover have "list_all (\<lambda>p. case dc_Params d p of None \<Rightarrow> True | Some want \<Rightarrow> want \<le> param_of (vr_Params r) p) all_cost_params"
    if "vr_Params r = argon2id_params ?m ?i ?p" for r :: VerifyResult
  proof -
    have "dc_Params d CostParamBcryptCost = None"
      using assms(2) f argon2id_record
      by (auto simp: Declared_Validate_def all_cost_params_def cost_params_def PasswordHashFormatArgon2id_def PasswordHashFormatBcrypt_def
          split: option.splits if_splits)
    then show ?thesis using that by (auto simp: all_cost_params_def argon2id_params_def param_of_def split: option.splits)
  qed
  ultimately show ?thesis
    using f by (simp add: password_Verify_def MeetsDeclared_def c assms(2) Let_def len) (simp add: argon2idKeyLen_def)
qed

definition sample_kdf :: Kdf where
  "sample_kdf = \<lparr>kdf_bcrypt = (\<lambda>stored pw. stored = pw),
     kdf_argon2id = (\<lambda>pw salt i m p n. take n (pw @ salt @ replicate n CHR ''k''))\<rparr>"

lemma sample_kdf_length: "kdf_length sample_kdf"
  by (auto simp: kdf_length_def sample_kdf_def min_def)

definition sample_declared :: Declared where
  "sample_declared = \<lparr>dc_Format = PasswordHashFormatArgon2id,
     dc_Params = [CostParamArgon2Memory \<mapsto> 65536, CostParamArgon2Iterations \<mapsto> 3, CostParamArgon2Parallelism \<mapsto> 4]\<rparr>"

lemma sample_declared_ok: "Declared_Validate sample_declared = None"
  by (simp add: Declared_Validate_def sample_declared_def PasswordHashFormatByMarker_def passwordHashFormats_def cost_params_def
      PasswordHashFormatArgon2id_def PasswordHashFormatBcrypt_def param_of_def all_cost_params_def)

lemma Hash_reads_back_witness:
  "MeetsDeclared sample_kdf (argon2idMaterial 65536 3 4 ''salt'' (kdf_argon2id sample_kdf ''pw'' ''salt'' 3 65536 4 32)) sample_declared = Some True"
proof -
  have "Hash sample_kdf sample_declared (Some ''salt'') ''pw''
      = Inr (argon2idMaterial 65536 3 4 ''salt'' (kdf_argon2id sample_kdf ''pw'' ''salt'' 3 65536 4 32))"
    by (simp add: Hash_def sample_declared_def param_of_def Let_def argon2idKeyLen_def)
  then show ?thesis using Hash_reads_back [OF sample_kdf_length sample_declared_ok] by blast
qed

subsection \<open>A set of codes is read back\<close>

definition code_element :: "Kdf \<Rightarrow> Declared \<Rightarrow> bytes \<Rightarrow> string \<Rightarrow> string" where
  \<comment> \<open>the element of a code under a salt\<close>
  "code_element K d salt code = b64_encode (kdf_argon2id K (normalizeBackupCode code) salt (param_of (dc_Params d) CostParamArgon2Iterations)
     (param_of (dc_Params d) CostParamArgon2Memory) (param_of (dc_Params d) CostParamArgon2Parallelism) argon2idKeyLen)"

definition set_value :: "Declared \<Rightarrow> bytes \<Rightarrow> string list \<Rightarrow> LoginVerifier" where
  "set_value d salt es = argon2id_head (param_of (dc_Params d) CostParamArgon2Memory) (param_of (dc_Params d) CostParamArgon2Iterations)
     (param_of (dc_Params d) CostParamArgon2Parallelism) salt @ set_body es"

lemma HashSet_value:
  assumes "HashSet K d (Some salt) codes = Inr v"
  shows "v = set_value d salt (map (code_element K d salt) codes)"
  using assms by (simp add: HashSet_def set_value_def set_body_def code_element_def Let_def comp_def split: if_splits option.splits)

lemma code_element_ok: "kdf_length K \<Longrightarrow> element_ok (code_element K d salt code)"
proof -
  assume "kdf_length K"
  then have "length (kdf_argon2id K (normalizeBackupCode code) salt (param_of (dc_Params d) CostParamArgon2Iterations)
     (param_of (dc_Params d) CostParamArgon2Memory) (param_of (dc_Params d) CostParamArgon2Parallelism) argon2idKeyLen) = 32"
    by (simp add: kdf_length_def argon2idKeyLen_def)
  then have "kdf_argon2id K (normalizeBackupCode code) salt (param_of (dc_Params d) CostParamArgon2Iterations)
     (param_of (dc_Params d) CostParamArgon2Memory) (param_of (dc_Params d) CostParamArgon2Parallelism) argon2idKeyLen \<noteq> []"
    by (metis length_0_conv zero_neq_numeral)
  then show ?thesis by (simp add: code_element_def element_ok_b64)
qed

lemma inspectSet_value:
  assumes "Declared_Validate d = None" "salt \<noteq> []" "\<And>e. e \<in> set es \<Longrightarrow> element_ok e"
  shows "inspectSet (set_value d salt es)
    = Inr \<lparr>sh_salt = salt, sh_memory = param_of (dc_Params d) CostParamArgon2Memory, sh_iterations = param_of (dc_Params d) CostParamArgon2Iterations,
        sh_parallelism = param_of (dc_Params d) CostParamArgon2Parallelism, sh_elements = es\<rparr>"
  unfolding set_value_def by (rule inspectSet_built [OF declared_head_ok(2) [OF assms(1,2)] assms(3)])

lemma set_value_not_Nil [simp]: "set_value d salt es \<noteq> []"
  by (simp add: set_value_def argon2id_head_def argon2idMarkerPrefix_def)

lemma SetCandidate_value:
  assumes "Declared_Validate d = None" "salt \<noteq> []" "\<And>e. e \<in> set es \<Longrightarrow> element_ok e"
  shows "SetCandidate K True True (set_value d salt es) code = Some (Inr (code_element K d salt code))"
  using inspectSet_value [OF assms] by (simp add: SetCandidate_def code_element_def)

lemma MatchSet_value:
  assumes "Declared_Validate d = None" "salt \<noteq> []" "\<And>e. e \<in> set es \<Longrightarrow> element_ok e"
  shows "MatchSet (set_value d salt es) (Inr e) = (if e \<in> set es then OutcomeMatched else OutcomeMismatched, length es)"
  using inspectSet_value [OF assms] by (simp add: MatchSet_def)

lemma SetSize_value:
  assumes "Declared_Validate d = None" "salt \<noteq> []" "\<And>e. e \<in> set es \<Longrightarrow> element_ok e"
  shows "SetSize (set_value d salt es) = Some (length es)"
  using inspectSet_value [OF assms] by (simp add: SetSize_def)

lemma upper_upper [simp]: "to_upper_char (to_upper_char c) = to_upper_char c"
  by (auto simp: to_upper_char_def is_lower_def byte_def)

subsection \<open>Codes that are drawn\<close>

lemma backup_alphabet: "length backupCodeAlphabet = 32" "distinct backupCodeAlphabet" "list_all (\<lambda>c. to_upper_char c = c) backupCodeAlphabet"
  by (simp_all add: backupCodeAlphabet_def to_upper_char_def is_lower_def byte_def)

lemma code_of_draw_ok: "length raw = BackupCodeLength \<Longrightarrow>
  IsWellFormedBackupCode (code_of_draw raw) \<and> normalizeBackupCode (code_of_draw raw) = code_of_draw raw"
proof -
  assume len: "length raw = BackupCodeLength"
  have c: "backupCodeAlphabet ! (byte c mod 32) \<in> set backupCodeAlphabet" for c
    using backup_alphabet(1) by (intro nth_mem) simp
  then have "to_upper_char (backupCodeAlphabet ! (byte c mod 32)) = backupCodeAlphabet ! (byte c mod 32)" for c
    using backup_alphabet(3) unfolding list_all_iff by blast
  then show ?thesis using len c
    by (simp add: IsWellFormedBackupCode_def normalizeBackupCode_def code_of_draw_def list_all_iff)
qed

lemma NewBackupCodes_from_ok:
  assumes "NewBackupCodes_from draws codes = Some out" "\<And>raw. raw \<in> set draws \<Longrightarrow> length raw = BackupCodeLength"
    "distinct codes" "length codes \<le> BackupCodeCount"
    "\<And>c. c \<in> set codes \<Longrightarrow> IsWellFormedBackupCode c \<and> normalizeBackupCode c = c"
  shows "distinct out \<and> length out = BackupCodeCount \<and> (\<forall>c \<in> set out. IsWellFormedBackupCode c \<and> normalizeBackupCode c = c)"
  using assms
proof (induction draws arbitrary: codes)
  case Nil
  then show ?case by (auto simp: NewBackupCodes_from.simps split: if_splits)
next
  case (Cons raw draws)
  show ?case
  proof (cases "length codes \<ge> BackupCodeCount")
    case True
    then show ?thesis using Cons.prems by (auto simp: NewBackupCodes_from.simps)
  next
    case False
    let ?codes = "if code_of_draw raw \<in> set codes then codes else codes @ [code_of_draw raw]"
    have "NewBackupCodes_from draws ?codes = Some out" using Cons.prems(1) False by (simp add: NewBackupCodes_from.simps)
    moreover have "length x = BackupCodeLength" if "x \<in> set draws" for x using Cons.prems(2) that by simp
    moreover have "distinct ?codes" "length ?codes \<le> BackupCodeCount" using Cons.prems(3) False by simp_all
    moreover have "IsWellFormedBackupCode c \<and> normalizeBackupCode c = c" if "c \<in> set ?codes" for c
      using Cons.prems(2) [of raw] Cons.prems(5) [of c] code_of_draw_ok [of raw] that by (auto split: if_splits)
    ultimately show ?thesis by (rule Cons.IH)
  qed
qed

text \<open>
  C17: A set of backup codes is read back. The codes that are minted are ten distinct well-formed
  codes; hashed into a set and presented in either case of letters, every one of them matches;
  what a presented code matches is exactly the codes with the same derived key; and the size of
  the set is ten.
\<close>

theorem HashSet_reads_back:
  assumes "kdf_length K" and "Declared_Validate d = None" and "salt \<noteq> []"
    and "\<And>raw. raw \<in> set draws \<Longrightarrow> length raw = BackupCodeLength" and "NewBackupCodes draws = Some codes"
    and "HashSet K d (Some salt) codes = Inr v"
  shows "distinct codes \<and> length codes = 10 \<and> (\<forall>c \<in> set codes. IsWellFormedBackupCode c)
    \<and> SetSize v = Some 10
    \<and> (\<exists>cand. SetCandidate K True True v presented = Some cand
        \<and> MatchSet v cand = (if \<exists>c \<in> set codes. code_element K d salt c = code_element K d salt presented
            then OutcomeMatched else OutcomeMismatched, 10)
        \<and> (\<forall>c \<in> set codes. map to_upper_char presented = c \<longrightarrow> fst (MatchSet v cand) = OutcomeMatched))"
proof -
  have codes: "distinct codes \<and> length codes = 10 \<and> (\<forall>c \<in> set codes. IsWellFormedBackupCode c \<and> normalizeBackupCode c = c)"
    using NewBackupCodes_from_ok [of draws "[]" codes] assms(4,5) by (simp add: NewBackupCodes_def BackupCodeCount_def)
  let ?es = "map (code_element K d salt) codes"
  have v: "v = set_value d salt ?es" by (rule HashSet_value [OF assms(6)])
  have ok: "e \<in> set ?es \<Longrightarrow> element_ok e" for e using code_element_ok [OF assms(1)] by auto
  let ?e = "code_element K d salt presented"
  note cand = SetCandidate_value [OF assms(2,3) ok, of "?es" K presented, folded v]
  note match = MatchSet_value [OF assms(2,3) ok, of "?es" "?e", folded v]
  have same: "?e \<in> set ?es \<longleftrightarrow> (\<exists>c \<in> set codes. code_element K d salt c = ?e)"
    unfolding set_map image_iff by (rule bex_cong [OF refl]) (rule eq_commute)
  have own: "?e \<in> set ?es" if "c \<in> set codes" "map to_upper_char presented = c" for c
  proof -
    have "normalizeBackupCode presented = normalizeBackupCode c"
      unfolding that(2) [symmetric] by (simp add: normalizeBackupCode_def)
    then have "code_element K d salt c = ?e" by (simp add: code_element_def)
    then show ?thesis using same that(1) by blast
  qed
  have size: "SetSize v = Some 10" using SetSize_value [OF assms(2,3) ok, of "?es", folded v] codes by simp
  have "MatchSet v (Inr ?e) = (if \<exists>c \<in> set codes. code_element K d salt c = ?e then OutcomeMatched else OutcomeMismatched, 10)"
    using match codes unfolding same by simp
  moreover have "fst (MatchSet v (Inr ?e)) = OutcomeMatched" if "c \<in> set codes" "map to_upper_char presented = c" for c
    using own [OF that] match by simp
  ultimately show ?thesis using codes size cand by blast
qed

definition sample_draws :: "bytes list" where
  "sample_draws = map (\<lambda>i. replicate 10 (char_of i)) [0..<10::nat]"

definition sample_codes :: "string list" where
  "sample_codes = map (\<lambda>c. replicate 10 c) ''0123456789''"

lemma sample_codes_drawn: "NewBackupCodes sample_draws = Some sample_codes"
  by code_simp

lemma HashSet_reads_back_witness: "SetSize (set_value sample_declared ''salt'' (map (code_element sample_kdf sample_declared ''salt'') sample_codes)) = Some 10"
proof -
  have "malformed_code 0 sample_codes = None" by code_simp
  then have "HashSet sample_kdf sample_declared (Some ''salt'') sample_codes
      = Inr (set_value sample_declared ''salt'' (map (code_element sample_kdf sample_declared ''salt'') sample_codes))"
    by (simp add: HashSet_def set_value_def set_body_def code_element_def sample_declared_def param_of_def Let_def comp_def sample_codes_def)
  moreover have "length raw = BackupCodeLength" if "raw \<in> set sample_draws" for raw
    using that by (auto simp: sample_draws_def BackupCodeLength_def)
  ultimately show ?thesis
    using HashSet_reads_back [OF sample_kdf_length sample_declared_ok, of "''salt''" sample_draws sample_codes] sample_codes_drawn by blast
qed

end
