(* ===== verification/Login_Methods.thy ===== *)
theory Login_Methods
  imports Login_Verifiers
begin

text \<open>
  The rows of login methods: a password, a secret of one-time codes and a set of backup codes per
  person, and every statement that reads or writes them.

  Sources: \<open>internal/domain/login_method.go\<close> and \<open>internal/repo/kaname/pg/login_method_repo.go\<close>.

  A table is a list of rows in the order of storage, an \<open>UPDATE\<close> maps it and a \<open>DELETE\<close> filters
  it; the key of the table is the pair of person and kind. A statement is atomic, so a function
  below is one statement. That the database cannot be reached is a matter of the callers. Texts
  are compared by their bytes.
\<close>

subsection \<open>A login method\<close>

type_synonym LoginMethodKind = string
type_synonym LoginMethodState = string

definition method_string :: "Method \<Rightarrow> string" where
  "method_string m = (case m of Method s \<Rightarrow> s)"

definition LoginMethodPassword :: LoginMethodKind where "LoginMethodPassword = method_string MethodPassword"
definition LoginMethodTOTP :: LoginMethodKind where "LoginMethodTOTP = method_string MethodTOTP"
definition LoginMethodLookupSecret :: LoginMethodKind where "LoginMethodLookupSecret = method_string MethodLookupSecret"

definition loginMethodKinds :: "LoginMethodKind list" where
  "loginMethodKinds = [LoginMethodPassword, LoginMethodTOTP, LoginMethodLookupSecret]"

definition LoginMethodStatePending :: LoginMethodState where "LoginMethodStatePending = ''pending''"
definition LoginMethodStateActive :: LoginMethodState where "LoginMethodStateActive = ''active''"

record LoginMethod =
  lm_UserID :: string
  lm_Kind :: LoginMethodKind
  lm_Verifier :: LoginVerifier
  lm_State :: LoginMethodState
  lm_AcceptedStep :: int
  lm_StepAccepted :: bool
  lm_CreatedAt :: instant
  lm_LastUsedAt :: instant
  lm_LastUsed :: bool

datatype method_fault = UserRequired | KindUnknown | VerifierRequired | StateUnknown | PendingOnlyTOTP | StepOnlyTOTP | UseOnlyFactor

definition LoginMethod_Validate :: "LoginMethod \<Rightarrow> method_fault option" where
  "LoginMethod_Validate m =
     (if lm_UserID m = [] then Some UserRequired
      else if lm_Kind m \<notin> set loginMethodKinds then Some KindUnknown
      else if lm_Verifier m = [] then Some VerifierRequired
      else if lm_State m \<noteq> LoginMethodStatePending \<and> lm_State m \<noteq> LoginMethodStateActive then Some StateUnknown
      else if lm_State m = LoginMethodStatePending \<and> lm_Kind m \<noteq> LoginMethodTOTP then Some PendingOnlyTOTP
      else if lm_StepAccepted m \<and> lm_Kind m \<noteq> LoginMethodTOTP then Some StepOnlyTOTP
      else if lm_LastUsed m \<and> lm_Kind m \<noteq> LoginMethodTOTP \<and> lm_Kind m \<noteq> LoginMethodLookupSecret then Some UseOnlyFactor
      else None)"

definition Enrolled :: "LoginMethod \<Rightarrow> bool" where
  "Enrolled m \<longleftrightarrow> lm_State m = LoginMethodStateActive"

definition SameMaterial :: "LoginVerifier \<Rightarrow> LoginVerifier \<Rightarrow> bool" where
  "SameMaterial v other \<longleftrightarrow> v \<noteq> [] \<and> other \<noteq> [] \<and> v = other"

subsection \<open>Tables\<close>

record MethodRow =
  ro_user :: string
  ro_kind :: LoginMethodKind
  ro_verifier :: string
  ro_state :: LoginMethodState
  ro_step :: "int option"
  ro_created :: instant
  ro_used :: "instant option"

record PersonRow =
  pn_id :: string
  pn_email :: string
  pn_verified_at :: "instant option"
  pn_created :: instant

record LoginTables =
  lt_people :: "PersonRow list"
  lt_rows :: "MethodRow list"
  lt_key_owners :: "string list" \<comment> \<open>owners of access keys\<close>

datatype lm_error = LmIllegalArgument | LmNotFound | LmAlreadyExists | LmFailedPrecondition | LmMalformed

definition at_key :: "string \<Rightarrow> LoginMethodKind \<Rightarrow> MethodRow \<Rightarrow> bool" where
  "at_key u k r \<longleftrightarrow> ro_user r = u \<and> ro_kind r = k"

definition row_at :: "string \<Rightarrow> LoginMethodKind \<Rightarrow> LoginTables \<Rightarrow> MethodRow option" where
  "row_at u k t = List.find (at_key u k) (lt_rows t)"

definition person :: "string \<Rightarrow> LoginTables \<Rightarrow> bool" where
  "person u t \<longleftrightarrow> list_ex (\<lambda>p. pn_id p = u) (lt_people t)"

definition update_rows :: "(MethodRow \<Rightarrow> bool) \<Rightarrow> (MethodRow \<Rightarrow> MethodRow) \<Rightarrow> LoginTables \<Rightarrow> LoginTables" where
  "update_rows c f t = t\<lparr>lt_rows := map (\<lambda>r. if c r then f r else r) (lt_rows t)\<rparr>"

definition delete_where :: "(MethodRow \<Rightarrow> bool) \<Rightarrow> LoginTables \<Rightarrow> LoginTables" where
  "delete_where c t = t\<lparr>lt_rows := filter (\<lambda>r. \<not> c r) (lt_rows t)\<rparr>"

definition affected :: "(MethodRow \<Rightarrow> bool) \<Rightarrow> LoginTables \<Rightarrow> nat" where
  "affected c t = length (filter c (lt_rows t))"

definition insert_row :: "MethodRow \<Rightarrow> LoginTables \<Rightarrow> LoginTables" where
  "insert_row r t = t\<lparr>lt_rows := lt_rows t @ [r]\<rparr>"

definition new_row :: "LoginMethod \<Rightarrow> instant \<Rightarrow> MethodRow" where
  "new_row m created = \<lparr>ro_user = lm_UserID m, ro_kind = lm_Kind m, ro_verifier = lm_Verifier m, ro_state = lm_State m,
     ro_step = None, ro_created = created, ro_used = None\<rparr>"

subsection \<open>Reading a row\<close>

definition build :: "MethodRow \<Rightarrow> (lm_error, LoginMethod) result" where
  "build r =
     (if ro_verifier r = [] then Inl LmMalformed
      else let m = \<lparr>lm_UserID = ro_user r, lm_Kind = ro_kind r, lm_Verifier = ro_verifier r, lm_State = ro_state r,
                 lm_AcceptedStep = (case ro_step r of Some s \<Rightarrow> s | None \<Rightarrow> 0), lm_StepAccepted = (ro_step r \<noteq> None),
                 lm_CreatedAt = ro_created r,
                 lm_LastUsedAt = (case ro_used r of Some x \<Rightarrow> x | None \<Rightarrow> zero_time), lm_LastUsed = (ro_used r \<noteq> None)\<rparr> in
        if LoginMethod_Validate m \<noteq> None then Inl LmMalformed else Inr m)"

definition getLoginMethod :: "string \<Rightarrow> LoginMethodKind \<Rightarrow> LoginTables \<Rightarrow> (lm_error, LoginMethod) result" where
  "getLoginMethod u k t =
     (if u = [] then Inl LmIllegalArgument
      else if k \<notin> set loginMethodKinds then Inl LmIllegalArgument
      else (case row_at u k t of None \<Rightarrow> Inl LmNotFound | Some r \<Rightarrow> build r))"

definition lockLookupSetTx :: "string \<Rightarrow> LoginTables \<Rightarrow> (lm_error, LoginMethod option) result" where
  "lockLookupSetTx u t =
     (if u = [] then Inl LmIllegalArgument
      else (case row_at u LoginMethodLookupSecret t of
              None \<Rightarrow> Inr None
            | Some r \<Rightarrow> (case build r of Inl err \<Rightarrow> Inl err | Inr m \<Rightarrow> Inr (Some m))))"

definition AccessKeyEnrolled :: "string \<Rightarrow> LoginTables \<Rightarrow> bool" where
  "AccessKeyEnrolled u t \<longleftrightarrow> u \<in> set (lt_key_owners t)"

fun build_all :: "MethodRow list \<Rightarrow> (lm_error, LoginMethod list) result" where
  "build_all [] = Inr []"
| "build_all (r # rs) =
     (case build r of Inl err \<Rightarrow> Inl err
      | Inr m \<Rightarrow> (case build_all rs of Inl err \<Rightarrow> Inl err | Inr ms \<Rightarrow> Inr (m # ms)))"

definition TOTPSecretsAfter :: "string \<Rightarrow> int \<Rightarrow> LoginTables \<Rightarrow> (lm_error, LoginMethod list) result" where
  "TOTPSecretsAfter after limit t =
     (if limit \<le> 0 then Inl LmIllegalArgument
      else build_all (take (nat limit) (sort_key ro_user (filter (\<lambda>r. ro_kind r = LoginMethodTOTP \<and> after < ro_user r) (lt_rows t)))))"

definition cost_class_prefix :: "string \<Rightarrow> string" where
  "cost_class_prefix v =
     (let parts = split_byte CHR ''$'' v in
      if has_prefix v (''$'' @ PasswordHashFormatBcrypt @ ''$'') then join_with ''$'' (take 3 parts)
      else if has_prefix v (''$'' @ PasswordHashFormatArgon2id @ ''$'') then join_with ''$'' (take 4 parts)
      else [])"

definition PasswordCostClasses :: "LoginTables \<Rightarrow> (string \<times> nat) list" where
  "PasswordCostClasses t =
     (let ps = map (\<lambda>r. cost_class_prefix (ro_verifier r)) (filter (\<lambda>r. ro_kind r = LoginMethodPassword) (lt_rows t)) in
      map (\<lambda>p. (p, length (filter (\<lambda>q. q = p) ps))) (sort (remdups ps)))"

subsection \<open>Writing rows\<close>

definition insertLoginMethod :: "instant \<Rightarrow> LoginMethod \<Rightarrow> LoginTables \<Rightarrow> (lm_error, LoginMethod \<times> LoginTables) result" where
  \<comment> \<open>the first argument is the clock of the database\<close>
  "insertLoginMethod clock m t =
     (if LoginMethod_Validate m \<noteq> None then Inl LmIllegalArgument
      else if row_at (lm_UserID m) (lm_Kind m) t \<noteq> None then Inl LmAlreadyExists
      else if \<not> person (lm_UserID m) t then Inl LmFailedPrecondition
      else Inr (m\<lparr>lm_CreatedAt := clock\<rparr>, insert_row (new_row m clock) t))"

definition EnrollLoginMethod :: "instant \<Rightarrow> LoginMethod \<Rightarrow> LoginTables \<Rightarrow> (lm_error, bool \<times> LoginTables) result" where
  "EnrollLoginMethod clock m t =
     (case insertLoginMethod clock m t of
        Inl err \<Rightarrow> if err = LmAlreadyExists then Inr (False, t) else Inl err
      | Inr (_, t') \<Rightarrow> Inr (True, t'))"

definition replaceLoginVerifierTx :: "LoginMethod \<Rightarrow> LoginTables \<Rightarrow> (lm_error, bool \<times> LoginTables) result" where
  "replaceLoginVerifierTx m t =
     (if LoginMethod_Validate m \<noteq> None then Inl LmIllegalArgument
      else let c = at_key (lm_UserID m) (lm_Kind m) in
        Inr (affected c t = 1, update_rows c (\<lambda>r. r\<lparr>ro_verifier := lm_Verifier m\<rparr>) t))"

definition putLoginVerifierTx :: "instant \<Rightarrow> LoginMethod \<Rightarrow> LoginTables \<Rightarrow> (lm_error, bool \<times> LoginTables) result" where
  "putLoginVerifierTx clock m t =
     (if LoginMethod_Validate m \<noteq> None then Inl LmIllegalArgument
      else if lm_Kind m \<noteq> LoginMethodPassword \<or> lm_State m \<noteq> LoginMethodStateActive then Inl LmIllegalArgument
      else if row_at (lm_UserID m) (lm_Kind m) t \<noteq> None
        then Inr (False, update_rows (at_key (lm_UserID m) (lm_Kind m)) (\<lambda>r. r\<lparr>ro_verifier := lm_Verifier m\<rparr>) t)
      else if \<not> person (lm_UserID m) t then Inl LmFailedPrecondition
      else Inr (True, insert_row (new_row m clock) t))"

definition upsertPendingTOTPTx :: "LoginMethod \<Rightarrow> LoginTables \<Rightarrow> (lm_error, bool \<times> LoginTables) result" where
  "upsertPendingTOTPTx m t =
     (if LoginMethod_Validate m \<noteq> None then Inl LmIllegalArgument
      else if lm_Kind m \<noteq> LoginMethodTOTP \<or> lm_State m \<noteq> LoginMethodStatePending \<or> is_zero_time (lm_CreatedAt m) then Inl LmIllegalArgument
      else if row_at (lm_UserID m) (lm_Kind m) t \<noteq> None
        then let c = (\<lambda>r. at_key (lm_UserID m) (lm_Kind m) r \<and> ro_state r \<noteq> LoginMethodStateActive) in
          Inr (affected c t = 1, update_rows c (\<lambda>r. r\<lparr>ro_verifier := lm_Verifier m, ro_state := lm_State m, ro_step := None,
            ro_created := lm_CreatedAt m, ro_used := None\<rparr>) t)
      else if \<not> person (lm_UserID m) t then Inl LmFailedPrecondition
      else Inr (True, insert_row (new_row m (lm_CreatedAt m)) t))"

definition activateTOTPTx :: "string \<Rightarrow> instant \<Rightarrow> int \<Rightarrow> instant \<Rightarrow> LoginTables \<Rightarrow> (lm_error, bool \<times> LoginTables) result" where
  "activateTOTPTx u pendingSince step at t =
     (if u = [] \<or> is_zero_time pendingSince \<or> is_zero_time at then Inl LmIllegalArgument
      else let c = (\<lambda>r. at_key u LoginMethodTOTP r \<and> ro_state r = LoginMethodStatePending \<and> ro_created r = pendingSince) in
        Inr (affected c t = 1, update_rows c (\<lambda>r. r\<lparr>ro_state := LoginMethodStateActive, ro_step := Some step, ro_created := at\<rparr>) t))"

definition replaceLookupSetTx :: "LoginMethod \<Rightarrow> LoginTables \<Rightarrow> (lm_error, LoginTables) result" where
  "replaceLookupSetTx m t =
     (if LoginMethod_Validate m \<noteq> None then Inl LmIllegalArgument
      else if lm_Kind m \<noteq> LoginMethodLookupSecret \<or> is_zero_time (lm_CreatedAt m) then Inl LmIllegalArgument
      else if row_at (lm_UserID m) (lm_Kind m) t \<noteq> None
        then Inr (update_rows (at_key (lm_UserID m) (lm_Kind m)) (\<lambda>r. r\<lparr>ro_verifier := lm_Verifier m, ro_state := lm_State m,
          ro_created := lm_CreatedAt m, ro_used := None\<rparr>) t)
      else if \<not> person (lm_UserID m) t then Inl LmFailedPrecondition
      else Inr (insert_row (new_row m (lm_CreatedAt m)) t))"

definition sql_replace :: "string \<Rightarrow> string \<Rightarrow> string \<Rightarrow> string" where
  \<comment> \<open>the function \<open>replace\<close> of the database: every occurrence, from the left\<close>
  "sql_replace s old new = (if old = [] then s else join_with new (split_str old s))"

definition consumeLookupElementTx :: "string \<Rightarrow> string \<Rightarrow> instant \<Rightarrow> LoginTables \<Rightarrow> (lm_error, bool \<times> LoginTables) result" where
  "consumeLookupElementTx u element at t =
     (if u = [] \<or> element = [] \<or> CHR '','' \<in> set element then Inl LmIllegalArgument
      else if is_zero_time at then Inl LmIllegalArgument
      else let c = (\<lambda>r. at_key u LoginMethodLookupSecret r \<and> contains_str (ro_verifier r) ('','' @ element @ '','')) in
        Inr (affected c t = 1,
          update_rows c (\<lambda>r. r\<lparr>ro_verifier := sql_replace (ro_verifier r) ('','' @ element @ '','') '','', ro_used := Some at\<rparr>) t))"

definition recordAcceptedStepTx :: "string \<Rightarrow> int \<Rightarrow> instant \<Rightarrow> LoginTables \<Rightarrow> (lm_error, bool \<times> LoginTables) result" where
  "recordAcceptedStepTx u step at t =
     (if u = [] then Inl LmIllegalArgument
      else if is_zero_time at then Inl LmIllegalArgument
      else let c = (\<lambda>r. at_key u LoginMethodTOTP r \<and> ro_state r = LoginMethodStateActive
                \<and> (case ro_step r of None \<Rightarrow> True | Some l \<Rightarrow> l < step)) in
        Inr (affected c t = 1, update_rows c (\<lambda>r. r\<lparr>ro_step := Some step, ro_used := Some at\<rparr>) t))"

definition removeSecondFactorTx :: "string \<Rightarrow> LoginTables \<Rightarrow> (lm_error, bool \<times> LoginTables) result" where
  "removeSecondFactorTx u t =
     (if u = [] then Inl LmIllegalArgument
      else let factor = (\<lambda>r. at_key u LoginMethodTOTP r \<and> ro_state r = LoginMethodStateActive);
               removed = affected factor t in
        Inr (removed = 1, delete_where (\<lambda>r. factor r \<or> at_key u LoginMethodLookupSecret r \<and> removed > 0) t))"

definition retireStartedEnrolmentTx :: "string \<Rightarrow> LoginTables \<Rightarrow> (lm_error, nat \<times> LoginTables) result" where
  "retireStartedEnrolmentTx u t =
     (if u = [] then Inl LmIllegalArgument
      else let c = (\<lambda>r. at_key u LoginMethodTOTP r \<and> ro_state r = LoginMethodStatePending) in Inr (affected c t, delete_where c t))"

definition SweepExpiredEnrollments :: "instant \<Rightarrow> duration \<Rightarrow> int \<Rightarrow> LoginTables \<Rightarrow> (lm_error, nat \<times> bool \<times> LoginTables) result" where
  "SweepExpiredEnrollments clock window batch t =
     (if window \<le> 0 \<or> batch \<le> 0 then Inl LmIllegalArgument
      else let due = take (nat batch) (filter (\<lambda>r. ro_kind r = LoginMethodTOTP \<and> ro_state r = LoginMethodStatePending
                 \<and> ro_created r < clock - window) (lt_rows t)) in
        Inr (length due, int (length due) \<ge> batch, delete_where (\<lambda>r. r \<in> set due) t))"

definition SwapTOTPSecret :: "string \<Rightarrow> LoginVerifier \<Rightarrow> LoginVerifier \<Rightarrow> LoginTables \<Rightarrow> (lm_error, bool \<times> LoginTables) result" where
  "SwapTOTPSecret u prev new t =
     (if u = [] \<or> prev = [] \<or> new = [] then Inl LmIllegalArgument
      else let c = (\<lambda>r. at_key u LoginMethodTOTP r \<and> ro_verifier r = prev) in
        Inr (affected c t = 1, update_rows c (\<lambda>r. r\<lparr>ro_verifier := new\<rparr>) t))"

subsection \<open>The address of a person\<close>

definition MarkEmailVerified :: "(string \<Rightarrow> string) \<Rightarrow> string \<Rightarrow> string \<Rightarrow> instant \<Rightarrow> LoginTables \<Rightarrow> (lm_error, LoginTables) result" where
  \<comment> \<open>\<open>lower\<close> is the function of the database\<close>
  "MarkEmailVerified lower u address at t =
     (if is_zero_time at then Inl LmIllegalArgument
      else if u = [] then Inl LmIllegalArgument
      else let c = (\<lambda>p. pn_id p = u \<and> lower (pn_email p) = lower address) in
        if \<not> person u t then Inl LmNotFound
        else if \<not> list_ex c (lt_people t) then Inl LmFailedPrecondition
        else Inr (t\<lparr>lt_people := map (\<lambda>p. if c p then p\<lparr>pn_verified_at := Some at\<rparr> else p) (lt_people t)\<rparr>))"

definition EmailVerification :: "string \<Rightarrow> LoginTables \<Rightarrow> (lm_error, instant option) result" where
  "EmailVerification u t =
     (if u = [] then Inl LmIllegalArgument
      else (case List.find (\<lambda>p. pn_id p = u) (lt_people t) of None \<Rightarrow> Inl LmNotFound | Some p \<Rightarrow> Inr (pn_verified_at p)))"

definition recoveryTargetRow :: "(string \<Rightarrow> string) \<Rightarrow> string \<Rightarrow> LoginTables \<Rightarrow> (PersonRow \<times> bool \<times> bool) option" where
  \<comment> \<open>the person, whether the address is verified, whether there is a password; the first by time of creation, then by id\<close>
  "recoveryTargetRow lower email t =
     (case sort_key pn_created (sort_key pn_id (filter (\<lambda>p. lower (pn_email p) = lower email) (lt_people t))) of
        [] \<Rightarrow> None
      | p # _ \<Rightarrow> Some (p, pn_verified_at p \<noteq> None, row_at (pn_id p) LoginMethodPassword t \<noteq> None))"

subsection \<open>Taking an element out of a set\<close>

definition segs :: "string list \<Rightarrow> string" where
  "segs ps = concat (map (\<lambda>p. CHR '','' # p) ps)"

lemma segs_simps [simp]: "segs [] = []" "segs (p # ps) = CHR '','' # p @ segs ps" "segs (ps @ qs) = segs ps @ segs qs"
  by (simp_all add: segs_def)

lemma has_prefix_Cons [simp]: "has_prefix (x # s) (y # p) \<longleftrightarrow> x = y \<and> has_prefix s p"
  by (auto simp: has_prefix_def)

lemma has_prefix_Nil [simp]: "has_prefix s []"
  by (simp add: has_prefix_def)

lemma cut_str_skip:
  "c \<notin> set u \<Longrightarrow> cut_str (c # r) (u @ s) = (u @ fst (cut_str (c # r) s), fst (snd (cut_str (c # r) s)), snd (snd (cut_str (c # r) s)))"
  by (induction u) (auto split: prod.splits)

lemma prefix_sep:
  assumes "c \<notin> set e" "c \<notin> set p"
  shows "has_prefix (p @ c # z) (e @ [c]) \<longleftrightarrow> e = p"
  using assms
proof (induction e arbitrary: p)
  case Nil
  then show ?case by (cases p) auto
next
  case (Cons x e)
  then show ?case by (cases p) auto
qed

lemma prefix_no_sep: "c \<notin> set p \<Longrightarrow> \<not> has_prefix p (e @ [c])"
proof (induction e arbitrary: p)
  case Nil
  then show ?case by (cases p) (auto simp: has_prefix_def)
next
  case (Cons x e)
  then show ?case by (cases p) (auto simp: has_prefix_def)
qed

lemma prefix_segs:
  assumes "CHR '','' \<notin> set e" "CHR '','' \<notin> set p"
  shows "has_prefix (p @ segs ps) (e @ '','') \<longleftrightarrow> ps \<noteq> [] \<and> e = p"
  using prefix_sep [OF assms] prefix_no_sep [OF assms(2), of e] by (cases ps) auto

lemma cut_segs_absent:
  assumes "CHR '','' \<notin> set e" "\<And>p. p \<in> set ps \<Longrightarrow> CHR '','' \<notin> set p" "e \<notin> set (butlast ps)"
  shows "cut_str (CHR '','' # e @ '','') (segs ps) = (segs ps, [], False)"
  using assms(2,3)
proof (induction ps)
  case (Cons p ps)
  have p: "CHR '','' \<notin> set p" using Cons.prems(1) by simp
  have "cut_str (CHR '','' # e @ '','') (segs ps) = (segs ps, [], False)"
  proof (rule Cons.IH)
    show "CHR '','' \<notin> set x" if "x \<in> set ps" for x using Cons.prems(1) [of x] that by simp
    show "e \<notin> set (butlast ps)" using Cons.prems(2) by (cases ps) simp_all
  qed
  moreover have "\<not> has_prefix (p @ segs ps) (e @ '','')"
    using prefix_segs [OF assms(1) p, of ps] Cons.prems(2) by (cases ps) simp_all
  ultimately show ?case using cut_str_skip [OF p, of "e @ '',''" "segs ps"] by simp
qed simp

lemma cut_segs_found:
  assumes "CHR '','' \<notin> set e" "\<And>p. p \<in> set pre \<Longrightarrow> CHR '','' \<notin> set p" "e \<notin> set pre" "post \<noteq> []"
  shows "cut_str (CHR '','' # e @ '','') (segs (pre @ e # post)) = (segs pre, drop 1 (segs post), True)"
  using assms(2,3)
proof (induction pre)
  case Nil
  have "has_prefix (e @ segs post) (e @ '','')" using prefix_segs [OF assms(1) assms(1)] assms(4) by simp
  moreover obtain q qs where "post = q # qs" using assms(4) by (cases post) auto
  ultimately show ?case by simp
next
  case (Cons p pre)
  have p: "CHR '','' \<notin> set p" using Cons.prems(1) by simp
  have "\<not> has_prefix (p @ segs (pre @ e # post)) (e @ '','')" using prefix_segs [OF assms(1) p, of "pre @ e # post"] Cons.prems(2) by auto
  then show ?case using Cons cut_str_skip [OF p, of "e @ '',''" "segs (pre @ e # post)"] by simp
qed

lemma sql_replace_absent:
  assumes "CHR '','' \<notin> set e" "CHR '','' \<notin> set a" "\<And>p. p \<in> set ps \<Longrightarrow> CHR '','' \<notin> set p" "e \<notin> set (butlast ps)"
  shows "\<not> contains_str (a @ segs ps) ('','' @ e @ '','')"
  using cut_segs_absent [OF assms(1,3,4)] cut_str_skip [OF assms(2), of "e @ '',''" "segs ps"] by (simp add: contains_str_def)

lemma sql_replace_found:
  assumes "CHR '','' \<notin> set e" "CHR '','' \<notin> set a" "\<And>p. p \<in> set (pre @ post) \<Longrightarrow> CHR '','' \<notin> set p"
    and "e \<notin> set pre" "e \<notin> set post" "post \<noteq> []"
  shows "contains_str (a @ segs (pre @ e # post)) ('','' @ e @ '','')"
    and "sql_replace (a @ segs (pre @ e # post)) ('','' @ e @ '','') '','' = a @ segs (pre @ post)"
proof -
  let ?sep = "CHR '','' # e @ '',''"
  have cut: "cut_str ?sep (a @ segs (pre @ e # post)) = (a @ segs pre, drop 1 (segs post), True)"
    using cut_segs_found [OF assms(1) _ assms(4,6)] assms(3) cut_str_skip [OF assms(2), of "e @ '',''" "segs (pre @ e # post)"] by simp
  then show "contains_str (a @ segs (pre @ e # post)) ('','' @ e @ '','')" by (simp add: contains_str_def)
  obtain q qs where post: "post = q # qs" using assms(6) by (cases post) auto
  have q: "CHR '','' \<notin> set q" using assms(3) [of q] post by simp
  have "cut_str ?sep (segs qs) = (segs qs, [], False)"
    by (rule cut_segs_absent [OF assms(1)]) (use assms(3,5) post in \<open>auto dest: in_set_butlastD\<close>)
  then have "cut_str ?sep (q @ segs qs) = (q @ segs qs, [], False)" using cut_str_skip [OF q, of "e @ '',''" "segs qs"] by simp
  then have "split_str ?sep (q @ segs qs) = [q @ segs qs]" by (simp add: split_str.simps)
  then have "split_str ?sep (a @ segs (pre @ e # post)) = [a @ segs pre, q @ segs qs]"
    using cut post by (subst split_str.simps) simp
  then show "sql_replace (a @ segs (pre @ e # post)) ('','' @ e @ '','') '','' = a @ segs (pre @ post)"
    by (simp add: sql_replace_def post)
qed

lemma set_body_segs: "set_body es = segs (es @ [[]])"
  unfolding set_body_def by (induction es) auto

lemma argon2id_head_segs:
  obtains b c where "argon2id_head memory iterations parallelism salt = argon2idMarkerPrefix @ argon2idVersionPrefix @ ''m='' @ decimal memory @ segs [b, c]"
    and "CHR '','' \<notin> set (argon2idMarkerPrefix @ argon2idVersionPrefix @ ''m='' @ decimal memory)"
    and "CHR '','' \<notin> set b" "CHR '','' \<notin> set c" "\<not> element_ok b" "\<not> element_ok c"
proof
  have d: "CHR '','' \<notin> set (decimal n)" for n using decimal_no [of "CHR '',''" n] by (auto simp: is_digit_def byte_def)
  have s: "CHR '','' \<notin> set (b64_encode salt)" using b64_encode_chars [of "CHR '',''" salt] by (auto simp: b64_alphabet_def)
  let ?b = "''t='' @ decimal iterations" and ?c = "''p='' @ decimal parallelism @ ''$'' @ b64_encode salt @ ''$''"
  show "argon2id_head memory iterations parallelism salt = argon2idMarkerPrefix @ argon2idVersionPrefix @ ''m='' @ decimal memory @ segs [?b, ?c]"
    by (simp add: argon2id_head_def)
  show "CHR '','' \<notin> set (argon2idMarkerPrefix @ argon2idVersionPrefix @ ''m='' @ decimal memory)"
    using d by (simp add: argon2idMarkerPrefix_def argon2idVersionPrefix_def)
  show "CHR '','' \<notin> set ?b" "CHR '','' \<notin> set ?c" using d s by simp_all
  show "\<not> element_ok ?b" "\<not> element_ok ?c" using element_ok_no [of ?b "CHR ''=''"] element_ok_no [of ?c "CHR ''=''"] by auto
qed

lemma consume_value:
  assumes "element_ok e" "distinct es" "\<And>x. x \<in> set es \<Longrightarrow> element_ok x"
  shows "contains_str (set_value d salt es) ('','' @ e @ '','') \<longleftrightarrow> e \<in> set es"
    and "e \<in> set es \<Longrightarrow> sql_replace (set_value d salt es) ('','' @ e @ '','') '','' = set_value d salt (filter (\<lambda>x. x \<noteq> e) es)"
proof -
  obtain b c where h: "argon2id_head (param_of (dc_Params d) CostParamArgon2Memory) (param_of (dc_Params d) CostParamArgon2Iterations)
      (param_of (dc_Params d) CostParamArgon2Parallelism) salt
      = argon2idMarkerPrefix @ argon2idVersionPrefix @ ''m='' @ decimal (param_of (dc_Params d) CostParamArgon2Memory) @ segs [b, c]"
    and a: "CHR '','' \<notin> set (argon2idMarkerPrefix @ argon2idVersionPrefix @ ''m='' @ decimal (param_of (dc_Params d) CostParamArgon2Memory))"
    and bc: "CHR '','' \<notin> set b" "CHR '','' \<notin> set c" "\<not> element_ok b" "\<not> element_ok c"
    by (rule argon2id_head_segs)
  let ?a = "argon2idMarkerPrefix @ argon2idVersionPrefix @ ''m='' @ decimal (param_of (dc_Params d) CostParamArgon2Memory)"
  have v: "set_value d salt xs = ?a @ segs (b # c # xs @ [[]])" for xs
    by (simp add: set_value_def h set_body_segs)
  have no: "CHR '','' \<notin> set x" if "element_ok x" for x using element_ok_no [OF that] by blast
  have e: "CHR '','' \<notin> set e" "e \<noteq> []" "e \<noteq> b" "e \<noteq> c" using no [OF assms(1)] assms(1) bc by (auto simp: element_ok_def)
  have found: "contains_str (set_value d salt es) ('','' @ e @ '','')
      \<and> sql_replace (set_value d salt es) ('','' @ e @ '','') '','' = set_value d salt (filter (\<lambda>x. x \<noteq> e) es)" if "e \<in> set es"
  proof -
    from that obtain pre post where es: "es = pre @ e # post" by (meson split_list)
    have n: "e \<notin> set pre" "e \<notin> set post" using assms(2) es by auto
    have "filter (\<lambda>x. x \<noteq> e) es = pre @ post" using n by (simp add: es) (metis (mono_tags, lifting) filter_True)
    moreover have "CHR '','' \<notin> set x" if "x \<in> set ((b # c # pre) @ post @ [[]])" for x
      using that bc no assms(3) es by auto
    moreover have "e \<notin> set (b # c # pre)" "e \<notin> set (post @ [[]])" using n e by auto
    ultimately show ?thesis
      using sql_replace_found [OF e(1) a, of "b # c # pre" "post @ [[]]"] unfolding v by (simp add: es)
  qed
  have "\<not> contains_str (set_value d salt es) ('','' @ e @ '','')" if "e \<notin> set es"
  proof -
    have "CHR '','' \<notin> set x" if "x \<in> set (b # c # es @ [[]])" for x using that bc no assms(3) by auto
    moreover have "e \<notin> set (butlast (b # c # es @ [[]]))" using that e by (simp add: butlast_append)
    ultimately show ?thesis unfolding v by (rule sql_replace_absent [OF e(1) a])
  qed
  then show "contains_str (set_value d salt es) ('','' @ e @ '','') \<longleftrightarrow> e \<in> set es" using found by blast
  show "e \<in> set es \<Longrightarrow> sql_replace (set_value d salt es) ('','' @ e @ '','') '','' = set_value d salt (filter (\<lambda>x. x \<noteq> e) es)"
    using found by blast
qed

subsection \<open>Sequences of statements\<close>

datatype lm_op =
    OpInsert instant LoginMethod
  | OpReplace LoginMethod
  | OpPut instant LoginMethod
  | OpPending LoginMethod
  | OpActivate string instant int instant
  | OpReplaceSet LoginMethod
  | OpConsume string string instant
  | OpStep string int instant
  | OpRemove string
  | OpRetire string
  | OpSweep instant duration int
  | OpSwap string LoginVerifier LoginVerifier
  | OpMark "string \<Rightarrow> string" string string instant

definition stored_by :: "LoginTables \<Rightarrow> (lm_error, LoginTables) result \<Rightarrow> LoginTables" where
  \<comment> \<open>a refused statement writes nothing\<close>
  "stored_by t res = (case res of Inl _ \<Rightarrow> t | Inr t' \<Rightarrow> t')"

definition flagged :: "LoginTables \<Rightarrow> (lm_error, 'a \<times> LoginTables) result \<Rightarrow> LoginTables" where
  "flagged t res = (case res of Inl _ \<Rightarrow> t | Inr (_, t') \<Rightarrow> t')"

fun lm_exec :: "lm_op \<Rightarrow> LoginTables \<Rightarrow> LoginTables" where
  "lm_exec (OpInsert clock m) t = flagged t (insertLoginMethod clock m t)"
| "lm_exec (OpReplace m) t = flagged t (replaceLoginVerifierTx m t)"
| "lm_exec (OpPut clock m) t = flagged t (putLoginVerifierTx clock m t)"
| "lm_exec (OpPending m) t = flagged t (upsertPendingTOTPTx m t)"
| "lm_exec (OpActivate u since step at) t = flagged t (activateTOTPTx u since step at t)"
| "lm_exec (OpReplaceSet m) t = stored_by t (replaceLookupSetTx m t)"
| "lm_exec (OpConsume u e at) t = flagged t (consumeLookupElementTx u e at t)"
| "lm_exec (OpStep u step at) t = flagged t (recordAcceptedStepTx u step at t)"
| "lm_exec (OpRemove u) t = flagged t (removeSecondFactorTx u t)"
| "lm_exec (OpRetire u) t = flagged t (retireStartedEnrolmentTx u t)"
| "lm_exec (OpSweep clock window batch) t = (case SweepExpiredEnrollments clock window batch t of Inl _ \<Rightarrow> t | Inr (_, _, t') \<Rightarrow> t')"
| "lm_exec (OpSwap u prev new) t = flagged t (SwapTOTPSecret u prev new t)"
| "lm_exec (OpMark lower u address at) t = stored_by t (MarkEmailVerified lower u address at t)"

definition lm_run :: "lm_op list \<Rightarrow> LoginTables \<Rightarrow> LoginTables" where
  "lm_run ops t = fold lm_exec ops t"

definition row_keys :: "LoginTables \<Rightarrow> (string \<times> LoginMethodKind) list" where
  "row_keys t = map (\<lambda>r. (ro_user r, ro_kind r)) (lt_rows t)"

definition readable :: "MethodRow \<Rightarrow> bool" where
  "readable r \<longleftrightarrow> is_ok (build r)"

definition tables_ok :: "LoginTables \<Rightarrow> bool" where
  \<comment> \<open>the key of the table, its reference to the people, and rows that are read without a fault\<close>
  "tables_ok t \<longleftrightarrow> distinct (row_keys t) \<and> (\<forall>r \<in> set (lt_rows t). readable r \<and> person (ro_user r) t)"

subsection \<open>How statements act on rows\<close>

lemma row_at_Some: "distinct (row_keys t) \<Longrightarrow> row_at u k t = Some r \<longleftrightarrow> r \<in> set (lt_rows t) \<and> at_key u k r"
proof
  show "row_at u k t = Some r \<Longrightarrow> r \<in> set (lt_rows t) \<and> at_key u k r"
    by (auto simp: row_at_def find_Some_iff intro: nth_mem)
next
  assume d: "distinct (row_keys t)" and r: "r \<in> set (lt_rows t) \<and> at_key u k r"
  then obtain q where q: "row_at u k t = Some q"
    by (cases "row_at u k t") (auto simp: row_at_def find_None_iff)
  then have "q \<in> set (lt_rows t)" "at_key u k q" by (auto simp: row_at_def find_Some_iff intro: nth_mem)
  then have "q = r" using d r by (auto simp: row_keys_def at_key_def distinct_map inj_on_def)
  then show "row_at u k t = Some r" using q by simp
qed

lemma row_at_None: "row_at u k t = None \<longleftrightarrow> (u, k) \<notin> set (row_keys t)"
  by (auto simp: row_at_def find_None_iff row_keys_def at_key_def)

lemma row_keys_update: "(\<And>r. c r \<Longrightarrow> ro_user (f r) = ro_user r \<and> ro_kind (f r) = ro_kind r) \<Longrightarrow> row_keys (update_rows c f t) = row_keys t"
  by (auto simp: row_keys_def update_rows_def)

lemma row_keys_insert [simp]: "row_keys (insert_row r t) = row_keys t @ [(ro_user r, ro_kind r)]"
  by (simp add: row_keys_def insert_row_def)

lemma row_keys_delete: "row_keys (delete_where c t) = map (\<lambda>r. (ro_user r, ro_kind r)) (filter (\<lambda>r. \<not> c r) (lt_rows t))"
  by (simp add: row_keys_def delete_where_def)

lemma distinct_row_keys_delete: "distinct (row_keys t) \<Longrightarrow> distinct (row_keys (delete_where c t))"
  unfolding row_keys_delete by (simp add: row_keys_def distinct_map_filter)

lemma person_writes [simp]:
  "person u (update_rows c f t) = person u t" "person u (insert_row r t) = person u t" "person u (delete_where c t) = person u t"
  by (simp_all add: person_def update_rows_def insert_row_def delete_where_def)

lemma rows_writes [simp]:
  "lt_rows (update_rows c f t) = map (\<lambda>r. if c r then f r else r) (lt_rows t)" "lt_rows (insert_row r t) = lt_rows t @ [r]"
  "lt_rows (delete_where c t) = filter (\<lambda>r. \<not> c r) (lt_rows t)"
  by (simp_all add: update_rows_def insert_row_def delete_where_def)

lemma affected_at_key:
  assumes "distinct (row_keys t)" "\<And>r. c r \<Longrightarrow> at_key u k r"
  shows "affected c t = (case row_at u k t of Some r \<Rightarrow> if c r then 1 else 0 | None \<Rightarrow> 0)"
proof -
  have "distinct (filter c (lt_rows t))" using assms(1) by (simp add: row_keys_def distinct_map)
  then have n: "affected c t = card {r \<in> set (lt_rows t). c r}"
    by (simp add: affected_def distinct_card [symmetric])
  show ?thesis
  proof (cases "row_at u k t")
    case None
    then have "\<not> c r" if "r \<in> set (lt_rows t)" for r
      using assms(2) [of r] that by (auto simp: row_at_def find_None_iff)
    then have "{r \<in> set (lt_rows t). c r} = {}" by blast
    then show ?thesis using n None by simp
  next
    case (Some q)
    then have q: "q \<in> set (lt_rows t)" "at_key u k q" using row_at_Some [OF assms(1)] by auto
    have one: "r = q" if r: "r \<in> set (lt_rows t)" "c r" for r
    proof -
      have "row_at u k t = Some r" using row_at_Some [OF assms(1)] r(1) assms(2) [OF r(2)] by blast
      then show ?thesis using Some by simp
    qed
    show ?thesis
    proof (cases "c q")
      case True
      then have "{r \<in> set (lt_rows t). c r} = {q}" using one q(1) by blast
      then show ?thesis using n Some True by simp
    next
      case False
      then have "{r \<in> set (lt_rows t). c r} = {}" using one by blast
      then show ?thesis using n Some False by simp
    qed
  qed
qed

lemma readable_iff:
  "readable r \<longleftrightarrow> ro_user r \<noteq> [] \<and> ro_kind r \<in> set loginMethodKinds \<and> ro_verifier r \<noteq> []
     \<and> (ro_state r = LoginMethodStatePending \<and> ro_kind r = LoginMethodTOTP \<or> ro_state r = LoginMethodStateActive)
     \<and> (ro_step r \<noteq> None \<longrightarrow> ro_kind r = LoginMethodTOTP)
     \<and> (ro_used r \<noteq> None \<longrightarrow> ro_kind r = LoginMethodTOTP \<or> ro_kind r = LoginMethodLookupSecret)"
  by (auto simp: readable_def build_def LoginMethod_Validate_def Let_def LoginMethodStatePending_def LoginMethodStateActive_def split: if_splits)

lemma kinds_differ [simp]: "LoginMethodTOTP \<noteq> LoginMethodPassword" "LoginMethodLookupSecret \<noteq> LoginMethodPassword" "LoginMethodTOTP \<noteq> LoginMethodLookupSecret"
  "LoginMethodPassword \<noteq> LoginMethodTOTP" "LoginMethodPassword \<noteq> LoginMethodLookupSecret" "LoginMethodLookupSecret \<noteq> LoginMethodTOTP"
  "LoginMethodTOTP \<in> set loginMethodKinds" "LoginMethodPassword \<in> set loginMethodKinds" "LoginMethodLookupSecret \<in> set loginMethodKinds"
  "LoginMethodStatePending \<noteq> LoginMethodStateActive" "LoginMethodStateActive \<noteq> LoginMethodStatePending"
  by (simp_all add: LoginMethodTOTP_def LoginMethodPassword_def LoginMethodLookupSecret_def loginMethodKinds_def method_string_def
      MethodTOTP_def MethodPassword_def MethodLookupSecret_def LoginMethodStatePending_def LoginMethodStateActive_def)

lemma Validate_None:
  "LoginMethod_Validate m = None \<longleftrightarrow> lm_UserID m \<noteq> [] \<and> lm_Kind m \<in> set loginMethodKinds \<and> lm_Verifier m \<noteq> []
     \<and> (lm_State m = LoginMethodStatePending \<and> lm_Kind m = LoginMethodTOTP \<or> lm_State m = LoginMethodStateActive)
     \<and> (lm_StepAccepted m \<longrightarrow> lm_Kind m = LoginMethodTOTP)
     \<and> (lm_LastUsed m \<longrightarrow> lm_Kind m = LoginMethodTOTP \<or> lm_Kind m = LoginMethodLookupSecret)"
  by (auto simp: LoginMethod_Validate_def LoginMethodStatePending_def LoginMethodStateActive_def)

lemma tables_ok_update:
  assumes "tables_ok t" "\<And>r. c r \<Longrightarrow> readable r \<Longrightarrow> ro_user (f r) = ro_user r \<and> ro_kind (f r) = ro_kind r \<and> readable (f r)"
  shows "tables_ok (update_rows c f t)"
proof -
  have "row_keys (update_rows c f t) = row_keys t"
    using assms unfolding row_keys_def tables_ok_def by (auto simp: comp_def)
  then show ?thesis using assms unfolding tables_ok_def by auto
qed

lemma tables_ok_insert:
  "tables_ok t \<Longrightarrow> row_at (ro_user r) (ro_kind r) t = None \<Longrightarrow> readable r \<Longrightarrow> person (ro_user r) t \<Longrightarrow> tables_ok (insert_row r t)"
  by (auto simp: tables_ok_def row_at_None)

lemma tables_ok_delete: "tables_ok t \<Longrightarrow> tables_ok (delete_where c t)"
  by (simp add: tables_ok_def distinct_row_keys_delete)

lemma sql_replace_not_Nil:
  assumes "contains_str s old" "old \<noteq> []" "new \<noteq> []"
  shows "sql_replace s old new \<noteq> []"
proof -
  obtain a b where "cut_str old s = (a, b, True)" using assms(1) by (cases "cut_str old s") (auto simp: contains_str_def)
  then have "split_str old s = a # split_str old b" using assms(2) by (subst split_str.simps) simp
  moreover have "split_str old b \<noteq> []" by (subst split_str.simps) (auto split: prod.splits)
  ultimately obtain q qs where "split_str old s = a # q # qs" by (cases "split_str old b") auto
  then show ?thesis using assms(2,3) by (simp add: sql_replace_def)
qed

lemma stored_by_simps [simp]: "stored_by t (Inl err) = t" "stored_by t (Inr t') = t'"
  by (simp_all add: stored_by_def)

lemma flagged_simps [simp]: "flagged t (Inl err) = t" "flagged t (Inr (x, t')) = t'"
  by (simp_all add: flagged_def)

lemma tables_ok_people: "lt_rows t' = lt_rows t \<Longrightarrow> (\<And>u. person u t = person u t') \<Longrightarrow> tables_ok t' = tables_ok t"
  by (simp add: tables_ok_def row_keys_def)

subsection \<open>Rows stay readable\<close>

lemma new_row_readable:
  "LoginMethod_Validate m = None \<Longrightarrow> readable (new_row m clock)"
  "ro_user (new_row m clock) = lm_UserID m" "ro_kind (new_row m clock) = lm_Kind m"
  by (simp_all add: readable_iff Validate_None new_row_def)

lemma insertLoginMethod_ok: "tables_ok t \<Longrightarrow> insertLoginMethod clock m t = Inr (m', t') \<Longrightarrow> tables_ok t'"
  by (auto simp: insertLoginMethod_def new_row_readable intro!: tables_ok_insert split: if_splits)

lemma replaceLoginVerifierTx_ok: "tables_ok t \<Longrightarrow> replaceLoginVerifierTx m t = Inr (b, t') \<Longrightarrow> tables_ok t'"
  by (auto simp: replaceLoginVerifierTx_def Let_def Validate_None readable_iff at_key_def intro!: tables_ok_update split: if_splits)

lemma putLoginVerifierTx_ok: "tables_ok t \<Longrightarrow> putLoginVerifierTx clock m t = Inr (b, t') \<Longrightarrow> tables_ok t'"
  by (auto simp: putLoginVerifierTx_def new_row_readable intro!: tables_ok_insert split: if_splits)
    (auto simp: Validate_None readable_iff at_key_def intro!: tables_ok_update)

lemma upsertPendingTOTPTx_ok: "tables_ok t \<Longrightarrow> upsertPendingTOTPTx m t = Inr (b, t') \<Longrightarrow> tables_ok t'"
  by (auto simp: upsertPendingTOTPTx_def Let_def new_row_readable intro!: tables_ok_insert split: if_splits)
    (auto simp: Validate_None readable_iff at_key_def intro!: tables_ok_update)

lemma activateTOTPTx_ok: "tables_ok t \<Longrightarrow> activateTOTPTx u since step at t = Inr (b, t') \<Longrightarrow> tables_ok t'"
  by (auto simp: activateTOTPTx_def Let_def readable_iff at_key_def intro!: tables_ok_update split: if_splits)

lemma replaceLookupSetTx_ok: "tables_ok t \<Longrightarrow> replaceLookupSetTx m t = Inr t' \<Longrightarrow> tables_ok t'"
  by (auto simp: replaceLookupSetTx_def Let_def new_row_readable intro!: tables_ok_insert split: if_splits)
    (auto simp: Validate_None readable_iff at_key_def intro!: tables_ok_update)

lemma consumeLookupElementTx_ok: "tables_ok t \<Longrightarrow> consumeLookupElementTx u e at t = Inr (b, t') \<Longrightarrow> tables_ok t'"
  using sql_replace_not_Nil [of _ "CHR '','' # e @ '',''" "'',''"]
  by (auto simp: consumeLookupElementTx_def Let_def readable_iff at_key_def intro!: tables_ok_update split: if_splits)

lemma recordAcceptedStepTx_ok: "tables_ok t \<Longrightarrow> recordAcceptedStepTx u step at t = Inr (b, t') \<Longrightarrow> tables_ok t'"
  by (auto simp: recordAcceptedStepTx_def Let_def readable_iff at_key_def intro!: tables_ok_update split: if_splits)

lemma removeSecondFactorTx_ok: "tables_ok t \<Longrightarrow> removeSecondFactorTx u t = Inr (b, t') \<Longrightarrow> tables_ok t'"
  by (auto simp: removeSecondFactorTx_def Let_def intro!: tables_ok_delete split: if_splits)

lemma retireStartedEnrolmentTx_ok: "tables_ok t \<Longrightarrow> retireStartedEnrolmentTx u t = Inr (b, t') \<Longrightarrow> tables_ok t'"
  by (auto simp: retireStartedEnrolmentTx_def Let_def intro!: tables_ok_delete split: if_splits)

lemma SwapTOTPSecret_ok: "tables_ok t \<Longrightarrow> SwapTOTPSecret u prev new t = Inr (b, t') \<Longrightarrow> tables_ok t'"
  by (auto simp: SwapTOTPSecret_def Let_def readable_iff at_key_def intro!: tables_ok_update split: if_splits)

lemma person_ids: "person u t \<longleftrightarrow> u \<in> set (map pn_id (lt_people t))"
  by (auto simp: person_def list_ex_iff)

lemma MarkEmailVerified_ok: "tables_ok t \<Longrightarrow> MarkEmailVerified lower u address at t = Inr t' \<Longrightarrow> tables_ok t'"
proof -
  assume t: "tables_ok t" and m: "MarkEmailVerified lower u address at t = Inr t'"
  then have "lt_rows t' = lt_rows t" "map pn_id (lt_people t') = map pn_id (lt_people t)"
    by (auto simp: MarkEmailVerified_def Let_def split: if_splits)
  then have "lt_rows t' = lt_rows t" "\<And>u. person u t = person u t'" by (simp_all only: person_ids)
  then show ?thesis using t tables_ok_people [of t' t] by simp
qed

lemmas writes_ok = insertLoginMethod_ok replaceLoginVerifierTx_ok putLoginVerifierTx_ok upsertPendingTOTPTx_ok activateTOTPTx_ok
  replaceLookupSetTx_ok consumeLookupElementTx_ok recordAcceptedStepTx_ok removeSecondFactorTx_ok retireStartedEnrolmentTx_ok
  SwapTOTPSecret_ok MarkEmailVerified_ok

lemma lm_exec_ok: "tables_ok t \<Longrightarrow> tables_ok (lm_exec op1 t)"
  by (cases op1) (auto simp: flagged_def stored_by_def SweepExpiredEnrollments_def Let_def tables_ok_delete intro: writes_ok split: sum.splits prod.splits)

lemma lm_run_Cons [simp]: "lm_run [] t = t" "lm_run (op1 # ops) t = lm_run ops (lm_exec op1 t)"
  by (simp_all add: lm_run_def)

lemma lm_run_ok: "tables_ok t \<Longrightarrow> tables_ok (lm_run ops t)"
  by (induction ops arbitrary: t) (simp_all add: lm_exec_ok)

lemma getLoginMethod_ok:
  assumes "tables_ok t"
  shows "getLoginMethod u k t \<noteq> Inl LmMalformed"
proof (cases "row_at u k t")
  case (Some r)
  then have "readable r" using assms row_at_Some [of t u k r] by (auto simp: tables_ok_def)
  then show ?thesis using Some by (cases "build r") (auto simp: getLoginMethod_def readable_def)
qed (simp add: getLoginMethod_def)

subsection \<open>Steps that are accepted\<close>

definition accepts :: "lm_op \<Rightarrow> LoginTables \<Rightarrow> (string \<times> int) option" where
  \<comment> \<open>the person whose one-time code a statement accepts, and the step of the code\<close>
  "accepts op1 t =
     (case op1 of
        OpActivate u since step at \<Rightarrow> (case activateTOTPTx u since step at t of Inr (True, _) \<Rightarrow> Some (u, step) | _ \<Rightarrow> None)
      | OpStep u step at \<Rightarrow> (case recordAcceptedStepTx u step at t of Inr (True, _) \<Rightarrow> Some (u, step) | _ \<Rightarrow> None)
      | _ \<Rightarrow> None)"

definition spent :: "string \<Rightarrow> int \<Rightarrow> MethodRow \<Rightarrow> bool" where
  "spent u s r \<longleftrightarrow> at_key u LoginMethodTOTP r \<and> ro_state r = LoginMethodStateActive \<and> (\<exists>l. ro_step r = Some l \<and> s \<le> l)"

definition step_spent :: "string \<Rightarrow> int \<Rightarrow> LoginTables \<Rightarrow> bool" where
  "step_spent u s t \<longleftrightarrow> (\<exists>r \<in> set (lt_rows t). spent u s r)"

lemma step_spent_update:
  assumes "step_spent u s t" "\<And>r. spent u s r \<Longrightarrow> c r \<Longrightarrow> spent u s (f r)"
  shows "step_spent u s (update_rows c f t)"
  using assms by (auto simp: step_spent_def)

lemma step_spent_written: "r \<in> set (lt_rows t) \<Longrightarrow> c r \<Longrightarrow> spent u s (f r) \<Longrightarrow> step_spent u s (update_rows c f t)"
  by (auto simp: step_spent_def)

lemma step_spent_insert: "step_spent u s t \<Longrightarrow> step_spent u s (insert_row r t)"
  by (auto simp: step_spent_def)

lemma step_spent_delete: "step_spent u s t \<Longrightarrow> (\<And>r. spent u s r \<Longrightarrow> \<not> c r) \<Longrightarrow> step_spent u s (delete_where c t)"
  by (auto simp: step_spent_def)

lemma step_spent_kept:
  assumes "step_spent u s t" "op1 \<noteq> OpRemove u"
  shows "step_spent u s (lm_exec op1 t)"
proof (cases op1)
  case (OpInsert clock m)
  then show ?thesis using assms by (auto simp: insertLoginMethod_def flagged_def intro: step_spent_insert)
next
  case (OpReplace m)
  then show ?thesis using assms
    by (auto simp: replaceLoginVerifierTx_def Let_def flagged_def spent_def at_key_def intro!: step_spent_update)
next
  case (OpPut clock m)
  then show ?thesis using assms
    by (auto simp: putLoginVerifierTx_def flagged_def spent_def at_key_def intro!: step_spent_update intro: step_spent_insert)
next
  case (OpPending m)
  then show ?thesis using assms
    by (auto simp: upsertPendingTOTPTx_def Let_def flagged_def spent_def at_key_def intro!: step_spent_update intro: step_spent_insert)
next
  case (OpActivate u' since step at)
  then show ?thesis using assms
    by (auto simp: activateTOTPTx_def Let_def flagged_def spent_def at_key_def intro!: step_spent_update)
next
  case (OpReplaceSet m)
  then show ?thesis using assms
    by (auto simp: replaceLookupSetTx_def Let_def stored_by_def spent_def at_key_def intro!: step_spent_update intro: step_spent_insert)
next
  case (OpConsume u' e at)
  then show ?thesis using assms
    by (auto simp: consumeLookupElementTx_def Let_def flagged_def spent_def at_key_def intro!: step_spent_update)
next
  case (OpStep u' step at)
  then show ?thesis using assms
    by (auto simp: recordAcceptedStepTx_def Let_def flagged_def spent_def at_key_def intro!: step_spent_update split: option.splits)
next
  case (OpRemove u')
  then show ?thesis using assms
    by (auto simp: removeSecondFactorTx_def Let_def flagged_def spent_def at_key_def intro!: step_spent_delete)
next
  case (OpRetire u')
  then show ?thesis using assms
    by (auto simp: retireStartedEnrolmentTx_def Let_def flagged_def spent_def at_key_def intro!: step_spent_delete)
next
  case (OpSweep clock window batch)
  have "\<not> r \<in> set (take n (filter (\<lambda>r. ro_kind r = LoginMethodTOTP \<and> ro_state r = LoginMethodStatePending \<and> b r) rows))"
    if "spent u s r" for r n b rows
    using that by (auto simp: spent_def dest!: in_set_takeD)
  then show ?thesis using assms OpSweep
    by (auto simp: SweepExpiredEnrollments_def Let_def intro!: step_spent_delete)
next
  case (OpSwap u' prev new)
  then show ?thesis using assms
    by (auto simp: SwapTOTPSecret_def Let_def flagged_def spent_def at_key_def intro!: step_spent_update)
next
  case (OpMark lower u' address at)
  then show ?thesis using assms
    by (auto simp: MarkEmailVerified_def Let_def stored_by_def step_spent_def)
qed

lemma step_spent_run: "step_spent u s t \<Longrightarrow> OpRemove u \<notin> set ops \<Longrightarrow> step_spent u s (lm_run ops t)"
proof (induction ops arbitrary: t)
  case (Cons op1 ops)
  then show ?case using step_spent_kept [of u s t op1] by auto
qed simp

lemma accepts_cases:
  assumes "distinct (row_keys t)" "accepts op1 t = Some (u, s)"
  obtains r where "row_at u LoginMethodTOTP t = Some r" "step_spent u s (lm_exec op1 t)"
    "ro_state r = LoginMethodStateActive \<longrightarrow> (\<forall>l. ro_step r = Some l \<longrightarrow> l < s)"
proof (cases op1)
  case (OpActivate u' since step at)
  let ?c = "\<lambda>r. at_key u LoginMethodTOTP r \<and> ro_state r = LoginMethodStatePending \<and> ro_created r = since"
  have a: "u' = u" "step = s" "affected ?c t = 1" "activateTOTPTx u since s at t = Inr (True, lm_exec op1 t)"
    using assms(2) OpActivate by (auto simp: accepts_def activateTOTPTx_def Let_def split: sum.splits prod.splits bool.splits if_splits)
  have "affected ?c t = (case row_at u LoginMethodTOTP t of Some r \<Rightarrow> if ?c r then 1 else 0 | None \<Rightarrow> 0)"
    by (rule affected_at_key [OF assms(1)]) blast
  then obtain r where r: "row_at u LoginMethodTOTP t = Some r" "?c r" using a(3) by (auto split: option.splits if_splits)
  have "r \<in> set (lt_rows t)" using r(1) row_at_Some [OF assms(1)] by blast
  moreover have "lm_exec op1 t = update_rows ?c (\<lambda>r. r\<lparr>ro_state := LoginMethodStateActive, ro_step := Some s, ro_created := at\<rparr>) t"
    using a(4) by (auto simp: activateTOTPTx_def Let_def split: if_splits)
  ultimately have "step_spent u s (lm_exec op1 t)"
    using step_spent_written [of r t ?c u s] r(2) by (simp add: spent_def at_key_def)
  then show ?thesis using that r by simp
next
  case (OpStep u' step at)
  let ?c = "\<lambda>r. at_key u LoginMethodTOTP r \<and> ro_state r = LoginMethodStateActive \<and> (case ro_step r of None \<Rightarrow> True | Some l \<Rightarrow> l < s)"
  have a: "u' = u" "step = s" "affected ?c t = 1" "recordAcceptedStepTx u s at t = Inr (True, lm_exec op1 t)"
    using assms(2) OpStep by (auto simp: accepts_def recordAcceptedStepTx_def Let_def split: sum.splits prod.splits bool.splits if_splits)
  have "affected ?c t = (case row_at u LoginMethodTOTP t of Some r \<Rightarrow> if ?c r then 1 else 0 | None \<Rightarrow> 0)"
    by (rule affected_at_key [OF assms(1)]) blast
  then obtain r where r: "row_at u LoginMethodTOTP t = Some r" "?c r" using a(3) by (auto split: option.splits if_splits)
  have "r \<in> set (lt_rows t)" using r(1) row_at_Some [OF assms(1)] by blast
  moreover have "lm_exec op1 t = update_rows ?c (\<lambda>r. r\<lparr>ro_step := Some s, ro_used := Some at\<rparr>) t"
    using a(4) by (auto simp: recordAcceptedStepTx_def Let_def split: if_splits)
  ultimately have "step_spent u s (lm_exec op1 t)"
    using step_spent_written [of r t ?c u s] r(2) by (simp add: spent_def at_key_def)
  then show ?thesis using that r by (auto split: option.splits)
qed (use assms(2) in \<open>auto simp: accepts_def\<close>)

text \<open>
  C13: No one-time code is accepted twice. Whatever statements run in between, in whatever order
  and for whomever, two codes that a person's second factor accepts have increasing steps, unless
  the factor was removed in between; the confirmation of an enrolment counts as an acceptance, so
  the code that confirmed it does not pass again either.
\<close>

theorem accepted_steps_increase:
  assumes "tables_ok t" and "accepts op1 t = Some (u, s1)" and "OpRemove u \<notin> set ops"
    and "accepts op2 (lm_run ops (lm_exec op1 t)) = Some (u, s2)"
  shows "s1 < s2"
proof -
  let ?t = "lm_run ops (lm_exec op1 t)"
  have ok: "tables_ok ?t" by (intro lm_run_ok lm_exec_ok assms(1))
  obtain r where "step_spent u s1 (lm_exec op1 t)"
    using accepts_cases [OF _ assms(2)] assms(1) by (auto simp: tables_ok_def)
  then have "step_spent u s1 ?t" by (rule step_spent_run [OF _ assms(3)])
  then obtain q l where q: "q \<in> set (lt_rows ?t)" "at_key u LoginMethodTOTP q" "ro_state q = LoginMethodStateActive" "ro_step q = Some l" "s1 \<le> l"
    by (auto simp: step_spent_def spent_def)
  have d: "distinct (row_keys ?t)" using ok by (simp add: tables_ok_def)
  obtain r where r: "row_at u LoginMethodTOTP ?t = Some r" "ro_state r = LoginMethodStateActive \<longrightarrow> (\<forall>l. ro_step r = Some l \<longrightarrow> l < s2)"
    using accepts_cases [OF d assms(4)] by blast
  have "row_at u LoginMethodTOTP ?t = Some q" using row_at_Some [OF d] q(1,2) by blast
  then show ?thesis using r q(3-5) by simp
qed

definition sample_holder :: PersonRow where
  "sample_holder = \<lparr>pn_id = ''usr'', pn_email = ''a@b'', pn_verified_at = None, pn_created = 0\<rparr>"

definition sample_pending :: LoginMethod where
  "sample_pending = \<lparr>lm_UserID = ''usr'', lm_Kind = LoginMethodTOTP, lm_Verifier = ''secret'', lm_State = LoginMethodStatePending,
     lm_AcceptedStep = 0, lm_StepAccepted = False, lm_CreatedAt = 7, lm_LastUsedAt = zero_time, lm_LastUsed = False\<rparr>"

definition sample_login :: LoginTables where
  "sample_login = \<lparr>lt_people = [sample_holder],
     lt_rows = [\<lparr>ro_user = ''usr'', ro_kind = LoginMethodTOTP, ro_verifier = ''secret'', ro_state = LoginMethodStatePending, ro_step = None,
       ro_created = 7, ro_used = None\<rparr>], lt_key_owners = []\<rparr>"

lemma sample_login_ok: "tables_ok sample_login"
  by code_simp

lemma accepted_steps_increase_witness:
  "accepts (OpActivate ''usr'' 7 40 9) sample_login = Some (''usr'', 40)
    \<and> accepts (OpStep ''usr'' 41 10) (lm_run [OpPending sample_pending, OpRetire ''usr'', OpStep ''usr'' 40 9]
        (lm_exec (OpActivate ''usr'' 7 40 9) sample_login)) = Some (''usr'', 41)
    \<and> (40 :: int) < 41"
proof -
  have a: "accepts (OpActivate ''usr'' 7 40 9) sample_login = Some (''usr'', 40)" by code_simp
  have b: "accepts (OpStep ''usr'' 41 10) (lm_run [OpPending sample_pending, OpRetire ''usr'', OpStep ''usr'' 40 9]
        (lm_exec (OpActivate ''usr'' 7 40 9) sample_login)) = Some (''usr'', 41)" by code_simp
  show ?thesis using a b accepted_steps_increase [OF sample_login_ok a _ b] by simp
qed

text \<open>
  C20: No statement leaves a row that cannot be read. Starting from rows that are keyed by person
  and kind, refer to people and are well formed, every sequence of statements with any arguments
  keeps them so; in particular reading a method never answers that the stored row is malformed,
  locking a set of backup codes does not either, and the pages of secrets are read whole.
\<close>

theorem login_rows_stay_readable:
  assumes "tables_ok t"
  shows "tables_ok (lm_run ops t)
    \<and> getLoginMethod u k (lm_run ops t) \<noteq> Inl LmMalformed
    \<and> lockLookupSetTx u (lm_run ops t) \<noteq> Inl LmMalformed
    \<and> (0 < limit \<longrightarrow> (\<exists>ms. TOTPSecretsAfter after limit (lm_run ops t) = Inr ms
        \<and> map lm_UserID ms = take (nat limit) (sort (filter (\<lambda>x. after < x) (map fst (filter (\<lambda>p. snd p = LoginMethodTOTP) (row_keys (lm_run ops t))))))))"
proof -
  let ?t = "lm_run ops t"
  have ok: "tables_ok ?t" by (rule lm_run_ok [OF assms])
  have lock: "lockLookupSetTx u ?t \<noteq> Inl LmMalformed"
    using getLoginMethod_ok [OF ok, of u LoginMethodLookupSecret]
    by (auto simp: lockLookupSetTx_def getLoginMethod_def split: option.splits sum.splits)
  have all: "\<exists>ms. build_all rs = Inr ms \<and> map lm_UserID ms = map ro_user rs" if "\<forall>r \<in> set rs. readable r" for rs
    using that
  proof (induction rs)
    case (Cons r rs)
    have "\<exists>m. build r = Inr m \<and> lm_UserID m = ro_user r"
      using Cons.prems by (auto simp: readable_def build_def Let_def split: if_splits)
    then show ?case using Cons by auto
  qed simp
  let ?page = "take (nat limit) (sort_key ro_user (filter (\<lambda>r. ro_kind r = LoginMethodTOTP \<and> after < ro_user r) (lt_rows ?t)))"
  have "\<forall>r \<in> set ?page. readable r" using ok by (auto simp: tables_ok_def dest!: in_set_takeD)
  then obtain ms where ms: "build_all ?page = Inr ms" "map lm_UserID ms = map ro_user ?page" using all by blast
  have "map ro_user (sort_key ro_user xs) = sort (map ro_user xs)" for xs :: "MethodRow list"
    by (rule properties_for_sort [symmetric]) simp_all
  then have "map ro_user ?page = take (nat limit) (sort (map ro_user (filter (\<lambda>r. ro_kind r = LoginMethodTOTP \<and> after < ro_user r) (lt_rows ?t))))"
    by (simp add: take_map [symmetric])
  also have "map ro_user (filter (\<lambda>r. ro_kind r = LoginMethodTOTP \<and> after < ro_user r) (lt_rows ?t))
      = filter (\<lambda>x. after < x) (map fst (filter (\<lambda>p. snd p = LoginMethodTOTP) (row_keys ?t)))"
    by (simp add: row_keys_def filter_map comp_def conj_commute)
  finally show ?thesis using ok getLoginMethod_ok [OF ok] lock ms by (simp add: TOTPSecretsAfter_def)
qed

lemma login_rows_stay_readable_witness:
  "tables_ok (lm_run [OpActivate ''usr'' 7 40 9, OpInsert 3 (sample_pending\<lparr>lm_Kind := LoginMethodPassword, lm_State := LoginMethodStateActive\<rparr>)] sample_login)"
  using login_rows_stay_readable [OF sample_login_ok] by blast

subsection \<open>Backup codes in a row\<close>

lemma update_rows_none:
  assumes "\<And>q. q \<in> set (lt_rows t) \<Longrightarrow> \<not> c q"
  shows "update_rows c f t = t"
proof -
  have "map (\<lambda>r. if c r then f r else r) (lt_rows t) = lt_rows t" using assms by (intro map_idI) simp
  then show ?thesis by (simp add: update_rows_def)
qed

lemma consume_row:
  assumes "tables_ok t" "Declared_Validate d = None" "salt \<noteq> []" "element_ok e" "distinct es" "\<And>x. x \<in> set es \<Longrightarrow> element_ok x"
    and "row_at u LoginMethodLookupSecret t = Some r" "ro_verifier r = set_value d salt es" "\<not> is_zero_time at"
  obtains t' r' where "consumeLookupElementTx u e at t = Inr (e \<in> set es, t')"
    "row_at u LoginMethodLookupSecret t' = Some r'" "ro_verifier r' = set_value d salt (filter (\<lambda>x. x \<noteq> e) es)" "tables_ok t'"
    "e \<in> set es \<or> t' = t"
proof -
  let ?c = "\<lambda>r. at_key u LoginMethodLookupSecret r \<and> contains_str (ro_verifier r) ('','' @ e @ '','')"
  let ?f = "\<lambda>r. r\<lparr>ro_verifier := sql_replace (ro_verifier r) ('','' @ e @ '','') '','', ro_used := Some at\<rparr>"
  have d: "distinct (row_keys t)" using assms(1) by (simp add: tables_ok_def)
  have r: "r \<in> set (lt_rows t)" "at_key u LoginMethodLookupSecret r" using assms(7) row_at_Some [OF d] by auto
  have u: "u \<noteq> []" using r assms(1) by (auto simp: tables_ok_def readable_iff at_key_def)
  have e: "e \<noteq> []" "CHR '','' \<notin> set e" using assms(4) element_ok_no [OF assms(4)] by (auto simp: element_ok_def)
  have cv1: "contains_str (set_value d salt es) ('','' @ e @ '','') \<longleftrightarrow> e \<in> set es"
    by (rule consume_value(1) [OF assms(4,5)]) (rule assms(6))
  have cv2: "sql_replace (set_value d salt es) ('','' @ e @ '','') '','' = set_value d salt (filter (\<lambda>x. x \<noteq> e) es)" if "e \<in> set es"
    using consume_value(2) [OF assms(4,5) _ that] assms(6) by blast
  have hit: "?c r \<longleftrightarrow> e \<in> set es" using r(2) cv1 assms(8) by simp
  have "affected ?c t = (case row_at u LoginMethodLookupSecret t of Some r \<Rightarrow> if ?c r then 1 else 0 | None \<Rightarrow> 0)"
    by (rule affected_at_key [OF d]) blast
  then have n: "affected ?c t = (if e \<in> set es then 1 else 0)" using hit assms(7) by simp
  have cons: "consumeLookupElementTx u e at t = Inr (e \<in> set es, update_rows ?c ?f t)"
    using n u e assms(9) by (simp add: consumeLookupElementTx_def Let_def)
  have ok: "tables_ok (update_rows ?c ?f t)" by (rule consumeLookupElementTx_ok [OF assms(1) cons])
  have d': "distinct (row_keys (update_rows ?c ?f t))" using ok by (simp add: tables_ok_def)
  show ?thesis
  proof (cases "e \<in> set es")
    case True
    have "?f r \<in> set (lt_rows (update_rows ?c ?f t))" using r(1) hit True by (auto intro!: image_eqI [of _ _ r])
    moreover have "at_key u LoginMethodLookupSecret (?f r)" using r(2) by (simp add: at_key_def)
    ultimately have "row_at u LoginMethodLookupSecret (update_rows ?c ?f t) = Some (?f r)" using row_at_Some [OF d'] by blast
    moreover have "ro_verifier (?f r) = set_value d salt (filter (\<lambda>x. x \<noteq> e) es)" using cv2 [OF True] assms(8) by simp
    ultimately show ?thesis using that cons ok True by blast
  next
    case False
    have "?c q \<Longrightarrow> q \<in> set (lt_rows t) \<Longrightarrow> False" for q
      using row_at_Some [OF d, of u LoginMethodLookupSecret q] assms(7) hit False by auto
    then have same: "update_rows ?c ?f t = t" by (intro update_rows_none) blast
    have "filter (\<lambda>x. x \<noteq> e) es = es" using False by (metis (mono_tags, lifting) filter_True)
    then show ?thesis using that [of t r] cons [unfolded same] assms(1,7,8) False by simp
  qed
qed

end
