(* ===== verification/Login_Rewrap.thy ===== *)
theory Login_Rewrap
  imports Login_Methods
begin

text \<open>
  The pass that moves every stored secret of one-time codes under the first key of the list, so
  that the other keys can be withdrawn.

  Source: \<open>internal/apps/kaname/api/secondfactorwrap/rewrap.go\<close>.

  The store is a port; what the pass needs of it is the locale \<open>secret_store\<close>, which the table of
  login methods satisfies. A pass threads a world: the store and the number of calls made. What it
  cannot decide is in the record \<open>RwEnv\<close>, indexed by that number: what others did to the store
  before a call, whether the call fails before or after its effect, and the nonce drawn. The loop
  over pages takes fuel; that enough fuel exists is a theorem.
\<close>

subsection \<open>The port and its environment\<close>

record 's SecretPort =
  sp_page :: "string \<Rightarrow> int \<Rightarrow> 's \<Rightarrow> (lm_error, LoginMethod list) result"
  sp_swap :: "string \<Rightarrow> LoginVerifier \<Rightarrow> LoginVerifier \<Rightarrow> 's \<Rightarrow> (lm_error, bool \<times> 's) result"
  sp_get :: "string \<Rightarrow> LoginMethodKind \<Rightarrow> 's \<Rightarrow> (lm_error, LoginMethod) result"

datatype rw_fault = RwBefore | RwAfter

record 's RwEnv =
  re_others :: "nat \<Rightarrow> 's \<Rightarrow> 's"
  re_fault :: "nat \<Rightarrow> rw_fault option"
  re_nonce :: "nat \<Rightarrow> bytes option"

record 's RwWorld =
  rw_store :: 's
  rw_tick :: nat

datatype rw_error = RwStore lm_error | RwLost | RwNothing | RwRewrap wrap_error

record 's RewrapUseCase =
  uc_port :: "'s SecretPort"
  uc_aead :: Aead
  uc_wrapper :: Wrapper
  uc_page :: int
  uc_env :: "'s RwEnv"

definition SwapAttempts :: nat where "SwapAttempts = 3"

record Report =
  rp_Rows :: nat
  rp_Rewrapped :: nat
  rp_Current :: nat
  rp_Unreadable :: nat
  rp_Vanished :: nat
  rp_Unsettled :: nat

definition no_report :: Report where
  "no_report = \<lparr>rp_Rows = 0, rp_Rewrapped = 0, rp_Current = 0, rp_Unreadable = 0, rp_Vanished = 0, rp_Unsettled = 0\<rparr>"

definition Report_Settled :: "Report \<Rightarrow> bool" where
  "Report_Settled r \<longleftrightarrow> rp_Unreadable r = 0 \<and> rp_Unsettled r = 0"

definition New_rewrap :: "bool \<Rightarrow> bool \<Rightarrow> int \<Rightarrow> duration \<Rightarrow> bool" where
  \<comment> \<open>whether the store and the rewrapper are given, the size of a page and the timeout of a call\<close>
  "New_rewrap store rewrapper pageSize callTimeout \<longleftrightarrow> store \<and> rewrapper \<and> \<not> pageSize \<le> 0 \<and> \<not> callTimeout \<le> 0"

definition rw_read :: "'s RewrapUseCase \<Rightarrow> ('s \<Rightarrow> (lm_error, 'a) result) \<Rightarrow> 's RwWorld \<Rightarrow> (rw_error, 'a) result \<times> 's RwWorld" where
  "rw_read u f w =
     (let n = rw_tick w; s = re_others (uc_env u) n (rw_store w) in
      (case re_fault (uc_env u) n of
         Some _ \<Rightarrow> Inl RwLost
       | None \<Rightarrow> (case f s of Inl err \<Rightarrow> Inl (RwStore err) | Inr x \<Rightarrow> Inr x),
       \<lparr>rw_store = s, rw_tick = Suc n\<rparr>))"

definition rw_write :: "'s RewrapUseCase \<Rightarrow> ('s \<Rightarrow> (lm_error, bool \<times> 's) result) \<Rightarrow> 's RwWorld \<Rightarrow> (rw_error, bool) result \<times> 's RwWorld" where
  "rw_write u f w =
     (let n = rw_tick w; s = re_others (uc_env u) n (rw_store w) in
      case re_fault (uc_env u) n of
        Some RwBefore \<Rightarrow> (Inl RwLost, \<lparr>rw_store = s, rw_tick = Suc n\<rparr>)
      | Some RwAfter \<Rightarrow> (Inl RwLost, \<lparr>rw_store = (case f s of Inl _ \<Rightarrow> s | Inr (_, s') \<Rightarrow> s'), rw_tick = Suc n\<rparr>)
      | None \<Rightarrow> (case f s of
            Inl err \<Rightarrow> (Inl (RwStore err), \<lparr>rw_store = s, rw_tick = Suc n\<rparr>)
          | Inr (b, s') \<Rightarrow> (Inr b, \<lparr>rw_store = s', rw_tick = Suc n\<rparr>)))"

subsection \<open>The pass\<close>

datatype Settled = SettledRewrapped | SettledCurrent | SettledUnreadable | SettledVanished | SettledUnsettled

fun settle_row :: "'s RewrapUseCase \<Rightarrow> nat \<Rightarrow> LoginMethod \<Rightarrow> 's RwWorld \<Rightarrow> (rw_error, Settled) result \<times> 's RwWorld" where
  \<comment> \<open>the number counts the swaps that are left\<close>
  "settle_row u n row w =
     (case totp_Rewrap (uc_aead u) (uc_wrapper u) (re_nonce (uc_env u) (rw_tick w)) (lm_Verifier row) of
        SecretUnreadable \<Rightarrow> (Inr SettledUnreadable, w)
      | RewrapFailed err \<Rightarrow> (Inl (RwRewrap err), w)
      | NothingToRewrap \<Rightarrow> (Inl RwNothing, w)
      | AlreadyFirst \<Rightarrow> (Inr SettledCurrent, w)
      | Moved new \<Rightarrow>
          (case n of
             0 \<Rightarrow> (Inr SettledUnsettled, w)
           | Suc n' \<Rightarrow>
               (case rw_write u (sp_swap (uc_port u) (lm_UserID row) (lm_Verifier row) new) w of
                  (Inl err, w1) \<Rightarrow> (Inl err, w1)
                | (Inr True, w1) \<Rightarrow> (Inr SettledRewrapped, w1)
                | (Inr False, w1) \<Rightarrow>
                    (case rw_read u (sp_get (uc_port u) (lm_UserID row) LoginMethodTOTP) w1 of
                       (Inl err, w2) \<Rightarrow> (if err = RwStore LmNotFound then Inr SettledVanished else Inl err, w2)
                     | (Inr fresh, w2) \<Rightarrow> settle_row u n' fresh w2))))"

declare settle_row.simps [simp del]

definition count_row :: "Settled \<Rightarrow> Report \<Rightarrow> Report" where
  "count_row out rep =
     (let rep = rep\<lparr>rp_Rows := rp_Rows rep + 1\<rparr> in
      case out of
        SettledRewrapped \<Rightarrow> rep\<lparr>rp_Rewrapped := rp_Rewrapped rep + 1\<rparr>
      | SettledCurrent \<Rightarrow> rep\<lparr>rp_Current := rp_Current rep + 1\<rparr>
      | SettledUnreadable \<Rightarrow> rep\<lparr>rp_Unreadable := rp_Unreadable rep + 1\<rparr>
      | SettledVanished \<Rightarrow> rep\<lparr>rp_Vanished := rp_Vanished rep + 1\<rparr>
      | SettledUnsettled \<Rightarrow> rep\<lparr>rp_Unsettled := rp_Unsettled rep + 1\<rparr>)"

fun settle_rows :: "'s RewrapUseCase \<Rightarrow> LoginMethod list \<Rightarrow> Report \<Rightarrow> 's RwWorld \<Rightarrow> (Report \<times> rw_error option) \<times> 's RwWorld" where
  "settle_rows u [] rep w = ((rep, None), w)"
| "settle_rows u (row # rest) rep w =
     (case settle_row u SwapAttempts row w of
        (Inl err, w1) \<Rightarrow> ((rep, Some err), w1)
      | (Inr out, w1) \<Rightarrow> settle_rows u rest (count_row out rep) w1)"

fun rewrap_pages :: "nat \<Rightarrow> 's RewrapUseCase \<Rightarrow> string \<Rightarrow> Report \<Rightarrow> 's RwWorld \<Rightarrow> ((Report \<times> rw_error option) \<times> 's RwWorld) option" where
  "rewrap_pages 0 u cursor rep w = None"
| "rewrap_pages (Suc fuel) u cursor rep w =
     (case rw_read u (sp_page (uc_port u) cursor (uc_page u)) w of
        (Inl err, w1) \<Rightarrow> Some ((rep, Some err), w1)
      | (Inr ms, w1) \<Rightarrow>
          (case settle_rows u ms rep w1 of
             ((rep', Some err), w2) \<Rightarrow> Some ((rep', Some err), w2)
           | ((rep', None), w2) \<Rightarrow>
               if int (length ms) < uc_page u then Some ((rep', None), w2)
               else rewrap_pages fuel u (lm_UserID (last ms)) rep' w2))"

definition rewrap_Run :: "nat \<Rightarrow> 's RewrapUseCase \<Rightarrow> 's RwWorld \<Rightarrow> ((Report \<times> rw_error option) \<times> 's RwWorld) option" where
  "rewrap_Run fuel u w = rewrap_pages fuel u [] no_report w"

subsection \<open>What the pass needs of a store\<close>

definition page_of :: "string \<Rightarrow> int \<Rightarrow> (string \<rightharpoonup> LoginVerifier) \<Rightarrow> LoginMethod list \<Rightarrow> bool" where
  \<comment> \<open>the secrets after a person, in order, none left out up to the end of the page\<close>
  "page_of after limit secrets ms \<longleftrightarrow> int (length ms) \<le> limit
     \<and> (\<forall>m \<in> set ms. after < lm_UserID m \<and> secrets (lm_UserID m) = Some (lm_Verifier m))
     \<and> (\<forall>x. after < x \<and> secrets x \<noteq> None \<and> (int (length ms) < limit \<or> x \<le> lm_UserID (last ms)) \<longrightarrow> x \<in> lm_UserID ` set ms)"

locale secret_store =
  fixes P :: "'s SecretPort" and inv :: "'s \<Rightarrow> bool" and secrets :: "'s \<Rightarrow> string \<rightharpoonup> LoginVerifier"
  assumes secret: "inv s \<Longrightarrow> secrets s x = Some v \<Longrightarrow> x \<noteq> [] \<and> v \<noteq> []"
    and pages: "inv s \<Longrightarrow> 0 < limit \<Longrightarrow> \<exists>ms. sp_page P after limit s = Inr ms \<and> page_of after limit (secrets s) ms"
    and swaps: "inv s \<Longrightarrow> x \<noteq> [] \<Longrightarrow> prev \<noteq> [] \<Longrightarrow> new \<noteq> [] \<Longrightarrow>
      \<exists>s'. sp_swap P x prev new s = Inr (secrets s x = Some prev, s') \<and> inv s'
        \<and> secrets s' = (if secrets s x = Some prev then (secrets s)(x \<mapsto> new) else secrets s)"
    and gets: "inv s \<Longrightarrow> x \<noteq> [] \<Longrightarrow> (case secrets s x of None \<Rightarrow> sp_get P x LoginMethodTOTP s = Inl LmNotFound
      | Some v \<Rightarrow> \<exists>m. sp_get P x LoginMethodTOTP s = Inr m \<and> lm_UserID m = x \<and> lm_Verifier m = v)"

subsection \<open>What rewrapping a value yields\<close>

definition under_first :: "Aead \<Rightarrow> bytes list \<Rightarrow> LoginVerifier \<Rightarrow> bool" where
  \<comment> \<open>the first key alone opens the value\<close>
  "under_first A keys v \<longleftrightarrow> (\<exists>first. NewWrapper [hd keys] = Inr first \<and> opened_secret A first v \<noteq> None)"

definition rewrap_setting :: "'s RewrapUseCase \<Rightarrow> bytes list \<Rightarrow> bool" where
  \<comment> \<open>the laws of the cipher, the list of keys, nonces of the size of the cipher, a page with room\<close>
  "rewrap_setting u keys \<longleftrightarrow> aead_laws (uc_aead u) \<and> NewWrapper keys = Inr (uc_wrapper u) \<and> 0 < uc_page u
     \<and> (\<forall>n x. re_nonce (uc_env u) n = Some x \<longrightarrow> length x = NonceSize)"

lemma NewWrapper_first:
  assumes "NewWrapper keys = Inr w"
  shows "NewWrapper [hd keys] = Inr \<lparr>wr_wrap = hd keys, wr_open = [hd keys]\<rparr>"
  using NewWrapperD [OF assms] by (simp add: NewWrapper_def)

lemma totp_Rewrap_current:
  assumes "NewWrapper keys = Inr w" "totp_Rewrap A w nonce v = AlreadyFirst"
  shows "under_first A keys v"
proof -
  obtain raw plain where "b64_decode v = Some raw" "\<not> length raw \<le> NonceSize" "aead_open A (hd keys) (take NonceSize raw) (drop NonceSize raw) = Some plain"
    using assms(2) NewWrapperD(2) [OF assms(1)]
    by (auto simp: totp_Rewrap_def Rewrap_def Let_def split: if_splits option.splits sum.splits)
  then show ?thesis using NewWrapper_first [OF assms(1)] by (simp add: under_first_def opened_secret_def Unwrap_def)
qed

lemma totp_Rewrap_moved:
  assumes "aead_laws A" "NewWrapper keys = Inr w" "totp_Rewrap A w nonce v = Moved new" "\<And>n. nonce = Some n \<Longrightarrow> length n = NonceSize"
  shows "under_first A keys new \<and> opened_secret A w new = opened_secret A w v \<and> opened_secret A w v \<noteq> None \<and> new \<noteq> []"
proof -
  note w = NewWrapperD [OF assms(2)]
  obtain raw plain n where raw: "b64_decode v = Some raw" "\<not> length raw \<le> NonceSize"
      "aead_open A (hd keys) (take NonceSize raw) (drop NonceSize raw) = None"
      "open_any A (tl keys) (take NonceSize raw) (drop NonceSize raw) = Some plain"
    and n: "nonce = Some n" "new = b64_encode (n @ aead_seal A (hd keys) n plain)"
    using assms(3) w(2,3)
    by (auto simp: totp_Rewrap_def Rewrap_def Let_def elim!: Wrap_shape split: if_splits option.splits sum.splits)
  have keys: "keys = hd keys # tl keys" using w(1) by simp
  have "open_any A keys (take NonceSize raw) (drop NonceSize raw) = Some plain" using raw(3,4) by (subst keys) simp
  then have v: "opened_secret A w v = Some plain" using raw w(3) by (simp add: opened_secret_def Unwrap_def)
  have k: "length (hd keys) = KeySize" "hd keys \<in> set keys" using w(1,4) by simp_all
  have ln: "length n = NonceSize" using assms(4) n(1) by simp
  have un: "Unwrap A w (n @ aead_seal A (hd keys) n plain) = Inr plain"
    using Unwrap_sealed [OF assms(1,2) k(1) ln] k(2) by simp
  have "Unwrap A \<lparr>wr_wrap = hd keys, wr_open = [hd keys]\<rparr> (n @ aead_seal A (hd keys) n plain) = Inr plain"
    using Unwrap_sealed [OF assms(1) NewWrapper_first [OF assms(2)] k(1) ln] by simp
  then have "under_first A keys new"
    using NewWrapper_first [OF assms(2)] n(2) by (simp add: under_first_def opened_secret_def)
  moreover have "n \<noteq> []" using ln by (auto simp: NonceSize_def)
  ultimately show ?thesis using v un n(2) by (simp add: opened_secret_def)
qed

subsection \<open>Where a pass can take a store\<close>

definition moves :: "'s RewrapUseCase \<Rightarrow> ('s \<Rightarrow> string \<rightharpoonup> LoginVerifier) \<Rightarrow> 's \<Rightarrow> 's \<Rightarrow> bool" where
  \<comment> \<open>what a swap of the pass does to the secrets\<close>
  "moves u secrets s s' \<longleftrightarrow> secrets s' = secrets s
     \<or> (\<exists>x prev new n. secrets s x = Some prev \<and> totp_Rewrap (uc_aead u) (uc_wrapper u) (re_nonce (uc_env u) n) prev = Moved new
          \<and> secrets s' = (secrets s)(x \<mapsto> new))"

context secret_store
begin

definition rw_inv :: "'s RewrapUseCase \<Rightarrow> ('s \<Rightarrow> 's \<Rightarrow> bool) \<Rightarrow> bool" where
  \<comment> \<open>a relation that the pass and the others follow\<close>
  "rw_inv u R \<longleftrightarrow> (\<forall>s. R s s) \<and> (\<forall>a b c. R a b \<longrightarrow> R b c \<longrightarrow> R a c)
     \<and> (\<forall>n s. inv s \<longrightarrow> inv (re_others (uc_env u) n s) \<and> R s (re_others (uc_env u) n s))
     \<and> (\<forall>s s'. inv s \<longrightarrow> inv s' \<longrightarrow> moves u secrets s s' \<longrightarrow> R s s')"

lemma rw_invD:
  assumes "rw_inv u R"
  shows "R s s" "R a b \<Longrightarrow> R b c \<Longrightarrow> R a c" "inv s \<Longrightarrow> inv (re_others (uc_env u) n s)" "inv s \<Longrightarrow> R s (re_others (uc_env u) n s)"
    "inv s \<Longrightarrow> inv s' \<Longrightarrow> moves u secrets s s' \<Longrightarrow> R s s'"
  using assms unfolding rw_inv_def by blast+

lemma read_R:
  assumes "rw_inv u R" "inv (rw_store w)" "rw_read u f w = (res, w')"
  shows "inv (rw_store w')" "R (rw_store w) (rw_store w')" "res = Inr x \<Longrightarrow> f (rw_store w') = Inr x"
    "res = Inl (RwStore err) \<Longrightarrow> f (rw_store w') = Inl err"
  using assms(3) rw_invD(3,4) [OF assms(1,2)] by (auto simp: rw_read_def Let_def split: option.splits sum.splits)

lemma swap_R:
  assumes "rw_inv u R" "uc_port u = P" "inv (rw_store w)" "x \<noteq> []" "prev \<noteq> []" "new \<noteq> []"
    and "totp_Rewrap (uc_aead u) (uc_wrapper u) (re_nonce (uc_env u) n) prev = Moved new"
    and "rw_write u (sp_swap P x prev new) w = (res, w')"
  shows "inv (rw_store w') \<and> R (rw_store w) (rw_store w') \<and> (res = Inr True \<longrightarrow> secrets (rw_store w') x = Some new)"
proof -
  let ?s = "re_others (uc_env u) (rw_tick w) (rw_store w)"
  have s: "inv ?s" "R (rw_store w) ?s" using rw_invD(3,4) [OF assms(1,3)] by auto
  obtain s' where s': "sp_swap P x prev new ?s = Inr (secrets ?s x = Some prev, s')" "inv s'"
      "secrets s' = (if secrets ?s x = Some prev then (secrets ?s)(x \<mapsto> new) else secrets ?s)"
    using swaps [OF s(1) assms(4-6)] by blast
  have "moves u secrets ?s s'" unfolding moves_def using s'(3) assms(7) by auto
  then have "R ?s s'" by (rule rw_invD(5) [OF assms(1) s(1) s'(2)])
  then have R: "R (rw_store w) s'" using rw_invD(2) [OF assms(1) s(2)] by blast
  consider "rw_store w' = ?s" "\<forall>b. res \<noteq> Inr b" | "rw_store w' = s'" "res = Inr True \<longrightarrow> secrets ?s x = Some prev"
    using assms(8) s'(1) by (auto simp: rw_write_def Let_def split: option.splits rw_fault.splits)
  then show ?thesis
  proof cases
    case 1
    then show ?thesis using s by simp
  next
    case 2
    then show ?thesis using s'(2,3) R by simp
  qed
qed

end

definition only_first :: "Aead \<Rightarrow> bytes list \<Rightarrow> ('s \<Rightarrow> string \<rightharpoonup> LoginVerifier) \<Rightarrow> 's \<Rightarrow> 's \<Rightarrow> bool" where
  \<comment> \<open>a secret that is new or changed is under the first key\<close>
  "only_first A keys secrets s s' \<longleftrightarrow> (\<forall>x v. secrets s' x = Some v \<longrightarrow> secrets s x = Some v \<or> under_first A keys v)"

definition opened_view :: "Aead \<Rightarrow> Wrapper \<Rightarrow> (string \<rightharpoonup> LoginVerifier) \<Rightarrow> string \<rightharpoonup> bytes option" where
  \<comment> \<open>what the secrets open to\<close>
  "opened_view A w secrets = (\<lambda>x. map_option (opened_secret A w) (secrets x))"

context secret_store
begin

lemma settle_row_R:
  assumes "rw_inv u R" "uc_port u = P" "rewrap_setting u keys" "inv (rw_store w)" "lm_UserID row \<noteq> []"
    and "settle_row u n row w = (out, w')"
  shows "inv (rw_store w') \<and> R (rw_store w) (rw_store w')"
  using assms(4-6)
proof (induction n arbitrary: row w)
  case 0
  then show ?case using rw_invD(1) [OF assms(1)]
    by (subst (asm) settle_row.simps) (auto split: rewrap_outcome.splits)
next
  case (Suc n)
  show ?case
  proof (cases "totp_Rewrap (uc_aead u) (uc_wrapper u) (re_nonce (uc_env u) (rw_tick w)) (lm_Verifier row)")
    case (Moved new)
    have v: "lm_Verifier row \<noteq> []" using Moved by (auto simp: totp_Rewrap_def)
    have new: "new \<noteq> []"
      using totp_Rewrap_moved [OF _ _ Moved, of keys] assms(3) by (auto simp: rewrap_setting_def)
    obtain res w1 where wr: "rw_write u (sp_swap (uc_port u) (lm_UserID row) (lm_Verifier row) new) w = (res, w1)"
      by (cases "rw_write u (sp_swap (uc_port u) (lm_UserID row) (lm_Verifier row) new) w")
    note s1 = swap_R [OF assms(1,2) Suc.prems(1,2) v new Moved wr [unfolded assms(2)]]
    obtain res2 w2 where rd: "rw_read u (sp_get (uc_port u) (lm_UserID row) LoginMethodTOTP) w1 = (res2, w2)"
      by (cases "rw_read u (sp_get (uc_port u) (lm_UserID row) LoginMethodTOTP) w1")
    have s2: "inv (rw_store w2)" "R (rw_store w1) (rw_store w2)" using read_R [OF assms(1) _ rd] s1 by auto
    have R2: "R (rw_store w) (rw_store w2)" using rw_invD(2) [OF assms(1)] s1 s2 by blast
    show ?thesis
    proof (cases "\<exists>fresh. res = Inr False \<and> res2 = Inr fresh")
      case True
      then obtain fresh where f: "res = Inr False" "res2 = Inr fresh" by blast
      then have st: "settle_row u n fresh w2 = (out, w')"
        using Suc.prems(3) Moved wr rd by (subst (asm) settle_row.simps) simp
      have "sp_get P (lm_UserID row) LoginMethodTOTP (rw_store w2) = Inr fresh"
        using read_R(3) [OF assms(1) _ rd] s1 f(2) assms(2) by simp
      then have "lm_UserID fresh = lm_UserID row"
        using gets [OF s2(1) Suc.prems(2)] by (auto split: option.splits)
      then have "inv (rw_store w') \<and> R (rw_store w2) (rw_store w')" using Suc.IH [OF s2(1) _ st] Suc.prems(2) by simp
      then show ?thesis using rw_invD(2) [OF assms(1) R2] by blast
    next
      case False
      then have "w' = w1 \<or> w' = w2"
        using Suc.prems(3) Moved wr rd by (subst (asm) settle_row.simps) (auto split: sum.splits bool.splits if_splits)
      then show ?thesis using s1 s2 R2 by auto
    qed
  qed (use Suc.prems rw_invD(1) [OF assms(1)] in \<open>subst (asm) settle_row.simps, simp\<close>)+
qed

lemma settle_row_first:
  assumes "rw_inv u (only_first (uc_aead u) keys secrets)" "uc_port u = P" "rewrap_setting u keys" "inv (rw_store w)" "lm_UserID row \<noteq> []"
    and "\<And>v. secrets (rw_store w) (lm_UserID row) = Some v \<Longrightarrow> v = lm_Verifier row \<or> under_first (uc_aead u) keys v"
    and "settle_row u n row w = (Inr out, w')" "out \<noteq> SettledUnreadable" "out \<noteq> SettledUnsettled"
    and "secrets (rw_store w') (lm_UserID row) = Some v"
  shows "under_first (uc_aead u) keys v"
  using assms(4-7,10)
proof (induction n arbitrary: row w)
  case 0
  have "totp_Rewrap (uc_aead u) (uc_wrapper u) (re_nonce (uc_env u) (rw_tick w)) (lm_Verifier row) = AlreadyFirst \<and> w' = w"
    using 0(4) assms(8,9) by (subst (asm) settle_row.simps) (auto split: rewrap_outcome.splits)
  then show ?case using 0(3) [of v] 0(5) totp_Rewrap_current assms(3) by (auto simp: rewrap_setting_def)
next
  case (Suc n)
  show ?case
  proof (cases "totp_Rewrap (uc_aead u) (uc_wrapper u) (re_nonce (uc_env u) (rw_tick w)) (lm_Verifier row)")
    case AlreadyFirst
    then have "w' = w" using Suc.prems(4) by (subst (asm) settle_row.simps) simp
    then show ?thesis using Suc.prems(3) [of v] Suc.prems(5) totp_Rewrap_current [OF _ AlreadyFirst] assms(3) by (auto simp: rewrap_setting_def)
  next
    case (Moved new)
    have v: "lm_Verifier row \<noteq> []" using Moved by (auto simp: totp_Rewrap_def)
    have new: "new \<noteq> []" "under_first (uc_aead u) keys new"
      using totp_Rewrap_moved [OF _ _ Moved, of keys] assms(3) by (auto simp: rewrap_setting_def)
    obtain res w1 where wr: "rw_write u (sp_swap (uc_port u) (lm_UserID row) (lm_Verifier row) new) w = (res, w1)"
      by (cases "rw_write u (sp_swap (uc_port u) (lm_UserID row) (lm_Verifier row) new) w")
    note s1 = swap_R [OF assms(1,2) Suc.prems(1,2) v new(1) Moved wr [unfolded assms(2)]]
    obtain res2 w2 where rd: "rw_read u (sp_get (uc_port u) (lm_UserID row) LoginMethodTOTP) w1 = (res2, w2)"
      by (cases "rw_read u (sp_get (uc_port u) (lm_UserID row) LoginMethodTOTP) w1")
    have s2: "inv (rw_store w2)" "only_first (uc_aead u) keys secrets (rw_store w1) (rw_store w2)" using read_R [OF assms(1) _ rd] s1 by auto
    consider "res = Inr True" "w' = w1" | "res = Inr False" "res2 = Inl (RwStore LmNotFound)" "w' = w2"
      | fresh where "res = Inr False" "res2 = Inr fresh" "settle_row u n fresh w2 = (Inr out, w')"
      using Suc.prems(4) Moved wr rd by (subst (asm) settle_row.simps) (auto split: sum.splits bool.splits if_splits)
    then show ?thesis
    proof cases
      case 1
      then show ?thesis using s1 Suc.prems(5) new(2) by simp
    next
      case 2
      then have "sp_get P (lm_UserID row) LoginMethodTOTP (rw_store w2) = Inl LmNotFound"
        using read_R(4) [OF assms(1) _ rd] s1 assms(2) by simp
      then have "secrets (rw_store w2) (lm_UserID row) = None"
        using gets [OF s2(1) Suc.prems(2)] by (auto split: option.splits)
      then show ?thesis using 2 Suc.prems(5) by simp
    next
      case (3 fresh)
      have "sp_get P (lm_UserID row) LoginMethodTOTP (rw_store w2) = Inr fresh"
        using read_R(3) [OF assms(1) _ rd] s1 3 assms(2) by simp
      then have "lm_UserID fresh = lm_UserID row" "secrets (rw_store w2) (lm_UserID row) = Some (lm_Verifier fresh)"
        using gets [OF s2(1) Suc.prems(2)] by (auto split: option.splits)
      then show ?thesis using Suc.IH [OF s2(1) _ _ 3(3)] Suc.prems(2,5) by simp
    qed
  qed (use Suc.prems assms(8,9) in \<open>subst (asm) settle_row.simps, simp\<close>)+
qed

end

lemma settle_rows_counts:
  "settle_rows u ms rep w = ((rep', err), w') \<Longrightarrow> rp_Unreadable rep \<le> rp_Unreadable rep' \<and> rp_Unsettled rep \<le> rp_Unsettled rep'"
proof (induction ms arbitrary: rep w)
  case (Cons m ms)
  obtain out w1 where s: "settle_row u SwapAttempts m w = (out, w1)" by (cases "settle_row u SwapAttempts m w")
  have "rp_Unreadable rep \<le> rp_Unreadable (count_row o1 rep) \<and> rp_Unsettled rep \<le> rp_Unsettled (count_row o1 rep)" for o1
    by (cases o1) (simp_all add: count_row_def)
  then show ?case using Cons s by (cases out) (auto intro: order_trans)
qed simp

lemma rewrap_pages_counts:
  "rewrap_pages fuel u cursor rep w = Some ((rep', err), w') \<Longrightarrow> rp_Unreadable rep \<le> rp_Unreadable rep' \<and> rp_Unsettled rep \<le> rp_Unsettled rep'"
proof (induction fuel arbitrary: cursor rep w)
  case (Suc fuel)
  obtain res w1 where r: "rw_read u (sp_page (uc_port u) cursor (uc_page u)) w = (res, w1)"
    by (cases "rw_read u (sp_page (uc_port u) cursor (uc_page u)) w")
  show ?case
  proof (cases res)
    case (Inl e)
    then show ?thesis using Suc.prems r by simp
  next
    case (Inr ms)
    obtain rep1 err1 w2 where s: "settle_rows u ms rep w1 = ((rep1, err1), w2)" by (cases "settle_rows u ms rep w1") auto
    have "rp_Unreadable rep \<le> rp_Unreadable rep1 \<and> rp_Unsettled rep \<le> rp_Unsettled rep1" using settle_rows_counts [OF s] .
    then show ?thesis using Suc.prems Suc.IH r Inr s by (cases err1) (fastforce split: if_splits)+
  qed
qed simp

lemma settled_row:
  assumes "Report_Settled rep'" "rp_Unreadable (count_row out rep) \<le> rp_Unreadable rep'" "rp_Unsettled (count_row out rep) \<le> rp_Unsettled rep'"
  shows "out \<noteq> SettledUnreadable" "out \<noteq> SettledUnsettled"
  using assms by (auto simp: Report_Settled_def count_row_def Let_def)

context secret_store
begin

lemma settle_rows_R:
  assumes "rw_inv u R" "uc_port u = P" "rewrap_setting u keys"
  shows "inv (rw_store w) \<Longrightarrow> (\<And>m. m \<in> set ms \<Longrightarrow> lm_UserID m \<noteq> []) \<Longrightarrow> settle_rows u ms rep w = (res, w')
    \<Longrightarrow> inv (rw_store w') \<and> R (rw_store w) (rw_store w')"
proof (induction ms arbitrary: rep w)
  case Nil
  then show ?case using rw_invD(1) [OF assms(1)] by simp
next
  case (Cons m ms)
  obtain out w1 where s: "settle_row u SwapAttempts m w = (out, w1)" by (cases "settle_row u SwapAttempts m w")
  have 1: "inv (rw_store w1)" "R (rw_store w) (rw_store w1)" using settle_row_R [OF assms Cons.prems(1) _ s] Cons.prems(2) by auto
  show ?case
  proof (cases out)
    case (Inl e)
    then show ?thesis using 1 Cons.prems(3) s by simp
  next
    case (Inr o1)
    have "settle_rows u ms (count_row o1 rep) w1 = (res, w')" using Inr Cons.prems(3) s by simp
    then have "inv (rw_store w') \<and> R (rw_store w1) (rw_store w')" using Cons.IH [OF 1(1)] Cons.prems(2) by simp
    then show ?thesis using rw_invD(2) [OF assms(1) 1(2)] by blast
  qed
qed

lemma settle_rows_first:
  assumes "rw_inv u (only_first (uc_aead u) keys secrets)" "uc_port u = P" "rewrap_setting u keys"
  shows "inv (rw_store w) \<Longrightarrow> (\<And>m. m \<in> set ms \<Longrightarrow> lm_UserID m \<noteq> [])
    \<Longrightarrow> (\<And>m v. m \<in> set ms \<Longrightarrow> secrets (rw_store w) (lm_UserID m) = Some v \<Longrightarrow> v = lm_Verifier m \<or> under_first (uc_aead u) keys v)
    \<Longrightarrow> settle_rows u ms rep w = ((rep', None), w') \<Longrightarrow> Report_Settled rep'
    \<Longrightarrow> m \<in> set ms \<Longrightarrow> secrets (rw_store w') (lm_UserID m) = Some v \<Longrightarrow> under_first (uc_aead u) keys v"
proof (induction ms arbitrary: rep w m v)
  case (Cons k ms)
  obtain out w1 where s: "settle_row u SwapAttempts k w = (out, w1)" by (cases "settle_row u SwapAttempts k w")
  then obtain o1 where o1: "out = Inr o1" "settle_rows u ms (count_row o1 rep) w1 = ((rep', None), w')"
    using Cons.prems(4) by (cases out) auto
  have k: "lm_UserID k \<noteq> []" using Cons.prems(2) by simp
  have 1: "inv (rw_store w1)" "only_first (uc_aead u) keys secrets (rw_store w) (rw_store w1)"
    using settle_row_R [OF assms Cons.prems(1) k s] by auto
  have ids: "x \<in> set ms \<Longrightarrow> lm_UserID x \<noteq> []" for x using Cons.prems(2) by simp
  have 2: "only_first (uc_aead u) keys secrets (rw_store w1) (rw_store w')"
    using settle_rows_R [OF assms 1(1) ids o1(2)] by blast
  have ok: "o1 \<noteq> SettledUnreadable" "o1 \<noteq> SettledUnsettled"
    using settled_row [OF Cons.prems(5)] settle_rows_counts [OF o1(2)] by blast+
  have kv: "under_first (uc_aead u) keys x" if "secrets (rw_store w1) (lm_UserID k) = Some x" for x
    by (rule settle_row_first [OF assms Cons.prems(1) k _ s [unfolded o1(1)] ok that]) (use Cons.prems(3) [of k] in simp)
  show ?case
  proof (cases "m = k")
    case True
    then show ?thesis using kv 2 Cons.prems(7) unfolding only_first_def by blast
  next
    case False
    have "x = lm_Verifier y \<or> under_first (uc_aead u) keys x" if "y \<in> set ms" "secrets (rw_store w1) (lm_UserID y) = Some x" for x y
      using Cons.prems(3) [of y x] 1(2) that unfolding only_first_def by (meson list.set_intros(2))
    then show ?thesis using Cons.IH [OF 1(1) ids _ o1(2) Cons.prems(5)] False Cons.prems(6,7) by auto
  qed
qed simp

lemma page_read:
  assumes "rw_inv u R" "uc_port u = P" "rewrap_setting u keys" "inv (rw_store w)"
    and "rw_read u (sp_page (uc_port u) cursor (uc_page u)) w = (Inr ms, w1)"
  shows "inv (rw_store w1)" "R (rw_store w) (rw_store w1)" "page_of cursor (uc_page u) (secrets (rw_store w1)) ms"
    "m \<in> set ms \<Longrightarrow> lm_UserID m \<noteq> []"
proof -
  show i: "inv (rw_store w1)" and "R (rw_store w) (rw_store w1)" using read_R(1,2) [OF assms(1,4,5)] by auto
  have "sp_page P cursor (uc_page u) (rw_store w1) = Inr ms" using read_R(3) [OF assms(1,4,5)] assms(2) by simp
  then show p: "page_of cursor (uc_page u) (secrets (rw_store w1)) ms"
    using pages [OF i, of "uc_page u" cursor] assms(3) by (auto simp: rewrap_setting_def)
  show "m \<in> set ms \<Longrightarrow> lm_UserID m \<noteq> []" using p secret [OF i, of "lm_UserID m"] unfolding page_of_def by blast
qed

lemma rewrap_pages_R:
  assumes "rw_inv u R" "uc_port u = P" "rewrap_setting u keys"
  shows "inv (rw_store w) \<Longrightarrow> rewrap_pages fuel u cursor rep w = Some (res, w') \<Longrightarrow> inv (rw_store w') \<and> R (rw_store w) (rw_store w')"
proof (induction fuel arbitrary: cursor rep w)
  case (Suc fuel)
  obtain pg w1 where r: "rw_read u (sp_page (uc_port u) cursor (uc_page u)) w = (pg, w1)"
    by (cases "rw_read u (sp_page (uc_port u) cursor (uc_page u)) w")
  show ?case
  proof (cases pg)
    case (Inl e)
    then show ?thesis using Suc.prems(2) r read_R(1,2) [OF assms(1) Suc.prems(1) r] by simp
  next
    case (Inr ms)
    note pr = page_read [OF assms Suc.prems(1) r [unfolded Inr]]
    obtain rep1 err1 w2 where s: "settle_rows u ms rep w1 = ((rep1, err1), w2)" by (cases "settle_rows u ms rep w1") auto
    have 2: "inv (rw_store w2)" "R (rw_store w1) (rw_store w2)" using settle_rows_R [OF assms pr(1) pr(4) s] by auto
    have R2: "R (rw_store w) (rw_store w2)" using rw_invD(2) [OF assms(1) pr(2) 2(2)] .
    show ?thesis
    proof (cases "err1 = None \<and> \<not> int (length ms) < uc_page u")
      case True
      then have "rewrap_pages fuel u (lm_UserID (last ms)) rep1 w2 = Some (res, w')" using Suc.prems(2) r Inr s by simp
      then show ?thesis using Suc.IH [OF 2(1)] rw_invD(2) [OF assms(1) R2] by blast
    next
      case False
      then have "w' = w2" using Suc.prems(2) r Inr s by (cases err1) auto
      then show ?thesis using 2(1) R2 by simp
    qed
  qed
qed simp

lemma rewrap_pages_first:
  assumes "rw_inv u (only_first (uc_aead u) keys secrets)" "uc_port u = P" "rewrap_setting u keys"
  shows "inv (rw_store w) \<Longrightarrow> (\<And>x v. x \<le> cursor \<Longrightarrow> secrets (rw_store w) x = Some v \<Longrightarrow> under_first (uc_aead u) keys v)
    \<Longrightarrow> rewrap_pages fuel u cursor rep w = Some ((rep', None), w') \<Longrightarrow> Report_Settled rep'
    \<Longrightarrow> secrets (rw_store w') x = Some v \<Longrightarrow> under_first (uc_aead u) keys v"
proof (induction fuel arbitrary: cursor rep w x v)
  case (Suc fuel)
  let ?F = "under_first (uc_aead u) keys"
  obtain ms w1 where r: "rw_read u (sp_page (uc_port u) cursor (uc_page u)) w = (Inr ms, w1)"
    using Suc.prems(3) by (auto split: prod.splits sum.splits)
  note pr = page_read [OF assms Suc.prems(1) r]
  obtain rep1 w2 where s: "settle_rows u ms rep w1 = ((rep1, None), w2)"
    using Suc.prems(3) r by (auto split: prod.splits option.splits)
  have 2: "inv (rw_store w2)" "only_first (uc_aead u) keys secrets (rw_store w1) (rw_store w2)" using settle_rows_R [OF assms pr(1) pr(4) s] by auto
  have fin: "Report_Settled rep1"
    using Suc.prems(3,4) r s rewrap_pages_counts [of fuel u "lm_UserID (last ms)" rep1 w2 rep' None w']
    by (auto simp: Report_Settled_def split: if_splits)
  have reach: "?F y" if "z \<le> cursor \<or> int (length ms) < uc_page u \<or> z \<le> lm_UserID (last ms)" "secrets (rw_store w2) z = Some y" for z y
  proof (cases "secrets (rw_store w1) z")
    case None
    then show ?thesis using that(2) 2(2) unfolding only_first_def by (metis option.distinct(1))
  next
    case (Some v1)
    show ?thesis
    proof (cases "z \<le> cursor")
      case True
      then have "?F v1" using Suc.prems(2) [OF True] pr(2) Some unfolding only_first_def by blast
      then show ?thesis using Some that(2) 2(2) unfolding only_first_def by (metis option.inject)
    next
      case False
      then have "z \<in> lm_UserID ` set ms" using pr(3) Some that(1) unfolding page_of_def by (metis not_le option.distinct(1))
      then obtain m where m: "m \<in> set ms" "lm_UserID m = z" by blast
      have q: "b = lm_Verifier a \<or> ?F b" if "a \<in> set ms" "secrets (rw_store w1) (lm_UserID a) = Some b" for a b
        using pr(3) that unfolding page_of_def by auto
      show ?thesis
        by (rule settle_rows_first [OF assms pr(1) pr(4) q s fin m(1)]) (use that(2) m(2) in simp_all)
    qed
  qed
  show ?case
  proof (cases "int (length ms) < uc_page u")
    case True
    then have "w' = w2" using Suc.prems(3) r s by simp
    then show ?thesis using reach [of x v] True Suc.prems(5) by simp
  next
    case False
    then have "rewrap_pages fuel u (lm_UserID (last ms)) rep1 w2 = Some ((rep', None), w')" using Suc.prems(3) r s by simp
    then show ?thesis using Suc.IH [OF 2(1) _ _ Suc.prems(4,5)] reach by blast
  qed
qed simp

lemma rewrap_pages_return:
  assumes "rw_inv u (\<lambda>s s'. dom (secrets s) \<subseteq> U \<longrightarrow> dom (secrets s') \<subseteq> U)" "uc_port u = P" "rewrap_setting u keys" "finite U"
  shows "inv (rw_store w) \<Longrightarrow> dom (secrets (rw_store w)) \<subseteq> U \<Longrightarrow> card {x \<in> U. cursor < x} < fuel \<Longrightarrow> rewrap_pages fuel u cursor rep w \<noteq> None"
proof (induction fuel arbitrary: cursor rep w)
  case (Suc fuel)
  obtain pg w1 where r: "rw_read u (sp_page (uc_port u) cursor (uc_page u)) w = (pg, w1)"
    by (cases "rw_read u (sp_page (uc_port u) cursor (uc_page u)) w")
  show ?case
  proof (cases pg)
    case (Inl e)
    then show ?thesis using r by simp
  next
    case (Inr ms)
    note pr = page_read [OF assms(1-3) Suc.prems(1) r [unfolded Inr]]
    obtain rep1 err1 w2 where s: "settle_rows u ms rep w1 = ((rep1, err1), w2)" by (cases "settle_rows u ms rep w1") auto
    have 2: "inv (rw_store w2)" "dom (secrets (rw_store w1)) \<subseteq> U" "dom (secrets (rw_store w2)) \<subseteq> U"
      using settle_rows_R [OF assms(1-3) pr(1) pr(4) s] pr(2) Suc.prems(2) by auto
    show ?thesis
    proof (cases "err1 = None \<and> \<not> int (length ms) < uc_page u")
      case True
      then have "ms \<noteq> []" using assms(3) by (auto simp: rewrap_setting_def)
      then have "last ms \<in> set ms" by simp
      then have l: "cursor < lm_UserID (last ms)" "lm_UserID (last ms) \<in> U"
        using pr(3) 2(2) unfolding page_of_def by blast+
      then have "{x \<in> U. lm_UserID (last ms) < x} \<subset> {x \<in> U. cursor < x}" by (auto dest: less_trans)
      then have "card {x \<in> U. lm_UserID (last ms) < x} < card {x \<in> U. cursor < x}" using assms(4) by (intro psubset_card_mono) auto
      then show ?thesis using Suc.IH [OF 2(1,3)] Suc.prems(3) True r Inr s by simp
    next
      case False
      then show ?thesis using r Inr s by (cases err1) auto
    qed
  qed
qed simp

end

subsection \<open>The table of login methods is such a store\<close>

definition totp_secrets :: "LoginTables \<Rightarrow> string \<rightharpoonup> LoginVerifier" where
  "totp_secrets t x = map_option ro_verifier (row_at x LoginMethodTOTP t)"

definition login_port :: "LoginTables SecretPort" where
  "login_port = \<lparr>sp_page = TOTPSecretsAfter, sp_swap = SwapTOTPSecret, sp_get = getLoginMethod\<rparr>"

lemma find_map: "List.find p (map g xs) = map_option g (List.find (\<lambda>x. p (g x)) xs)"
  by (induction xs) auto

lemma row_at_update:
  assumes "\<And>r. ro_user (f r) = ro_user r \<and> ro_kind (f r) = ro_kind r"
  shows "row_at u k (update_rows c f t) = map_option (\<lambda>r. if c r then f r else r) (row_at u k t)"
proof -
  have "at_key u k (if c r then f r else r) = at_key u k r" for r using assms by (simp add: at_key_def)
  then show ?thesis by (simp add: row_at_def find_map)
qed

lemma build_readable: "readable r \<Longrightarrow> \<exists>m. build r = Inr m \<and> lm_UserID m = ro_user r \<and> lm_Verifier m = ro_verifier r"
  by (auto simp: readable_def build_def Let_def split: if_splits)

lemma build_all_readable:
  "\<forall>r \<in> set rs. readable r \<Longrightarrow>
    \<exists>ms. build_all rs = Inr ms \<and> map (\<lambda>m. (lm_UserID m, lm_Verifier m)) ms = map (\<lambda>r. (ro_user r, ro_verifier r)) rs"
proof (induction rs)
  case (Cons r rs)
  then show ?case using build_readable [of r] by auto
qed simp

lemma beyond_take:
  assumes "sorted us" "distinct us" "x \<in> set us" "x \<notin> set (take n us)"
  shows "n < length us \<and> (0 < n \<longrightarrow> last (take n us) < x)"
proof -
  have "x \<in> set (drop n us)" using assms(3,4) by (metis UnE append_take_drop_id set_append)
  moreover from this have n: "n < length us" by (cases "n < length us") auto
  moreover have "last (take n us) \<in> set (take n us)" if "0 < n" using n that by (intro last_in_set) auto
  ultimately show ?thesis
    using assms(1,4) by (metis append_take_drop_id order.order_iff_strict sorted_append)
qed

lemma sort_key_users: "map ro_user (sort_key ro_user rs) = sort (map ro_user rs)"
  by (rule properties_for_sort [symmetric]) simp_all

lemma totp_secrets_Some:
  assumes "tables_ok t"
  shows "totp_secrets t x = Some v \<longleftrightarrow> (\<exists>r \<in> set (lt_rows t). at_key x LoginMethodTOTP r \<and> ro_verifier r = v)"
  using assms row_at_Some [of t x LoginMethodTOTP] by (auto simp: totp_secrets_def tables_ok_def)

lemma TOTPSecretsAfter_page:
  assumes "tables_ok t" "0 < limit"
  shows "\<exists>ms. TOTPSecretsAfter after limit t = Inr ms \<and> page_of after limit (totp_secrets t) ms"
proof -
  let ?rs = "filter (\<lambda>r. ro_kind r = LoginMethodTOTP \<and> after < ro_user r) (lt_rows t)"
  let ?S = "sort_key ro_user ?rs"
  let ?us = "map ro_user ?S"
  have "\<forall>r \<in> set (take (nat limit) ?S). readable r" using assms(1) by (auto simp: tables_ok_def dest!: in_set_takeD)
  then obtain ms where ms: "build_all (take (nat limit) ?S) = Inr ms"
      "map (\<lambda>m. (lm_UserID m, lm_Verifier m)) ms = map (\<lambda>r. (ro_user r, ro_verifier r)) (take (nat limit) ?S)"
    using build_all_readable by blast
  have ids: "map lm_UserID ms = take (nat limit) ?us"
    using arg_cong [OF ms(2), of "map fst"] by (simp add: comp_def take_map)
  have len: "length ms = length (take (nat limit) ?us)" using arg_cong [OF ids, of length] by simp
  have "sorted ?us" unfolding sort_key_users by simp
  have d: "distinct ?us" unfolding sort_key_users
    using assms(1) by (auto simp: tables_ok_def row_keys_def distinct_map inj_on_def)
  have "page_of after limit (totp_secrets t) ms" unfolding page_of_def
  proof (intro conjI ballI allI impI)
    show "int (length ms) \<le> limit" using len assms(2) by auto
    fix m assume m: "m \<in> set ms"
    then have "(lm_UserID m, lm_Verifier m) \<in> set (map (\<lambda>r. (ro_user r, ro_verifier r)) (take (nat limit) ?S))"
      unfolding ms(2) [symmetric] by force
    then obtain r where r: "r \<in> set (take (nat limit) ?S)" "ro_user r = lm_UserID m" "ro_verifier r = lm_Verifier m" by auto
    then have "r \<in> set ?rs" by (auto dest: in_set_takeD)
    then show "after < lm_UserID m" "totp_secrets t (lm_UserID m) = Some (lm_Verifier m)"
      using r totp_secrets_Some [OF assms(1)] by (auto simp: at_key_def)
  next
    fix x assume x: "after < x \<and> totp_secrets t x \<noteq> None \<and> (int (length ms) < limit \<or> x \<le> lm_UserID (last ms))"
    then obtain v where "totp_secrets t x = Some v" by blast
    then obtain r where "r \<in> set (lt_rows t)" "at_key x LoginMethodTOTP r" using totp_secrets_Some [OF assms(1)] by blast
    then have "x \<in> set ?us" using x by (auto simp: at_key_def)
    show "x \<in> lm_UserID ` set ms"
    proof (rule ccontr)
      assume "x \<notin> lm_UserID ` set ms"
      then have "x \<notin> set (take (nat limit) ?us)" using arg_cong [OF ids, of set] by simp
      from beyond_take [OF \<open>sorted ?us\<close> d \<open>x \<in> set ?us\<close> this]
      have b: "nat limit < length ?us" "last (take (nat limit) ?us) < x" using assms(2) by auto
      then have l: "int (length ms) = limit" using len assms(2) by simp
      then have "ms \<noteq> []" using assms(2) by auto
      then have "lm_UserID (last ms) = last (take (nat limit) ?us)" unfolding ids [symmetric] by (simp add: last_map)
      then show False using x l b(2) by auto
    qed
  qed
  then show ?thesis using ms(1) assms(2) by (simp add: TOTPSecretsAfter_def)
qed

lemma SwapTOTPSecret_swaps:
  assumes "tables_ok t" "x \<noteq> []" "prev \<noteq> []" "new \<noteq> []"
  shows "\<exists>t'. SwapTOTPSecret x prev new t = Inr (totp_secrets t x = Some prev, t') \<and> tables_ok t'
    \<and> totp_secrets t' = (if totp_secrets t x = Some prev then (totp_secrets t)(x \<mapsto> new) else totp_secrets t)"
proof -
  let ?c = "\<lambda>r. at_key x LoginMethodTOTP r \<and> ro_verifier r = prev"
  let ?t = "update_rows ?c (\<lambda>r. r\<lparr>ro_verifier := new\<rparr>) t"
  have d: "distinct (row_keys t)" using assms(1) by (simp add: tables_ok_def)
  have k: "row_at y LoginMethodTOTP t = Some r \<Longrightarrow> at_key y LoginMethodTOTP r" for y r using row_at_Some [OF d] by blast
  have "affected ?c t = (case row_at x LoginMethodTOTP t of Some r \<Rightarrow> if ?c r then 1 else 0 | None \<Rightarrow> 0)"
    by (rule affected_at_key [OF d]) blast
  then have "(affected ?c t = 1) = (totp_secrets t x = Some prev)"
    using k [of x] by (auto simp: totp_secrets_def split: option.splits)
  then have s: "SwapTOTPSecret x prev new t = Inr (totp_secrets t x = Some prev, ?t)"
    using assms(2-4) by (simp add: SwapTOTPSecret_def)
  have "row_at y LoginMethodTOTP ?t = map_option (\<lambda>r. if ?c r then r\<lparr>ro_verifier := new\<rparr> else r) (row_at y LoginMethodTOTP t)" for y
    by (rule row_at_update) simp
  then have "totp_secrets ?t y = (if totp_secrets t x = Some prev then (totp_secrets t)(x \<mapsto> new) else totp_secrets t) y" for y
    using k [of y] by (cases "row_at y LoginMethodTOTP t") (auto simp: totp_secrets_def at_key_def)
  then have "totp_secrets ?t = (if totp_secrets t x = Some prev then (totp_secrets t)(x \<mapsto> new) else totp_secrets t)" by (rule ext)
  then show ?thesis using s SwapTOTPSecret_ok [OF assms(1) s] by blast
qed

interpretation login_secrets: secret_store login_port tables_ok totp_secrets
proof
  fix t :: LoginTables and x prev new after v and limit :: int
  assume ok: "tables_ok t"
  show "totp_secrets t x = Some v \<Longrightarrow> x \<noteq> [] \<and> v \<noteq> []"
    using ok totp_secrets_Some [OF ok] by (auto simp: tables_ok_def readable_iff at_key_def)
  show "0 < limit \<Longrightarrow> \<exists>ms. sp_page login_port after limit t = Inr ms \<and> page_of after limit (totp_secrets t) ms"
    using TOTPSecretsAfter_page [OF ok] by (simp add: login_port_def)
  show "x \<noteq> [] \<Longrightarrow> prev \<noteq> [] \<Longrightarrow> new \<noteq> [] \<Longrightarrow> \<exists>s'. sp_swap login_port x prev new t = Inr (totp_secrets t x = Some prev, s') \<and> tables_ok s'
      \<and> totp_secrets s' = (if totp_secrets t x = Some prev then (totp_secrets t)(x \<mapsto> new) else totp_secrets t)"
    using SwapTOTPSecret_swaps [OF ok] by (simp add: login_port_def)
  show "x \<noteq> [] \<Longrightarrow> (case totp_secrets t x of None \<Rightarrow> sp_get login_port x LoginMethodTOTP t = Inl LmNotFound
      | Some v \<Rightarrow> \<exists>m. sp_get login_port x LoginMethodTOTP t = Inr m \<and> lm_UserID m = x \<and> lm_Verifier m = v)"
  proof (cases "row_at x LoginMethodTOTP t")
    case (Some r)
    then have r: "r \<in> set (lt_rows t)" "at_key x LoginMethodTOTP r" using ok row_at_Some by (auto simp: tables_ok_def)
    then have "readable r" using ok by (simp add: tables_ok_def)
    then show "x \<noteq> [] \<Longrightarrow> ?thesis" using Some r(2) build_readable [of r]
      by (auto simp: login_port_def getLoginMethod_def totp_secrets_def at_key_def)
  qed (simp add: login_port_def getLoginMethod_def totp_secrets_def)
qed

subsection \<open>Properties of the pass\<close>

lemma only_first_rw_inv:
  assumes "rewrap_setting u keys"
    and "\<And>n t. tables_ok t \<Longrightarrow> tables_ok (re_others (uc_env u) n t) \<and> only_first (uc_aead u) keys totp_secrets t (re_others (uc_env u) n t)"
  shows "login_secrets.rw_inv u (only_first (uc_aead u) keys totp_secrets)"
  unfolding login_secrets.rw_inv_def
proof (intro conjI allI impI)
  fix s s' assume "moves u totp_secrets s s'"
  then consider "totp_secrets s' = totp_secrets s"
    | x prev new n where "totp_Rewrap (uc_aead u) (uc_wrapper u) (re_nonce (uc_env u) n) prev = Moved new"
      "totp_secrets s' = (totp_secrets s)(x \<mapsto> new)"
    unfolding moves_def by blast
  then show "only_first (uc_aead u) keys totp_secrets s s'"
  proof cases
    case (2 x prev new n)
    have "under_first (uc_aead u) keys new"
      using totp_Rewrap_moved [OF _ _ 2(1), of keys] assms(1) by (auto simp: rewrap_setting_def)
    then show ?thesis using 2(2) by (simp add: only_first_def)
  qed (simp add: only_first_def)
qed (use assms(2) in \<open>auto simp: only_first_def\<close>)

text \<open>
  C14: A settled pass frees the old keys. Let others write while the pass runs, as long as what they
  write is wrapped under the first key: when the pass ends without an error and reports no
  unreadable and no unsettled row, every stored secret, whether of a confirmed factor or of an
  enrolment and whether it was there at the start or appeared behind the pass, is opened by the
  first key alone, so the other keys can be withdrawn from the list.
\<close>

theorem settled_rewrap_frees_old_keys:
  assumes "rewrap_setting u keys" and "uc_port u = login_port" and "tables_ok (rw_store w)"
    and "\<And>n t. tables_ok t \<Longrightarrow> tables_ok (re_others (uc_env u) n t) \<and> only_first (uc_aead u) keys totp_secrets t (re_others (uc_env u) n t)"
    and "rewrap_Run fuel u w = Some ((rep, None), w')" and "Report_Settled rep"
    and "totp_secrets (rw_store w') x = Some v"
  shows "\<exists>first. NewWrapper [hd keys] = Inr first \<and> opened_secret (uc_aead u) first v \<noteq> None"
proof -
  have i: "login_secrets.rw_inv u (only_first (uc_aead u) keys totp_secrets)" by (rule only_first_rw_inv [OF assms(1,4)])
  have none: "under_first (uc_aead u) keys z" if "y \<le> []" "totp_secrets (rw_store w) y = Some z" for y z
    using login_secrets.secret [OF assms(3) that(2)] that(1) by simp
  show ?thesis
    using login_secrets.rewrap_pages_first [OF i assms(2,1,3) none assms(5) [unfolded rewrap_Run_def] assms(6,7)]
    by (simp add: under_first_def)
qed

text \<open>
  C15: The pass loses no secret. However the calls fail, before or after their effect, and however
  often a row was changed between its reading and its swap, the pass leaves every secret opening to
  what it opened to, adds none and drops none, and keeps the rows well formed. What others write
  meanwhile is any change under which the secrets open to the same, such as another pass.
\<close>

theorem rewrap_keeps_secrets:
  assumes "rewrap_setting u keys" and "uc_port u = login_port" and "tables_ok (rw_store w)"
    and "\<And>n t. tables_ok t \<Longrightarrow> tables_ok (re_others (uc_env u) n t)
      \<and> opened_view (uc_aead u) (uc_wrapper u) (totp_secrets (re_others (uc_env u) n t)) = opened_view (uc_aead u) (uc_wrapper u) (totp_secrets t)"
    and "rewrap_Run fuel u w = Some (res, w')"
  shows "tables_ok (rw_store w')
    \<and> opened_view (uc_aead u) (uc_wrapper u) (totp_secrets (rw_store w')) = opened_view (uc_aead u) (uc_wrapper u) (totp_secrets (rw_store w))"
proof -
  let ?R = "\<lambda>s s'. opened_view (uc_aead u) (uc_wrapper u) (totp_secrets s') = opened_view (uc_aead u) (uc_wrapper u) (totp_secrets s)"
  have "login_secrets.rw_inv u ?R"
    unfolding login_secrets.rw_inv_def
  proof (intro conjI allI impI)
    fix s s' assume "moves u totp_secrets s s'"
    then consider "totp_secrets s' = totp_secrets s"
      | x prev new n where "totp_secrets s x = Some prev" "totp_Rewrap (uc_aead u) (uc_wrapper u) (re_nonce (uc_env u) n) prev = Moved new"
        "totp_secrets s' = (totp_secrets s)(x \<mapsto> new)"
      unfolding moves_def by blast
    then show "?R s s'"
    proof cases
      case (2 x prev new n)
      have "opened_secret (uc_aead u) (uc_wrapper u) new = opened_secret (uc_aead u) (uc_wrapper u) prev"
        using totp_Rewrap_moved [OF _ _ 2(2), of keys] assms(1) by (auto simp: rewrap_setting_def)
      then show ?thesis using 2(1,3) by (auto simp: opened_view_def)
    qed simp
  qed (use assms(4) in auto)
  then show ?thesis using login_secrets.rewrap_pages_R [OF _ assms(2,1,3) assms(5) [unfolded rewrap_Run_def]] by blast
qed

text \<open>
  C19: The pass comes to an end. If the people whose secrets are stored, including those that others
  add while it runs, come from a finite set, the pass returns after at most one page more than that
  set has members, whatever the others do and whichever calls fail, as long as the others leave
  readable rows.
\<close>

theorem rewrap_returns:
  assumes "rewrap_setting u keys" and "uc_port u = login_port" and "tables_ok (rw_store w)"
    and "finite U" and "dom (totp_secrets (rw_store w)) \<subseteq> U"
    and "\<And>n t. tables_ok t \<Longrightarrow> tables_ok (re_others (uc_env u) n t)
      \<and> (dom (totp_secrets t) \<subseteq> U \<longrightarrow> dom (totp_secrets (re_others (uc_env u) n t)) \<subseteq> U)"
  shows "\<exists>res. rewrap_Run (Suc (card U)) u w = Some res"
proof -
  have i: "login_secrets.rw_inv u (\<lambda>s s'. dom (totp_secrets s) \<subseteq> U \<longrightarrow> dom (totp_secrets s') \<subseteq> U)"
    unfolding login_secrets.rw_inv_def
  proof (intro conjI allI impI)
    fix s s' assume "moves u totp_secrets s s'" "dom (totp_secrets s) \<subseteq> U"
    then show "dom (totp_secrets s') \<subseteq> U" by (auto simp: moves_def dom_def split: if_splits)
  qed (use assms(6) in blast)+
  have "card {x \<in> U. [] < x} \<le> card U" by (rule card_mono [OF assms(4)]) blast
  then show ?thesis
    using login_secrets.rewrap_pages_return [OF i assms(2,1,4,3,5), of "[]" "Suc (card U)" no_report] by (auto simp: rewrap_Run_def)
qed

definition sample_keys :: "bytes list" where
  "sample_keys = [replicate 32 CHR ''b'', replicate 32 CHR ''a'']"

definition sample_wrapped :: LoginVerifier where
  \<comment> \<open>wrapped under the second key\<close>
  "sample_wrapped = b64_encode (replicate 12 CHR ''n'' @ replicate 32 CHR ''a'' @ replicate 12 CHR ''n'' @ ''secret'')"

definition sample_moved :: LoginVerifier where
  "sample_moved = b64_encode (replicate 12 CHR ''m'' @ replicate 32 CHR ''b'' @ replicate 12 CHR ''m'' @ ''secret'')"

definition sample_secrets :: LoginTables where
  "sample_secrets = \<lparr>lt_people = [sample_holder],
     lt_rows = [\<lparr>ro_user = ''usr'', ro_kind = LoginMethodTOTP, ro_verifier = sample_wrapped, ro_state = LoginMethodStateActive,
       ro_step = Some 7, ro_created = 7, ro_used = None\<rparr>], lt_key_owners = []\<rparr>"

definition sample_rewrap_pass :: "LoginTables RewrapUseCase" where
  "sample_rewrap_pass = \<lparr>uc_port = login_port, uc_aead = sample_cipher,
     uc_wrapper = \<lparr>wr_wrap = replicate 32 CHR ''b'', wr_open = [replicate 32 CHR ''b'', replicate 32 CHR ''a'']\<rparr>, uc_page = 5,
     uc_env = \<lparr>re_others = (\<lambda>n t. t), re_fault = (\<lambda>n. None), re_nonce = (\<lambda>n. Some (replicate 12 CHR ''m''))\<rparr>\<rparr>"

definition sample_moved_secrets :: LoginTables where
  "sample_moved_secrets = sample_secrets\<lparr>lt_rows := map (\<lambda>r. r\<lparr>ro_verifier := sample_moved\<rparr>) (lt_rows sample_secrets)\<rparr>"

lemma sample_pass_setting: "rewrap_setting sample_rewrap_pass sample_keys" "uc_port sample_rewrap_pass = login_port" "re_others (uc_env sample_rewrap_pass) n t = t"
  using sample_cipher_laws
  by (simp_all add: rewrap_setting_def sample_rewrap_pass_def sample_keys_def NewWrapper_def KeySize_def NonceSize_def)

lemma sample_secrets_ok: "tables_ok sample_secrets"
  by (simp add: tables_ok_def sample_secrets_def row_keys_def readable_iff person_def sample_holder_def sample_wrapped_def LoginMethodTOTP_def
      loginMethodKinds_def)

lemma sample_rewrapped: "totp_Rewrap sample_cipher (uc_wrapper sample_rewrap_pass) (Some (replicate 12 CHR ''m'')) sample_wrapped = Moved sample_moved"
  by (simp add: totp_Rewrap_def sample_wrapped_def sample_moved_def Rewrap_def Let_def sample_cipher_def sample_rewrap_pass_def NonceSize_def Wrap_def)

lemma sample_pass_run:
  "rewrap_Run 2 sample_rewrap_pass \<lparr>rw_store = sample_secrets, rw_tick = 0\<rparr>
    = Some ((no_report\<lparr>rp_Rows := 1, rp_Rewrapped := 1\<rparr>, None), \<lparr>rw_store = sample_moved_secrets, rw_tick = 2\<rparr>)"
proof -
  let ?m = "\<lparr>lm_UserID = ''usr'', lm_Kind = LoginMethodTOTP, lm_Verifier = sample_wrapped, lm_State = LoginMethodStateActive,
      lm_AcceptedStep = 7, lm_StepAccepted = True, lm_CreatedAt = 7, lm_LastUsedAt = zero_time, lm_LastUsed = False\<rparr>"
  have ne: "sample_wrapped \<noteq> []" "sample_moved \<noteq> []" by (simp_all add: sample_wrapped_def sample_moved_def)
  have page: "TOTPSecretsAfter [] 5 sample_secrets = Inr [?m]"
    by (simp add: TOTPSecretsAfter_def sample_secrets_def build_def Let_def LoginMethod_Validate_def ne)
  have swap: "SwapTOTPSecret ''usr'' sample_wrapped sample_moved sample_secrets = Inr (True, sample_moved_secrets)"
    by (simp add: SwapTOTPSecret_def Let_def affected_def update_rows_def sample_secrets_def sample_moved_secrets_def at_key_def ne)
  have row: "settle_row sample_rewrap_pass SwapAttempts ?m \<lparr>rw_store = sample_secrets, rw_tick = 1\<rparr>
      = (Inr SettledRewrapped, \<lparr>rw_store = sample_moved_secrets, rw_tick = 2\<rparr>)"
    using sample_rewrapped swap
    by (subst settle_row.simps) (simp add: SwapAttempts_def sample_rewrap_pass_def login_port_def rw_write_def Let_def)
  show ?thesis
    using page row
    by (simp add: rewrap_Run_def rw_read_def Let_def numeral_2_eq_2 count_row_def no_report_def)
      (simp add: sample_rewrap_pass_def login_port_def count_row_def)
qed

lemma settled_rewrap_frees_old_keys_witness:
  "\<exists>first. NewWrapper [replicate 32 CHR ''b''] = Inr first \<and> opened_secret sample_cipher first sample_moved \<noteq> None"
proof -
  have "totp_secrets sample_moved_secrets ''usr'' = Some sample_moved"
    by (simp add: totp_secrets_def sample_moved_secrets_def sample_secrets_def row_at_def at_key_def)
  then show ?thesis
    using settled_rewrap_frees_old_keys [OF sample_pass_setting(1,2) _ _ sample_pass_run, of "''usr''" sample_moved] sample_secrets_ok
    by (simp add: sample_pass_setting(3) only_first_def Report_Settled_def no_report_def sample_keys_def) (simp add: sample_rewrap_pass_def)
qed

lemma rewrap_keeps_secrets_witness:
  "opened_view sample_cipher (uc_wrapper sample_rewrap_pass) (totp_secrets sample_moved_secrets) = opened_view sample_cipher (uc_wrapper sample_rewrap_pass) (totp_secrets sample_secrets)"
  using rewrap_keeps_secrets [OF sample_pass_setting(1,2) _ _ sample_pass_run] sample_secrets_ok
  by (simp add: sample_pass_setting(3)) (simp add: sample_rewrap_pass_def)

lemma rewrap_returns_witness: "\<exists>res. rewrap_Run (Suc (card {''usr''})) sample_rewrap_pass \<lparr>rw_store = sample_secrets, rw_tick = 0\<rparr> = Some res"
proof -
  have "dom (totp_secrets sample_secrets) \<subseteq> {''usr''}"
    by (auto simp: totp_secrets_def sample_secrets_def row_at_def at_key_def split: if_splits)
  then show ?thesis
    using sample_secrets_ok by (intro rewrap_returns [OF sample_pass_setting(1,2)]) (simp_all add: sample_pass_setting(3))
qed

end
