(* ===== verification/Spec2Isabelle.thy ===== *)
theory Spec2Isabelle
  imports Binding_Model Reconcile_Object Authz_Plan Key_Store Failure_Window Token_Gate Login_Rewrap
begin

text \<open>
  Verification of the core of kaname, the identity and access service of the platform.

  \<^bold>\<open>The program.\<close> Kaname stores roles (lists of rules), access bindings (a role given to subjects
  at an anchor), accounts, projects, users and service accounts, mirrors the objects of the
  other services, and answers whether a subject may do something with an object. A role is
  authored and validated (\<open>internal/domain\<close>); a binding names a role, subjects, a scope and a
  target; the reconciler (\<open>internal/apps/kaname/api/access_binding/reconcile\<close>) materialises the
  binding into relation tuples on the objects that its rules reach; the verdict is read from the
  tuples along a plan compiled from the authorisation model (\<open>internal/authzplan\<close>). Beside the
  grants stand the sessions: signing keys and their life (\<open>internal/apps/kaname/api/signingkeys\<close>),
  issue and presentation of tokens (\<open>tokensigner\<close>, \<open>tokenrevocation\<close>, \<open>revocationpolicy\<close>,
  \<open>audiencepolicy\<close>, \<open>admission\<close>), levels of assurance (\<open>assurance\<close>) and the window of counted
  failures that locks a key out (\<open>failurewindow\<close>).

  \<^bold>\<open>The theories.\<close> All names are those of the source unless they clash with a name of the library;
  the loops of a function carry names of their own.

  \<^item> \<open>Kaname_Prelude\<close>: the parts of the Go library on strings and slices, the result type (\<open>Inl\<close> the
    error, \<open>Inr\<close> the value), instants in nanoseconds, and generic lemmas on lists.
  \<^item> \<open>Rule_Grammar\<close>: \<open>domain/rule.go\<close>, \<open>rule_policy.go\<close>, \<open>nested_rule.go\<close>, \<open>module_set.go\<close>: rules, the
    tiers of authors, and validation (\<open>Rule_Validate\<close>, \<open>Rules_Validate\<close>), which yields the list of
    errors. The lemmas say what acceptance guarantees.
  \<^item> \<open>Rule_Compile\<close>: compilation to permissions (\<open>CompileRules\<close>), verbs and tiers
    (\<open>ResolveVerbsAndTier\<close>), references to the catalogue, and the removal of a name from a role
    (\<open>WithoutResourceName\<close>).
  \<^item> \<open>Rule_Selectors\<close>: fingerprints of rules byte by byte (the digest is the parameter \<open>H\<close>), the
    selectors that a role materialises into, containment and labels of a mirrored object.
  \<^item> \<open>Role_Model\<close>: the role with its validation, tiers, assignment, displayed verbs, rule states,
    health, public reading and system classes.
  \<^item> \<open>Binding_Model\<close>: subjects and their words, scope anchors, targets, the binding, parents that a
    resource claims (\<open>Admits\<close>).
  \<^item> \<open>Catalog_Facts\<close>: the snapshot of the catalogue of types and verbs (\<open>NewFacts\<close>) and what a rule
    grants on a type (\<open>GrantedVerbs\<close>).
  \<^item> \<open>Object_Tables\<close>: the tables that the reconciler reads and its queries. The locale
    \<open>object_source\<close> is what the reconciler relies on; its interpretation \<open>pg_objects\<close> proves the
    laws for the queries.
  \<^item> \<open>Reconcile_Desired\<close>: the members that a binding wants, for all its objects (\<open>desiredMembers\<close>) and
    for one (\<open>desiredMembersForObject\<close>), and that both agree.
  \<^item> \<open>Reconcile_Store\<close>: the tables that the reconciler writes (members, ledger of emitted tuples,
    journal, facts, selectors of roles) with the calls of its port, and the fold of a row of the
    journal into facts (\<open>relation_fact_fold_row\<close>, a trigger of the database).
  \<^item> \<open>Reconcile_Pass\<close>: the full passes over a binding (\<open>ReconcileBinding\<close>, \<open>ConvergeBinding\<close>): a
    committed converging pass makes the ledger at the coordinates of members what the binding
    wants, leaves the rows of the binding itself, and keeps the facts in step tuple by tuple; facts
    that nothing in the ledger holds (the structure of the tenants, group membership) stay.
  \<^item> \<open>Reconcile_Object\<close>: the pass over an object, the expiry of a binding and the additive forward
    passes. The step relation \<open>reconciles\<close> has every entry point of the reconciler as a rule; the
    invariant of held facts is proved by rule induction over its reflexive transitive closure.
  \<^item> \<open>Authz_Model\<close>, \<open>Authz_Plan\<close>: \<open>authzplan/compile.go\<close>: the parser of the authorisation model, its
    check of itself, and the compilation of a relation to a plan (\<open>Compile\<close>, \<open>walk\<close>).
  \<^item> \<open>Signing_Keys\<close>, \<open>Key_Store\<close>: the table of signing keys and the operations of the keystore. The
    locales \<open>conditional_transition\<close> and those of the key port state what an operation may rely on;
    the table interprets them.
  \<^item> \<open>Token_Gate\<close>: issue of a token and its presentation against the same stores, and the choice of
    audiences.
  \<^item> \<open>Assurance_Levels\<close>, \<open>Failure_Window\<close>: the ladder of levels; the window of counted failures.
  \<^item> \<open>Login_Verifiers\<close>: the material of login methods (\<open>keywrap\<close>, \<open>totpverify\<close>, \<open>passwordverify\<close>): wrapped
    secrets, one-time codes, hashed passwords, sets of backup codes.
  \<^item> \<open>Login_Methods\<close>: the rows of login methods and their statements (\<open>login_method_repo.go\<close>).
  \<^item> \<open>Login_Rewrap\<close>: the pass that moves the secrets under the first key (\<open>secondfactorwrap\<close>). The
    locale \<open>secret_store\<close> is what it relies on; the table of login methods interprets it.

  \<^bold>\<open>What the lemmas show.\<close> Validation: what every accepted role, rule and binding guarantees
  (confinement of wildcards, one arm per rule, tiers, well-formed permissions). Functional
  correctness on every branch for the operations of the domain, with equality to a reference
  definition where the code is optimised (ordered sets of permissions, greedy search, insertion
  sort, the plan as the set of reachable positions). Refinement: the pass over one object against
  the pass over the binding, the failure window against a log that never forgets. Invariants:
  the life of signing keys under any interleaving of operations, other replicas and failing
  calls; the memory of the failure window. Error behaviour: the findings of a plan, the answers
  to a leaked key when calls fail, and the two cases in which the code does not do what its
  comments promise.

  \<^bold>\<open>Effects.\<close> The keystore threads a world with the table, a counter of calls and counters; what
  the operation cannot decide (clock, other replicas, failures, entropy) is the record \<open>env\<close>,
  indexed by the counter, so a theorem that quantifies over \<open>env\<close> covers every interleaving at
  the grain of calls. The failure window takes the order in which the runtime walks a map as an
  argument. A query of the reconciler may fail, and a row that another transaction is deleting
  is skipped by the queries that lock rows.

  \<^bold>\<open>Bounds and fuel.\<close> \<open>walk\<close> carries fuel; \<open>walk_fuel\<close> counts the keys of positions that a model
  can have, and \<open>walk_enough_fuel\<close> shows that it always suffices, so \<open>Compile\<close> is total. Every
  other loop is structural or has a measure. The caps of the code (rules, permissions, names,
  labels) are definitions. A rewrapping pass over a finite set \<open>U\<close> of people gets \<open>Suc (card U)\<close>
  pages, and \<open>rewrap_returns\<close> shows that they suffice. Go integers that count elements are natural or integer numbers: the
  counts are bounded by the lengths of slices in memory.

  \<^bold>\<open>Not modelled.\<close> Transport (\<open>internal/handler\<close>), wiring (\<open>cmd/kaname\<close>), the self-checks of the
  repository (\<open>internal/check\<close>, over \<open>go/ast\<close>), the loading of manifests from YAML, the SQL of the
  verdict (\<open>relverdict\<close>) and of the repositories beyond the tables above: they call parsers,
  drivers and generated code that are not part of the source tree. The digest, the key pairs,
  the JWT library (signing, reading back, the instant of issue) and wrapping of keys are parameters. Texts of errors are constructors. The
  locks of the database order transactions and are calls without effect.
\<close>

end
